(* ===== verification/Prelude.thy ===== *)
theory Prelude
  imports Main "HOL-Library.Word" "HOL-Library.List_Lexorder" "HOL-Library.Char_ord"
    "HOL-Library.AList"
begin

text \<open>
  Shared vocabulary of the development: bytes and content addresses, the errors of the Go
  packages as one sum, the cryptographic primitives as one record of parameters, big-endian
  integers, and the generic lemmas on lists, association lists and results that every
  component uses.

  The collection \<open>revika_defs\<close> holds the non-recursive definitions the proofs usually unfold;
  \<open>res_split\<close> holds the case splits on results.
\<close>

named_theorems revika_defs \<open>definitions of operations, for unfolding\<close>
named_theorems res_split \<open>case splits on results\<close>

section \<open>Bytes, addresses, errors\<close>

type_synonym byte = "8 word"
type_synonym bytes = "8 word list"
type_synonym shard_id = "8 word list"

text \<open>
  The error values of the source. The sentinel errors keep their names; an error that the
  source builds on the spot with \<^verbatim>\<open>fmt.Errorf\<close> is one constructor per kind of failure.
\<close>

datatype error =
    ErrNotFound            \<comment> \<open>store: shard not found\<close>
  | ErrCorrupt             \<comment> \<open>store: shard failed integrity check\<close>
  | ErrIO                  \<comment> \<open>a failed system call\<close>
  | ErrDecrypt             \<comment> \<open>crypto: decryption failed\<close>
  | ErrRandom              \<comment> \<open>the entropy source ran dry\<close>
  | ErrUnwrap              \<comment> \<open>cap: unwrap failed\<close>
  | ErrQuotaExceeded       \<comment> \<open>ledger: owner quota exceeded\<close>
  | ErrUnauthorized        \<comment> \<open>ledger/net: unauthorized\<close>
  | ErrRateLimited         \<comment> \<open>net: rate limited\<close>
  | ErrNoCandidates        \<comment> \<open>placement: no candidate nodes available\<close>
  | ErrParams              \<comment> \<open>invalid erasure parameters\<close>
  | ErrTooFewShards        \<comment> \<open>fewer than K shards\<close>
  | ErrCodec               \<comment> \<open>a malformed or truncated encoding\<close>
  | ErrChunkSize           \<comment> \<open>chunk: a size is not usable\<close>
  | ErrMismatch            \<comment> \<open>a stored or regenerated address differs from the expected one\<close>
  | ErrExpired             \<comment> \<open>stripe: grant expired\<close>
  | ErrSignature           \<comment> \<open>a signature does not verify\<close>
  | ErrKind                \<comment> \<open>manifest: a cap of the wrong kind\<close>
  | ErrPath                \<comment> \<open>manifest: a path that does not resolve\<close>
  | ErrVersion             \<comment> \<open>an unsupported format version\<close>
  | ErrRead                \<comment> \<open>a reader failed\<close>
  | ErrPanic               \<comment> \<open>an index out of range\<close>
  | ErrStale               \<comment> \<open>an older version than the one known\<close>
  | ErrInvalid             \<comment> \<open>an argument the operation rejects\<close>
  | ErrConflict            \<comment> \<open>a concurrent change\<close>
  | ErrTooLarge            \<comment> \<open>a frame over its limit\<close>
  | ErrRemote              \<comment> \<open>an error status of the peer\<close>
  | ErrNoItem              \<comment> \<open>provider: item not found\<close>
  | ErrCancelled           \<comment> \<open>a cancelled context\<close>

type_synonym 'a res = "error + 'a"

lemmas [res_split] = sum.splits option.splits if_splits prod.splits

fun bindR :: "'a res \<Rightarrow> ('a \<Rightarrow> 'b res) \<Rightarrow> 'b res" where
  "bindR (Inl e) f = Inl e"
| "bindR (Inr x) f = f x"

lemma bindR_eq_Inr [simp]: "bindR r f = Inr y \<longleftrightarrow> (\<exists>x. r = Inr x \<and> f x = Inr y)"
  by (cases r) auto

lemma bindR_eq_Inl: "bindR r f = Inl e \<longleftrightarrow> r = Inl e \<or> (\<exists>x. r = Inr x \<and> f x = Inl e)"
  by (cases r) auto

section \<open>Cryptographic primitives\<close>

text \<open>
  SHA-256, AES-256-GCM, DEFLATE, Ed25519, ML-KEM-768 and Argon2id are called, never
  implemented, by the repository. They are the fields of this record, an argument of every
  definition that uses one of them. What a theorem needs of a primitive is one of the laws
  below, each of which states documented behaviour.
\<close>

record prims =
  sha256 :: "bytes \<Rightarrow> bytes"                              \<comment> \<open>crypto/sha256.Sum256\<close>
  gcm_seal :: "bytes \<Rightarrow> bytes \<Rightarrow> bytes \<Rightarrow> bytes"            \<comment> \<open>key, nonce, plaintext\<close>
  gcm_open :: "bytes \<Rightarrow> bytes \<Rightarrow> bytes \<Rightarrow> bytes option"     \<comment> \<open>key, nonce, ciphertext\<close>
  deflate :: "bytes \<Rightarrow> bytes res"                         \<comment> \<open>compress/flate writer\<close>
  inflate :: "bytes \<Rightarrow> bytes res"                         \<comment> \<open>compress/flate reader\<close>
  ed_public :: "bytes \<Rightarrow> bytes"                           \<comment> \<open>public half of a signing key\<close>
  ed_sign :: "bytes \<Rightarrow> bytes \<Rightarrow> bytes"                    \<comment> \<open>signing key, message\<close>
  ed_verify :: "bytes \<Rightarrow> bytes \<Rightarrow> bytes \<Rightarrow> bool"           \<comment> \<open>public key, message, signature\<close>
  kem_encap :: "bytes \<Rightarrow> bytes \<Rightarrow> (bytes \<times> bytes) option" \<comment> \<open>public key, coins: shared key, ciphertext\<close>
  kem_decap :: "bytes \<Rightarrow> bytes \<Rightarrow> bytes option"           \<comment> \<open>seed, ciphertext\<close>
  kem_public :: "bytes \<Rightarrow> bytes"                          \<comment> \<open>encapsulation key of a seed\<close>
  argon_sum :: "bytes \<Rightarrow> bytes"                           \<comment> \<open>Argon2id digest of a public key\<close>

definition gcm_law :: "prims \<Rightarrow> bool" where
  "gcm_law P \<longleftrightarrow> (\<forall>k n pt. gcm_open P k n (gcm_seal P k n pt) = Some pt
      \<and> length (gcm_seal P k n pt) = length pt + 16)"

definition flate_law :: "prims \<Rightarrow> bool" where
  "flate_law P \<longleftrightarrow> (\<forall>d. \<exists>z. deflate P d = Inr z \<and> inflate P z = Inr d)"

definition sign_law :: "prims \<Rightarrow> bool" where
  "sign_law P \<longleftrightarrow> (\<forall>k msg. length (ed_public P k) = 32 \<and> length (ed_sign P k msg) = 64
      \<and> ed_verify P (ed_public P k) msg (ed_sign P k msg))"

definition kem_law :: "prims \<Rightarrow> bool" where
  "kem_law P \<longleftrightarrow> (\<forall>seed coins. \<exists>k c. kem_encap P (kem_public P seed) coins = Some (k, c)
      \<and> length c = 1088 \<and> length k = 32 \<and> kem_decap P seed c = Some k)"

section \<open>Entropy\<close>

text \<open>
  \<^verbatim>\<open>crypto/rand.Reader\<close> is an explicit supply of bytes. \<open>read_full n\<close> is
  \<^verbatim>\<open>io.ReadFull\<close> on it: exactly \<open>n\<close> bytes, or an error when the supply is short.
\<close>

definition read_full :: "nat \<Rightarrow> bytes \<Rightarrow> (bytes \<times> bytes) res" where
  "read_full n rnd = (if length rnd < n then Inl ErrRandom else Inr (take n rnd, drop n rnd))"

lemma read_full_ok: "n \<le> length rnd \<Longrightarrow> read_full n rnd = Inr (take n rnd, drop n rnd)"
  by (simp add: read_full_def)

section \<open>Big-endian integers\<close>

fun be_put :: "nat \<Rightarrow> nat \<Rightarrow> bytes" where
  "be_put 0 x = []"
| "be_put (Suc n) x = be_put n (x div 256) @ [word_of_nat x]"

fun be_get_acc :: "nat \<Rightarrow> bytes \<Rightarrow> nat" where
  "be_get_acc a [] = a"
| "be_get_acc a (b # bs) = be_get_acc (a * 256 + unat b) bs"

definition be_get :: "bytes \<Rightarrow> nat" where
  "be_get bs = be_get_acc 0 bs"

lemma length_be_put [simp]: "length (be_put n x) = n"
  by (induction n arbitrary: x) auto

lemma be_get_acc_append: "be_get_acc a (xs @ ys) = be_get_acc (be_get_acc a xs) ys"
  by (induction xs arbitrary: a) auto

lemma unat_word_of_nat_byte: "unat (word_of_nat x :: 8 word) = x mod 256"
  by (simp add: unat_of_nat)

lemma be_get_be_put: "be_get (be_put n x) = x mod 256 ^ n"
proof (induction n arbitrary: x)
  case 0
  then show ?case by (simp add: be_get_def)
next
  case (Suc n)
  have "be_get (be_put (Suc n) x) = be_get (be_put n (x div 256)) * 256 + x mod 256"
    by (simp add: be_get_def be_get_acc_append unat_word_of_nat_byte)
  also have "\<dots> = (x div 256 mod 256 ^ n) * 256 + x mod 256"
    by (simp add: Suc)
  also have "\<dots> = x mod (256 * 256 ^ n)"
    by (simp add: mod_mult2_eq)
  finally show ?case by simp
qed

lemma be_get_be_put_small: "x < 256 ^ n \<Longrightarrow> be_get (be_put n x) = x"
  by (simp add: be_get_be_put)

lemma be_put_inj: "be_put n x = be_put n y \<Longrightarrow> x < 256 ^ n \<Longrightarrow> y < 256 ^ n \<Longrightarrow> x = y"
  by (metis be_get_be_put_small)

lemma be_get_snoc: "be_get (bs @ [b]) = be_get bs * 256 + unat b"
  by (simp add: be_get_def be_get_acc_append)

lemma be_put_be_get: "length bs = n \<Longrightarrow> be_put n (be_get bs) = bs"
proof (induction bs arbitrary: n rule: rev_induct)
  case Nil
  then show ?case by simp
next
  case (snoc b bs)
  then obtain k where n: "n = Suc k" and k: "length bs = k" by auto
  have "unat b < 256" using unsigned_less [of b, where 'a = nat] by simp
  then have "(be_get bs * 256 + unat b) div 256 = be_get bs" by simp
  moreover have "unat (word_of_nat (be_get bs * 256 + unat b) :: 8 word) = unat b"
    unfolding unat_word_of_nat_byte using \<open>unat b < 256\<close> by simp
  then have "(word_of_nat (be_get bs * 256 + unat b) :: 8 word) = b"
    by (simp only: word_unat_eq_iff)
  ultimately have "be_put (Suc k) (be_get bs * 256 + unat b) = be_put k (be_get bs) @ [b]"
    by (simp only: be_put.simps)
  with snoc.IH [OF k] show ?case by (simp only: n be_get_snoc)
qed

lemma be_get_acc_bound: "be_get_acc a bs < (a + 1) * 256 ^ length bs"
proof (induction bs arbitrary: a)
  case Nil
  then show ?case by simp
next
  case (Cons b bs)
  have "unat b < 256"
    using unsigned_less [of b, where 'a = nat] by simp
  then have "(a * 256 + unat b + 1) * 256 ^ length bs \<le> (a + 1) * 256 * 256 ^ length bs"
    by (intro mult_right_mono) auto
  with Cons [of "a * 256 + unat b"] have "be_get_acc (a * 256 + unat b) bs < (a + 1) * 256 * 256 ^ length bs"
    by (rule less_le_trans)
  then show ?case by (simp add: algebra_simps)
qed

lemma be_get_bound: "be_get bs < 256 ^ length bs"
  using be_get_acc_bound [of 0 bs] by (simp add: be_get_def)

section \<open>Hexadecimal\<close>

text \<open>
  \<^verbatim>\<open>encoding/hex\<close>: encoding writes lower-case digits, decoding accepts both cases and
  rejects an odd length or a character that is no digit.
\<close>

definition hex_digit :: "nat \<Rightarrow> char" where
  "hex_digit n = char_of (if n < 10 then 48 + n else 87 + n)"

definition hex_val :: "char \<Rightarrow> nat option" where
  "hex_val c = (let n = of_char c :: nat in
     if 48 \<le> n \<and> n \<le> 57 then Some (n - 48)
     else if 97 \<le> n \<and> n \<le> 102 then Some (n - 87)
     else if 65 \<le> n \<and> n \<le> 70 then Some (n - 55) else None)"

fun hex_encode :: "bytes \<Rightarrow> string" where
  "hex_encode [] = []"
| "hex_encode (b # bs) = hex_digit (unat b div 16) # hex_digit (unat b mod 16) # hex_encode bs"

fun hex_decode :: "string \<Rightarrow> bytes option" where
  "hex_decode [] = Some []"
| "hex_decode [c] = None"
| "hex_decode (c # d # cs) =
     (case (hex_val c, hex_val d, hex_decode cs) of
        (Some h, Some l, Some bs) \<Rightarrow> Some (word_of_nat (16 * h + l) # bs)
      | _ \<Rightarrow> None)"

lemma hex_val_digit [simp]: "n < 16 \<Longrightarrow> hex_val (hex_digit n) = Some n"
  by (auto simp: hex_val_def hex_digit_def Let_def)

lemma byte_less_256: "unat (b :: byte) < 256"
  using unsigned_less [of b, where 'a = nat] by simp

lemma hex_decode_encode [simp]: "hex_decode (hex_encode bs) = Some bs"
proof (induction bs)
  case Nil
  then show ?case by simp
next
  case (Cons b bs)
  have "unat b div 16 < 16" "unat b mod 16 < 16"
    using byte_less_256 [of b] by auto
  moreover have "16 * (unat b div 16) + unat b mod 16 = unat b"
    by simp
  ultimately show ?case using Cons by simp
qed

lemma hex_encode_inj: "hex_encode xs = hex_encode ys \<longleftrightarrow> xs = ys"
  by (metis hex_decode_encode option.inject)

lemma length_hex_encode [simp]: "length (hex_encode bs) = 2 * length bs"
  by (induction bs) auto

lemma hex_val_dot [simp]: "hex_val (CHR ''.'') = None"
  by (simp add: hex_val_def Let_def)

lemma hex_digit_not_dot: "n < 16 \<Longrightarrow> hex_digit n \<noteq> CHR ''.''"
  using hex_val_digit [of n] by fastforce

lemma hex_encode_not_dot: "bs \<noteq> [] \<Longrightarrow> hd (hex_encode bs) \<noteq> CHR ''.''"
  using byte_less_256 [of "hd bs"] by (cases bs) (auto intro!: hex_digit_not_dot)

section \<open>Lists and association lists\<close>

lemma take_append_length [simp]: "length xs = n \<Longrightarrow> take n (xs @ ys) = xs"
  by auto

lemma drop_append_length [simp]: "length xs = n \<Longrightarrow> drop n (xs @ ys) = ys"
  by auto

lemma map_of_update [simp]: "map_of (AList.update k v al) = (map_of al)(k \<mapsto> v)"
  by (rule update_conv')

lemma map_of_delete [simp]: "map_of (AList.delete k al) = (map_of al)(k := None)"
  by (rule delete_conv')

lemma set_AList_update: "set (AList.update k v al) \<subseteq> insert (k, v) (set al)"
  by (induction al) auto

lemma set_AList_delete: "set (AList.delete k al) = {x \<in> set al. fst x \<noteq> k}"
  by (auto simp: AList.delete_eq)

lemma map_of_Some_in_keys: "map_of al k = Some v \<Longrightarrow> k \<in> fst ` set al"
  by (force dest: map_of_SomeD)

lemma map_of_None_iff: "map_of al k = None \<longleftrightarrow> k \<notin> fst ` set al"
  by (rule map_of_eq_None_iff)

lemma filter_Some_length: "length (filter (\<lambda>x. x \<noteq> None) xs) = card {i. i < length xs \<and> xs ! i \<noteq> None}"
  by (simp add: length_filter_conv_card)

lemma map_le_not_None: "f \<subseteq>\<^sub>m g \<Longrightarrow> f x \<noteq> None \<Longrightarrow> g x \<noteq> None"
  by (auto simp: map_le_def dom_def)

end
