(* ===== verification/Concrete_Prims.thy ===== *)
theory Concrete_Prims
  imports Prelude
begin

text \<open>
  One concrete, computable instance of the primitives, for the witnesses: it satisfies every
  law of the prelude, so no theorem that assumes a law is about nothing. It is no
  cryptography: the hash writes the bytes and their length into 32 bytes, the cipher prefixes
  the key, the signature repeats the public key and the digest.
\<close>

definition demo_hash :: "bytes \<Rightarrow> bytes" where
  "demo_hash d = be_put 28 (be_get d) @ be_put 4 (length d)"

definition demo_deflate :: "bytes \<Rightarrow> bytes res" where
  "demo_deflate d = Inr (if d = replicate (length d) 0 \<and> length d < 256 ^ 4
     then 0 # be_put 4 (length d) else 1 # d)"

definition demo_inflate :: "bytes \<Rightarrow> bytes res" where
  "demo_inflate z = (case z of [] \<Rightarrow> Inl ErrCodec
     | t # r \<Rightarrow> if t = 0 then Inr (replicate (be_get r) 0) else Inr r)"

definition demo_tag :: "bytes \<Rightarrow> bytes" where
  "demo_tag k = take 16 (k @ replicate 16 0)"

definition demo_open :: "bytes \<Rightarrow> bytes \<Rightarrow> bytes \<Rightarrow> bytes option" where
  "demo_open k n c = (if take 16 c = demo_tag k then Some (drop 16 c) else None)"

definition demo_public :: "bytes \<Rightarrow> bytes" where
  "demo_public k = take 32 (k @ replicate 32 0)"

definition demo_prims :: prims where
  "demo_prims = \<lparr>
     sha256 = demo_hash,
     gcm_seal = (\<lambda>k n pt. demo_tag k @ pt),
     gcm_open = demo_open,
     deflate = demo_deflate,
     inflate = demo_inflate,
     ed_public = demo_public,
     ed_sign = (\<lambda>k msg. demo_public k @ demo_hash msg),
     ed_verify = (\<lambda>p msg sig. sig = p @ demo_hash msg),
     kem_encap = (\<lambda>pub coins. Some (demo_public coins, demo_public coins @ replicate 1056 0)),
     kem_decap = (\<lambda>seed c. Some (take 32 c)),
     kem_public = demo_public,
     argon_sum = demo_hash\<rparr>"

lemma length_demo_hash [simp]: "length (demo_hash d) = 32"
  by (simp add: demo_hash_def)

lemma length_demo_public [simp]: "length (demo_public d) = 32"
  by (simp add: demo_public_def)

lemma length_demo_tag [simp]: "length (demo_tag k) = 16"
  by (simp add: demo_tag_def)

lemma sha256_demo [simp]: "sha256 demo_prims = demo_hash"
  by (simp add: demo_prims_def)

lemma demo_gcm_law: "gcm_law demo_prims"
  by (simp add: gcm_law_def demo_prims_def demo_open_def)

lemma demo_flate_law: "flate_law demo_prims"
  by (auto simp: flate_law_def demo_prims_def demo_deflate_def demo_inflate_def be_get_be_put_small)

lemma demo_sign_law: "sign_law demo_prims"
  by (simp add: sign_law_def demo_prims_def)

lemma demo_kem_law: "kem_law demo_prims"
  by (simp add: kem_law_def demo_prims_def)

lemma demo_hash_inj: "inj_on demo_hash {b. length b \<le> 28}"
proof (rule inj_onI)
  fix a b assume len: "a \<in> {b. length b \<le> 28}" "b \<in> {b. length b \<le> 28}" and eq: "demo_hash a = demo_hash b"
  from eq have h: "be_put 28 (be_get a) = be_put 28 (be_get b)" and l: "be_put 4 (length a) = be_put 4 (length b)"
    by (simp_all add: demo_hash_def)
  have "length a = length b" using be_put_inj [OF l] len by simp
  moreover have lt: "be_get x < 256 ^ 28" if "length x \<le> 28" for x
    by (rule less_le_trans [OF be_get_bound power_increasing]) (use that in simp_all)
  have "be_get a = be_get b" using be_put_inj [OF h] lt len by simp
  ultimately show "a = b" using be_put_be_get by metis
qed

end
