(* ===== verification/Store.thy ===== *)
theory Store
  imports Concrete_Prims "HOL-Library.Sublist"
begin

text \<open>
  The content-addressed shard store of \<^verbatim>\<open>src/internal/store\<close>: the interface
  \<open>store_ops\<close> (\<^verbatim>\<open>store.Store\<close>), the in-memory store, the disk store with the system calls
  it makes and the ways each can fail, and the locale \<open>content_store\<close> of the laws every
  client relies on, interpreted on both implementations.
\<close>

section \<open>The interface\<close>

definition HashOf :: "prims \<Rightarrow> bytes \<Rightarrow> shard_id" where
  "HashOf P data = sha256 P data"

definition ShardID_String :: "shard_id \<Rightarrow> string" where
  "ShardID_String sid = hex_encode sid"

record 's store_ops =
  op_Put :: "'s \<Rightarrow> bytes \<Rightarrow> 's \<times> shard_id res"
  op_Get :: "'s \<Rightarrow> shard_id \<Rightarrow> bytes res"
  op_Has :: "'s \<Rightarrow> shard_id \<Rightarrow> bool res"
  op_Delete :: "'s \<Rightarrow> shard_id \<Rightarrow> 's \<times> unit res"

section \<open>MemStore\<close>

record mem_store =
  blobs :: "(shard_id \<times> bytes) list"

definition NewMemStore :: mem_store where
  "NewMemStore = \<lparr>blobs = []\<rparr>"

definition mem_Put :: "prims \<Rightarrow> mem_store \<Rightarrow> bytes \<Rightarrow> mem_store \<times> shard_id res" where
  "mem_Put P m data = (let sid = HashOf P data in
     (if map_of (blobs m) sid = None then m\<lparr>blobs := AList.update sid data (blobs m)\<rparr> else m,
      Inr sid))"

definition mem_Get :: "mem_store \<Rightarrow> shard_id \<Rightarrow> bytes res" where
  "mem_Get m sid = (case map_of (blobs m) sid of None \<Rightarrow> Inl ErrNotFound | Some b \<Rightarrow> Inr b)"

definition mem_Has :: "mem_store \<Rightarrow> shard_id \<Rightarrow> bool res" where
  "mem_Has m sid = Inr (map_of (blobs m) sid \<noteq> None)"

definition mem_Delete :: "mem_store \<Rightarrow> shard_id \<Rightarrow> mem_store \<times> unit res" where
  "mem_Delete m sid = (if map_of (blobs m) sid = None then (m, Inl ErrNotFound)
     else (m\<lparr>blobs := AList.delete sid (blobs m)\<rparr>, Inr ()))"

definition mem_List :: "mem_store \<Rightarrow> shard_id list" where
  "mem_List m = map fst (blobs m)"

definition mem_ops :: "prims \<Rightarrow> mem_store store_ops" where
  "mem_ops P = \<lparr>op_Put = mem_Put P, op_Get = mem_Get, op_Has = mem_Has, op_Delete = mem_Delete\<rparr>"

text \<open>Every blob is filed under its own hash, once.\<close>

definition mem_inv :: "prims \<Rightarrow> mem_store \<Rightarrow> bool" where
  "mem_inv P m \<longleftrightarrow> distinct (map fst (blobs m)) \<and> list_all (\<lambda>(sid, b). HashOf P b = sid) (blobs m)"

section \<open>DiskStore\<close>

text \<open>
  The file system under the store's root: the sub-directories, and the files by directory and
  name. \<open>fails\<close> says which system calls the environment makes fail, \<open>tmp_suffix\<close> is the
  random string \<^verbatim>\<open>os.CreateTemp\<close> draws. The store's own field \<^verbatim>\<open>root\<close> is the (constant)
  prefix of every path and is left out.
\<close>

datatype syscall = SysStat | SysMkdir | SysCreateTemp | SysWrite | SysSync | SysClose
  | SysRename | SysOpenDir | SysSyncDir | SysRead | SysRemove | SysReadDir

record disk_store =
  dirs :: "string list"
  files :: "((string \<times> string) \<times> bytes) list"
  fails :: "syscall \<Rightarrow> bool"
  tmp_suffix :: string

definition NewDiskStore :: "(syscall \<Rightarrow> bool) \<Rightarrow> string \<Rightarrow> disk_store res" where
  "NewDiskStore f sfx = (if f SysMkdir then Inl ErrIO
     else Inr \<lparr>dirs = [], files = [], fails = f, tmp_suffix = sfx\<rparr>)"

definition pathFor :: "shard_id \<Rightarrow> string \<times> string" where
  "pathFor sid = (let name = ShardID_String sid in (take 2 name, name))"

definition tmp_prefix :: string where
  "tmp_prefix = ''.tmp-''"

text \<open>\<^verbatim>\<open>os.Remove(tmpName)\<close> on a failure path; its own failure is ignored.\<close>

definition remove_tmp :: "disk_store \<Rightarrow> string \<times> string \<Rightarrow> disk_store" where
  "remove_tmp d tmp = (if fails d SysRemove then d else d\<lparr>files := AList.delete tmp (files d)\<rparr>)"

definition disk_Put :: "prims \<Rightarrow> disk_store \<Rightarrow> bytes \<Rightarrow> disk_store \<times> shard_id res" where
  "disk_Put P d data = (let sid = HashOf P data; (dir, file) = pathFor sid in
     if \<not> fails d SysStat \<and> map_of (files d) (dir, file) \<noteq> None then (d, Inr sid)
     else if fails d SysMkdir then (d, Inl ErrIO)
     else let d1 = d\<lparr>dirs := List.insert dir (dirs d)\<rparr> in
     if fails d SysCreateTemp then (d1, Inl ErrIO)
     else let tmp = (dir, tmp_prefix @ tmp_suffix d);
              d2 = d1\<lparr>files := AList.update tmp [] (files d1)\<rparr> in
     if fails d SysWrite then (remove_tmp d2 tmp, Inl ErrIO)
     else let d3 = d2\<lparr>files := AList.update tmp data (files d2)\<rparr> in
     if fails d SysSync then (remove_tmp d3 tmp, Inl ErrIO)
     else if fails d SysClose then (remove_tmp d3 tmp, Inl ErrIO)
     else if fails d SysRename then (remove_tmp d3 tmp, Inl ErrIO)
     else let d4 = d3\<lparr>files := AList.update (dir, file) data (AList.delete tmp (files d3))\<rparr> in
     if fails d SysOpenDir then (d4, Inl ErrIO)
     else if fails d SysSyncDir then (d4, Inl ErrIO)
     else (d4, Inr sid))"

definition disk_Get :: "prims \<Rightarrow> disk_store \<Rightarrow> shard_id \<Rightarrow> bytes res" where
  "disk_Get P d sid =
     (if fails d SysRead then Inl ErrIO
      else case map_of (files d) (pathFor sid) of
             None \<Rightarrow> Inl ErrNotFound
           | Some data \<Rightarrow> if HashOf P data \<noteq> sid then Inl ErrCorrupt else Inr data)"

definition disk_Has :: "disk_store \<Rightarrow> shard_id \<Rightarrow> bool res" where
  "disk_Has d sid = (if fails d SysStat then Inl ErrIO
     else Inr (map_of (files d) (pathFor sid) \<noteq> None))"

definition disk_Delete :: "disk_store \<Rightarrow> shard_id \<Rightarrow> disk_store \<times> unit res" where
  "disk_Delete d sid =
     (if fails d SysRemove then (d, Inl ErrIO)
      else if map_of (files d) (pathFor sid) = None then (d, Inl ErrNotFound)
      else (d\<lparr>files := AList.delete (pathFor sid) (files d)\<rparr>, Inr ()))"

text \<open>
  \<^verbatim>\<open>List\<close>: directories in name order (\<^verbatim>\<open>os.ReadDir\<close> sorts), two-character ones only; in
  each, temp files and names that are not 32 hex-coded bytes are skipped.
\<close>

definition shard_of_name :: "string \<Rightarrow> shard_id option" where
  "shard_of_name name =
     (if prefix tmp_prefix name then None
      else case hex_decode name of None \<Rightarrow> None
           | Some raw \<Rightarrow> if length raw \<noteq> 32 then None else Some raw)"

definition dir_names :: "disk_store \<Rightarrow> string \<Rightarrow> string list" where
  "dir_names d dir = sort (map (snd \<circ> fst) (filter (\<lambda>(k, _). fst k = dir) (files d)))"

definition disk_List :: "disk_store \<Rightarrow> shard_id list res" where
  "disk_List d =
     (if fails d SysReadDir then Inl ErrIO
      else Inr (concat (map (\<lambda>dir. List.map_filter shard_of_name (dir_names d dir))
                  (filter (\<lambda>dir. length dir = 2) (sort (dirs d))))))"

definition disk_ops :: "prims \<Rightarrow> disk_store store_ops" where
  "disk_ops P = \<lparr>op_Put = disk_Put P, op_Get = disk_Get P, op_Has = disk_Has,
     op_Delete = disk_Delete\<rparr>"

text \<open>
  A disk store is intact when every file is a temp file or a shard under its own content
  address, in a directory that exists. A store is sound when it is intact and the environment
  makes no system call fail.
\<close>

definition file_ok :: "prims \<Rightarrow> disk_store \<Rightarrow> (string \<times> string) \<times> bytes \<Rightarrow> bool" where
  "file_ok P d f \<longleftrightarrow> (case f of ((dir, name), b) \<Rightarrow> dir \<in> set (dirs d)
      \<and> (prefix tmp_prefix name \<or> (dir, name) = pathFor (HashOf P b)))"

definition disk_intact :: "prims \<Rightarrow> disk_store \<Rightarrow> bool" where
  "disk_intact P d \<longleftrightarrow> distinct (map fst (files d)) \<and> distinct (dirs d) \<and> list_all (file_ok P d) (files d)"

definition disk_inv :: "prims \<Rightarrow> disk_store \<Rightarrow> bool" where
  "disk_inv P d \<longleftrightarrow> disk_intact P d \<and> \<not> fails d SysStat \<and> \<not> fails d SysMkdir
     \<and> \<not> fails d SysCreateTemp \<and> \<not> fails d SysWrite \<and> \<not> fails d SysSync \<and> \<not> fails d SysClose
     \<and> \<not> fails d SysRename \<and> \<not> fails d SysOpenDir \<and> \<not> fails d SysSyncDir \<and> \<not> fails d SysRead
     \<and> \<not> fails d SysRemove \<and> \<not> fails d SysReadDir"

definition disk_abs :: "prims \<Rightarrow> disk_store \<Rightarrow> shard_id \<Rightarrow> bytes option" where
  "disk_abs P d sid = (case map_of (files d) (pathFor sid) of
     None \<Rightarrow> None | Some b \<Rightarrow> if HashOf P b = sid then Some b else None)"


section \<open>The contract every client relies on\<close>

text \<open>
  A store state abstracts to a partial map from addresses to bytes. The laws: the map only
  holds self-addressed blobs, \<open>Put\<close> adds a blob under its hash and never replaces one,
  \<open>Get\<close> and \<open>Has\<close> read the map, \<open>Delete\<close> removes from it.
\<close>

locale content_store =
  fixes P :: prims
    and ops :: "'s store_ops"
    and abs :: "'s \<Rightarrow> shard_id \<Rightarrow> bytes option"
    and invar :: "'s \<Rightarrow> bool"
  assumes addressed: "invar s \<Longrightarrow> abs s sid = Some b \<Longrightarrow> HashOf P b = sid"
    and put_law: "invar s \<Longrightarrow> op_Put ops s d = (s', r) \<Longrightarrow> r = Inr (HashOf P d) \<and> invar s'
      \<and> abs s' = (if abs s (HashOf P d) = None then (abs s)(HashOf P d \<mapsto> d) else abs s)"
    and get_law: "invar s \<Longrightarrow>
      op_Get ops s sid = (case abs s sid of None \<Rightarrow> Inl ErrNotFound | Some b \<Rightarrow> Inr b)"
    and has_law: "invar s \<Longrightarrow> op_Has ops s sid = Inr (abs s sid \<noteq> None)"
    and delete_law: "invar s \<Longrightarrow> op_Delete ops s sid = (s', u) \<Longrightarrow> invar s'
      \<and> abs s' = (abs s)(sid := None)
      \<and> u = (if abs s sid = None then Inl ErrNotFound else Inr ())"
begin

lemma get_hash: "invar s \<Longrightarrow> op_Get ops s sid = Inr b \<Longrightarrow> HashOf P b = sid"
  by (auto simp: get_law dest: addressed split: option.splits)

lemma put_then_get:
  assumes "invar s" and "op_Put ops s d = (s', r)"
  shows "\<exists>b. op_Get ops s' (HashOf P d) = Inr b \<and> HashOf P b = HashOf P d \<and> (b = d \<or> op_Get ops s (HashOf P d) = Inr b)"
proof -
  have inv': "invar s'" and abs': "abs s' = (if abs s (HashOf P d) = None then (abs s)(HashOf P d \<mapsto> d) else abs s)"
    using put_law [OF assms] by auto
  show ?thesis
  proof (cases "abs s (HashOf P d)")
    case None
    with abs' inv' show ?thesis by (auto simp: get_law)
  next
    case (Some b)
    with assms abs' inv' show ?thesis by (auto simp: get_law dest: addressed)
  qed
qed

lemma put_keeps:
  assumes "invar s" and "op_Put ops s d = (s', r)" and "op_Get ops s sid = Inr b"
  shows "op_Get ops s' sid = Inr b"
  using put_law [OF assms(1,2)] assms(1,3) by (auto simp: get_law split: option.splits if_splits)

lemma put_idem:
  assumes "invar s" and "op_Put ops s d = (s1, r1)" and "op_Put ops s1 d = (s2, r2)"
  shows "abs s2 = abs s1 \<and> r2 = r1"
  using put_law [OF assms(1,2)] put_law [OF _ assms(3)] by (auto split: if_splits)

lemma delete_then_get:
  assumes "invar s" and "op_Delete ops s sid = (s', r)"
  shows "op_Get ops s' sid = Inl ErrNotFound"
    and "sid' \<noteq> sid \<Longrightarrow> op_Get ops s' sid' = op_Get ops s sid'"
  using delete_law [OF assms] assms(1) by (auto simp: get_law)

end

section \<open>MemStore implements the contract\<close>

definition mem_abs :: "mem_store \<Rightarrow> shard_id \<Rightarrow> bytes option" where
  "mem_abs m = map_of (blobs m)"

lemma mem_inv_hash: "mem_inv P m \<Longrightarrow> map_of (blobs m) sid = Some b \<Longrightarrow> HashOf P b = sid"
  by (auto simp: mem_inv_def list_all_iff dest: map_of_SomeD)

lemma mem_inv_Put: "mem_inv P m \<Longrightarrow> mem_inv P (fst (mem_Put P m d))"
  by (auto simp: mem_inv_def mem_Put_def Let_def list_all_iff distinct_update
      dest!: set_AList_update [THEN subsetD])

lemma mem_inv_Delete: "mem_inv P m \<Longrightarrow> mem_inv P (fst (mem_Delete m sid))"
  by (auto simp: mem_inv_def mem_Delete_def list_all_iff distinct_delete set_AList_delete)

interpretation mem: content_store P "mem_ops P" mem_abs "mem_inv P"
  for P
proof
  fix s sid b assume "mem_inv P s" "mem_abs s sid = Some b"
  then show "HashOf P b = sid" by (simp add: mem_abs_def mem_inv_hash)
next
  fix s d s' r assume inv: "mem_inv P s" and put: "op_Put (mem_ops P) s d = (s', r)"
  then have "s' = fst (mem_Put P s d)" and "r = snd (mem_Put P s d)"
    by (simp_all add: mem_ops_def)
  with inv show "r = Inr (HashOf P d) \<and> mem_inv P s' \<and> mem_abs s' =
      (if mem_abs s (HashOf P d) = None then (mem_abs s)(HashOf P d \<mapsto> d) else mem_abs s)"
    using mem_inv_Put [OF inv, of d] by (auto simp: mem_Put_def mem_abs_def Let_def)
next
  fix s sid assume "mem_inv P s"
  show "op_Get (mem_ops P) s sid = (case mem_abs s sid of None \<Rightarrow> Inl ErrNotFound | Some b \<Rightarrow> Inr b)"
    by (simp add: mem_ops_def mem_Get_def mem_abs_def)
  show "op_Has (mem_ops P) s sid = Inr (mem_abs s sid \<noteq> None)"
    by (simp add: mem_ops_def mem_Has_def mem_abs_def)
next
  fix s sid s' r assume inv: "mem_inv P s" and del: "op_Delete (mem_ops P) s sid = (s', r)"
  then have eq: "(s', r) = mem_Delete s sid" by (simp add: mem_ops_def)
  show "mem_inv P s' \<and> mem_abs s' = (mem_abs s)(sid := None)
      \<and> r = (if mem_abs s sid = None then Inl ErrNotFound else Inr ())"
    using mem_inv_Delete [OF inv, of sid] eq
    by (auto simp: mem_Delete_def mem_abs_def split: if_splits)
qed


section \<open>DiskStore implements the contract\<close>

lemma pathFor_inj [simp]: "pathFor a = pathFor b \<longleftrightarrow> a = b"
  by (auto simp: pathFor_def ShardID_String_def Let_def hex_encode_inj)

lemma pathFor_not_tmp: "\<not> prefix tmp_prefix (snd (pathFor sid))"
proof
  assume "prefix tmp_prefix (snd (pathFor sid))"
  then obtain zs where "hex_encode sid = ''.tmp-'' @ zs"
    by (auto simp: pathFor_def ShardID_String_def tmp_prefix_def Let_def prefix_def)
  then have "sid \<noteq> []" and "hd (hex_encode sid) = CHR ''.''" by (cases sid; simp)+
  then show False using hex_encode_not_dot by blast
qed

lemma tmp_not_path: "prefix tmp_prefix (snd k) \<Longrightarrow> pathFor sid \<noteq> k"
  using pathFor_not_tmp by blast

lemma disk_abs_cong: "map_of (files d') (pathFor sid) = map_of (files d) (pathFor sid)
   \<Longrightarrow> disk_abs P d' sid = disk_abs P d sid"
  by (simp add: disk_abs_def)

lemma disk_intact_lookup:
  assumes "disk_intact P d" and "map_of (files d) (pathFor sid) = Some b"
  shows "HashOf P b = sid"
proof -
  have "file_ok P d (pathFor sid, b)"
    using assms by (auto simp: disk_intact_def list_all_iff dest: map_of_SomeD)
  then show ?thesis
    using pathFor_not_tmp [of sid] by (cases "pathFor sid") (auto simp: file_ok_def simp flip: pathFor_inj)
qed

lemma disk_abs_intact: "disk_intact P d \<Longrightarrow> disk_abs P d sid = map_of (files d) (pathFor sid)"
  by (auto simp: disk_abs_def dest: disk_intact_lookup split: option.splits)

text \<open>The four ways a system call changes the file system, each keeping the store intact.\<close>

lemma file_ok_mono: "file_ok P d f \<Longrightarrow> set (dirs d) \<subseteq> set (dirs d') \<Longrightarrow> file_ok P d' f"
  by (auto simp: file_ok_def split: prod.splits)

lemma intact_mkdir: "disk_intact P d \<Longrightarrow> disk_intact P (d\<lparr>dirs := List.insert x (dirs d)\<rparr>)"
  by (auto simp: disk_intact_def list_all_iff intro: file_ok_mono)

lemma intact_update:
  assumes "disk_intact P d" and "file_ok P d (k, b)"
  shows "disk_intact P (d\<lparr>files := AList.update k b (files d)\<rparr>)"
proof -
  have "\<forall>f \<in> set (AList.update k b (files d)). file_ok P d f"
    using assms by (auto simp: disk_intact_def list_all_iff dest!: set_AList_update [THEN subsetD])
  then show ?thesis using assms(1)
    by (auto simp: disk_intact_def list_all_iff distinct_update file_ok_def)
qed

lemma intact_delete: "disk_intact P d \<Longrightarrow> disk_intact P (d\<lparr>files := AList.delete k (files d)\<rparr>)"
  by (auto simp: disk_intact_def list_all_iff distinct_delete set_AList_delete file_ok_def)

lemma intact_remove_tmp: "disk_intact P d \<Longrightarrow> disk_intact P (remove_tmp d k)"
  by (simp add: remove_tmp_def intact_delete)

lemma dirs_remove_tmp [simp]: "dirs (remove_tmp d k) = dirs d"
  by (simp add: remove_tmp_def)

lemma files_remove_tmp: "k \<noteq> k' \<Longrightarrow> map_of (files (remove_tmp d k)) k' = map_of (files d) k'"
  by (simp add: remove_tmp_def)

lemma file_ok_tmp: "dir \<in> set (dirs d) \<Longrightarrow> prefix tmp_prefix name \<Longrightarrow> file_ok P d ((dir, name), b)"
  by (simp add: file_ok_def)

lemma prefix_tmp [simp]: "prefix tmp_prefix (tmp_prefix @ xs)"
  by simp

lemmas intact_steps = intact_mkdir intact_update intact_delete intact_remove_tmp

lemma disk_Put_intact:
  assumes "disk_intact P d"
  shows "disk_intact P (fst (disk_Put P d data))"
proof -
  obtain dir fname where p: "pathFor (HashOf P data) = (dir, fname)" by fastforce
  define d1 where "d1 = d\<lparr>dirs := List.insert dir (dirs d)\<rparr>"
  define tmp where "tmp = (dir, tmp_prefix @ tmp_suffix d)"
  define d2 where "d2 = d1\<lparr>files := AList.update tmp [] (files d1)\<rparr>"
  define d3 where "d3 = d2\<lparr>files := AList.update tmp data (files d2)\<rparr>"
  define d4 where "d4 = d3\<lparr>files := AList.update (dir, fname) data (AList.delete tmp (files d3))\<rparr>"
  have ok: "file_ok P x (tmp, b)" if "dir \<in> set (dirs x)" for x b
    using that unfolding tmp_def by (rule file_ok_tmp) simp
  have 1: "disk_intact P d1" unfolding d1_def by (rule intact_mkdir [OF assms])
  then have 2: "disk_intact P d2" unfolding d2_def by (rule intact_update) (rule ok, simp add: d1_def)
  then have 3: "disk_intact P d3" unfolding d3_def by (rule intact_update) (rule ok, simp add: d2_def d1_def)
  have 4: "disk_intact P d4"
  proof -
    have "disk_intact P (d3\<lparr>files := AList.delete tmp (files d3)\<rparr>)"
      by (rule intact_delete [OF 3])
    then have "disk_intact P ((d3\<lparr>files := AList.delete tmp (files d3)\<rparr>)\<lparr>files :=
        AList.update (dir, fname) data (files (d3\<lparr>files := AList.delete tmp (files d3)\<rparr>))\<rparr>)"
      by (rule intact_update) (simp add: file_ok_def p d3_def d2_def d1_def)
    then show ?thesis by (simp add: d4_def)
  qed
  have "fst (disk_Put P d data) \<in> {d, d1, remove_tmp d2 tmp, remove_tmp d3 tmp, d4}"
    by (simp add: disk_Put_def Let_def p d1_def d2_def d3_def d4_def tmp_def)
  then show ?thesis
    using assms 1 2 3 4 by (auto intro: intact_remove_tmp)
qed

lemma disk_Put_files:
  assumes "disk_Put P d data = (d', r)"
  shows "map_of (files d') (pathFor sid) = map_of (files d) (pathFor sid)
    \<or> sid = HashOf P data \<and> map_of (files d') (pathFor sid) = Some data"
proof -
  obtain dir fname where p: "pathFor (HashOf P data) = (dir, fname)" by fastforce
  have t: "pathFor sid \<noteq> (dir, tmp_prefix @ tmp_suffix d)"
    by (rule tmp_not_path) simp
  have eq: "pathFor sid = (dir, fname) \<longleftrightarrow> sid = HashOf P data"
    using p pathFor_inj by metis
  show ?thesis
    using assms t eq by (auto simp: disk_Put_def Let_def p files_remove_tmp split: if_splits)
qed

lemma disk_Put_ok:
  assumes "disk_Put P d data = (d', Inr sid)"
  shows "sid = HashOf P data \<and> map_of (files d') (pathFor sid) \<noteq> None"
proof -
  obtain dir fname where p: "pathFor (HashOf P data) = (dir, fname)" by fastforce
  show ?thesis using assms by (auto simp: disk_Put_def Let_def p split: if_splits)
qed

lemma disk_Put_fails: "fails (fst (disk_Put P d data)) = fails d"
  by (auto simp: disk_Put_def Let_def remove_tmp_def split: prod.splits)

lemma disk_Put_succeeds: "disk_inv P d \<Longrightarrow> snd (disk_Put P d data) = Inr (HashOf P data)"
  by (auto simp: disk_Put_def disk_inv_def Let_def split: prod.splits)

lemma disk_Put_present: "disk_inv P d \<Longrightarrow> map_of (files d) (pathFor (HashOf P data)) \<noteq> None
   \<Longrightarrow> disk_Put P d data = (d, Inr (HashOf P data))"
  by (auto simp: disk_Put_def disk_inv_def Let_def split: prod.splits)

interpretation disk: content_store P "disk_ops P" "disk_abs P" "disk_inv P"
  for P
proof
  fix s sid b assume "disk_inv P s" "disk_abs P s sid = Some b"
  then show "HashOf P b = sid" by (simp add: disk_abs_def split: option.splits if_splits)
next
  fix s d s' r assume inv: "disk_inv P s" and put: "op_Put (disk_ops P) s d = (s', r)"
  then have eq: "disk_Put P s d = (s', r)" by (simp add: disk_ops_def)
  have r: "r = Inr (HashOf P d)" using disk_Put_succeeds [OF inv, of d] eq by simp
  have inv': "disk_inv P s'"
    using inv disk_Put_intact [of P s d] disk_Put_fails [of P s d] eq by (simp add: disk_inv_def)
  have int: "disk_intact P s" "disk_intact P s'" using inv inv' by (simp_all add: disk_inv_def)
  have "disk_abs P s' sid = (if disk_abs P s (HashOf P d) = None
      then (disk_abs P s)(HashOf P d \<mapsto> d) else disk_abs P s) sid" for sid
  proof (cases "map_of (files s) (pathFor (HashOf P d))")
    case None
    have "map_of (files s') (pathFor (HashOf P d)) = Some d"
      using disk_Put_files [OF eq, of "HashOf P d"] disk_Put_ok [OF eq [unfolded r]] None by metis
    with None show ?thesis
      using disk_Put_files [OF eq, of sid]
      by (auto simp: disk_abs_intact [OF int(1)] disk_abs_intact [OF int(2)])
  next
    case (Some b)
    then have "s' = s" using disk_Put_present [OF inv, of d] eq by simp
    with Some show ?thesis by (simp add: disk_abs_intact [OF int(1)])
  qed
  then show "r = Inr (HashOf P d) \<and> disk_inv P s' \<and> disk_abs P s' =
      (if disk_abs P s (HashOf P d) = None then (disk_abs P s)(HashOf P d \<mapsto> d) else disk_abs P s)"
    using r inv' by blast
next
  fix s sid assume inv: "disk_inv P s"
  then have int: "disk_intact P s" by (simp add: disk_inv_def)
  show "op_Get (disk_ops P) s sid = (case disk_abs P s sid of None \<Rightarrow> Inl ErrNotFound | Some b \<Rightarrow> Inr b)"
    using inv disk_intact_lookup [OF int, of sid]
    by (auto simp: disk_ops_def disk_Get_def disk_abs_intact [OF int] disk_inv_def split: option.splits)
  show "op_Has (disk_ops P) s sid = Inr (disk_abs P s sid \<noteq> None)"
    using inv by (simp add: disk_ops_def disk_Has_def disk_abs_intact [OF int] disk_inv_def)
next
  fix s sid s' r assume inv: "disk_inv P s" and del: "op_Delete (disk_ops P) s sid = (s', r)"
  then have eq: "disk_Delete s sid = (s', r)" by (simp add: disk_ops_def)
  have int: "disk_intact P s" using inv by (simp add: disk_inv_def)
  have inv': "disk_inv P s'"
    using inv eq intact_delete [OF int, of "pathFor sid"]
    by (auto simp: disk_Delete_def disk_inv_def split: if_splits)
  then have int': "disk_intact P s'" by (simp add: disk_inv_def)
  show "disk_inv P s' \<and> disk_abs P s' = (disk_abs P s)(sid := None)
      \<and> r = (if disk_abs P s sid = None then Inl ErrNotFound else Inr ())"
    using inv inv' eq by (auto simp: disk_Delete_def disk_inv_def fun_eq_iff
        disk_abs_intact [OF int] disk_abs_intact [OF int'] split: if_splits)
qed


section \<open>Enumeration\<close>

lemma shard_of_name_path: "length sid = 32 \<Longrightarrow> shard_of_name (snd (pathFor sid)) = Some sid"
  using pathFor_not_tmp [of sid]
  by (simp add: shard_of_name_def pathFor_def ShardID_String_def Let_def)

lemma set_dir_names: "name \<in> set (dir_names d dir) \<longleftrightarrow> (\<exists>b. ((dir, name), b) \<in> set (files d))"
  by (force simp: dir_names_def)

lemma map_filter_set: "x \<in> set (List.map_filter f xs) \<longleftrightarrow> (\<exists>y \<in> set xs. f y = Some x)"
  by (force simp: List.map_filter_def)

lemma shard_of_name_intact:
  assumes "disk_intact P d" and "((dir, name), b) \<in> set (files d)" and "shard_of_name name = Some sid"
  shows "HashOf P b = sid \<and> (dir, name) = pathFor sid"
proof -
  have "file_ok P d ((dir, name), b)" using assms(1,2) by (auto simp: disk_intact_def list_all_iff)
  moreover have "\<not> prefix tmp_prefix name" using assms(3) by (auto simp: shard_of_name_def split: if_splits)
  ultimately have p: "(dir, name) = pathFor (HashOf P b)" by (simp add: file_ok_def)
  then have "name = hex_encode (HashOf P b)" by (simp add: pathFor_def ShardID_String_def Let_def)
  with assms(3) have "HashOf P b = sid" by (auto simp: shard_of_name_def split: if_splits)
  with p show ?thesis by simp
qed

lemma disk_List_set:
  assumes int: "disk_intact P d" and list: "disk_List d = Inr ids"
    and len: "\<And>b. length (HashOf P b) = 32"
  shows "set ids = {sid. disk_abs P d sid \<noteq> None}"
proof (intro equalityI subsetI)
  fix sid assume "sid \<in> set ids"
  then obtain dir name b where "((dir, name), b) \<in> set (files d)" "shard_of_name name = Some sid"
    using list by (auto simp: disk_List_def map_filter_set set_dir_names split: if_splits)
  from shard_of_name_intact [OF int this] this(1) have "map_of (files d) (pathFor sid) \<noteq> None"
    by (metis map_of_eq_None_iff image_eqI fst_conv)
  then show "sid \<in> {sid. disk_abs P d sid \<noteq> None}" by (simp add: disk_abs_intact [OF int])
next
  fix sid assume "sid \<in> {sid. disk_abs P d sid \<noteq> None}"
  then obtain b where b: "map_of (files d) (pathFor sid) = Some b" by (auto simp: disk_abs_intact [OF int])
  then have "(pathFor sid, b) \<in> set (files d)" by (rule map_of_SomeD)
  moreover have "length sid = 32" using disk_intact_lookup [OF int b] len by metis
  moreover have "fst (pathFor sid) \<in> set (dirs d)"
    using calculation(1) int by (cases "pathFor sid") (auto simp: disk_intact_def list_all_iff file_ok_def)
  moreover have "length (fst (pathFor sid)) = 2"
    using calculation(2) by (simp add: pathFor_def ShardID_String_def Let_def)
  ultimately show "sid \<in> set ids"
    using list shard_of_name_path [of sid]
    by (cases "pathFor sid") (force simp: disk_List_def map_filter_set set_dir_names split: if_splits)
qed

section \<open>Properties\<close>

text \<open>
  C25: whatever system calls fail during a disk \<open>Put\<close>, the store stays intact: no file ever
  sits at a content address with other bytes, no other shard is touched, and at most the new
  shard appears. A \<open>Put\<close> that reports success returns the content address and the shard is there.
\<close>

theorem disk_Put_atomic:
  assumes "disk_intact P d" and "disk_Put P d data = (d', r)"
  shows "disk_intact P d' \<and>
    disk_abs P d' \<in> {disk_abs P d, (disk_abs P d)(HashOf P data \<mapsto> data)} \<and>
    (\<forall>sid. r = Inr sid \<longrightarrow> sid = HashOf P data \<and> disk_abs P d' sid \<noteq> None)"
proof -
  have int': "disk_intact P d'" using disk_Put_intact [OF assms(1), of data] assms(2) by simp
  note abs = disk_abs_intact [OF assms(1)] disk_abs_intact [OF int']
  have "disk_abs P d' = disk_abs P d \<or> disk_abs P d' = (disk_abs P d)(HashOf P data \<mapsto> data)"
  proof (cases "disk_abs P d' (HashOf P data) = disk_abs P d (HashOf P data)")
    case True
    then have "disk_abs P d' sid = disk_abs P d sid" for sid
      using disk_Put_files [OF assms(2), of sid] by (auto simp: abs)
    then show ?thesis by blast
  next
    case False
    then have "disk_abs P d' sid = ((disk_abs P d)(HashOf P data \<mapsto> data)) sid" for sid
      using disk_Put_files [OF assms(2), of sid] disk_Put_files [OF assms(2), of "HashOf P data"]
      by (auto simp: abs)
    then show ?thesis by blast
  qed
  moreover have "sid = HashOf P data \<and> disk_abs P d' sid \<noteq> None" if "r = Inr sid" for sid
    using disk_Put_ok [of P d data d' sid] assms(2) that by (auto simp: abs)
  ultimately show ?thesis using int' by blast
qed

definition demo_disk :: disk_store where
  "demo_disk = \<lparr>dirs = [], files = [], fails = (\<lambda>_. False), tmp_suffix = ''1''\<rparr>"

lemma demo_disk_inv: "disk_inv P demo_disk"
  by (simp add: disk_inv_def disk_intact_def demo_disk_def)

theorem disk_Put_atomic_witness:
  "disk_intact demo_prims (fst (disk_Put demo_prims (demo_disk\<lparr>fails := (\<lambda>c. c = SysRename)\<rparr>) [1, 2]))"
proof -
  let ?d = "demo_disk\<lparr>fails := (\<lambda>c. c = SysRename)\<rparr>"
  obtain d' r where "disk_Put demo_prims ?d [1, 2] = (d', r)" by fastforce
  moreover have "disk_intact demo_prims ?d" by (simp add: disk_intact_def demo_disk_def)
  ultimately show ?thesis using disk_Put_atomic [of demo_prims ?d "[1, 2]" d' r] by simp
qed

text \<open>
  enumerating an intact store (\<open>List\<close>, used by reprovide and by the ledger's
  \<open>Reconcile\<close>) returns exactly the addresses of the shards it holds: temp files and stray
  names never show up, no shard is missed.
\<close>

lemma disk_List_exact:
  assumes "disk_inv P d" and "\<And>b. length (HashOf P b) = 32"
  shows "\<exists>ids. disk_List d = Inr ids \<and> set ids = {sid. \<exists>b. disk_Get P d sid = Inr b}"
proof -
  have int: "disk_intact P d" and ok: "\<not> fails d SysReadDir" "\<not> fails d SysRead"
    using assms(1) by (simp_all add: disk_inv_def)
  then obtain ids where ids: "disk_List d = Inr ids" by (simp add: disk_List_def)
  have "(\<exists>b. disk_Get P d sid = Inr b) \<longleftrightarrow> disk_abs P d sid \<noteq> None" for sid
    using disk_intact_lookup [OF int, of sid] ok
    by (auto simp: disk_Get_def disk_abs_intact [OF int] split: option.splits)
  then show ?thesis using ids disk_List_set [OF int ids assms(2)] by auto
qed

lemma disk_List_exact_witness:
  "\<exists>ids. disk_List (fst (disk_Put demo_prims demo_disk [1, 2])) = Inr ids
     \<and> set ids = {sid. \<exists>b. disk_Get demo_prims (fst (disk_Put demo_prims demo_disk [1, 2])) sid = Inr b}"
proof (rule disk_List_exact)
  show "disk_inv demo_prims (fst (disk_Put demo_prims demo_disk [1, 2]))"
    using disk.put_law [OF demo_disk_inv, of demo_prims "[1, 2]"]
    by (cases "disk_Put demo_prims demo_disk [1, 2]") (simp add: disk_ops_def)
qed (simp add: HashOf_def)

end
