(* ===== verification/Chunk.thy ===== *)
theory Chunk
  imports Prelude
begin

text \<open>
  The two chunkers of \<^verbatim>\<open>src/internal/chunk\<close>. A reader is the bytes it will still
  deliver and how it ends: cleanly, or with an error. The iterators
  \<^verbatim>\<open>iter.Seq2[[]byte, error]\<close> are the lists of what they yield to a consumer that
  never stops early; a consumer that stops sees a prefix.
\<close>

unbundle bit_operations_syntax

record reader =
  rd_data :: bytes
  rd_err :: "error option"    \<comment> \<open>\<open>None\<close>: ends with io.EOF\<close>

definition DefaultSize :: nat where
  "DefaultSize = 4 * 2 ^ 20"

section \<open>Fixed\<close>

text \<open>One round of the loop: \<^verbatim>\<open>io.ReadFull\<close> fills a buffer of \<open>size\<close> bytes or says why not.\<close>

function fixed_loop :: "nat \<Rightarrow> bytes \<Rightarrow> error option \<Rightarrow> bytes res list" where
  "fixed_loop sz data err =
     (if sz = 0 then []
      else if sz \<le> length data then Inr (take sz data) # fixed_loop sz (drop sz data) err
      else case err of
             Some e \<Rightarrow> [Inl e]
           | None \<Rightarrow> if data = [] then [] else [Inr data])"
  by pat_completeness auto
termination
  by (relation "measure (\<lambda>(sz, data, err). length data)") auto

declare fixed_loop.simps [simp del]

definition Fixed :: "reader \<Rightarrow> int \<Rightarrow> bytes res list" where
  "Fixed r sz = (if sz \<le> 0 then [Inl ErrChunkSize]
     else fixed_loop (nat sz) (rd_data r) (rd_err r))"

section \<open>CDC\<close>

text \<open>The number of mask bits: the loop \<^verbatim>\<open>for (1 << bits) < targetSize { bits++ }\<close>.\<close>

function cdc_bits :: "nat \<Rightarrow> nat \<Rightarrow> nat" where
  "cdc_bits target bits = (if 2 ^ bits < target then cdc_bits target (Suc bits) else bits)"
  by pat_completeness auto
termination
proof (relation "measure (\<lambda>(target, bits). target - bits)")
  fix target bits :: nat
  assume "2 ^ bits < target"
  moreover have "bits < (2::nat) ^ bits" by (rule less_exp)
  ultimately have "bits < target" by (rule order.strict_trans [rotated])
  then show "((target, Suc bits), target, bits) \<in> measure (\<lambda>(target, bits). target - bits)"
    by simp
qed simp

declare cdc_bits.simps [simp del]

definition cdc_mask :: "nat \<Rightarrow> 64 word" where
  "cdc_mask target = word_of_nat (2 ^ cdc_bits target 0 - 1)"

text \<open>
  The table is declared as \<^verbatim>\<open>[256]uint64\<close> and its literal lists 232 values; Go fills the
  remaining 24 entries with zero.
\<close>

definition gearTable :: "64 word list" where
  "gearTable = [
     0x9f34e5c3c0f16e4a, 0x6a7b1d2e39f8c420, 0x3b8e2f1a7c4d9056, 0xd1c4a8e5b2730f91,
     0x47f3d0629a8e1c5b, 0x8c1e6b3f4a920d7e, 0xe2a50d7819c634bf, 0x5d9f324e6b801ac7,
     0xb4e71c8a3f0d5296, 0x29c068d51e4b9f73, 0x7f3a94b2c0851e6d, 0xc8d31f7a640e92b5,
     0x1a6e8b4f3c9d0257, 0xf0824c1d9e3b6a78, 0x63b9e5d2471a8c0f, 0xa5071c3e6b924df8,
     0x4c3f8a0d21e96b57, 0x8b14d63c7f0e5a29, 0xe94a2f810c736d4b, 0x261d5c9e4a807f38,
     0x7038bc4d1e6a2951, 0xd56f193a80c4e72b, 0x4b827e0d39f15c6a, 0x9c0e61db2a845f37,
     0x53d1f4820e9b7c16, 0xb7e80a3c64952d1f, 0x2a6c197f4d031be8, 0x8e3541b0c762d9f4,
     0x167f9d4a3c810e2b, 0xf48c3256b09d7e14, 0x65b01d8a3942fc7e, 0xab7c5e1628034d9f,
     0x3980b2fd14c76e5a, 0xd0c5a81e6b392f74, 0x4e2f97d01b836c58, 0x94b13f6820c45a7d,
     0x5c7e02a4d91b8f36, 0xb8604c3d1a7f52e9, 0x27934ab0c56e1d80, 0x81d65f2c0e4b9a73,
     0x462c9f350d817be4, 0xc0971a8e4f235d6b, 0x1b83d40c6f9e52a7, 0x7f5e2c04a8319bd6,
     0xd246e8b13c7a059f, 0x3b9f5d7021c4ea68, 0x8e04c1a36b5f9d27, 0x64a83e2019b7f50c,
     0xa15f72d048c39e6b, 0x503c8e1b962da4f7, 0xb7920d4a3fc16e58, 0x2dc48f71a0361b9e,
     0x7361b2c54e09d8af, 0xcf8a4d1736b250e9, 0x1540dc93e07b2a6f, 0x8b27f16e4d39c05a,
     0xe95014c83a7fd26b, 0x4c73ba2d0f81659e, 0x9681c5f34a0e2d7b, 0x3d0f4e8a17962c51,
     0xb2e7901c4a5f3d86, 0x67c34b1fe0928d5a, 0x1a8fd0752b4c9e63, 0xdc132e40f79b6a85,
     0x4f8b60c31d725ea9, 0xa3712de58c046f9b, 0x5e9c84f1270b3da6, 0x0b4e27d3a6819c5f,
     0x6834af09c1752de8, 0xc97d52be3f018a46, 0x2b0e16f980c73d54, 0x85fc3a4e7d19b0c2,
     0x41d08ce62b79f35a, 0xfb6e41a08c250d97, 0x30c8953d7b146fe2, 0x8e5f20c61a7d4b93,
     0x673ba14df8090e5c, 0xca921e83b540fd27, 0x1d6f4c0b7a83e251, 0x78b039d46c1ae09f,
     0xb4c72d8a0f451396, 0x2530f1c78d69b4ae, 0x8ec0461ba3972d50, 0x5d17c4f0b82a6e39,
     0xa3fb29d01c7e4586, 0x4180da56c3f90b2e, 0xec361bc94a870d75, 0x1a79f5d32b0c8e46,
     0x7bc3042f8e561da9, 0xd5817a3c4f92e06b, 0x2e4cd0b18a7935f6, 0x90b74e2a6c013d58,
     0x531ef8a4d0269cb7, 0xba90c5f42d0e3176, 0x06d23e9b5f7c84a1, 0x69c4017de83f52b8,
     0xdc3e85a0f1624b97, 0x418c7b2fe0931d56, 0xb7f0d5c42a8e6019, 0x2e64b98c3d1075af,
     0x8931c4a57f0eb2d6, 0x40dc2f936b75e8a1, 0xfbc1568d2a034e97, 0x1f8a4e7b6c920d53,
     0x75c803b14d2fe6a8, 0xd03f6c5a1e8b2974, 0x4ae9718d3f0c4b52, 0x921b45dc7f6e03a8,
     0x5678f1a30c4d9e2b, 0xbfd0382e95014a67, 0x2c4b1f7980da35e6, 0x8309dc2e4f7b1a5c,
     0x6fa5381c0d79c4be, 0xc02f9b74e3051d68, 0x1753e0c48b2a6df9, 0x7b8da4f31c590e27,
     0xdf2060bc4e1a8375, 0x439c15f7a2086de0, 0xacf8302db5671c49, 0x0d4e1b7836c09fa5,
     0x7081d5e43a2cb916, 0xcfe4093b17802d5a, 0x23b6f80a4c5d1e97, 0x8c19743de06b2fa5,
     0x5a2e9f0b1d73c486, 0xb03f61c74a85d2e9, 0x2749c8e53d1f0a6b, 0x81ba057c3f4d9e20,
     0x4c671ae83090b5d2, 0xf8bd35a14d206c97, 0x163c07e5b8491da2, 0x79e8b0f34256ca1d,
     0xd1408dca7b3f1962, 0x3e8c02f41b7a5d86, 0x9051b67ae23c4f08, 0x47c8290db53e6fa1,
     0xab7f50d312086c4e, 0x0e3ab16c7f45d982, 0x6c84d0f25a39107b, 0xc9053e7b4d821fa6,
     0x1548a0d37b96f2ce, 0x70b92e15f4831cd6, 0xda6f80b23c4917e5, 0x3105e4b97c2d6fa8,
     0x8cd3a0516e2f4b97, 0x5b9e42f30a7c1d86, 0xbf031a6e9c7840d2, 0x26d45b0f83e10ca7,
     0x8f60c2de1a4937b5, 0x421f7e8b30950ca6, 0xec8d3b5f7c0241a9, 0x0934f1a7c86d05be,
     0x7b5ce4230f1a8d96, 0xd81b7690f34a25ce, 0x4053a2db7f6e1c89, 0xac97348b201f6d5e,
     0x1e4f8b0d37c69a52, 0x7890d5ea4b2c13f6, 0xdf2461c0893b7a15, 0x3a685f9e1d4c20b7,
     0x93c0d4f72e815b46, 0x50a7831cd4f09e2b, 0xb4e01f5a3c86d297, 0x2b6d94c7f0a31058,
     0x8751c0e43d6b9f2a, 0x4c0e25f980b37a16, 0xfb8d47c01a3296e5, 0x1239b0c87e6f4d5a,
     0x7e64fa2c130b8d97, 0xd90e7b3f4a251c86, 0x3dc8014e7b9f6250, 0x921b58a43c0fd7e6,
     0x5f83d01c2a796eb4, 0xbc4e2f07639d1a58, 0x0a718db54c2e6f93, 0x68c0349fe72b15a0,
     0xd1f5820b3c4a9e67, 0x3a4d7b9c610e58f2, 0x9560af2e1b4d73c8, 0x52b8e0f43c0a19d6,
     0xb04f93e71d56c28a, 0x2d8a17046c3b9fe5, 0x87f5e24c0b391da6, 0x43160cb98e7f52d0,
     0xfe924a7b3d0158c6, 0x1bc5d48e7a236f90, 0x7831f9c04b6ad25e, 0xd4c2057a3b91e6f8,
     0x3069bd4ef5280ca1, 0x9a5f234c1e7d60b8, 0x57c0ba8e4f319d26, 0xb1e4380d73956ca0,
     0x2cf7104a86b3d59e, 0x8340b2f5c96e01d7, 0x48d2e93b7a0c5f61, 0xf5081c6adb730e94,
     0x13e9d0c47f8b625a, 0x7a4b25f83c609de1, 0xde01c7a48b5f23e6, 0x36f84e92c1a7d05b,
     0x9c2b06d15f4a38e7, 0x5971b38e2c0df4a6, 0xb4e0d2f43a815c09, 0x21c7809e5b4d3fa6,
     0x86f3c41d7a029e58, 0x4a08b69fd23c517e, 0xfc7d412a8e053b96, 0x1043a6c87b9f2d5e,
     0x7e69bc30f5214a98, 0xd204f8c1b3760e5a, 0x3e90d24a79f1b58c, 0x9b56a403d20e7c1f,
     0x5731cf8a4b960d2e, 0xb8e04d1672853acf, 0x2509b3e7c8f01d46, 0x8ac4701b3f9d6528,
     0x4618fe2b0c4a97d5, 0xf0cd38a17b652e09, 0x1d72b0c58a94f63e, 0x79e5c4d030b21fa8,
     0xd361f85a4c027b9e, 0x3c8d017e4b69af52, 0x9a20e6b53d810c47, 0x57b4fa028c3619de,
     0xbc01e7539f2d4a86, 0x2de4930b7f618c50, 0x83f76c4d1a09b52e, 0x410cb9e27f3d8065,
     0xfeb2574c0a81d39e, 0x1c674b8f3d520ea9, 0x7a08d3c65e9b24f1, 0xd4bf290a3c1e7658]
     @ replicate 24 0"

definition gear_step :: "64 word \<Rightarrow> byte \<Rightarrow> 64 word" where
  "gear_step gear b = push_bit 1 gear XOR (gearTable ! unat b)"

text \<open>
  The inner loop from \<open>n\<close> bytes already buffered: the length of the chunk and whether the
  reader ended before a boundary was found. A read error and the end of the input take the
  same branch of the source.
\<close>

fun cdc_scan :: "nat \<Rightarrow> nat \<Rightarrow> 64 word \<Rightarrow> nat \<Rightarrow> 64 word \<Rightarrow> bytes \<Rightarrow> nat \<times> bool" where
  "cdc_scan minS maxS msk n gear [] = (n, n < maxS)"
| "cdc_scan minS maxS msk n gear (b # bs) =
     (if n < maxS then
        (let gear' = gear_step gear b; n' = n + 1 in
         if minS \<le> n' \<and> gear' AND msk = 0 then (n', False)
         else cdc_scan minS maxS msk n' gear' bs)
      else (n, False))"

function cdc_loop :: "nat \<Rightarrow> nat \<Rightarrow> 64 word \<Rightarrow> bytes \<Rightarrow> bytes list" where
  "cdc_loop minS maxS msk data =
     (case cdc_scan minS maxS msk 0 0 data of (n, ended) \<Rightarrow>
        if ended then (if n > 0 then [take n data] else [])
        else if n = 0 \<or> data = [] then []
        else take n data # cdc_loop minS maxS msk (drop n data))"
  by pat_completeness auto
termination
  by (relation "measure (\<lambda>(minS, maxS, msk, data). length data)") auto

declare cdc_loop.simps [simp del]

definition CDC :: "reader \<Rightarrow> int \<Rightarrow> int \<Rightarrow> int \<Rightarrow> bytes res list" where
  "CDC r minSize targetSize maxSize =
     (if minSize \<le> 0 \<or> targetSize \<le> 0 \<or> maxSize \<le> 0 then [Inl ErrChunkSize]
      else if minSize > targetSize \<or> targetSize > maxSize then [Inl ErrChunkSize]
      else map Inr (cdc_loop (nat minSize) (nat maxSize) (cdc_mask (nat targetSize)) (rd_data r)))"


section \<open>Fixed is lossless\<close>

lemma fixed_loop_EOF:
  assumes "0 < sz"
  shows "\<exists>cs. fixed_loop sz data None = map Inr cs \<and> concat cs = data
    \<and> (\<forall>c \<in> set cs. 0 < length c \<and> length c \<le> sz) \<and> (\<forall>c \<in> set (butlast cs). length c = sz)"
  using assms
proof (induction sz data "None :: error option" rule: fixed_loop.induct)
  case (1 sz data)
  show ?case
  proof (cases "sz \<le> length data")
    case True
    with 1 obtain cs where cs: "fixed_loop sz (drop sz data) None = map Inr cs"
      "concat cs = drop sz data" "\<forall>c \<in> set cs. 0 < length c \<and> length c \<le> sz"
      "\<forall>c \<in> set (butlast cs). length c = sz" by auto
    let ?cs = "take sz data # cs"
    have "fixed_loop sz data None = map Inr ?cs" and "concat ?cs = data"
      using True cs 1(2) by (simp_all add: fixed_loop.simps [of sz data])
    moreover have "\<forall>c \<in> set ?cs. 0 < length c \<and> length c \<le> sz" and "\<forall>c \<in> set (butlast ?cs). length c = sz"
      using True cs(3,4) 1(2) by auto
    ultimately show ?thesis by blast
  next
    case False
    let ?cs = "if data = [] then [] else [data]"
    have "fixed_loop sz data None = map Inr ?cs"
      using False 1(2) by (simp add: fixed_loop.simps [of sz data])
    moreover have "concat ?cs = data" and "\<forall>c \<in> set ?cs. 0 < length c \<and> length c \<le> sz"
      and "\<forall>c \<in> set (butlast ?cs). length c = sz"
      using False by auto
    ultimately show ?thesis by blast
  qed
qed

lemma fixed_loop_error:
  assumes "0 < sz"
  shows "\<exists>cs rest. fixed_loop sz data (Some e) = map Inr cs @ [Inl e] \<and> data = concat cs @ rest
    \<and> (\<forall>c \<in> set cs. length c = sz) \<and> length rest < sz"
  using assms
proof (induction sz data "Some e :: error option" rule: fixed_loop.induct)
  case (1 sz data)
  show ?case
  proof (cases "sz \<le> length data")
    case True
    with 1 obtain cs rest where cs: "fixed_loop sz (drop sz data) (Some e) = map Inr cs @ [Inl e]"
      "drop sz data = concat cs @ rest" "\<forall>c \<in> set cs. length c = sz" "length rest < sz" by auto
    have "fixed_loop sz data (Some e) = map Inr (take sz data # cs) @ [Inl e]"
      using True cs(1) 1(2) by (simp add: fixed_loop.simps [of sz data])
    moreover have "data = concat (take sz data # cs) @ rest"
      by (metis append.assoc append_take_drop_id concat.simps(2) cs(2))
    ultimately show ?thesis using cs(3,4) True by (metis length_take min.absorb2 set_ConsD)
  next
    case False
    then have "fixed_loop sz data (Some e) = map Inr [] @ [Inl e]"
      using 1(2) by (simp add: fixed_loop.simps [of sz data])
    then show ?thesis using False
      by (metis append.left_neutral concat.simps(1) empty_iff empty_set linorder_not_le)
  qed
qed

section \<open>CDC is lossless, bounded and local\<close>

lemma cdc_scan_bounds:
  assumes "cdc_scan minS maxS msk n gear data = (m, ended)"
  shows "n \<le> m \<and> m \<le> n + length data \<and> (m \<le> maxS \<or> m = n) \<and> (ended \<longrightarrow> m = n + length data)
    \<and> (\<not> ended \<longrightarrow> n < maxS \<longrightarrow> n < m \<and> (minS \<le> m \<or> m = maxS))"
  using assms
proof (induction data arbitrary: n gear)
  case Nil
  then show ?case by auto
next
  case (Cons b bs)
  show ?case
  proof (cases "n < maxS \<and> \<not> (minS \<le> n + 1 \<and> gear_step gear b AND msk = 0)")
    case True
    then have "cdc_scan minS maxS msk (n + 1) (gear_step gear b) bs = (m, ended)"
      using Cons.prems by (auto simp: Let_def)
    from Cons.IH [OF this] True show ?thesis by auto
  next
    case False
    with Cons.prems show ?thesis by (auto simp: Let_def split: if_splits)
  qed
qed

text \<open>A boundary depends only on the bytes before it, back to the previous boundary.\<close>

lemma cdc_scan_prefix:
  assumes "cdc_scan minS maxS msk n gear (xs @ zs) = (m, False)" and "m \<le> n + length xs" and "n < maxS"
  shows "cdc_scan minS maxS msk n gear (xs @ ys) = (m, False)"
  using assms
proof (induction xs arbitrary: n gear)
  case Nil
  then show ?case using cdc_scan_bounds [of minS maxS msk n gear zs m False] by auto
next
  case (Cons b bs)
  show ?case
  proof (cases "minS \<le> n + 1 \<and> gear_step gear b AND msk = 0")
    case True
    with Cons.prems show ?thesis by (auto simp: Let_def)
  next
    case False
    then have rec: "cdc_scan minS maxS msk (n + 1) (gear_step gear b) (bs @ zs) = (m, False)"
      using Cons.prems by (auto simp: Let_def)
    show ?thesis
    proof (cases "n + 1 < maxS")
      case True
      with Cons.IH [OF rec] Cons.prems False show ?thesis by (auto simp: Let_def)
    next
      case stop: False
      have "cdc_scan minS maxS msk (n + 1) (gear_step gear b) us = (n + 1, False)" for us
        using stop Cons.prems(3) by (cases us) auto
      with rec False Cons.prems(3) show ?thesis by (auto simp: Let_def)
    qed
  qed
qed

lemma cdc_loop_concat: "0 < maxS \<Longrightarrow> concat (cdc_loop minS maxS msk data) = data"
proof (induction minS maxS msk data rule: cdc_loop.induct)
  case (1 minS maxS msk data)
  obtain n ended where sc: "cdc_scan minS maxS msk 0 0 data = (n, ended)" by fastforce
  note b = cdc_scan_bounds [OF sc]
  show ?case
    using 1 sc b by (subst cdc_loop.simps) (auto split: if_splits)
qed

lemma cdc_loop_sizes:
  assumes "0 < maxS"
  shows "\<forall>c \<in> set (cdc_loop minS maxS msk data). 0 < length c \<and> length c \<le> maxS"
    and "minS \<le> maxS \<Longrightarrow> \<forall>c \<in> set (butlast (cdc_loop minS maxS msk data)). minS \<le> length c"
  using assms
proof (induction minS maxS msk data rule: cdc_loop.induct)
  case (1 minS maxS msk data)
  obtain n ended where sc: "cdc_scan minS maxS msk 0 0 data = (n, ended)" by fastforce
  note b = cdc_scan_bounds [OF sc]
  {
    case 1
    show ?case using "1.IH"(1) sc b 1 by (subst cdc_loop.simps) auto
  next
    case 2
    show ?case using "1.IH"(2) sc b 2 by (subst cdc_loop.simps) auto
  }
qed

lemma cdc_loop_local:
  assumes "cdc_loop minS maxS msk (xs @ zs) = cs @ cs'" and "concat cs = xs" and "zs \<noteq> []" and "0 < maxS"
  shows "cdc_loop minS maxS msk (xs @ ys) = cs @ cdc_loop minS maxS msk ys"
  using assms
proof (induction cs arbitrary: xs)
  case Nil
  then show ?case by simp
next
  case (Cons c cs)
  obtain n ended where sc: "cdc_scan minS maxS msk 0 0 (xs @ zs) = (n, ended)" by fastforce
  note b = cdc_scan_bounds [OF sc]
  have len: "length c \<le> length xs" using Cons.prems(2) by auto
  have nend: "\<not> ended"
  proof
    assume ended
    then have "c = xs @ zs" using Cons.prems(1) sc b by (subst (asm) cdc_loop.simps) (auto split: if_splits)
    with len Cons.prems(3) show False by simp
  qed
  then have c: "c = take n (xs @ zs)" and rest: "cdc_loop minS maxS msk (drop n (xs @ zs)) = cs @ cs'"
    using Cons.prems(1) sc by (subst (asm) cdc_loop.simps, auto split: if_splits)+
  have n: "0 < n" "n \<le> length xs" using b nend Cons.prems(4) len c by auto
  have sc': "cdc_scan minS maxS msk 0 0 (xs @ ys) = (n, False)"
    using cdc_scan_prefix [of minS maxS msk 0 0 xs zs n ys] sc nend n Cons.prems(4) by simp
  have cx: "c = take n xs" using c n by simp
  have "concat cs = drop n xs" using Cons.prems(2) cx by (metis append_eq_conv_conj append_take_drop_id concat.simps(2) same_append_eq)
  from Cons.IH [OF _ this Cons.prems(3,4)] rest n
  have "cdc_loop minS maxS msk (drop n xs @ ys) = cs @ cdc_loop minS maxS msk ys" by simp
  then show ?case using sc' n cx by (subst cdc_loop.simps) (auto split: prod.splits)
qed


section \<open>Bytes outside the listed gear values\<close>

lemma gearTable_high: "232 \<le> unat b \<Longrightarrow> gearTable ! unat (b :: byte) = 0"
  using byte_less_256 [of b] by (simp add: gearTable_def nth_append)

lemma gear_step_high: "232 \<le> unat b \<Longrightarrow> gear_step 0 b = 0"
  by (simp add: gear_step_def gearTable_high)

lemma cdc_scan_high:
  assumes "\<forall>b \<in> set data. 232 \<le> unat b" and "n < minS" and "minS \<le> maxS"
  shows "cdc_scan minS maxS msk n 0 data =
    (if minS \<le> n + length data then (minS, False) else (n + length data, True))"
  using assms by (induction data arbitrary: n) (auto simp: Let_def gear_step_high)

lemma cdc_loop_high:
  assumes "\<forall>b \<in> set data. 232 \<le> unat b" and "0 < minS" and "minS \<le> maxS"
  shows "map Inr (cdc_loop minS maxS msk data) = fixed_loop minS data None"
  using assms
proof (induction data rule: length_induct)
  case (1 data)
  show ?case
  proof (cases "minS \<le> length data")
    case True
    then have "length (drop minS data) < length data" "\<forall>b \<in> set (drop minS data). 232 \<le> unat b"
      using 1(2,3) by (auto dest: in_set_dropD)
    with 1 have "map Inr (cdc_loop minS maxS msk (drop minS data)) = fixed_loop minS (drop minS data) None"
      by blast
    then show ?thesis using cdc_scan_high [OF 1(2), of 0 minS maxS msk] 1(3,4) True
      by (subst cdc_loop.simps, subst fixed_loop.simps) auto
  next
    case False
    then show ?thesis using cdc_scan_high [OF 1(2), of 0 minS maxS msk] 1(3,4)
      by (subst cdc_loop.simps, subst fixed_loop.simps) auto
  qed
qed

section \<open>Properties\<close>

text \<open>
  The fixed-size chunker loses nothing. On a reader that ends cleanly the chunks are a
  partition of its bytes, every chunk but the last has exactly the asked size and the last is
  neither empty nor longer.
\<close>

lemma Fixed_lossless:
  assumes "0 < sz" and "rd_err r = None"
  shows "\<exists>cs. Fixed r sz = map Inr cs \<and> concat cs = rd_data r
    \<and> (\<forall>c \<in> set cs. 0 < length c \<and> int (length c) \<le> sz)
    \<and> (\<forall>c \<in> set (butlast cs). int (length c) = sz)"
proof -
  obtain cs where "fixed_loop (nat sz) (rd_data r) None = map Inr cs" "concat cs = rd_data r"
    "\<forall>c \<in> set cs. 0 < length c \<and> length c \<le> nat sz" "\<forall>c \<in> set (butlast cs). length c = nat sz"
    using fixed_loop_EOF [of "nat sz" "rd_data r"] assms by auto
  moreover have "Fixed r sz = fixed_loop (nat sz) (rd_data r) None"
    using assms by (simp add: Fixed_def)
  ultimately show ?thesis using assms(1) by (intro exI [of _ cs]) (auto simp: le_nat_iff)
qed

lemma Fixed_lossless_witness:
  "\<exists>cs. Fixed \<lparr>rd_data = [1, 2, 3, 4, 5], rd_err = None\<rparr> 2 = map Inr cs \<and> concat cs = [1, 2, 3, 4, 5]
    \<and> (\<forall>c \<in> set cs. 0 < length c \<and> int (length c) \<le> 2)
    \<and> (\<forall>c \<in> set (butlast cs). int (length c) = 2)"
  using Fixed_lossless [of 2 "\<lparr>rd_data = [1, 2, 3, 4, 5], rd_err = None\<rparr>"] by simp

text \<open>
  A read error is never mistaken for the end of the file. The fixed chunker yields the full
  chunks read so far and then the error; the bytes of the unfinished chunk are not yielded.
\<close>

lemma Fixed_reports_read_error:
  assumes "0 < sz" and "rd_err r = Some e"
  shows "\<exists>cs rest. Fixed r sz = map Inr cs @ [Inl e] \<and> rd_data r = concat cs @ rest
    \<and> (\<forall>c \<in> set cs. int (length c) = sz) \<and> int (length rest) < sz"
proof -
  obtain cs rest where "fixed_loop (nat sz) (rd_data r) (Some e) = map Inr cs @ [Inl e]"
    "rd_data r = concat cs @ rest" "\<forall>c \<in> set cs. length c = nat sz" "length rest < nat sz"
    using fixed_loop_error [of "nat sz" "rd_data r" e] assms by auto
  moreover have "Fixed r sz = fixed_loop (nat sz) (rd_data r) (Some e)"
    using assms by (simp add: Fixed_def)
  ultimately show ?thesis using assms(1) by (intro exI [of _ cs] exI [of _ rest]) auto
qed

lemma Fixed_reports_read_error_witness:
  "\<exists>cs rest. Fixed \<lparr>rd_data = [1, 2, 3], rd_err = Some ErrRead\<rparr> 2 = map Inr cs @ [Inl ErrRead]
    \<and> [1, 2, 3] = concat cs @ rest \<and> (\<forall>c \<in> set cs. int (length c) = 2) \<and> int (length rest) < 2"
  using Fixed_reports_read_error [of 2 "\<lparr>rd_data = [1, 2, 3], rd_err = Some ErrRead\<rparr>" ErrRead] by simp

text \<open>
  C27: the content-defined chunker loses nothing and keeps its size bounds: its chunks are a
  partition of the bytes delivered, none is longer than the maximum, and every chunk but the
  last is at least the minimum.
\<close>

theorem CDC_lossless_bounded:
  assumes "0 < minSize" and "minSize \<le> targetSize" and "targetSize \<le> maxSize"
  shows "\<exists>cs. CDC r minSize targetSize maxSize = map Inr cs \<and> concat cs = rd_data r
    \<and> (\<forall>c \<in> set cs. 0 < length c \<and> int (length c) \<le> maxSize)
    \<and> (\<forall>c \<in> set (butlast cs). minSize \<le> int (length c))"
proof -
  let ?cs = "cdc_loop (nat minSize) (nat maxSize) (cdc_mask (nat targetSize)) (rd_data r)"
  have p: "0 < nat maxSize" "nat minSize \<le> nat maxSize" using assms by auto
  have "CDC r minSize targetSize maxSize = map Inr ?cs" using assms by (simp add: CDC_def)
  moreover have "concat ?cs = rd_data r" using p(1) by (rule cdc_loop_concat)
  moreover have "\<forall>c \<in> set ?cs. 0 < length c \<and> int (length c) \<le> maxSize"
    using cdc_loop_sizes(1) [OF p(1), of "nat minSize" "cdc_mask (nat targetSize)" "rd_data r"] assms by auto
  moreover have "\<forall>c \<in> set (butlast ?cs). minSize \<le> int (length c)"
    using cdc_loop_sizes(2) [OF p, of "cdc_mask (nat targetSize)" "rd_data r"] assms by auto
  ultimately show ?thesis by blast
qed

theorem CDC_lossless_bounded_witness:
  "\<exists>cs. CDC \<lparr>rd_data = [7, 8, 9], rd_err = None\<rparr> 1 2 4 = map Inr cs \<and> concat cs = [7, 8, 9]
    \<and> (\<forall>c \<in> set cs. 0 < length c \<and> int (length c) \<le> 4)
    \<and> (\<forall>c \<in> set (butlast cs). 1 \<le> int (length c))"
  using CDC_lossless_bounded [of 1 2 4 "\<lparr>rd_data = [7, 8, 9], rd_err = None\<rparr>"] by simp

text \<open>
  chunk boundaries are content-defined. If a boundary falls right after \<open>xs\<close> in one
  file, it falls there in every file that starts with \<open>xs\<close>: the chunks of \<open>xs\<close> are the same
  and what follows is chunked as if it stood alone, so an edit after a boundary never changes
  the chunks before it and a shared tail after a boundary is chunked alike in both files.
\<close>

lemma CDC_boundary_local:
  assumes "0 < minSize" and "minSize \<le> targetSize" and "targetSize \<le> maxSize"
    and "CDC \<lparr>rd_data = xs @ zs, rd_err = e1\<rparr> minSize targetSize maxSize = map Inr cs @ rest"
    and "concat cs = xs" and "zs \<noteq> []"
  shows "CDC \<lparr>rd_data = xs @ ys, rd_err = e2\<rparr> minSize targetSize maxSize
    = map Inr cs @ CDC \<lparr>rd_data = ys, rd_err = e3\<rparr> minSize targetSize maxSize"
proof -
  let ?f = "cdc_loop (nat minSize) (nat maxSize) (cdc_mask (nat targetSize))"
  have cdc: "CDC \<lparr>rd_data = d, rd_err = e\<rparr> minSize targetSize maxSize = map Inr (?f d)" for d e
    using assms(1-3) by (simp add: CDC_def)
  then have "?f (xs @ zs) = cs @ drop (length cs) (?f (xs @ zs))"
    using assms(4) by (auto simp: map_eq_append_conv dest!: map_injective [OF _ inj_Inr])
  then have "?f (xs @ ys) = cs @ ?f ys"
    by (rule cdc_loop_local) (use assms in auto)
  then show ?thesis by (simp add: cdc)
qed

lemma CDC_boundary_local_witness:
  "CDC \<lparr>rd_data = [255, 240] @ [1, 2], rd_err = None\<rparr> 2 4 8
    = map Inr [[255, 240]] @ CDC \<lparr>rd_data = [1, 2], rd_err = None\<rparr> 2 4 8"
proof (rule CDC_boundary_local)
  show "CDC \<lparr>rd_data = [255, 240] @ [233], rd_err = None\<rparr> 2 4 8 = map Inr [[255, 240]] @ [Inr [233]]"
    by code_simp
qed simp_all

text \<open>
  a finding. The gear table lists 232 of its 256 values; the other 24 are zero, so bytes
  from 232 on leave the rolling hash at zero. A file of such bytes is cut at exactly the
  minimum size everywhere: content-defined chunking degenerates to the fixed chunker with the
  minimum size instead of averaging the target size.
\<close>

lemma CDC_high_bytes_degenerate:
  assumes "0 < minSize" and "minSize \<le> targetSize" and "targetSize \<le> maxSize"
    and "\<forall>b \<in> set (rd_data r). 232 \<le> unat b"
  shows "CDC r minSize targetSize maxSize = Fixed (r\<lparr>rd_err := None\<rparr>) minSize"
  using cdc_loop_high [of "rd_data r" "nat minSize" "nat maxSize" "cdc_mask (nat targetSize)"] assms
  by (simp add: CDC_def Fixed_def)

lemma CDC_high_bytes_degenerate_witness:
  "CDC \<lparr>rd_data = [255, 240, 232, 233, 250], rd_err = None\<rparr> 2 4 8
    = Fixed (\<lparr>rd_data = [255, 240, 232, 233, 250], rd_err = None\<rparr>\<lparr>rd_err := None\<rparr>) 2"
  by (rule CDC_high_bytes_degenerate) simp_all

text \<open>
  A finding. Unlike the fixed chunker, the content-defined one treats a failed read as the
  end of the input: it yields the same chunks, all as successes, whether the reader ended
  cleanly or broke, so a truncated upload looks complete.
\<close>

lemma CDC_hides_read_error:
  "CDC \<lparr>rd_data = d, rd_err = Some e\<rparr> minSize targetSize maxSize
     = CDC \<lparr>rd_data = d, rd_err = None\<rparr> minSize targetSize maxSize"
  by (simp add: CDC_def)

end
