(* ===== verification/Erasure.thy ===== *)
theory Erasure
  imports Prelude
begin

text \<open>
  \<^verbatim>\<open>src/internal/erasure\<close>: the length framing around Reed-Solomon coding. The codec
  itself (github.com/klauspost/reedsolomon) is a parameter, a record of its four methods
  obtained from its constructor; \<open>rs_law\<close> states what its documentation promises.
\<close>

unbundle bit_operations_syntax

section \<open>The Reed-Solomon library\<close>

record rs_encoder =
  rs_Split :: "bytes \<Rightarrow> bytes list res"
  rs_Encode :: "bytes list \<Rightarrow> bytes list res"
  rs_Reconstruct :: "bytes option list \<Rightarrow> bytes list res"
  rs_Join :: "bytes list \<Rightarrow> nat \<Rightarrow> bytes res"

type_synonym rs_new = "int \<Rightarrow> int \<Rightarrow> rs_encoder res"

definition present :: "'a option list \<Rightarrow> nat" where
  "present os = length (filter (\<lambda>s. s \<noteq> None) os)"

text \<open>\<open>os\<close> is the codeword \<open>cw\<close> with some shards lost.\<close>

definition erased :: "'a option list \<Rightarrow> 'a list \<Rightarrow> bool" where
  "erased os cw \<longleftrightarrow> list_all2 (\<lambda>s c. s = None \<or> s = Some c) os cw"

definition equal_len :: "bytes list \<Rightarrow> nat \<Rightarrow> bool" where
  "equal_len sh L \<longleftrightarrow> (\<forall>s \<in> set sh. length s = L)"

text \<open>
  The documented behaviour for \<open>k\<close> data and \<open>m\<close> parity shards: Split cuts non-empty data into
  \<open>k + m\<close> shards of one positive length whose first \<open>k\<close> are the data, zero-padded; Encode of such shards
  keeps the data shards and fills in parity; Reconstruct restores an encoded set of shards
  from any \<open>k\<close> of them; Join writes out the first bytes of the data shards.
\<close>

definition rs_law :: "rs_encoder \<Rightarrow> nat \<Rightarrow> nat \<Rightarrow> bool" where
  "rs_law E k m \<longleftrightarrow>
     (\<forall>d. d \<noteq> [] \<longrightarrow> (\<exists>sh L pad. rs_Split E d = Inr sh \<and> length sh = k + m \<and> equal_len sh L \<and> 0 < L
        \<and> concat (take k sh) = d @ replicate pad 0)) \<and>
     (\<forall>sh L. length sh = k + m \<longrightarrow> equal_len sh L \<longrightarrow> 0 < L \<longrightarrow>
        (\<exists>cw. rs_Encode E sh = Inr cw \<and> length cw = k + m \<and> equal_len cw L \<and> take k cw = take k sh)) \<and>
     (\<forall>sh L cw os. length sh = k + m \<longrightarrow> equal_len sh L \<longrightarrow> 0 < L \<longrightarrow> rs_Encode E sh = Inr cw \<longrightarrow>
        erased os cw \<longrightarrow> k \<le> present os \<longrightarrow> rs_Reconstruct E os = Inr cw) \<and>
     (\<forall>sh n. k \<le> length sh \<longrightarrow> n \<le> length (concat (take k sh)) \<longrightarrow>
        rs_Join E sh n = Inr (take n (concat (take k sh))))"

section \<open>Params\<close>

record params =
  param_K :: int
  param_M :: int

definition params_N :: "params \<Rightarrow> int" where
  "params_N p = param_K p + param_M p"

definition params_validate :: "params \<Rightarrow> unit res" where
  "params_validate p =
     (if param_K p < 1 \<or> param_M p < 1 then Inl ErrParams
      else if params_N p > 256 then Inl ErrParams
      else Inr ())"

definition encoder :: "rs_new \<Rightarrow> params \<Rightarrow> rs_encoder res" where
  "encoder new p = bindR (params_validate p) (\<lambda>_. new (param_K p) (param_M p))"

definition headerSize :: nat where
  "headerSize = 8"

section \<open>Encode and Decode\<close>

definition Encode :: "rs_new \<Rightarrow> params \<Rightarrow> bytes \<Rightarrow> bytes list res" where
  "Encode new p data =
     bindR (encoder new p) (\<lambda>enc.
     let payload = be_put headerSize (length data) @ data in
     bindR (rs_Split enc payload) (\<lambda>shards. rs_Encode enc shards))"

definition Decode :: "rs_new \<Rightarrow> params \<Rightarrow> bytes option list \<Rightarrow> bytes res" where
  "Decode new p shards =
     bindR (encoder new p) (\<lambda>enc.
     if int (length shards) \<noteq> params_N p then Inl ErrCodec
     else if int (present shards) < param_K p then Inl ErrTooFewShards
     else bindR (rs_Reconstruct enc shards) (\<lambda>full.
       let shardLen = length (full ! 0); size = nat (param_K p) * shardLen in
       bindR (rs_Join enc full size) (\<lambda>payload.
         if length payload < headerSize then Inl ErrCodec
         else let origLen = be_get (take headerSize payload) in
           if length payload - headerSize < origLen then Inl ErrCodec
           else Inr (take origLen (drop headerSize payload)))))"

definition params_ok :: "params \<Rightarrow> bool" where
  "params_ok p \<longleftrightarrow> 1 \<le> param_K p \<and> 1 \<le> param_M p \<and> params_N p \<le> 256"

text \<open>The library gives an encoder for these parameters, and it behaves as documented.\<close>

definition codec_ok :: "rs_new \<Rightarrow> params \<Rightarrow> bool" where
  "codec_ok new p \<longleftrightarrow> params_ok p \<and>
     (\<exists>E. new (param_K p) (param_M p) = Inr E \<and> rs_law E (nat (param_K p)) (nat (param_M p)))"

lemma encoder_ok: "params_ok p \<Longrightarrow> encoder new p = new (param_K p) (param_M p)"
  by (simp add: params_ok_def encoder_def params_validate_def)

lemma encoder_invalid: "\<not> params_ok p \<Longrightarrow> encoder new p = Inl ErrParams"
  by (auto simp: params_ok_def encoder_def params_validate_def)

lemma params_nat:
  "params_ok p \<Longrightarrow> nat (param_K p) + nat (param_M p) = nat (params_N p)"
  "params_ok p \<Longrightarrow> 1 \<le> nat (param_K p)"
  "params_ok p \<Longrightarrow> 0 \<le> params_N p"
  by (auto simp: params_ok_def params_N_def)

lemma length_concat_equal: "equal_len sh L \<Longrightarrow> length (concat sh) = length sh * L"
  by (induction sh) (auto simp: equal_len_def)

lemma erased_length: "erased os cw \<Longrightarrow> length os = length cw"
  by (auto simp: erased_def dest: list_all2_lengthD)

section \<open>Encoding and decoding\<close>

lemma rs_law_split:
  "rs_law E k m \<Longrightarrow> d \<noteq> [] \<Longrightarrow> \<exists>sh L pad. rs_Split E d = Inr sh \<and> length sh = k + m \<and> equal_len sh L
    \<and> 0 < L \<and> concat (take k sh) = d @ replicate pad 0"
  by (simp add: rs_law_def)

lemma rs_law_encode:
  "rs_law E k m \<Longrightarrow> length sh = k + m \<Longrightarrow> equal_len sh L \<Longrightarrow> 0 < L \<Longrightarrow>
    \<exists>cw. rs_Encode E sh = Inr cw \<and> length cw = k + m \<and> equal_len cw L \<and> take k cw = take k sh"
  by (simp add: rs_law_def)

lemma rs_law_reconstruct:
  "rs_law E k m \<Longrightarrow> length sh = k + m \<Longrightarrow> equal_len sh L \<Longrightarrow> 0 < L \<Longrightarrow> rs_Encode E sh = Inr cw \<Longrightarrow>
    erased os cw \<Longrightarrow> k \<le> present os \<Longrightarrow> rs_Reconstruct E os = Inr cw"
  unfolding rs_law_def by blast

lemma rs_law_join:
  "rs_law E k m \<Longrightarrow> k \<le> length sh \<Longrightarrow> n \<le> length (concat (take k sh)) \<Longrightarrow>
    rs_Join E sh n = Inr (take n (concat (take k sh)))"
  by (simp add: rs_law_def)

lemma equal_len_take: "equal_len sh L \<Longrightarrow> equal_len (take k sh) L"
  by (auto simp: equal_len_def dest: in_set_takeD)

lemma Encode_shape:
  assumes "codec_ok new p"
  shows "\<exists>cw E sh L pad. Encode new p data = Inr cw \<and> length cw = nat (params_N p) \<and> equal_len cw L \<and> 0 < L
    \<and> new (param_K p) (param_M p) = Inr E \<and> rs_law E (nat (param_K p)) (nat (param_M p))
    \<and> length sh = nat (params_N p) \<and> equal_len sh L \<and> rs_Encode E sh = Inr cw
    \<and> concat (take (nat (param_K p)) cw) = be_put headerSize (length data) @ data @ replicate pad 0"
proof -
  obtain E where ok: "params_ok p" and E: "new (param_K p) (param_M p) = Inr E"
    and law: "rs_law E (nat (param_K p)) (nat (param_M p))"
    using assms by (auto simp: codec_ok_def)
  have N: "nat (param_K p) + nat (param_M p) = nat (params_N p)"
    using params_nat(1) [OF ok] .
  have "be_put headerSize (length data) @ data \<noteq> []"
    by (metis append_is_Nil_conv headerSize_def length_be_put list.size(3) zero_neq_numeral)
  from rs_law_split [OF law this] obtain sh L pad where
    sh: "rs_Split E (be_put headerSize (length data) @ data) = Inr sh" "length sh = nat (params_N p)"
      "equal_len sh L" "0 < L"
      "concat (take (nat (param_K p)) sh) = (be_put headerSize (length data) @ data) @ replicate pad 0"
    by (auto simp: N)
  from rs_law_encode [OF law _ sh(3,4)] sh(2) obtain cw where
    cw: "rs_Encode E sh = Inr cw" "length cw = nat (params_N p)" "equal_len cw L"
      "take (nat (param_K p)) cw = take (nat (param_K p)) sh" by (auto simp: N)
  have "Encode new p data = Inr cw"
    using sh(1) cw(1) E by (simp add: Encode_def encoder_ok [OF ok])
  with sh cw E law show ?thesis by auto
qed

lemma Decode_erased:
  assumes ok: "codec_ok new p" and enc: "Encode new p data = Inr cw" and er: "erased os cw"
    and k: "param_K p \<le> int (present os)" and len: "length data < 2 ^ 64"
  shows "Decode new p os = Inr data"
proof -
  let ?k = "nat (param_K p)"
  obtain E sh L pad where S: "length cw = nat (params_N p)" "equal_len cw L" "0 < L"
    "new (param_K p) (param_M p) = Inr E" "rs_law E ?k (nat (param_M p))"
    "length sh = nat (params_N p)" "equal_len sh L" "rs_Encode E sh = Inr cw"
    "concat (take ?k cw) = be_put headerSize (length data) @ data @ replicate pad 0"
    using Encode_shape [OF ok, of data] enc by auto
  have pok: "params_ok p" using ok by (simp add: codec_ok_def)
  have N: "?k + nat (param_M p) = nat (params_N p)" "1 \<le> ?k"
    using params_nat [OF pok] by auto
  have rec: "rs_Reconstruct E os = Inr cw"
    using rs_law_reconstruct [OF S(5) _ S(7,3,8) er] S(6) N k by simp
  have "cw \<noteq> []" using S(1) N by auto
  then have L: "length (cw ! 0) = L" using S(2) by (simp add: equal_len_def)
  have tot: "?k * L = length (concat (take ?k cw))"
    using length_concat_equal [OF equal_len_take [OF S(2)], of ?k] S(1) N by simp
  have join: "rs_Join E cw (?k * L) = Inr (be_put headerSize (length data) @ data @ replicate pad 0)"
    using rs_law_join [OF S(5), of cw "?k * L"] S(1,9) N tot by simp
  have "(2::nat) ^ 64 = 256 ^ 8" by simp
  then have "be_get (be_put headerSize (length data)) = length data"
    using len by (simp add: headerSize_def be_get_be_put_small)
  then show ?thesis
    using rec join S(1,4) erased_length [OF er] k pok
    by (simp add: Decode_def encoder_ok L Let_def headerSize_def params_ok_def params_N_def)
qed

section \<open>A concrete code\<close>

text \<open>
  One parity shard, the XOR of two data shards: a computable codec for K = 2, M = 1 that meets
  \<open>rs_law\<close>, for the witnesses.
\<close>

definition xor_bytes :: "bytes \<Rightarrow> bytes \<Rightarrow> bytes" where
  "xor_bytes a b = map2 (XOR) a b"

definition xor_Split :: "bytes \<Rightarrow> bytes list res" where
  "xor_Split d = (if d = [] then Inl ErrCodec else
     let L = (length d + 1) div 2; d' = d @ replicate (2 * L - length d) 0
     in Inr [take L d', drop L d', replicate L 0])"

fun xor_Encode :: "bytes list \<Rightarrow> bytes list res" where
  "xor_Encode [a, b, c] = Inr [a, b, xor_bytes a b]"
| "xor_Encode _ = Inl ErrCodec"

fun xor_Reconstruct :: "bytes option list \<Rightarrow> bytes list res" where
  "xor_Reconstruct [Some a, Some b, Some c] = Inr [a, b, c]"
| "xor_Reconstruct [None, Some b, Some c] = Inr [xor_bytes b c, b, c]"
| "xor_Reconstruct [Some a, None, Some c] = Inr [a, xor_bytes a c, c]"
| "xor_Reconstruct [Some a, Some b, None] = Inr [a, b, xor_bytes a b]"
| "xor_Reconstruct _ = Inl ErrTooFewShards"

definition xor_Join :: "bytes list \<Rightarrow> nat \<Rightarrow> bytes res" where
  "xor_Join sh n = (if n \<le> length (concat (take 2 sh)) then Inr (take n (concat (take 2 sh)))
     else Inl ErrCodec)"

definition xor_encoder :: rs_encoder where
  "xor_encoder = \<lparr>rs_Split = xor_Split, rs_Encode = xor_Encode,
     rs_Reconstruct = xor_Reconstruct, rs_Join = xor_Join\<rparr>"

definition xor_new :: rs_new where
  "xor_new k m = (if k = 2 \<and> m = 1 then Inr xor_encoder else Inl ErrParams)"

lemma length_xor_bytes [simp]: "length (xor_bytes a b) = min (length a) (length b)"
  by (simp add: xor_bytes_def)

lemma xor_cancel_byte: "(y :: byte) XOR (x XOR y) = x" "x XOR (x XOR y) = (y :: byte)"
  using xor.left_commute [of y x y] xor.assoc [of x x y] by simp_all

lemma xor_bytes_cancel: "length a = length b \<Longrightarrow> xor_bytes b (xor_bytes a b) = a"
  "length a = length b \<Longrightarrow> xor_bytes a (xor_bytes a b) = b"
  by (induction a b rule: list_induct2) (simp_all add: xor_bytes_def xor_cancel_byte)

lemma length3_conv: "length xs = 3 \<longleftrightarrow> (\<exists>a b c. xs = [a, b, c])"
  by (auto simp: length_Suc_conv eval_nat_numeral)

lemma erased3: "erased os [a, b, c] \<longleftrightarrow> (\<exists>x y z. os = [x, y, z] \<and> (x = None \<or> x = Some a)
    \<and> (y = None \<or> y = Some b) \<and> (z = None \<or> z = Some c))"
  by (auto simp: erased_def list_all2_Cons2)

lemma xor_law: "rs_law xor_encoder 2 1"
  unfolding rs_law_def
proof (intro conjI allI impI)
  fix d :: bytes assume "d \<noteq> []"
  let ?L = "(length d + 1) div 2" and ?d = "d @ replicate (2 * ((length d + 1) div 2) - length d) 0"
  have "0 < length d" using \<open>d \<noteq> []\<close> by simp
  then have L: "0 < ?L" "length ?d = 2 * ?L" by auto
  have "equal_len [take ?L ?d, drop ?L ?d, replicate ?L 0] ?L" using L(2) by (simp add: equal_len_def)
  moreover have "rs_Split xor_encoder d = Inr [take ?L ?d, drop ?L ?d, replicate ?L 0]"
    using \<open>d \<noteq> []\<close> by (simp add: xor_encoder_def xor_Split_def Let_def)
  moreover have "concat (take 2 [take ?L ?d, drop ?L ?d, replicate ?L 0]) = ?d" by simp
  ultimately show "\<exists>sh L pad. rs_Split xor_encoder d = Inr sh \<and> length sh = 2 + 1 \<and> equal_len sh L \<and> 0 < L
      \<and> concat (take 2 sh) = d @ replicate pad 0"
    using L(1) by (intro exI [of _ "[take ?L ?d, drop ?L ?d, replicate ?L 0]"] exI [of _ ?L]
        exI [of _ "2 * ?L - length d"]) simp
next
  fix sh L assume "length sh = 2 + 1" "equal_len sh L"
  then show "\<exists>cw. rs_Encode xor_encoder sh = Inr cw \<and> length cw = 2 + 1 \<and> equal_len cw L \<and> take 2 cw = take 2 sh"
    by (auto simp: length3_conv xor_encoder_def equal_len_def)
next
  fix sh L cw os assume "length sh = 2 + 1" "equal_len sh L" "rs_Encode xor_encoder sh = Inr cw"
    "erased os cw" "2 \<le> present os"
  then show "rs_Reconstruct xor_encoder os = Inr cw"
    by (auto simp: length3_conv xor_encoder_def equal_len_def erased3 present_def xor_bytes_cancel)
next
  fix sh :: "bytes list" and n assume "2 \<le> length sh" "n \<le> length (concat (take 2 sh))"
  then show "rs_Join xor_encoder sh n = Inr (take n (concat (take 2 sh)))"
    by (simp add: xor_encoder_def xor_Join_def)
qed

lemma xor_codec_ok: "codec_ok xor_new \<lparr>param_K = 2, param_M = 1\<rparr>"
  by (auto simp: codec_ok_def params_ok_def params_N_def xor_new_def xor_law [unfolded One_nat_def])

section \<open>Properties\<close>

text \<open>
  C26: erasure coding tolerates the loss of any M shards. For valid parameters and a codec that
  behaves as documented, encoding always succeeds with K+M shards of one length, and whatever
  shards are lost, as long as K remain, decoding returns the exact original bytes.
\<close>

theorem Decode_any_K_of_N:
  assumes "codec_ok new p" and "length data < 2 ^ 64"
  shows "\<exists>shards L. Encode new p data = Inr shards \<and> int (length shards) = params_N p \<and> equal_len shards L
    \<and> (\<forall>os. erased os shards \<longrightarrow> param_K p \<le> int (present os) \<longrightarrow> Decode new p os = Inr data)"
proof -
  obtain cw L where cw: "Encode new p data = Inr cw" "length cw = nat (params_N p)" "equal_len cw L"
    using Encode_shape [OF assms(1), of data] by blast
  moreover have "0 \<le> params_N p"
    using assms(1) params_nat(3) by (simp add: codec_ok_def)
  ultimately show ?thesis using Decode_erased [OF assms(1) cw(1) _ _ assms(2)] by auto
qed

theorem Decode_any_K_of_N_witness:
  "\<exists>shards L. Encode xor_new \<lparr>param_K = 2, param_M = 1\<rparr> [10, 20, 30] = Inr shards
    \<and> int (length shards) = params_N \<lparr>param_K = 2, param_M = 1\<rparr> \<and> equal_len shards L
    \<and> (\<forall>os. erased os shards \<longrightarrow> param_K \<lparr>param_K = 2, param_M = 1\<rparr> \<le> int (present os) \<longrightarrow>
         Decode xor_new \<lparr>param_K = 2, param_M = 1\<rparr> os = Inr [10, 20, 30])"
  by (rule Decode_any_K_of_N [OF xor_codec_ok]) simp

text \<open>
  below the threshold decoding refuses. With valid parameters, a shard list of the wrong
  length or with fewer than K shards gives an error and never wrong bytes; invalid parameters
  (K or M below 1, K+M above 256) are refused by both directions.
\<close>

lemma Decode_refuses:
  "(\<not> params_ok p \<longrightarrow> Decode new p os = Inl ErrParams \<and> Encode new p data = Inl ErrParams) \<and>
   (params_ok p \<longrightarrow> new (param_K p) (param_M p) = Inr E \<longrightarrow>
      (int (length os) \<noteq> params_N p \<longrightarrow> Decode new p os = Inl ErrCodec) \<and>
      (int (length os) = params_N p \<longrightarrow> int (present os) < param_K p \<longrightarrow> Decode new p os = Inl ErrTooFewShards))"
  by (simp add: Decode_def Encode_def encoder_ok encoder_invalid)

lemma Decode_refuses_witness:
  "Decode xor_new \<lparr>param_K = 2, param_M = 1\<rparr> [None, Some [1, 2], None] = Inl ErrTooFewShards
   \<and> Decode xor_new \<lparr>param_K = 0, param_M = 1\<rparr> [None] = Inl ErrParams"
  using Decode_refuses [of "\<lparr>param_K = 2, param_M = 1\<rparr>" xor_new "[None, Some [1, 2], None]" "[]" xor_encoder]
    Decode_refuses [of "\<lparr>param_K = 0, param_M = 1\<rparr>" xor_new "[None]" "[]" xor_encoder]
  by (simp add: params_ok_def params_N_def xor_new_def present_def)

end
