(* ===== verification/Crypto.thy ===== *)
theory Crypto
  imports Concrete_Prims
begin

text \<open>
  \<^verbatim>\<open>src/internal/crypto\<close> (AES-256-GCM sealing with a random nonce in front) and
  \<^verbatim>\<open>src/internal/compress\<close>. Entropy is read from the explicit supply of the prelude and the
  rest of it is returned. Building the AEAD from a 32-byte key cannot fail and has no branch.
\<close>

definition KeySize :: nat where
  "KeySize = 32"

definition nonceSize :: nat where
  "nonceSize = 12"

definition NewKey :: "bytes \<Rightarrow> (bytes \<times> bytes) res" where
  "NewKey rnd = read_full KeySize rnd"

definition Seal :: "prims \<Rightarrow> bytes \<Rightarrow> bytes \<Rightarrow> bytes \<Rightarrow> (bytes \<times> bytes) res" where
  "Seal P k plaintext rnd =
     bindR (read_full nonceSize rnd) (\<lambda>(nonce, rnd').
       Inr (nonce @ gcm_seal P k nonce plaintext, rnd'))"

definition Open :: "prims \<Rightarrow> bytes \<Rightarrow> bytes \<Rightarrow> bytes res" where
  "Open P k sealed =
     (if length sealed < nonceSize then Inl ErrDecrypt
      else case gcm_open P k (take nonceSize sealed) (drop nonceSize sealed) of
             None \<Rightarrow> Inl ErrDecrypt
           | Some pt \<Rightarrow> Inr pt)"

definition Compress :: "prims \<Rightarrow> bytes \<Rightarrow> bytes res" where
  "Compress P data = deflate P data"

definition Decompress :: "prims \<Rightarrow> bytes \<Rightarrow> bytes res" where
  "Decompress P data = inflate P data"

lemma NewKey_ok: "KeySize \<le> length rnd \<Longrightarrow> NewKey rnd = Inr (take KeySize rnd, drop KeySize rnd)"
  by (simp add: NewKey_def read_full_ok)

lemma Seal_ok: "nonceSize \<le> length rnd \<Longrightarrow>
    Seal P k pt rnd = Inr (take nonceSize rnd @ gcm_seal P k (take nonceSize rnd) pt, drop nonceSize rnd)"
  by (simp add: Seal_def read_full_ok)

lemma Seal_entropy: "Seal P k pt rnd = Inr (c, rnd') \<Longrightarrow> nonceSize \<le> length rnd \<and> rnd' = drop nonceSize rnd"
  by (auto simp: Seal_def read_full_def split: if_splits)

lemma Open_Seal: "gcm_law P \<Longrightarrow> Seal P k pt rnd = Inr (c, rnd') \<Longrightarrow> Open P k c = Inr pt"
  by (auto simp: Seal_def read_full_def Open_def gcm_law_def min_absorb2 split: if_splits)

lemma Decompress_Compress: "flate_law P \<Longrightarrow> Compress P d = Inr z \<Longrightarrow> Decompress P z = Inr d"
  by (metis Compress_def Decompress_def flate_law_def sum.inject(2))

lemma Compress_total: "flate_law P \<Longrightarrow> \<exists>z. Compress P d = Inr z \<and> Decompress P z = Inr d"
  by (simp add: Compress_def Decompress_def flate_law_def)

lemma length_Seal: "gcm_law P \<Longrightarrow> Seal P k pt rnd = Inr (c, rnd') \<Longrightarrow> length c = length pt + 28"
  by (auto simp: Seal_def read_full_def gcm_law_def nonceSize_def split: if_splits)

end
