(* ===== verification/Stripe.thy ===== *)
theory Stripe
  imports Store Concrete_Prims
begin

text \<open>
  \<^verbatim>\<open>src/internal/stripe\<close>: the descriptor of one erasure stripe with its canonical binary
  layout, and the repair grant, a signed capability bound to one descriptor. Shard addresses
  are 32-byte arrays in the source; \<open>desc_typed\<close> says so of the lists that stand for them.
  Timestamps are the 64-bit words of the wire format, read as signed seconds.
\<close>

section \<open>Descriptor\<close>

definition idSize :: nat where
  "idSize = 32"

record descriptor =
  desc_K :: int
  desc_M :: int
  desc_Shards :: "shard_id list"

definition desc_N :: "descriptor \<Rightarrow> int" where
  "desc_N d = desc_K d + desc_M d"

definition desc_Contains :: "descriptor \<Rightarrow> shard_id \<Rightarrow> bool" where
  "desc_Contains d sid = List.member (desc_Shards d) sid"

definition desc_typed :: "descriptor \<Rightarrow> bool" where
  "desc_typed d \<longleftrightarrow> (\<forall>s \<in> set (desc_Shards d). length s = idSize)"

definition MarshalBinary :: "descriptor \<Rightarrow> bytes res" where
  "MarshalBinary d =
     (if desc_K d \<le> 0 \<or> desc_M d \<le> 0 then Inl ErrParams
      else if desc_K d > 0xffff \<or> desc_M d > 0xffff then Inl ErrParams
      else if int (length (desc_Shards d)) \<noteq> desc_N d then Inl ErrCodec
      else Inr (be_put 2 (nat (desc_K d)) @ be_put 2 (nat (desc_M d)) @ be_put 2 (nat (desc_N d))
                @ concat (desc_Shards d)))"

fun split_ids :: "nat \<Rightarrow> bytes \<Rightarrow> shard_id list" where
  "split_ids 0 b = []"
| "split_ids (Suc n) b = take idSize b # split_ids n (drop idSize b)"

definition UnmarshalDescriptor :: "bytes \<Rightarrow> descriptor res" where
  "UnmarshalDescriptor b =
     (if length b < 6 then Inl ErrCodec
      else let k = be_get (take 2 b); m = be_get (take 2 (drop 2 b)); n = be_get (take 2 (drop 4 b)) in
        if k \<le> 0 \<or> m \<le> 0 then Inl ErrParams
        else if n \<noteq> k + m then Inl ErrCodec
        else if length b \<noteq> 6 + n * idSize then Inl ErrCodec
        else Inr \<lparr>desc_K = int k, desc_M = int m, desc_Shards = split_ids n (drop 6 b)\<rparr>)"

section \<open>Grant\<close>

definition SignPubKeySize :: nat where
  "SignPubKeySize = 32"

definition SignatureSize :: nat where
  "SignatureSize = 64"

definition GrantSize :: nat where
  "GrantSize = SignPubKeySize + 8 + 8 + SignatureSize"

definition grantNonceOffset :: nat where
  "grantNonceOffset = SignPubKeySize + 8"

definition string_bytes :: "string \<Rightarrow> bytes" where
  "string_bytes s = map (\<lambda>c. word_of_nat (of_char c)) s"

definition grantDomain :: string where
  "grantDomain = ''revika/repair-grant/1''"

definition grantPayload :: "64 word \<Rightarrow> bytes \<Rightarrow> bytes \<Rightarrow> bytes" where
  "grantPayload expiry nonce descBytes =
     string_bytes grantDomain @ be_put 8 (unat expiry) @ nonce @ descBytes"

definition BuildGrant :: "prims \<Rightarrow> bytes \<Rightarrow> descriptor \<Rightarrow> 64 word \<Rightarrow> bytes \<Rightarrow> (bytes \<times> bytes) res" where
  "BuildGrant P signer d expiry rnd =
     bindR (MarshalBinary d) (\<lambda>descBytes.
     bindR (read_full 8 rnd) (\<lambda>(nonce, rnd').
       let sig = ed_sign P signer (grantPayload expiry nonce descBytes) in
       Inr (ed_public P signer @ be_put 8 (unat expiry) @ nonce @ sig, rnd')))"

definition VerifyGrant :: "prims \<Rightarrow> bytes \<Rightarrow> descriptor \<Rightarrow> int \<Rightarrow> bytes res" where
  "VerifyGrant P grant d now =
     (if length grant \<noteq> GrantSize then Inl ErrCodec
      else let pub = take SignPubKeySize grant;
               expiry = word_of_nat (be_get (take 8 (drop SignPubKeySize grant))) :: 64 word;
               nonce = take 8 (drop grantNonceOffset grant);
               sig = drop (grantNonceOffset + 8) grant in
        if expiry \<noteq> 0 \<and> now > sint expiry then Inl ErrExpired
        else bindR (MarshalBinary d) (\<lambda>descBytes.
          if \<not> ed_verify P pub (grantPayload expiry nonce descBytes) sig then Inl ErrSignature
          else Inr pub))"

definition GrantNonce :: "bytes \<Rightarrow> bytes res" where
  "GrantNonce grant =
     (if length grant \<noteq> GrantSize then Inl ErrCodec else Inr (take 8 (drop grantNonceOffset grant)))"

section \<open>The wire format of a descriptor\<close>

lemma split_ids_concat: "\<forall>s \<in> set ids. length s = idSize \<Longrightarrow> split_ids (length ids) (concat ids) = ids"
  by (induction ids) auto

lemma length_split_ids [simp]: "length (split_ids n b) = n"
  by (induction n arbitrary: b) auto

lemma concat_split_ids: "length b = n * idSize \<Longrightarrow> concat (split_ids n b) = b"
  by (induction n arbitrary: b) (auto simp: algebra_simps)

lemma split_ids_length: "length b = n * idSize \<Longrightarrow> s \<in> set (split_ids n b) \<Longrightarrow> length s = idSize"
proof (induction n arbitrary: b)
  case (Suc n)
  from Suc.prems have "length (drop idSize b) = n * idSize" by simp
  from Suc.IH [OF this] Suc.prems show ?case by auto
qed simp

lemma length_concat_ids: "\<forall>s \<in> set ids. length s = idSize \<Longrightarrow> length (concat ids) = length ids * idSize"
  by (induction ids) auto

lemma MarshalBinary_Inr:
  assumes "MarshalBinary d = Inr b"
  shows "0 < desc_K d \<and> desc_K d \<le> 0xffff \<and> 0 < desc_M d \<and> desc_M d \<le> 0xffff
    \<and> int (length (desc_Shards d)) = desc_N d
    \<and> b = be_put 2 (nat (desc_K d)) @ be_put 2 (nat (desc_M d)) @ be_put 2 (nat (desc_N d)) @ concat (desc_Shards d)"
  using assms by (auto simp: MarshalBinary_def split: if_splits)

lemma Unmarshal_Marshal:
  assumes ty: "desc_typed d" and N: "desc_N d \<le> 0xffff" and m: "MarshalBinary d = Inr b"
  shows "UnmarshalDescriptor b = Inr d"
proof -
  note M = MarshalBinary_Inr [OF m]
  have get: "be_get (be_put 2 x) = x" if "x \<le> 0xffff" for x
    using that by (intro be_get_be_put_small) simp
  have g: "be_get (be_put 2 (nat (desc_K d))) = nat (desc_K d)" "be_get (be_put 2 (nat (desc_M d))) = nat (desc_M d)"
    "be_get (be_put 2 (nat (desc_N d))) = nat (desc_N d)" using M N by (auto intro!: get)
  have len: "length (desc_Shards d) = nat (desc_N d)" using M by auto
  have "length (concat (desc_Shards d)) = nat (desc_N d) * idSize"
    using ty len length_concat_ids by (metis desc_typed_def)
  moreover have "split_ids (nat (desc_N d)) (concat (desc_Shards d)) = desc_Shards d"
    using ty len split_ids_concat by (metis desc_typed_def)
  moreover have "nat (desc_N d) = nat (desc_K d) + nat (desc_M d)" using M by (auto simp: desc_N_def)
  ultimately show ?thesis using M g by (simp add: UnmarshalDescriptor_def Let_def)
qed


lemma Marshal_Unmarshal:
  assumes "UnmarshalDescriptor b = Inr d"
  shows "MarshalBinary d = Inr b \<and> desc_typed d \<and> desc_N d \<le> 0xffff"
proof -
  define k m n where "k = be_get (take 2 b)" and "m = be_get (take 2 (drop 2 b))" and "n = be_get (take 2 (drop 4 b))"
  have U: "6 \<le> length b" "0 < k" "0 < m" "n = k + m" "length b = 6 + n * idSize"
    "d = \<lparr>desc_K = int k, desc_M = int m, desc_Shards = split_ids n (drop 6 b)\<rparr>"
    using assms unfolding UnmarshalDescriptor_def Let_def k_def [symmetric] m_def [symmetric] n_def [symmetric]
    by (simp_all split: if_splits)
  have l: "length (take 2 b) = 2" "length (take 2 (drop 2 b)) = 2" "length (take 2 (drop 4 b)) = 2"
    using U(1) by auto
  have lt: "k < 65536" "m < 65536" "n < 65536"
    using be_get_bound [of "take 2 b", unfolded l] be_get_bound [of "take 2 (drop 2 b)", unfolded l]
      be_get_bound [of "take 2 (drop 4 b)", unfolded l] by (simp_all add: k_def m_def n_def)
  have p: "be_put 2 k = take 2 b" "be_put 2 m = take 2 (drop 2 b)" "be_put 2 n = take 2 (drop 4 b)"
    using be_put_be_get [OF l(1)] be_put_be_get [OF l(2)] be_put_be_get [OF l(3)] by (simp_all add: k_def m_def n_def)
  have rest: "length (drop 6 b) = n * idSize" using U(5) by simp
  have "take 2 b @ take 2 (drop 2 b) @ take 2 (drop 4 b) @ drop 6 b = b"
    using append_take_drop_id [of 2 b] append_take_drop_id [of 2 "drop 2 b"] append_take_drop_id [of 2 "drop 4 b"]
    by simp
  then have "MarshalBinary d = Inr b"
    using U(2-4,6) lt p concat_split_ids [OF rest] by (simp add: MarshalBinary_def desc_N_def nat_int_add)
  moreover have "desc_typed d" using U(6) split_ids_length [OF rest] by (simp add: desc_typed_def)
  ultimately show ?thesis using U(4,6) lt by (simp add: desc_N_def)
qed

lemma grantPayload_inj:
  assumes "grantPayload e1 n1 b1 = grantPayload e2 n2 b2" and "length n1 = 8" and "length n2 = 8"
  shows "e1 = e2 \<and> n1 = n2 \<and> b1 = b2"
proof -
  have "be_put 8 (unat e1) = be_put 8 (unat e2)" and r: "n1 @ b1 = n2 @ b2"
    using assms(1) by (auto simp: grantPayload_def append_eq_append_conv)
  then have "unat e1 = unat e2"
    using unsigned_less [of e1, where 'a = nat] unsigned_less [of e2, where 'a = nat]
    by (intro be_put_inj [of 8]) simp_all
  then show ?thesis using r assms(2,3) by (simp add: append_eq_append_conv word_unat_eq_iff)
qed

lemma word_be_get: "(word_of_nat (be_get (be_put 8 (unat e))) :: 64 word) = e"
proof -
  have "unat e < 256 ^ 8" using unsigned_less [of e, where 'a = nat] by simp
  then show ?thesis by (simp add: be_get_be_put_small)
qed

section \<open>Properties\<close>

text \<open>
  C32: the stripe descriptor's wire format is canonical. Parsing accepts exactly the outputs of
  serialising a well-typed descriptor with at most 65535 shards: a descriptor that serialises
  parses back to itself, and bytes that parse re-serialise to the same bytes, so the byte
  string a grant signs names one descriptor.
\<close>

theorem descriptor_roundtrip:
  "(\<forall>d b. desc_typed d \<longrightarrow> desc_N d \<le> 0xffff \<longrightarrow> MarshalBinary d = Inr b \<longrightarrow> UnmarshalDescriptor b = Inr d) \<and>
   (\<forall>d b. UnmarshalDescriptor b = Inr d \<longrightarrow> MarshalBinary d = Inr b \<and> desc_typed d \<and> desc_N d \<le> 0xffff)"
  using Unmarshal_Marshal Marshal_Unmarshal by blast

theorem descriptor_roundtrip_witness:
  "UnmarshalDescriptor (be_put 2 1 @ be_put 2 1 @ be_put 2 2 @ replicate 32 7 @ replicate 32 9)
    = Inr \<lparr>desc_K = 1, desc_M = 1, desc_Shards = [replicate 32 7, replicate 32 9]\<rparr>"
proof -
  let ?d = "\<lparr>desc_K = 1, desc_M = 1, desc_Shards = [replicate 32 7, replicate 32 9]\<rparr>"
  have "desc_typed ?d" "desc_N ?d \<le> 0xffff"
    "MarshalBinary ?d = Inr (be_put 2 1 @ be_put 2 1 @ be_put 2 2 @ replicate 32 7 @ replicate 32 9)"
    by (simp_all add: desc_typed_def idSize_def desc_N_def MarshalBinary_def)
  then show ?thesis using descriptor_roundtrip by blast
qed

text \<open>
  a repair grant verifies for the stripe it was built for, until it expires. With a signature
  scheme that accepts its own signatures, the owner returned is the signer's public key, and
  the grant carries the nonce that was drawn; after the expiry the grant is refused.
\<close>

lemma VerifyGrant_BuildGrant:
  assumes "sign_law P" and "BuildGrant P signer d expiry rnd = Inr (grant, rnd')"
  shows "VerifyGrant P grant d now =
      (if expiry \<noteq> 0 \<and> now > sint expiry then Inl ErrExpired else Inr (ed_public P signer))
    \<and> GrantNonce grant = Inr (take 8 rnd)"
proof -
  obtain db where db: "MarshalBinary d = Inr db" and rnd: "8 \<le> length rnd"
    and g: "grant = ed_public P signer @ be_put 8 (unat expiry) @ take 8 rnd
      @ ed_sign P signer (grantPayload expiry (take 8 rnd) db)"
    using assms(2) by (auto simp: BuildGrant_def read_full_def Let_def split: if_splits)
  have l: "length (ed_public P signer) = 32" "\<And>msg. length (ed_sign P signer msg) = 64"
    "\<And>msg. ed_verify P (ed_public P signer) msg (ed_sign P signer msg)"
    using assms(1) by (auto simp: sign_law_def)
  show ?thesis using l rnd db word_be_get [of expiry]
    by (simp add: VerifyGrant_def GrantNonce_def g GrantSize_def SignPubKeySize_def SignatureSize_def
        grantNonceOffset_def Let_def min_absorb2)
qed

lemma VerifyGrant_BuildGrant_witness:
  "\<exists>grant rnd'. BuildGrant demo_prims [1] \<lparr>desc_K = 1, desc_M = 1, desc_Shards = [[7], [9]]\<rparr> 50 [1, 2, 3, 4, 5, 6, 7, 8]
      = Inr (grant, rnd')
    \<and> VerifyGrant demo_prims grant \<lparr>desc_K = 1, desc_M = 1, desc_Shards = [[7], [9]]\<rparr> 10 = Inr (demo_public [1])"
proof -
  let ?d = "\<lparr>desc_K = 1, desc_M = 1, desc_Shards = [[7], [9]]\<rparr>"
  obtain g r where g: "BuildGrant demo_prims [1] ?d 50 [1, 2, 3, 4, 5, 6, 7, 8] = Inr (g, r)"
    by (simp add: BuildGrant_def MarshalBinary_def desc_N_def read_full_def Let_def)
  show ?thesis using VerifyGrant_BuildGrant [OF demo_sign_law g, of 10] g by (simp add: demo_prims_def)
qed

text \<open>
  The signed payload pins the grant to one stripe. Two grant payloads (with 8-byte nonces)
  are equal only if expiry, nonce and the whole descriptor, shard order included, are equal, so a
  signature cannot be moved to another stripe, another expiry or another nonce.
\<close>

lemma grant_payload_binds_stripe:
  assumes "desc_typed d1" "desc_N d1 \<le> 0xffff" "MarshalBinary d1 = Inr b1"
    and "desc_typed d2" "desc_N d2 \<le> 0xffff" "MarshalBinary d2 = Inr b2"
    and "length n1 = 8" "length n2 = 8" "grantPayload e1 n1 b1 = grantPayload e2 n2 b2"
  shows "e1 = e2 \<and> n1 = n2 \<and> d1 = d2"
proof -
  have e: "e1 = e2" "n1 = n2" "b1 = b2" using grantPayload_inj [OF assms(9,7,8)] by auto
  with Unmarshal_Marshal [OF assms(1-3)] Unmarshal_Marshal [OF assms(4-6)] show ?thesis by simp
qed

lemma grant_payload_binds_stripe_witness:
  "\<exists>b. MarshalBinary \<lparr>desc_K = 1, desc_M = 1, desc_Shards = [replicate 32 7, replicate 32 9]\<rparr> = Inr b
    \<and> (\<forall>e. grantPayload 5 (replicate 8 1) b = grantPayload e (replicate 8 1) b \<longrightarrow> e = 5)"
proof -
  let ?d = "\<lparr>desc_K = 1, desc_M = 1, desc_Shards = [replicate 32 7, replicate 32 9]\<rparr>"
  obtain b where b: "MarshalBinary ?d = Inr b" by (simp add: MarshalBinary_def desc_N_def)
  have ty: "desc_typed ?d" "desc_N ?d \<le> 0xffff" by (simp_all add: desc_typed_def idSize_def desc_N_def)
  have "e = 5" if "grantPayload 5 (replicate 8 1) b = grantPayload e (replicate 8 1) b" for e
    using grant_payload_binds_stripe [OF ty b ty b _ _ that] by simp
  with b show ?thesis by blast
qed

end
