(* ===== verification/Pipeline.thy ===== *)
theory Pipeline
  imports Store Chunk Erasure Crypto Stripe
begin

text \<open>
  \<^verbatim>\<open>src/internal/pipeline\<close>: storing and loading files. A store is the record of
  operations of theory \<open>Store\<close>, the Reed-Solomon constructor and the primitives are
  parameters, entropy is threaded through. A store that also implements
  \<^verbatim>\<open>stripe.Putter\<close> is the optional argument \<open>sp\<close>.
\<close>

section \<open>Data\<close>

record config =
  cfg_ChunkSize :: int
  cfg_Params :: params
  cfg_Compress :: bool

definition DefaultConfig :: config where
  "DefaultConfig = \<lparr>cfg_ChunkSize = int DefaultSize, cfg_Params = \<lparr>param_K = 4, param_M = 2\<rparr>,
     cfg_Compress = True\<rparr>"

record chunk_ref =
  ref_Key :: bytes
  ref_Compressed :: bool
  ref_Shards :: "shard_id list"

record metadata =
  md_Mode :: "32 word"
  md_Uid :: "32 word"
  md_Gid :: "32 word"
  md_ModTimeNS :: "64 word"
  md_ChangeTimeNS :: "64 word"
  md_AccessTimeNS :: "64 word"
  md_BirthTimeNS :: "64 word"
  md_Flags :: "32 word"
  md_ContentType :: string
  md_SymlinkTarget :: string
  md_Xattr :: "(string \<times> bytes) list"
  md_ContentVersion :: bytes
  md_MetaVersion :: bytes

definition zero_metadata :: metadata where
  "zero_metadata = \<lparr>md_Mode = 0, md_Uid = 0, md_Gid = 0, md_ModTimeNS = 0, md_ChangeTimeNS = 0,
     md_AccessTimeNS = 0, md_BirthTimeNS = 0, md_Flags = 0, md_ContentType = [], md_SymlinkTarget = [],
     md_Xattr = [], md_ContentVersion = [], md_MetaVersion = []\<rparr>"

record file_manifest =
  fm_Name :: string
  fm_Params :: config
  fm_Size :: int
  fm_Meta :: metadata
  fm_Chunks :: "chunk_ref list"

section \<open>Storing\<close>

text \<open>
  \<open>encodeChunk\<close> is the first half of \<^verbatim>\<open>storeChunk\<close>, everything before the first shard
  is written: compress when it shrinks, draw a key, seal, erasure-code, address.
\<close>

definition encodeChunk :: "prims \<Rightarrow> rs_new \<Rightarrow> config \<Rightarrow> bytes \<Rightarrow> bytes \<Rightarrow> (chunk_ref \<times> bytes list \<times> bytes) res" where
  "encodeChunk P new cfg plain rnd =
     bindR (if cfg_Compress cfg
            then bindR (Compress P plain) (\<lambda>packed.
                   Inr (if length packed < length plain then (packed, True) else (plain, False)))
            else Inr (plain, False)) (\<lambda>(payload, compressed).
     bindR (NewKey rnd) (\<lambda>(key, rnd1).
     bindR (Seal P key payload rnd1) (\<lambda>(sealed, rnd2).
     bindR (Encode new (cfg_Params cfg) sealed) (\<lambda>shards.
       Inr (\<lparr>ref_Key = key, ref_Compressed = compressed, ref_Shards = map (HashOf P) shards\<rparr>, shards, rnd2)))))"

text \<open>The loop over the shards; each stored address is compared with the expected one.\<close>

fun put_shards :: "('s \<Rightarrow> bytes \<Rightarrow> 's \<times> shard_id res) \<Rightarrow> bytes list \<Rightarrow> shard_id list \<Rightarrow> 's \<Rightarrow> 's \<times> unit res" where
  "put_shards put (sh # shs) (want # wants) s =
     (case put s sh of
        (s', Inl e) \<Rightarrow> (s', Inl e)
      | (s', Inr sid) \<Rightarrow> if sid \<noteq> want then (s', Inl ErrMismatch) else put_shards put shs wants s')"
| "put_shards put _ _ s = (s, Inr ())"

definition shard_put :: "'s store_ops \<Rightarrow> ('s \<Rightarrow> bytes \<Rightarrow> descriptor \<Rightarrow> 's \<times> shard_id res) option \<Rightarrow> descriptor
    \<Rightarrow> 's \<Rightarrow> bytes \<Rightarrow> 's \<times> shard_id res" where
  "shard_put ops sp desc s data = (case sp of None \<Rightarrow> op_Put ops s data | Some f \<Rightarrow> f s data desc)"

definition storeChunk :: "prims \<Rightarrow> rs_new \<Rightarrow> 's store_ops \<Rightarrow> ('s \<Rightarrow> bytes \<Rightarrow> descriptor \<Rightarrow> 's \<times> shard_id res) option
    \<Rightarrow> config \<Rightarrow> bytes \<Rightarrow> 's \<Rightarrow> bytes \<Rightarrow> ('s \<times> bytes) \<times> chunk_ref res" where
  "storeChunk P new ops sp cfg plain s rnd =
     (case encodeChunk P new cfg plain rnd of
        Inl e \<Rightarrow> ((s, rnd), Inl e)
      | Inr (ref, shards, rnd') \<Rightarrow>
          let desc = \<lparr>desc_K = param_K (cfg_Params cfg), desc_M = param_M (cfg_Params cfg),
                      desc_Shards = ref_Shards ref\<rparr> in
          (case put_shards (shard_put ops sp desc) shards (ref_Shards ref) s of
             (s', Inl e) \<Rightarrow> ((s', rnd'), Inl e)
           | (s', Inr _) \<Rightarrow> ((s', rnd'), Inr ref)))"

fun store_items :: "prims \<Rightarrow> rs_new \<Rightarrow> 's store_ops \<Rightarrow> ('s \<Rightarrow> bytes \<Rightarrow> descriptor \<Rightarrow> 's \<times> shard_id res) option
    \<Rightarrow> config \<Rightarrow> bytes res list \<Rightarrow> 's \<Rightarrow> bytes \<Rightarrow> file_manifest \<Rightarrow> ('s \<times> bytes) \<times> file_manifest res" where
  "store_items P new ops sp cfg [] s rnd m = ((s, rnd), Inr m)"
| "store_items P new ops sp cfg (Inl e # items) s rnd m = ((s, rnd), Inl e)"
| "store_items P new ops sp cfg (Inr plain # items) s rnd m =
     (case storeChunk P new ops sp cfg plain s rnd of
        ((s', rnd'), Inl e) \<Rightarrow> ((s', rnd'), Inl e)
      | ((s', rnd'), Inr ref) \<Rightarrow>
          store_items P new ops sp cfg items s' rnd'
            (m\<lparr>fm_Chunks := fm_Chunks m @ [ref], fm_Size := fm_Size m + int (length plain)\<rparr>))"

definition StoreFile :: "prims \<Rightarrow> rs_new \<Rightarrow> 's store_ops \<Rightarrow> ('s \<Rightarrow> bytes \<Rightarrow> descriptor \<Rightarrow> 's \<times> shard_id res) option
    \<Rightarrow> config \<Rightarrow> reader \<Rightarrow> 's \<Rightarrow> bytes \<Rightarrow> ('s \<times> bytes) \<times> file_manifest res" where
  "StoreFile P new ops sp cfg r s rnd =
     store_items P new ops sp cfg (Fixed r (cfg_ChunkSize cfg)) s rnd
       \<lparr>fm_Name = [], fm_Params = cfg, fm_Size = 0, fm_Meta = zero_metadata, fm_Chunks = []\<rparr>"

section \<open>Loading\<close>

text \<open>A shard that is missing or corrupt is lost, any other error ends the load.\<close>

fun get_shards :: "'s store_ops \<Rightarrow> 's \<Rightarrow> shard_id list \<Rightarrow> bytes option list res" where
  "get_shards ops s [] = Inr []"
| "get_shards ops s (sid # sids) =
     (case op_Get ops s sid of
        Inr data \<Rightarrow> bindR (get_shards ops s sids) (\<lambda>rest. Inr (Some data # rest))
      | Inl e \<Rightarrow> if e = ErrNotFound \<or> e = ErrCorrupt
                 then bindR (get_shards ops s sids) (\<lambda>rest. Inr (None # rest))
                 else Inl e)"

definition loadChunk :: "prims \<Rightarrow> rs_new \<Rightarrow> 's store_ops \<Rightarrow> params \<Rightarrow> chunk_ref \<Rightarrow> 's \<Rightarrow> bytes res" where
  "loadChunk P new ops p ref s =
     bindR (get_shards ops s (ref_Shards ref)) (\<lambda>shards.
     bindR (Decode new p shards) (\<lambda>sealed.
     bindR (Open P (ref_Key ref) sealed) (\<lambda>payload.
       if ref_Compressed ref then Decompress P payload else Inr payload)))"

text \<open>The writer is a state and a \<^verbatim>\<open>Write\<close> that may fail; what was written stays written.\<close>

fun load_chunks :: "prims \<Rightarrow> rs_new \<Rightarrow> 's store_ops \<Rightarrow> params \<Rightarrow> chunk_ref list \<Rightarrow> 's
    \<Rightarrow> ('w \<Rightarrow> bytes \<Rightarrow> 'w res) \<Rightarrow> 'w \<Rightarrow> 'w \<times> unit res" where
  "load_chunks P new ops p [] s wr w = (w, Inr ())"
| "load_chunks P new ops p (ref # refs) s wr w =
     (case loadChunk P new ops p ref s of
        Inl e \<Rightarrow> (w, Inl e)
      | Inr plain \<Rightarrow> (case wr w plain of Inl e \<Rightarrow> (w, Inl e)
          | Inr w' \<Rightarrow> load_chunks P new ops p refs s wr w'))"

definition LoadFile :: "prims \<Rightarrow> rs_new \<Rightarrow> 's store_ops \<Rightarrow> file_manifest \<Rightarrow> 's
    \<Rightarrow> ('w \<Rightarrow> bytes \<Rightarrow> 'w res) \<Rightarrow> 'w \<Rightarrow> 'w \<times> unit res" where
  "LoadFile P new ops m s wr w = load_chunks P new ops (cfg_Params (fm_Params m)) (fm_Chunks m) s wr w"

definition StoreBlob :: "prims \<Rightarrow> rs_new \<Rightarrow> 's store_ops \<Rightarrow> ('s \<Rightarrow> bytes \<Rightarrow> descriptor \<Rightarrow> 's \<times> shard_id res) option
    \<Rightarrow> config \<Rightarrow> bytes \<Rightarrow> 's \<Rightarrow> bytes \<Rightarrow> ('s \<times> bytes) \<times> chunk_ref res" where
  "StoreBlob P new ops sp cfg data s rnd = storeChunk P new ops sp cfg data s rnd"

definition LoadBlob :: "prims \<Rightarrow> rs_new \<Rightarrow> 's store_ops \<Rightarrow> params \<Rightarrow> chunk_ref \<Rightarrow> 's \<Rightarrow> bytes res" where
  "LoadBlob P new ops p ref s = loadChunk P new ops p ref s"

section \<open>Re-encryption\<close>

fun reencrypt_chunks :: "prims \<Rightarrow> rs_new \<Rightarrow> 's store_ops \<Rightarrow> ('s \<Rightarrow> bytes \<Rightarrow> descriptor \<Rightarrow> 's \<times> shard_id res) option
    \<Rightarrow> config \<Rightarrow> chunk_ref list \<Rightarrow> 's \<Rightarrow> bytes \<Rightarrow> ('s \<times> bytes) \<times> chunk_ref list res" where
  "reencrypt_chunks P new ops sp cfg [] s rnd = ((s, rnd), Inr [])"
| "reencrypt_chunks P new ops sp cfg (ref # refs) s rnd =
     (case loadChunk P new ops (cfg_Params cfg) ref s of
        Inl e \<Rightarrow> ((s, rnd), Inl e)
      | Inr plain \<Rightarrow>
         (case storeChunk P new ops sp cfg plain s rnd of
            ((s', rnd'), Inl e) \<Rightarrow> ((s', rnd'), Inl e)
          | ((s', rnd'), Inr newRef) \<Rightarrow>
             (case reencrypt_chunks P new ops sp cfg refs s' rnd' of
                (st, Inl e) \<Rightarrow> (st, Inl e)
              | (st, Inr rest) \<Rightarrow> (st, Inr (newRef # rest)))))"

definition ReencryptFile :: "prims \<Rightarrow> rs_new \<Rightarrow> 's store_ops \<Rightarrow> ('s \<Rightarrow> bytes \<Rightarrow> descriptor \<Rightarrow> 's \<times> shard_id res) option
    \<Rightarrow> file_manifest \<Rightarrow> 's \<Rightarrow> bytes \<Rightarrow> ('s \<times> bytes) \<times> file_manifest res" where
  "ReencryptFile P new ops sp m s rnd =
     (case reencrypt_chunks P new ops sp (fm_Params m) (fm_Chunks m) s rnd of
        (st, Inl e) \<Rightarrow> (st, Inl e)
      | (st, Inr refs) \<Rightarrow> (st, Inr (m\<lparr>fm_Chunks := refs\<rparr>)))"


section \<open>One chunk\<close>

text \<open>The second half of \<open>loadChunk\<close>, once the shards are fetched.\<close>

definition decodeChunk :: "prims \<Rightarrow> rs_new \<Rightarrow> params \<Rightarrow> chunk_ref \<Rightarrow> bytes option list \<Rightarrow> bytes res" where
  "decodeChunk P new p ref os = bindR (Decode new p os) (\<lambda>sealed.
     bindR (Open P (ref_Key ref) sealed) (\<lambda>payload.
       if ref_Compressed ref then Decompress P payload else Inr payload))"

lemma loadChunk_split:
  "loadChunk P new ops p ref s = bindR (get_shards ops s (ref_Shards ref)) (decodeChunk P new p ref)"
  by (simp add: loadChunk_def decodeChunk_def [abs_def])

text \<open>What a stored chunk is worth: any K of its shards give the plaintext back.\<close>

definition chunk_decodes :: "prims \<Rightarrow> rs_new \<Rightarrow> params \<Rightarrow> chunk_ref \<times> bytes list \<Rightarrow> bytes \<Rightarrow> bool" where
  "chunk_decodes P new p rs plain \<longleftrightarrow> ref_Shards (fst rs) = map (HashOf P) (snd rs) \<and>
     param_K p \<le> int (length (snd rs)) \<and> (\<forall>os. erased os (snd rs) \<longrightarrow> param_K p \<le> int (present os) \<longrightarrow> decodeChunk P new p (fst rs) os = Inr plain)"

definition pipeline_laws :: "prims \<Rightarrow> rs_new \<Rightarrow> params \<Rightarrow> bool" where
  "pipeline_laws P new p \<longleftrightarrow> gcm_law P \<and> flate_law P \<and> codec_ok new p"

definition chunkEntropy :: nat where
  "chunkEntropy = KeySize + nonceSize"

lemma encodeChunk_ok:
  assumes laws: "pipeline_laws P new (cfg_Params cfg)" and len: "length plain < 2 ^ 62"
    and ent: "chunkEntropy \<le> length rnd"
  shows "\<exists>ref shards. encodeChunk P new cfg plain rnd = Inr (ref, shards, drop chunkEntropy rnd)
    \<and> chunk_decodes P new (cfg_Params cfg) (ref, shards) plain \<and> ref_Key ref = take KeySize rnd"
proof -
  let ?p = "cfg_Params cfg"
  have g: "gcm_law P" and f: "flate_law P" and c: "codec_ok new ?p"
    using laws by (simp_all add: pipeline_laws_def)
  obtain payload compressed where
    pc: "(if cfg_Compress cfg then bindR (Compress P plain) (\<lambda>packed.
          Inr (if length packed < length plain then (packed, True) else (plain, False)))
        else Inr (plain, False)) = Inr (payload, compressed)"
    and le: "length payload \<le> length plain"
    and unpack: "(if compressed then Decompress P payload else Inr payload) = Inr plain"
  proof (cases "cfg_Compress cfg")
    case True
    obtain z where z: "Compress P plain = Inr z" "Decompress P z = Inr plain" using Compress_total [OF f, of plain] by auto
    show ?thesis
      using True z that [of z True] that [of plain False] by (cases "length z < length plain") auto
  next
    case False
    then show ?thesis using that [of plain False] by simp
  qed
  let ?key = "take KeySize rnd" and ?r1 = "drop KeySize rnd"
  have k: "NewKey rnd = Inr (?key, ?r1)" using ent by (intro NewKey_ok) (simp add: chunkEntropy_def)
  obtain sealed where s: "Seal P ?key payload ?r1 = Inr (sealed, drop nonceSize ?r1)"
    using Seal_ok [of ?r1 P ?key payload] ent by (auto simp: chunkEntropy_def)
  have "length sealed < 2 ^ 64" using length_Seal [OF g s] le len by simp
  then obtain shards where e: "Encode new ?p sealed = Inr shards"
    and d: "\<And>os. erased os shards \<Longrightarrow> param_K ?p \<le> int (present os) \<Longrightarrow> Decode new ?p os = Inr sealed"
    and n: "length shards = nat (params_N ?p)"
    using Encode_shape [OF c, of sealed] Decode_erased [OF c] by blast
  have "param_K ?p \<le> int (length shards)" using c n by (simp add: codec_ok_def params_ok_def params_N_def)
  let ?ref = "\<lparr>ref_Key = ?key, ref_Compressed = compressed, ref_Shards = map (HashOf P) shards\<rparr>"
  have "encodeChunk P new cfg plain rnd = Inr (?ref, shards, drop nonceSize ?r1)"
    unfolding encodeChunk_def pc by (simp add: k s e)
  moreover have "chunk_decodes P new ?p (?ref, shards) plain"
    using \<open>param_K ?p \<le> int (length shards)\<close> d Open_Seal [OF g s] unpack by (simp add: chunk_decodes_def decodeChunk_def)
  ultimately show ?thesis by (auto simp: chunkEntropy_def add.commute)
qed

section \<open>Fetching from a degraded store\<close>

definition avail :: "'s store_ops \<Rightarrow> 's \<Rightarrow> shard_id list \<Rightarrow> nat" where
  "avail ops t sids = length (filter (\<lambda>sid. \<not> isl (op_Get ops t sid)) sids)"

lemma avail_append: "avail ops t (xs @ ys) = avail ops t xs + avail ops t ys"
  by (simp add: avail_def)

text \<open>
  Since \<open>s\<close>, shards among \<open>sids\<close> may have been lost or damaged, which a Get reports as not found or as
  corrupt; the others read as before. Nothing is said of any other address.
\<close>

definition degraded :: "'s store_ops \<Rightarrow> shard_id list \<Rightarrow> 's \<Rightarrow> 's \<Rightarrow> bool" where
  "degraded ops sids s t \<longleftrightarrow> (\<forall>sid \<in> set sids. op_Get ops t sid = op_Get ops s sid
     \<or> op_Get ops t sid = Inl ErrNotFound \<or> op_Get ops t sid = Inl ErrCorrupt)"

lemma get_shards_erased:
  assumes "\<forall>sh \<in> set shards. op_Get ops t (HashOf P sh) \<in> {Inr sh, Inl ErrNotFound, Inl ErrCorrupt}"
  shows "\<exists>os. get_shards ops t (map (HashOf P) shards) = Inr os \<and> erased os shards
    \<and> present os = avail ops t (map (HashOf P) shards)"
  using assms
proof (induction shards)
  case Nil
  then show ?case by (simp add: erased_def present_def avail_def)
next
  case (Cons sh shards)
  then obtain os where os: "get_shards ops t (map (HashOf P) shards) = Inr os" "erased os shards"
    "present os = avail ops t (map (HashOf P) shards)" by auto
  have "op_Get ops t (HashOf P sh) \<in> {Inr sh, Inl ErrNotFound, Inl ErrCorrupt}" using Cons.prems by simp
  then show ?case using os by (auto simp: erased_def present_def avail_def)
qed

lemma loadChunk_degraded:
  assumes dec: "chunk_decodes P new p (ref, shards) plain"
    and get: "\<forall>sh \<in> set shards. op_Get ops t (HashOf P sh) \<in> {Inr sh, Inl ErrNotFound, Inl ErrCorrupt}"
    and k: "param_K p \<le> int (avail ops t (ref_Shards ref))"
  shows "loadChunk P new ops p ref t = Inr plain"
proof -
  have ids: "ref_Shards ref = map (HashOf P) shards" using dec by (simp add: chunk_decodes_def)
  obtain os where "get_shards ops t (map (HashOf P) shards) = Inr os" "erased os shards"
    "present os = avail ops t (map (HashOf P) shards)"
    using get_shards_erased [OF get] by blast
  with dec k show ?thesis by (simp add: loadChunk_split ids chunk_decodes_def)
qed

fun append_writer :: "bytes \<Rightarrow> bytes \<Rightarrow> bytes res" where
  "append_writer w b = Inr (w @ b)"

lemma load_chunks_append:
  assumes "list_all2 (\<lambda>ref plain. loadChunk P new ops p ref t = Inr plain) refs plains"
  shows "load_chunks P new ops p refs t append_writer w = (w @ concat plains, Inr ())"
  using assms by (induction refs plains arbitrary: w rule: list_all2_induct) auto

section \<open>The shards of a file\<close>

text \<open>Every shard that storing these items writes: a function of the input and the entropy.\<close>

fun items_shards :: "prims \<Rightarrow> rs_new \<Rightarrow> config \<Rightarrow> bytes res list \<Rightarrow> bytes \<Rightarrow> bytes list" where
  "items_shards P new cfg (Inr plain # items) rnd =
     (case encodeChunk P new cfg plain rnd of
        Inl e \<Rightarrow> []
      | Inr (ref, shards, rnd') \<Rightarrow> shards @ items_shards P new cfg items rnd')"
| "items_shards P new cfg _ rnd = []"

fun entropy_keys :: "nat \<Rightarrow> bytes \<Rightarrow> bytes list" where
  "entropy_keys 0 rnd = []"
| "entropy_keys (Suc n) rnd = take KeySize rnd # entropy_keys n (drop chunkEntropy rnd)"

definition file_shards :: "prims \<Rightarrow> rs_new \<Rightarrow> config \<Rightarrow> reader \<Rightarrow> bytes \<Rightarrow> bytes list" where
  "file_shards P new cfg r rnd = items_shards P new cfg (Fixed r (cfg_ChunkSize cfg)) rnd"

section \<open>Storing on any lawful store\<close>

context content_store
begin

lemma put_shards_ok:
  assumes "invar s"
  shows "\<exists>s'. put_shards (op_Put ops) shs (map (HashOf P) shs) s = (s', Inr ()) \<and> invar s' \<and> abs s \<subseteq>\<^sub>m abs s'
    \<and> ran (abs s') \<subseteq> ran (abs s) \<union> set shs \<and> (\<forall>sh \<in> set shs. abs s' (HashOf P sh) \<noteq> None)"
  using assms
proof (induction shs arbitrary: s)
  case Nil
  then show ?case by simp
next
  case (Cons sh shs)
  obtain s1 r where put: "op_Put ops s sh = (s1, r)" by fastforce
  note L = put_law [OF Cons.prems put]
  obtain s' where s': "put_shards (op_Put ops) shs (map (HashOf P) shs) s1 = (s', Inr ())" "invar s'"
    "abs s1 \<subseteq>\<^sub>m abs s'" "ran (abs s') \<subseteq> ran (abs s1) \<union> set shs" "\<forall>sh \<in> set shs. abs s' (HashOf P sh) \<noteq> None"
    using Cons.IH [of s1] L by auto
  have sub: "abs s \<subseteq>\<^sub>m abs s1" and r1: "ran (abs s1) \<subseteq> ran (abs s) \<union> {sh}"
    and some: "abs s1 (HashOf P sh) \<noteq> None"
    using L by (auto simp: map_le_def ran_def split: if_splits)
  have "abs s' (HashOf P sh) \<noteq> None" using some by (rule map_le_not_None [OF s'(3)])
  moreover have "abs s \<subseteq>\<^sub>m abs s'" using sub s'(3) by (rule map_le_trans)
  ultimately show ?case using put L s' r1 by auto
qed

lemma storeChunk_ok:
  assumes inv: "invar s" and laws: "pipeline_laws P new (cfg_Params cfg)" and len: "length plain < 2 ^ 62"
    and ent: "chunkEntropy \<le> length rnd"
  shows "\<exists>s' ref shards. storeChunk P new ops None cfg plain s rnd = ((s', drop chunkEntropy rnd), Inr ref)
    \<and> encodeChunk P new cfg plain rnd = Inr (ref, shards, drop chunkEntropy rnd)
    \<and> chunk_decodes P new (cfg_Params cfg) (ref, shards) plain \<and> invar s' \<and> abs s \<subseteq>\<^sub>m abs s'
    \<and> ran (abs s') \<subseteq> ran (abs s) \<union> set shards \<and> (\<forall>sh \<in> set shards. abs s' (HashOf P sh) \<noteq> None)
    \<and> ref_Key ref = take KeySize rnd"
proof -
  obtain ref shards where e: "encodeChunk P new cfg plain rnd = Inr (ref, shards, drop chunkEntropy rnd)"
    and d: "chunk_decodes P new (cfg_Params cfg) (ref, shards) plain" and k: "ref_Key ref = take KeySize rnd"
    using encodeChunk_ok [OF laws len ent] by blast
  have ids: "ref_Shards ref = map (HashOf P) shards" using d by (simp add: chunk_decodes_def)
  have "shard_put ops None desc = op_Put ops" for desc by (rule ext)+ (simp add: shard_put_def)
  then show ?thesis using put_shards_ok [OF inv, of shards] e d k ids by (auto simp: storeChunk_def)
qed

lemma store_items_ok:
  assumes "invar s" and laws: "pipeline_laws P new (cfg_Params cfg)" and "\<forall>c \<in> set plains. length c < 2 ^ 62"
    and "length plains * chunkEntropy \<le> length rnd"
  shows "\<exists>s' rnd' rs. store_items P new ops None cfg (map Inr plains) s rnd m =
      ((s', rnd'), Inr (m\<lparr>fm_Chunks := fm_Chunks m @ map fst rs, fm_Size := fm_Size m + int (length (concat plains))\<rparr>))
    \<and> list_all2 (chunk_decodes P new (cfg_Params cfg)) rs plains
    \<and> invar s' \<and> abs s \<subseteq>\<^sub>m abs s' \<and> concat (map snd rs) = items_shards P new cfg (map Inr plains) rnd
    \<and> ran (abs s') \<subseteq> ran (abs s) \<union> set (concat (map snd rs))
    \<and> (\<forall>sh \<in> set (concat (map snd rs)). abs s' (HashOf P sh) \<noteq> None)"
  using assms
proof (induction plains arbitrary: s rnd m)
  case Nil
  then show ?case by (intro exI [of _ s] exI [of _ rnd] exI [of _ "[]"]) simp
next
  case (Cons plain plains)
  have ent: "chunkEntropy \<le> length rnd" "length plains * chunkEntropy \<le> length (drop chunkEntropy rnd)"
    using Cons.prems(4) by auto
  obtain s1 ref shards where c: "storeChunk P new ops None cfg plain s rnd = ((s1, drop chunkEntropy rnd), Inr ref)"
    "encodeChunk P new cfg plain rnd = Inr (ref, shards, drop chunkEntropy rnd)"
    "chunk_decodes P new (cfg_Params cfg) (ref, shards) plain" "invar s1" "abs s \<subseteq>\<^sub>m abs s1"
    "ran (abs s1) \<subseteq> ran (abs s) \<union> set shards" "\<forall>sh \<in> set shards. abs s1 (HashOf P sh) \<noteq> None"
    using storeChunk_ok [OF Cons.prems(1,2) _ ent(1), of plain] Cons.prems(3) by auto
  let ?m = "m\<lparr>fm_Chunks := fm_Chunks m @ [ref], fm_Size := fm_Size m + int (length plain)\<rparr>"
  obtain s' rnd' rs where i: "store_items P new ops None cfg (map Inr plains) s1 (drop chunkEntropy rnd) ?m =
      ((s', rnd'), Inr (?m\<lparr>fm_Chunks := fm_Chunks ?m @ map fst rs, fm_Size := fm_Size ?m + int (length (concat plains))\<rparr>))"
    "list_all2 (chunk_decodes P new (cfg_Params cfg)) rs plains" "invar s'" "abs s1 \<subseteq>\<^sub>m abs s'"
    "concat (map snd rs) = items_shards P new cfg (map Inr plains) (drop chunkEntropy rnd)"
    "ran (abs s') \<subseteq> ran (abs s1) \<union> set (concat (map snd rs))"
    "\<forall>sh \<in> set (concat (map snd rs)). abs s' (HashOf P sh) \<noteq> None"
    using Cons.IH [OF c(4) Cons.prems(2) _ ent(2), of ?m] Cons.prems(3) by (metis list.set_intros(2))
  have "abs s' (HashOf P sh) \<noteq> None" if "sh \<in> set shards" for sh
    using c(7) that map_le_not_None [OF i(4)] by blast
  moreover have "abs s \<subseteq>\<^sub>m abs s'" using c(5) i(4) by (rule map_le_trans)
  moreover have "store_items P new ops None cfg (map Inr (plain # plains)) s rnd m = ((s', rnd'),
      Inr (m\<lparr>fm_Chunks := fm_Chunks m @ map fst ((ref, shards) # rs), fm_Size := fm_Size m + int (length (concat (plain # plains)))\<rparr>))"
    using c(1) i(1) by (simp add: add.assoc)
  ultimately show ?case
    using c i by (intro exI [of _ s'] exI [of _ rnd'] exI [of _ "(ref, shards) # rs"]) auto
qed

text \<open>
  The store stands for what was put into it: without a hash collision between the blobs it
  held and the new shards, each new shard reads back as itself.
\<close>

lemma get_stored:
  assumes "invar s'" and "ran (abs s') \<subseteq> U" and "set shards \<subseteq> U" and "inj_on (HashOf P) U"
    and "\<forall>sh \<in> set shards. abs s' (HashOf P sh) \<noteq> None" and "sh \<in> set shards"
  shows "op_Get ops s' (HashOf P sh) = Inr sh"
proof -
  obtain b where b: "abs s' (HashOf P sh) = Some b" using assms(5,6) by auto
  then have "b \<in> U" using assms(2) by (auto simp: ran_def)
  moreover have "HashOf P b = HashOf P sh" using addressed [OF assms(1) b] .
  ultimately have "b = sh" using assms(3,4,6) by (auto dest: inj_onD)
  with b show ?thesis by (simp add: get_law [OF assms(1)])
qed

lemma store_load:
  assumes inv: "invar s" and laws: "pipeline_laws P new (cfg_Params cfg)"
    and size: "0 < cfg_ChunkSize cfg" "cfg_ChunkSize cfg < 2 ^ 62" and eof: "rd_err r = None"
    and ent: "length (Fixed r (cfg_ChunkSize cfg)) * chunkEntropy \<le> length rnd"
    and inj: "inj_on (HashOf P) (ran (abs s) \<union> set (file_shards P new cfg r rnd))"
  shows "\<exists>s' rnd' m. StoreFile P new ops None cfg r s rnd = ((s', rnd'), Inr m) \<and> invar s' \<and> abs s \<subseteq>\<^sub>m abs s'
    \<and> fm_Size m = int (length (rd_data r)) \<and> fm_Params m = cfg
    \<and> (\<forall>t w. degraded ops (concat (map ref_Shards (fm_Chunks m))) s' t \<longrightarrow>
         (\<forall>ref \<in> set (fm_Chunks m). param_K (cfg_Params cfg) \<le> int (avail ops t (ref_Shards ref))) \<longrightarrow>
         LoadFile P new ops m t append_writer w = (w @ rd_data r, Inr ()))"
proof -
  obtain cs where cs: "fixed_loop (nat (cfg_ChunkSize cfg)) (rd_data r) None = map Inr cs" "concat cs = rd_data r"
    "\<forall>c \<in> set cs. length c \<le> nat (cfg_ChunkSize cfg)"
    using fixed_loop_EOF [of "nat (cfg_ChunkSize cfg)" "rd_data r"] size(1) by auto
  then have fx: "Fixed r (cfg_ChunkSize cfg) = map Inr cs" using eof size(1) by (simp add: Fixed_def)
  have lens: "\<forall>c \<in> set cs. length c < 2 ^ 62" using cs(3) size(2) by fastforce
  let ?m0 = "\<lparr>fm_Name = [], fm_Params = cfg, fm_Size = 0, fm_Meta = zero_metadata, fm_Chunks = []\<rparr>"
  obtain s' rnd' rs where st: "store_items P new ops None cfg (map Inr cs) s rnd ?m0 = ((s', rnd'),
      Inr (?m0\<lparr>fm_Chunks := map fst rs, fm_Size := int (length (concat cs))\<rparr>))"
    and dec: "list_all2 (chunk_decodes P new (cfg_Params cfg)) rs cs"
    and inv': "invar s'" and mono: "abs s \<subseteq>\<^sub>m abs s'"
    and sh: "concat (map snd rs) = file_shards P new cfg r rnd"
    and rn: "ran (abs s') \<subseteq> ran (abs s) \<union> set (file_shards P new cfg r rnd)"
    and some: "\<forall>sh \<in> set (file_shards P new cfg r rnd). abs s' (HashOf P sh) \<noteq> None"
    using store_items_ok [OF inv laws lens, of rnd ?m0] ent fx
    by (auto simp: file_shards_def simp del: set_concat set_map)
  let ?m = "?m0\<lparr>fm_Chunks := map fst rs, fm_Size := int (length (concat cs))\<rparr>"
  have again: "op_Get ops s' (HashOf P x) = Inr x" if "x \<in> set (file_shards P new cfg r rnd)" for x
    using get_stored [OF inv' rn _ inj some that] by simp
  have load: "LoadFile P new ops ?m t append_writer w = (w @ rd_data r, Inr ())"
    if deg: "degraded ops (concat (map ref_Shards (fm_Chunks ?m))) s' t"
      and av: "\<forall>ref \<in> set (fm_Chunks ?m). param_K (cfg_Params cfg) \<le> int (avail ops t (ref_Shards ref))" for t w
  proof -
    have one: "loadChunk P new ops (cfg_Params cfg) (fst x) t = Inr plain"
      if x: "x \<in> set rs" and d: "chunk_decodes P new (cfg_Params cfg) x plain" for x plain
    proof (rule loadChunk_degraded [of P new _ "fst x" "snd x"])
      show "chunk_decodes P new (cfg_Params cfg) (fst x, snd x) plain" using d by simp
      have "y \<in> set (file_shards P new cfg r rnd)" if "y \<in> set (snd x)" for y
        using that x unfolding sh [symmetric] by auto
      moreover have "HashOf P y \<in> set (concat (map ref_Shards (fm_Chunks ?m)))" if "y \<in> set (snd x)" for y
        using that x d by (force simp: chunk_decodes_def split: prod.splits)
      ultimately show "\<forall>y \<in> set (snd x). op_Get ops t (HashOf P y) \<in> {Inr y, Inl ErrNotFound, Inl ErrCorrupt}"
        using again deg unfolding degraded_def by (metis insertCI)
      show "param_K (cfg_Params cfg) \<le> int (avail ops t (ref_Shards (fst x)))" using av x by auto
    qed
    have "list_all2 (\<lambda>ref plain. loadChunk P new ops (cfg_Params cfg) ref t = Inr plain) (map fst rs) cs"
      unfolding list_all2_map1 using dec by (rule list.rel_mono_strong) (use one in auto)
    from load_chunks_append [OF this, of w] cs(2) show ?thesis by (simp add: LoadFile_def)
  qed
  show ?thesis
    using st inv' mono load cs(2) fx by (intro exI [of _ s'] exI [of _ rnd'] exI [of _ ?m]) (simp add: StoreFile_def)
qed

text \<open>Enough surviving shards and no collision: the chunk loads.\<close>

lemma get_lossy:
  assumes "invar t" and "ran (abs t) \<union> set shards \<subseteq> U" and "inj_on (HashOf P) U"
  shows "\<forall>sh \<in> set shards. op_Get ops t (HashOf P sh) \<in> {Inr sh, Inl ErrNotFound, Inl ErrCorrupt}"
proof
  fix sh assume "sh \<in> set shards"
  then have "b = sh" if "abs t (HashOf P sh) = Some b" for b
    using that assms(2,3) addressed [OF assms(1) that] by (auto simp: ran_def dest: inj_onD)
  then show "op_Get ops t (HashOf P sh) \<in> {Inr sh, Inl ErrNotFound, Inl ErrCorrupt}"
    by (cases "abs t (HashOf P sh)") (auto simp: get_law [OF assms(1)])
qed

lemma loadChunk_ok:
  assumes "invar t" and "chunk_decodes P new p (ref, shards) plain"
    and "ran (abs t) \<union> set shards \<subseteq> U" and "inj_on (HashOf P) U"
    and "param_K p \<le> int (avail ops t (ref_Shards ref))"
  shows "loadChunk P new ops p ref t = Inr plain"
  by (rule loadChunk_degraded [OF assms(2) get_lossy [OF assms(1,3,4)] assms(5)])

lemma avail_mono:
  assumes "invar s" and "invar t" and "abs s \<subseteq>\<^sub>m abs t"
  shows "avail ops s sids \<le> avail ops t sids"
proof -
  have "\<not> isl (op_Get ops t sid)" if "\<not> isl (op_Get ops s sid)" for sid
    using that assms(3) by (auto simp: get_law [OF assms(1)] get_law [OF assms(2)] map_le_def dom_def split: option.splits)
  then show ?thesis unfolding avail_def by (induction sids) auto
qed

lemma avail_all:
  assumes "invar t" and "\<forall>sid \<in> set sids. abs t sid \<noteq> None"
  shows "avail ops t sids = length sids"
proof -
  have "filter (\<lambda>sid. \<not> isl (op_Get ops t sid)) sids = sids"
    using assms by (auto simp: filter_id_conv get_law split: option.splits)
  then show ?thesis by (simp add: avail_def)
qed

lemma reencrypt_chunks_ok:
  assumes "invar s" and laws: "pipeline_laws P new (cfg_Params cfg)" and "list_all2 (chunk_decodes P new (cfg_Params cfg)) old plains"
    and "\<forall>c \<in> set plains. length c < 2 ^ 62" and "length plains * chunkEntropy \<le> length rnd"
    and "\<forall>x \<in> set old. param_K (cfg_Params cfg) \<le> int (avail ops s (ref_Shards (fst x)))"
    and "ran (abs s) \<union> set (concat (map snd old)) \<union> set (items_shards P new cfg (map Inr plains) rnd) \<subseteq> U"
    and "inj_on (HashOf P) U"
  shows "\<exists>s' rnd' rs. reencrypt_chunks P new ops None cfg (map fst old) s rnd = ((s', rnd'), Inr (map fst rs))
    \<and> list_all2 (chunk_decodes P new (cfg_Params cfg)) rs plains \<and> map ref_Key (map fst rs) = entropy_keys (length plains) rnd
    \<and> invar s' \<and> abs s \<subseteq>\<^sub>m abs s' \<and> ran (abs s') \<subseteq> U \<and> set (concat (map snd rs)) \<subseteq> U
    \<and> (\<forall>sh \<in> set (concat (map snd rs)). abs s' (HashOf P sh) \<noteq> None)"
  using assms(3,1,4-)
proof (induction old plains arbitrary: s rnd rule: list_all2_induct)
  case Nil
  then show ?case by (intro exI [of _ s] exI [of _ rnd] exI [of _ "[]"]) simp
next
  case (Cons x old plain plains)
  have ent: "chunkEntropy \<le> length rnd" "length plains * chunkEntropy \<le> length (drop chunkEntropy rnd)"
    using Cons.prems(3) by auto
  have load: "loadChunk P new ops (cfg_Params cfg) (fst x) s = Inr plain"
    using Cons.hyps(1) Cons.prems by (intro loadChunk_ok [of _ new _ _ "snd x" plain U]) auto
  obtain s1 ref shards where c: "storeChunk P new ops None cfg plain s rnd = ((s1, drop chunkEntropy rnd), Inr ref)"
    "encodeChunk P new cfg plain rnd = Inr (ref, shards, drop chunkEntropy rnd)"
    "chunk_decodes P new (cfg_Params cfg) (ref, shards) plain" "invar s1" "abs s \<subseteq>\<^sub>m abs s1"
    "ran (abs s1) \<subseteq> ran (abs s) \<union> set shards" "\<forall>sh \<in> set shards. abs s1 (HashOf P sh) \<noteq> None"
    "ref_Key ref = take KeySize rnd"
    using storeChunk_ok [OF Cons.prems(1) laws _ ent(1), of plain] Cons.prems(2) by auto
  have U: "set shards \<subseteq> U" "ran (abs s1) \<union> set (concat (map snd old)) \<union>
      set (items_shards P new cfg (map Inr plains) (drop chunkEntropy rnd)) \<subseteq> U"
    using Cons.prems(5) c(2,6) by auto
  have av: "\<forall>x \<in> set old. param_K (cfg_Params cfg) \<le> int (avail ops s1 (ref_Shards (fst x)))"
    using Cons.prems(4) avail_mono [OF Cons.prems(1) c(4,5)] by (meson list.set_intros(2) of_nat_mono order_trans)
  obtain s' rnd' rs where i: "reencrypt_chunks P new ops None cfg (map fst old) s1 (drop chunkEntropy rnd) = ((s', rnd'), Inr (map fst rs))"
    "list_all2 (chunk_decodes P new (cfg_Params cfg)) rs plains"
    "map ref_Key (map fst rs) = entropy_keys (length plains) (drop chunkEntropy rnd)"
    "invar s'" "abs s1 \<subseteq>\<^sub>m abs s'" "ran (abs s') \<subseteq> U" "set (concat (map snd rs)) \<subseteq> U"
    "\<forall>sh \<in> set (concat (map snd rs)). abs s' (HashOf P sh) \<noteq> None"
    using Cons.IH [OF c(4) _ ent(2) av U(2) Cons.prems(6)] Cons.prems(2) by (metis list.set_intros(2))
  have "abs s' (HashOf P sh) \<noteq> None" if "sh \<in> set shards" for sh
    using c(7) that map_le_not_None [OF i(5)] by blast
  moreover have "abs s \<subseteq>\<^sub>m abs s'" using c(5) i(5) by (rule map_le_trans)
  ultimately show ?case using load c i U(1)
    by (intro exI [of _ s'] exI [of _ rnd'] exI [of _ "(ref, shards) # rs"]) auto
qed

lemma reencrypt_file:
  assumes "invar s" and laws: "pipeline_laws P new (cfg_Params (fm_Params m))"
    and refs: "fm_Chunks m = map fst old" "list_all2 (chunk_decodes P new (cfg_Params (fm_Params m))) old plains"
    and lens: "\<forall>c \<in> set plains. length c < 2 ^ 62" and ent: "length plains * chunkEntropy \<le> length rnd"
    and av: "\<forall>ref \<in> set (fm_Chunks m). param_K (cfg_Params (fm_Params m)) \<le> int (avail ops s (ref_Shards ref))"
    and inj: "inj_on (HashOf P) (ran (abs s) \<union> set (concat (map snd old))
      \<union> set (items_shards P new (fm_Params m) (map Inr plains) rnd))"
  shows "\<exists>s' rnd' m'. ReencryptFile P new ops None m s rnd = ((s', rnd'), Inr m')
    \<and> m' = m\<lparr>fm_Chunks := fm_Chunks m'\<rparr> \<and> map ref_Key (fm_Chunks m') = entropy_keys (length plains) rnd
    \<and> invar s' \<and> abs s \<subseteq>\<^sub>m abs s' \<and> LoadFile P new ops m' s' append_writer w = (w @ concat plains, Inr ())"
proof -
  let ?U = "ran (abs s) \<union> set (concat (map snd old)) \<union> set (items_shards P new (fm_Params m) (map Inr plains) rnd)"
  and ?p = "cfg_Params (fm_Params m)"
  have "\<forall>x \<in> set old. param_K ?p \<le> int (avail ops s (ref_Shards (fst x)))" using av refs(1) by auto
  then obtain s' rnd' rs where i: "reencrypt_chunks P new ops None (fm_Params m) (map fst old) s rnd = ((s', rnd'), Inr (map fst rs))"
    "list_all2 (chunk_decodes P new ?p) rs plains" "map ref_Key (map fst rs) = entropy_keys (length plains) rnd"
    "invar s'" "abs s \<subseteq>\<^sub>m abs s'" "ran (abs s') \<subseteq> ?U" "set (concat (map snd rs)) \<subseteq> ?U"
    "\<forall>sh \<in> set (concat (map snd rs)). abs s' (HashOf P sh) \<noteq> None"
    using reencrypt_chunks_ok [OF assms(1,2) refs(2) lens ent _ order_refl inj] by (metis (no_types, lifting))
  have one: "loadChunk P new ops ?p (fst x) s' = Inr plain"
    if x: "x \<in> set rs" and d: "chunk_decodes P new ?p x plain" for x plain
  proof (rule loadChunk_ok [OF i(4), of new _ _ "snd x" plain ?U])
    show c: "chunk_decodes P new ?p (fst x, snd x) plain" using d by simp
    show "ran (abs s') \<union> set (snd x) \<subseteq> ?U" using i(6,7) x by auto
    show "inj_on (HashOf P) ?U" by (rule inj)
    have "\<forall>sid \<in> set (ref_Shards (fst x)). abs s' sid \<noteq> None" using c i(8) x by (auto simp: chunk_decodes_def)
    then show "param_K ?p \<le> int (avail ops s' (ref_Shards (fst x)))"
      using c avail_all [OF i(4)] by (simp add: chunk_decodes_def)
  qed
  have "list_all2 (\<lambda>ref plain. loadChunk P new ops ?p ref s' = Inr plain) (map fst rs) plains"
    unfolding list_all2_map1 using i(2) by (rule list.rel_mono_strong) (use one in auto)
  from load_chunks_append [OF this, of w] show ?thesis using i refs(1)
    by (intro exI [of _ s'] exI [of _ rnd'] exI [of _ "m\<lparr>fm_Chunks := map fst rs\<rparr>"]) (simp add: ReencryptFile_def LoadFile_def)
qed

end

section \<open>Properties\<close>

text \<open>
  C17: a file stored on disk survives any M lost or damaged shards per chunk. With primitives and
  a codec that behave as documented, a sound disk store, an input read to its end, enough
  entropy and no hash collision among the blobs involved, \<open>StoreFile\<close> succeeds, keeps every
  blob the store held and records the exact size; and in any later state, whatever else was stored
  or deleted, in which every shard of the file reads as before or is reported not found or corrupt,
  and K of each chunk still read back, \<open>LoadFile\<close> writes exactly the input. (A read that fails in
  any other way aborts the load.)
\<close>

theorem StoreFile_LoadFile:
  assumes "disk_inv P s" and "pipeline_laws P new (cfg_Params cfg)"
    and "0 < cfg_ChunkSize cfg" "cfg_ChunkSize cfg < 2 ^ 62" and "rd_err r = None"
    and "length (Fixed r (cfg_ChunkSize cfg)) * chunkEntropy \<le> length rnd"
    and "inj_on (HashOf P) (ran (disk_abs P s) \<union> set (file_shards P new cfg r rnd))"
  shows "\<exists>s' rnd' m. StoreFile P new (disk_ops P) None cfg r s rnd = ((s', rnd'), Inr m)
    \<and> disk_inv P s' \<and> disk_abs P s \<subseteq>\<^sub>m disk_abs P s'
    \<and> fm_Size m = int (length (rd_data r)) \<and> fm_Params m = cfg
    \<and> (\<forall>t w. degraded (disk_ops P) (concat (map ref_Shards (fm_Chunks m))) s' t \<longrightarrow>
         (\<forall>ref \<in> set (fm_Chunks m). param_K (cfg_Params cfg) \<le> int (avail (disk_ops P) t (ref_Shards ref))) \<longrightarrow>
         LoadFile P new (disk_ops P) m t append_writer w = (w @ rd_data r, Inr ()))"
  by (rule disk.store_load [OF assms])

definition demo_config :: config where
  "demo_config = \<lparr>cfg_ChunkSize = 4, cfg_Params = \<lparr>param_K = 2, param_M = 1\<rparr>, cfg_Compress = True\<rparr>"

definition demo_reader :: reader where
  "demo_reader = \<lparr>rd_data = [9, 8, 7, 6, 0, 0], rd_err = None\<rparr>"

lemma demo_laws: "pipeline_laws demo_prims xor_new (cfg_Params demo_config)"
  by (simp add: pipeline_laws_def demo_gcm_law demo_flate_law xor_codec_ok demo_config_def)

lemma xor_Split_length:
  assumes "xor_Split d = Inr sh"
  shows "length sh = 3 \<and> equal_len sh ((length d + 1) div 2)"
  using assms by (auto simp: xor_Split_def equal_len_def Let_def split: if_splits)

lemma xor_Encode_length:
  assumes "Encode xor_new \<lparr>param_K = 2, param_M = 1\<rparr> data = Inr shards" and "b \<in> set shards"
  shows "length b = (length data + 9) div 2"
  using assms xor_Split_length
  by (fastforce simp: Encode_def encoder_ok params_ok_def params_N_def xor_new_def xor_encoder_def
      headerSize_def Let_def length3_conv equal_len_def add.commute)

lemma demo_encode_small:
  assumes "encodeChunk demo_prims xor_new demo_config plain rnd = Inr (ref, shards, rnd')" and "length plain \<le> 4"
    and "b \<in> set shards"
  shows "length b \<le> 28"
  using assms by (auto simp: encodeChunk_def demo_config_def NewKey_def split: if_splits
      dest!: xor_Encode_length length_Seal [OF demo_gcm_law])

lemma demo_items_small:
  "list_all (\<lambda>c. length c \<le> 4) plains \<Longrightarrow>
   list_all (\<lambda>b. length b \<le> 28) (items_shards demo_prims xor_new demo_config (map Inr plains) rnd)"
  by (induction plains arbitrary: rnd)
    (auto simp: list_all_iff dest: demo_encode_small [OF sym] split: sum.splits prod.splits)

lemma demo_Fixed: "Fixed demo_reader (cfg_ChunkSize demo_config) = map Inr [[9, 8, 7, 6], [0, 0]]"
  by code_simp

lemma demo_shards_inj:
  assumes "list_all (\<lambda>b. length b \<le> 28) bs"
  shows "inj_on (HashOf demo_prims) (ran (disk_abs demo_prims demo_disk) \<union> set bs)"
proof (rule inj_on_subset)
  show "inj_on (HashOf demo_prims) {b. length b \<le> 28}"
    using demo_hash_inj by (simp add: inj_on_def HashOf_def)
  show "ran (disk_abs demo_prims demo_disk) \<union> set bs \<subseteq> {b. length b \<le> 28}"
    using assms by (auto simp: list_all_iff ran_def disk_abs_def demo_disk_def)
qed

theorem StoreFile_LoadFile_witness:
  "\<exists>s' rnd' m. StoreFile demo_prims xor_new (disk_ops demo_prims) None demo_config demo_reader demo_disk (replicate 88 5)
      = ((s', rnd'), Inr m) \<and> fm_Size m = 6"
proof -
  have small: "list_all (\<lambda>b. length b \<le> 28) (file_shards demo_prims xor_new demo_config demo_reader (replicate 88 5))"
    unfolding file_shards_def demo_Fixed by (rule demo_items_small) simp
  have "length (Fixed demo_reader (cfg_ChunkSize demo_config)) * chunkEntropy \<le> length (replicate 88 (5 :: byte))"
    by (simp add: demo_Fixed chunkEntropy_def KeySize_def nonceSize_def)
  from StoreFile_LoadFile [OF demo_disk_inv demo_laws _ _ _ this demo_shards_inj [OF small]]
  show ?thesis by (auto simp: demo_config_def demo_reader_def)
qed

text \<open>
  C28: rotating a file's keys loses nothing. When every chunk of the manifest still has K
  readable shards, \<open>ReencryptFile\<close> succeeds, changes the manifest only in its chunk
  references, seals each chunk under a key freshly drawn from the entropy, removes no blob, and
  the new manifest loads to the same plaintext.
\<close>

theorem ReencryptFile_fresh:
  assumes "disk_inv P s" and "pipeline_laws P new (cfg_Params (fm_Params m))"
    and "fm_Chunks m = map fst old" and "list_all2 (chunk_decodes P new (cfg_Params (fm_Params m))) old plains"
    and "\<forall>c \<in> set plains. length c < 2 ^ 62" and "length plains * chunkEntropy \<le> length rnd"
    and "\<forall>ref \<in> set (fm_Chunks m). param_K (cfg_Params (fm_Params m)) \<le> int (avail (disk_ops P) s (ref_Shards ref))"
    and "inj_on (HashOf P) (ran (disk_abs P s) \<union> set (concat (map snd old))
      \<union> set (items_shards P new (fm_Params m) (map Inr plains) rnd))"
  shows "\<exists>s' rnd' m'. ReencryptFile P new (disk_ops P) None m s rnd = ((s', rnd'), Inr m')
    \<and> m' = m\<lparr>fm_Chunks := fm_Chunks m'\<rparr> \<and> map ref_Key (fm_Chunks m') = entropy_keys (length plains) rnd
    \<and> disk_inv P s' \<and> disk_abs P s \<subseteq>\<^sub>m disk_abs P s'
    \<and> LoadFile P new (disk_ops P) m' s' append_writer w = (w @ concat plains, Inr ())"
  by (rule disk.reencrypt_file [OF assms])

theorem ReencryptFile_fresh_witness:
  "\<exists>s m s' rnd' m'. ReencryptFile demo_prims xor_new (disk_ops demo_prims) None m s (replicate 44 6) = ((s', rnd'), Inr m')
     \<and> LoadFile demo_prims xor_new (disk_ops demo_prims) m' s' append_writer [] = ([1, 2, 3], Inr ())"
proof -
  let ?p = "cfg_Params demo_config" and ?ops = "disk_ops demo_prims" and ?rnd = "replicate 44 (6 :: byte)"
  obtain s ref shards where c: "encodeChunk demo_prims xor_new demo_config [1, 2, 3] (replicate 44 5) = Inr (ref, shards, drop chunkEntropy (replicate 44 5))"
    "chunk_decodes demo_prims xor_new ?p (ref, shards) [1, 2, 3]" "disk_inv demo_prims s"
    "ran (disk_abs demo_prims s) \<subseteq> ran (disk_abs demo_prims demo_disk) \<union> set shards"
    "\<forall>sh \<in> set shards. disk_abs demo_prims s (HashOf demo_prims sh) \<noteq> None"
    using disk.storeChunk_ok [OF demo_disk_inv demo_laws, of "[1, 2, 3]" "replicate 44 5"]
    by (auto simp: chunkEntropy_def KeySize_def nonceSize_def)
  let ?m = "\<lparr>fm_Name = [], fm_Params = demo_config, fm_Size = 3, fm_Meta = zero_metadata, fm_Chunks = [ref]\<rparr>"
  let ?bs = "shards @ items_shards demo_prims xor_new demo_config (map Inr [[1, 2, 3]]) ?rnd"
  have small: "list_all (\<lambda>b. length b \<le> 28) ?bs"
    using demo_encode_small [OF c(1)] demo_items_small [of "[[1, 2, 3]]" ?rnd]
    by (auto simp: list_all_iff simp del: items_shards.simps list.map)
  have inj: "inj_on (HashOf demo_prims) (ran (disk_abs demo_prims s) \<union> set (concat (map snd [(ref, shards)]))
      \<union> set (items_shards demo_prims xor_new (fm_Params ?m) (map Inr [[1, 2, 3]]) ?rnd))"
    using c(4) by (intro inj_on_subset [OF demo_shards_inj [OF small]]) auto
  have "avail ?ops s (ref_Shards ref) = length (ref_Shards ref)"
    using c(2,5) by (intro disk.avail_all [OF c(3)]) (auto simp: chunk_decodes_def)
  then have av: "\<forall>ref' \<in> set (fm_Chunks ?m). param_K (cfg_Params (fm_Params ?m)) \<le> int (avail ?ops s (ref_Shards ref'))"
    using c(2) by (simp add: chunk_decodes_def)
  have "\<exists>s' rnd' m'. ReencryptFile demo_prims xor_new ?ops None ?m s ?rnd = ((s', rnd'), Inr m')
      \<and> m' = ?m\<lparr>fm_Chunks := fm_Chunks m'\<rparr> \<and> map ref_Key (fm_Chunks m') = entropy_keys (length [[1, 2, 3 :: byte]]) ?rnd
      \<and> disk_inv demo_prims s' \<and> disk_abs demo_prims s \<subseteq>\<^sub>m disk_abs demo_prims s'
      \<and> LoadFile demo_prims xor_new ?ops m' s' append_writer [] = ([] @ concat [[1, 2, 3]], Inr ())"
    by (rule ReencryptFile_fresh [OF c(3) _ _ _ _ _ av inj])
      (use demo_laws c(2) in \<open>simp_all add: chunkEntropy_def KeySize_def nonceSize_def\<close>)
  moreover have "[] @ concat [[1, 2, 3]] = ([1, 2, 3] :: bytes)" by simp
  ultimately show ?thesis by metis
qed

end
