(* ===== verification/Repair.thy ===== *)
theory Repair
  imports Pipeline
begin

text \<open>
  \<^verbatim>\<open>src/internal/repair\<close>: probing which shards of a file survive and regenerating the lost
  ones from K survivors. \<open>Check\<close> and \<open>Repair\<close> are written over the store record of theory
  \<open>Store\<close>; the lemmas are proved once for every lawful store and read off on the disk store.
\<close>

section \<open>Probing\<close>

record chunk_status =
  st_Index :: nat
  st_Present :: nat
  st_Total :: nat
  st_Missing :: "nat list"

definition Recoverable :: "chunk_status \<Rightarrow> int \<Rightarrow> bool" where
  "Recoverable c k \<longleftrightarrow> k \<le> int (st_Present c)"

definition chunk_Healthy :: "chunk_status \<Rightarrow> bool" where
  "chunk_Healthy c \<longleftrightarrow> st_Missing c = []"

type_synonym report = "chunk_status list"

fun report_Healthy :: "report \<Rightarrow> bool" where
  "report_Healthy [] = True"
| "report_Healthy (c # cs) = (if \<not> chunk_Healthy c then False else report_Healthy cs)"

fun MissingShards :: "report \<Rightarrow> nat" where
  "MissingShards [] = 0"
| "MissingShards (c # cs) = length (st_Missing c) + MissingShards cs"

fun probe_shards :: "'s store_ops \<Rightarrow> 's \<Rightarrow> nat \<Rightarrow> shard_id list \<Rightarrow> chunk_status \<Rightarrow> chunk_status res" where
  "probe_shards ops s pos [] st = Inr st"
| "probe_shards ops s pos (sid # sids) st =
     (case op_Has ops s sid of
        Inl e \<Rightarrow> Inl e
      | Inr True \<Rightarrow> probe_shards ops s (Suc pos) sids (st\<lparr>st_Present := st_Present st + 1\<rparr>)
      | Inr False \<Rightarrow> probe_shards ops s (Suc pos) sids (st\<lparr>st_Missing := st_Missing st @ [pos]\<rparr>))"

fun check_chunks :: "'s store_ops \<Rightarrow> 's \<Rightarrow> nat \<Rightarrow> chunk_ref list \<Rightarrow> report res" where
  "check_chunks ops s i [] = Inr []"
| "check_chunks ops s i (ref # refs) =
     bindR (probe_shards ops s 0 (ref_Shards ref)
              \<lparr>st_Index = i, st_Present = 0, st_Total = length (ref_Shards ref), st_Missing = []\<rparr>) (\<lambda>st.
     bindR (check_chunks ops s (Suc i) refs) (\<lambda>rest. Inr (st # rest)))"

definition Check :: "'s store_ops \<Rightarrow> 's \<Rightarrow> file_manifest \<Rightarrow> report res" where
  "Check ops s m = check_chunks ops s 0 (fm_Chunks m)"

section \<open>Regenerating\<close>

definition missing_positions :: "bytes option list \<Rightarrow> nat list" where
  "missing_positions shards = filter (\<lambda>pos. shards ! pos = None) [0..<length shards]"

text \<open>
  The loop over the missing positions. \<open>regen\<close> has K+M entries, and so has the manifest's list
  once \<open>Decode\<close> accepted the shards; a position beyond it would be an index panic.
\<close>

fun put_missing :: "'s store_ops \<Rightarrow> bytes list \<Rightarrow> shard_id list \<Rightarrow> nat list \<Rightarrow> 's \<Rightarrow> 's \<times> unit res" where
  "put_missing ops regen want [] s = (s, Inr ())"
| "put_missing ops regen want (pos # ps) s =
     (if length regen \<le> pos then (s, Inl ErrPanic)
      else case op_Put ops s (regen ! pos) of
        (s', Inl e) \<Rightarrow> (s', Inl e)
      | (s', Inr got) \<Rightarrow> if got \<noteq> want ! pos then (s', Inl ErrMismatch) else put_missing ops regen want ps s')"

definition repairChunk :: "rs_new \<Rightarrow> 's store_ops \<Rightarrow> params \<Rightarrow> chunk_ref \<Rightarrow> 's \<Rightarrow> 's \<times> unit res" where
  "repairChunk new ops p ref s =
     (case get_shards ops s (ref_Shards ref) of
        Inl e \<Rightarrow> (s, Inl e)
      | Inr shards \<Rightarrow>
         (let missing = missing_positions shards;
              here = int (length (ref_Shards ref)) - int (length missing) in
          if missing = [] then (s, Inr ())
          else if here < param_K p then (s, Inl ErrTooFewShards)
          else case Decode new p shards of
            Inl e \<Rightarrow> (s, Inl e)
          | Inr sealed \<Rightarrow>
             (case Encode new p sealed of
                Inl e \<Rightarrow> (s, Inl e)
              | Inr regen \<Rightarrow> put_missing ops regen (ref_Shards ref) missing s)))"

text \<open>The errors of the chunks are collected and the loop goes on.\<close>

fun repair_chunks :: "rs_new \<Rightarrow> 's store_ops \<Rightarrow> params \<Rightarrow> chunk_ref list \<Rightarrow> 's \<Rightarrow> 's \<times> error list" where
  "repair_chunks new ops p [] s = (s, [])"
| "repair_chunks new ops p (ref # refs) s =
     (case repairChunk new ops p ref s of (s1, r) \<Rightarrow>
      (case repair_chunks new ops p refs s1 of (s2, errs) \<Rightarrow>
         (s2, (case r of Inl e \<Rightarrow> [e] | Inr _ \<Rightarrow> []) @ errs)))"

definition Repair :: "rs_new \<Rightarrow> 's store_ops \<Rightarrow> file_manifest \<Rightarrow> 's \<Rightarrow> 's \<times> report \<times> error list" where
  "Repair new ops m s =
     (case repair_chunks new ops (cfg_Params (fm_Params m)) (fm_Chunks m) s of (s', errs) \<Rightarrow>
      (case Check ops s' m of
         Inl e \<Rightarrow> (s', [], errs @ [e])
       | Inr rep \<Rightarrow> (s', rep, errs)))"

section \<open>Reports\<close>

lemma probe_shards_exact:
  assumes "\<forall>sid. op_Has ops s sid = Inr (P sid)"
  shows "probe_shards ops s pos sids st = Inr (st\<lparr>st_Present := st_Present st + length (filter P sids),
    st_Missing := st_Missing st @ filter (\<lambda>i. \<not> P (sids ! (i - pos))) [pos..<pos + length sids]\<rparr>)"
proof (induction sids arbitrary: pos st)
  case Nil
  then show ?case by simp
next
  case (Cons sid sids)
  have shift: "filter (\<lambda>i. \<not> P ((sid # sids) ! (i - pos))) [Suc pos..<Suc pos + length sids]
      = filter (\<lambda>i. \<not> P (sids ! (i - Suc pos))) [Suc pos..<Suc pos + length sids]"
  proof (rule filter_cong [OF refl])
    fix i assume "i \<in> set [Suc pos..<Suc pos + length sids]"
    then have "i - pos = Suc (i - Suc pos)" by auto
    then show "(\<not> P ((sid # sids) ! (i - pos))) \<longleftrightarrow> (\<not> P (sids ! (i - Suc pos)))" by simp
  qed
  have rng: "[pos..<pos + length (sid # sids)] = pos # [Suc pos..<Suc pos + length sids]"
    by (simp add: upt_conv_Cons del: upt_Suc)
  show ?case unfolding rng filter.simps shift using assms by (simp add: Cons.IH del: upt_Suc)
qed

definition exact_status :: "(shard_id \<Rightarrow> bool) \<Rightarrow> nat \<Rightarrow> shard_id list \<Rightarrow> chunk_status" where
  "exact_status here i sids = \<lparr>st_Index = i, st_Present = length (filter here sids), st_Total = length sids,
     st_Missing = filter (\<lambda>pos. \<not> here (sids ! pos)) [0..<length sids]\<rparr>"

lemma check_chunks_exact:
  assumes "\<forall>sid. op_Has ops s sid = Inr (here sid)"
  shows "check_chunks ops s i refs = Inr (map (\<lambda>(j, ref). exact_status here j (ref_Shards ref)) (List.enumerate i refs))"
  by (induction refs arbitrary: i) (simp_all add: probe_shards_exact [OF assms] exact_status_def)

lemma healthy_exact: "chunk_Healthy (exact_status here i sids) \<longleftrightarrow> (\<forall>sid \<in> set sids. here sid)"
  by (auto simp: chunk_Healthy_def exact_status_def filter_empty_conv all_set_conv_all_nth)

lemma report_Healthy_iff: "report_Healthy rep \<longleftrightarrow> (\<forall>c \<in> set rep. chunk_Healthy c)"
  by (induction rep) auto

lemma report_exact_Healthy:
  "report_Healthy (map (\<lambda>(j, ref). exact_status here j (ref_Shards ref)) (List.enumerate i refs))
    \<longleftrightarrow> (\<forall>ref \<in> set refs. \<forall>sid \<in> set (ref_Shards ref). here sid)"
  by (induction refs arbitrary: i) (auto simp: healthy_exact)

section \<open>Repair on any lawful store\<close>

lemma missing_positions_present: "length (missing_positions os) + present os = length os"
proof -
  have "present os = length (filter (\<lambda>pos. os ! pos \<noteq> None) [0..<length os])"
    unfolding present_def by (metis (no_types, lifting) filter_map length_map map_nth o_def filter_cong)
  then show ?thesis
    using sum_length_filter_compl [of "\<lambda>pos. os ! pos = None" "[0..<length os]"]
    by (simp add: missing_positions_def)
qed

lemma erased_nth: "erased os cw \<Longrightarrow> i < length cw \<Longrightarrow> os ! i = None \<or> os ! i = Some (cw ! i)"
  by (auto simp: erased_def list_all2_conv_all_nth)

lemma get_shards_nth:
  "get_shards ops s sids = Inr os \<Longrightarrow> i < length sids \<Longrightarrow> os ! i = Some b \<Longrightarrow> op_Get ops s (sids ! i) = Inr b"
  by (induction sids arbitrary: i os) (auto simp: nth_Cons split: sum.splits if_splits nat.splits)

text \<open>A chunk as it was written: its shards are an encoding, addressed by their hashes.\<close>

definition chunk_intact :: "prims \<Rightarrow> rs_new \<Rightarrow> params \<Rightarrow> chunk_ref \<times> bytes list \<Rightarrow> bool" where
  "chunk_intact P new p x \<longleftrightarrow> ref_Shards (fst x) = map (HashOf P) (snd x) \<and>
     (\<exists>sealed. length sealed < 2 ^ 64 \<and> Encode new p sealed = Inr (snd x))"

lemma chunk_intact_length:
  assumes "codec_ok new p" and "chunk_intact P new p x"
  shows "param_K p \<le> int (length (snd x))"
proof -
  obtain sealed where "Encode new p sealed = Inr (snd x)" using assms(2) by (auto simp: chunk_intact_def)
  then have "length (snd x) = nat (params_N p)" using Encode_shape [OF assms(1), of sealed] by auto
  then show ?thesis using assms(1) by (simp add: codec_ok_def params_ok_def params_N_def)
qed

context content_store
begin

lemma put_missing_ok:
  assumes "invar s" and "\<forall>pos \<in> set ps. pos < length shards"
  shows "\<exists>s'. put_missing ops shards (map (HashOf P) shards) ps s = (s', Inr ()) \<and> invar s' \<and> abs s \<subseteq>\<^sub>m abs s'
    \<and> ran (abs s') \<subseteq> ran (abs s) \<union> set shards \<and> (\<forall>pos \<in> set ps. abs s' (HashOf P (shards ! pos)) \<noteq> None)"
  using assms
proof (induction ps arbitrary: s)
  case Nil
  then show ?case by simp
next
  case (Cons pos ps)
  obtain s1 r where put: "op_Put ops s (shards ! pos) = (s1, r)" by fastforce
  note L = put_law [OF Cons.prems(1) put]
  obtain s' where s': "put_missing ops shards (map (HashOf P) shards) ps s1 = (s', Inr ())" "invar s'"
    "abs s1 \<subseteq>\<^sub>m abs s'" "ran (abs s') \<subseteq> ran (abs s1) \<union> set shards"
    "\<forall>pos \<in> set ps. abs s' (HashOf P (shards ! pos)) \<noteq> None"
    using Cons.IH [of s1] L Cons.prems(2) by auto
  have pos: "pos < length shards" using Cons.prems(2) by simp
  have sub: "abs s \<subseteq>\<^sub>m abs s1" and r1: "ran (abs s1) \<subseteq> ran (abs s) \<union> set shards"
    and some: "abs s1 (HashOf P (shards ! pos)) \<noteq> None"
    using L pos by (auto simp: map_le_def ran_def split: if_splits)
  have "abs s' (HashOf P (shards ! pos)) \<noteq> None" using some by (rule map_le_not_None [OF s'(3)])
  moreover have "abs s \<subseteq>\<^sub>m abs s'" using sub s'(3) by (rule map_le_trans)
  ultimately show ?case using put L s' r1 pos by auto
qed

lemma get_shards_here:
  assumes "invar s" and "ran (abs s) \<union> set shards \<subseteq> U" and "inj_on (HashOf P) U"
  shows "\<exists>os. get_shards ops s (map (HashOf P) shards) = Inr os \<and> erased os shards
    \<and> present os = avail ops s (map (HashOf P) shards)
    \<and> (\<forall>i < length shards. os ! i \<noteq> None \<longrightarrow> abs s (HashOf P (shards ! i)) \<noteq> None)"
proof -
  obtain os where os: "get_shards ops s (map (HashOf P) shards) = Inr os" "erased os shards"
    "present os = avail ops s (map (HashOf P) shards)"
    using get_shards_erased [of shards ops s P] get_lossy [OF assms] by blast
  moreover have "abs s (HashOf P (shards ! i)) \<noteq> None" if "i < length shards" "os ! i \<noteq> None" for i
    using get_shards_nth [OF os(1), of i] that get_law [OF assms(1)] by (auto split: option.splits)
  ultimately show ?thesis by blast
qed

lemma repairChunk_ok:
  assumes inv: "invar s" and codec: "codec_ok new p" and x: "chunk_intact P new p x"
    and U: "ran (abs s) \<union> set (snd x) \<subseteq> U" "inj_on (HashOf P) U"
    and k: "param_K p \<le> int (avail ops s (ref_Shards (fst x)))"
  shows "\<exists>s'. repairChunk new ops p (fst x) s = (s', Inr ()) \<and> invar s' \<and> abs s \<subseteq>\<^sub>m abs s'
    \<and> ran (abs s') \<subseteq> ran (abs s) \<union> set (snd x) \<and> (\<forall>sh \<in> set (snd x). abs s' (HashOf P sh) \<noteq> None)"
proof -
  obtain sealed where e: "length sealed < 2 ^ 64" "Encode new p sealed = Inr (snd x)"
    and ids: "ref_Shards (fst x) = map (HashOf P) (snd x)" using x by (auto simp: chunk_intact_def)
  obtain os where os: "get_shards ops s (map (HashOf P) (snd x)) = Inr os" "erased os (snd x)"
    "present os = avail ops s (map (HashOf P) (snd x))"
    "\<forall>i < length (snd x). os ! i \<noteq> None \<longrightarrow> abs s (HashOf P (snd x ! i)) \<noteq> None"
    using get_shards_here [OF inv U] by blast
  have len: "length os = length (snd x)" using os(2) by (simp add: erased_def list_all2_lengthD)
  have d: "Decode new p os = Inr sealed" using Decode_erased [OF codec e(2) os(2) _ e(1)] k os(3) ids by simp
  have enough: "\<not> int (length (ref_Shards (fst x))) - int (length (missing_positions os)) < param_K p"
    using missing_positions_present [of os] k os(3) ids len by simp
  obtain s' where s': "put_missing ops (snd x) (map (HashOf P) (snd x)) (missing_positions os) s = (s', Inr ())"
    "invar s'" "abs s \<subseteq>\<^sub>m abs s'" "ran (abs s') \<subseteq> ran (abs s) \<union> set (snd x)"
    "\<forall>pos \<in> set (missing_positions os). abs s' (HashOf P (snd x ! pos)) \<noteq> None"
    using put_missing_ok [OF inv, of "missing_positions os" "snd x"] len by (auto simp: missing_positions_def)
  have "abs s' (HashOf P (snd x ! i)) \<noteq> None" if "i < length (snd x)" for i
  proof (cases "os ! i = None")
    case True
    then show ?thesis using s'(5) that len by (simp add: missing_positions_def)
  next
    case False
    then show ?thesis using os(4) that map_le_not_None [OF s'(3)] by simp
  qed
  then have all: "\<forall>sh \<in> set (snd x). abs s' (HashOf P sh) \<noteq> None" unfolding all_set_conv_all_nth by blast
  have "repairChunk new ops p (fst x) s = (s', Inr ())"
  proof (cases "missing_positions os = []")
    case True
    then show ?thesis using s'(1) os(1) ids by (simp add: repairChunk_def)
  next
    case False
    then show ?thesis using s'(1) os(1) ids d e(2) enough by (simp add: repairChunk_def Let_def)
  qed
  then show ?thesis using s' all by blast
qed

lemma repairChunk_hopeless:
  assumes inv: "invar s" and ids: "ref_Shards (fst x) = map (HashOf P) (snd x)"
    and U: "ran (abs s) \<union> set (snd x) \<subseteq> U" "inj_on (HashOf P) U"
    and k: "int (avail ops s (ref_Shards (fst x))) < param_K p" and n: "param_K p \<le> int (length (snd x))"
  shows "repairChunk new ops p (fst x) s = (s, Inl ErrTooFewShards)"
proof -
  obtain os where os: "get_shards ops s (map (HashOf P) (snd x)) = Inr os" "erased os (snd x)"
    "present os = avail ops s (map (HashOf P) (snd x))"
    using get_shards_here [OF inv U] by blast
  have len: "length os = length (snd x)" using os(2) by (simp add: erased_def list_all2_lengthD)
  have "int (length (ref_Shards (fst x))) - int (length (missing_positions os)) < param_K p"
    using missing_positions_present [of os] k os(3) ids len by simp
  moreover have "missing_positions os \<noteq> []"
    using missing_positions_present [of os] k os(3) ids len n by auto
  ultimately show ?thesis using os(1) ids by (simp add: repairChunk_def Let_def)
qed

lemma repair_chunks_ok:
  assumes "invar s" and codec: "codec_ok new p" and "\<forall>x \<in> set old. chunk_intact P new p x"
    and "ran (abs s) \<union> set (concat (map snd old)) \<subseteq> U" and inj: "inj_on (HashOf P) U"
  shows "\<exists>s' errs. repair_chunks new ops p (map fst old) s = (s', errs) \<and> invar s' \<and> abs s \<subseteq>\<^sub>m abs s'
    \<and> ran (abs s') \<subseteq> U \<and> set errs \<subseteq> {ErrTooFewShards}
    \<and> ((\<forall>x \<in> set old. param_K p \<le> int (avail ops s (ref_Shards (fst x)))) \<longrightarrow> errs = [])
    \<and> (\<forall>x \<in> set old. param_K p \<le> int (avail ops s (ref_Shards (fst x))) \<longrightarrow>
         (\<forall>sh \<in> set (snd x). abs s' (HashOf P sh) \<noteq> None))"
  using assms(1,3,4)
proof (induction old arbitrary: s)
  case Nil
  then show ?case by simp
next
  case (Cons x old)
  have x: "chunk_intact P new p x" and U: "ran (abs s) \<union> set (snd x) \<subseteq> U" using Cons.prems by auto
  obtain s1 r where c: "repairChunk new ops p (fst x) s = (s1, r)" "invar s1" "abs s \<subseteq>\<^sub>m abs s1" "ran (abs s1) \<subseteq> U"
    "r = Inr () \<or> r = Inl ErrTooFewShards \<and> \<not> param_K p \<le> int (avail ops s (ref_Shards (fst x)))"
    "param_K p \<le> int (avail ops s (ref_Shards (fst x))) \<longrightarrow> (\<forall>sh \<in> set (snd x). abs s1 (HashOf P sh) \<noteq> None)"
  proof (cases "param_K p \<le> int (avail ops s (ref_Shards (fst x)))")
    case True
    from repairChunk_ok [OF Cons.prems(1) codec x U inj this] that U show ?thesis by blast
  next
    case False
    then have "repairChunk new ops p (fst x) s = (s, Inl ErrTooFewShards)"
      using x chunk_intact_length [OF codec x]
      by (intro repairChunk_hopeless [OF Cons.prems(1) _ U inj]) (auto simp: chunk_intact_def)
    then show ?thesis using that [of s "Inl ErrTooFewShards"] False Cons.prems(1) U by auto
  qed
  obtain s' errs where i: "repair_chunks new ops p (map fst old) s1 = (s', errs)" "invar s'" "abs s1 \<subseteq>\<^sub>m abs s'"
    "ran (abs s') \<subseteq> U" "set errs \<subseteq> {ErrTooFewShards}"
    "(\<forall>x \<in> set old. param_K p \<le> int (avail ops s1 (ref_Shards (fst x)))) \<longrightarrow> errs = []"
    "\<forall>x \<in> set old. param_K p \<le> int (avail ops s1 (ref_Shards (fst x))) \<longrightarrow>
       (\<forall>sh \<in> set (snd x). abs s' (HashOf P sh) \<noteq> None)"
    using Cons.IH [OF c(2)] Cons.prems(2,3) c(4) by auto
  have grow: "param_K p \<le> int (avail ops s1 sids)" if "param_K p \<le> int (avail ops s sids)" for sids
    using that avail_mono [OF Cons.prems(1) c(2,3), of sids] by linarith
  have "abs s \<subseteq>\<^sub>m abs s'" using c(3) i(3) by (rule map_le_trans)
  then show ?case using c i grow map_le_not_None [OF i(3)]
    by (intro exI [of _ s'] exI [of _ "(case r of Inl e \<Rightarrow> [e] | Inr _ \<Rightarrow> []) @ errs"]) auto
qed

lemma repair_file:
  assumes "invar s" and codec: "codec_ok new (cfg_Params (fm_Params m))" and refs: "fm_Chunks m = map fst old"
    and int: "\<forall>x \<in> set old. chunk_intact P new (cfg_Params (fm_Params m)) x"
    and inj: "inj_on (HashOf P) (ran (abs s) \<union> set (concat (map snd old)))"
  shows "\<exists>s' rep errs. Repair new ops m s = (s', rep, errs) \<and> invar s' \<and> abs s \<subseteq>\<^sub>m abs s'
    \<and> Check ops s' m = Inr rep \<and> set errs \<subseteq> {ErrTooFewShards}
    \<and> (\<forall>x \<in> set old. param_K (cfg_Params (fm_Params m)) \<le> int (avail ops s (ref_Shards (fst x))) \<longrightarrow>
         (\<forall>sh \<in> set (snd x). op_Get ops s' (HashOf P sh) = Inr sh))
    \<and> ((\<forall>x \<in> set old. param_K (cfg_Params (fm_Params m)) \<le> int (avail ops s (ref_Shards (fst x)))) \<longrightarrow>
         errs = [] \<and> report_Healthy rep)"
proof -
  let ?p = "cfg_Params (fm_Params m)" and ?U = "ran (abs s) \<union> set (concat (map snd old))"
  obtain s' errs where r: "repair_chunks new ops ?p (map fst old) s = (s', errs)" "invar s'" "abs s \<subseteq>\<^sub>m abs s'"
    "ran (abs s') \<subseteq> ?U" "set errs \<subseteq> {ErrTooFewShards}"
    "(\<forall>x \<in> set old. param_K ?p \<le> int (avail ops s (ref_Shards (fst x)))) \<longrightarrow> errs = []"
    "\<forall>x \<in> set old. param_K ?p \<le> int (avail ops s (ref_Shards (fst x))) \<longrightarrow> (\<forall>sh \<in> set (snd x). abs s' (HashOf P sh) \<noteq> None)"
    using repair_chunks_ok [OF assms(1) codec int order_refl inj] by blast
  have has: "\<forall>sid. op_Has ops s' sid = Inr (abs s' sid \<noteq> None)" using has_law [OF r(2)] by simp
  obtain rep where rep: "Check ops s' m = Inr rep" "report_Healthy rep \<longleftrightarrow>
      (\<forall>ref \<in> set (fm_Chunks m). \<forall>sid \<in> set (ref_Shards ref). abs s' sid \<noteq> None)"
    using check_chunks_exact [OF has, of 0 "fm_Chunks m"] that unfolding Check_def by (simp add: report_exact_Healthy)
  have again: "op_Get ops s' (HashOf P sh) = Inr sh" if "x \<in> set old" "sh \<in> set (snd x)"
      "param_K ?p \<le> int (avail ops s (ref_Shards (fst x)))" for x sh
    using that r(7) by (intro get_stored [OF r(2,4) _ inj, of "snd x"]) auto
  have "report_Healthy rep" if "\<forall>x \<in> set old. param_K ?p \<le> int (avail ops s (ref_Shards (fst x)))"
    using that r(7) int unfolding rep(2) refs by (auto simp: chunk_intact_def)
  then show ?thesis using r rep(1) again refs by (simp add: Repair_def)
qed

end

section \<open>Properties\<close>

text \<open>
  C18: repair restores full redundancy. On a sound disk store holding what was written (the
  shards of each chunk are an encoding, without hash collisions), \<open>Repair\<close> loses no blob,
  brings back every shard of every chunk that still had K readable shards, under the very same
  content addresses, so that the manifest stays valid; its report is a fresh probe of the
  resulting store, its only errors are chunks below K, and when no chunk was below K there is no
  error and the report is healthy.
\<close>

theorem Repair_restores:
  assumes "disk_inv P s" and "codec_ok new (cfg_Params (fm_Params m))" and "fm_Chunks m = map fst old"
    and "\<forall>x \<in> set old. chunk_intact P new (cfg_Params (fm_Params m)) x"
    and "inj_on (HashOf P) (ran (disk_abs P s) \<union> set (concat (map snd old)))"
  shows "\<exists>s' rep errs. Repair new (disk_ops P) m s = (s', rep, errs) \<and> disk_inv P s' \<and> disk_abs P s \<subseteq>\<^sub>m disk_abs P s'
    \<and> Check (disk_ops P) s' m = Inr rep \<and> set errs \<subseteq> {ErrTooFewShards}
    \<and> (\<forall>x \<in> set old. param_K (cfg_Params (fm_Params m)) \<le> int (avail (disk_ops P) s (ref_Shards (fst x))) \<longrightarrow>
         (\<forall>sh \<in> set (snd x). op_Get (disk_ops P) s' (HashOf P sh) = Inr sh))
    \<and> ((\<forall>x \<in> set old. param_K (cfg_Params (fm_Params m)) \<le> int (avail (disk_ops P) s (ref_Shards (fst x)))) \<longrightarrow>
         errs = [] \<and> report_Healthy rep)"
  by (rule disk.repair_file [OF assms])

text \<open>Two of three shards are on disk, the third is lost.\<close>

definition demo_manifest :: "bytes list \<Rightarrow> file_manifest" where
  "demo_manifest shards = \<lparr>fm_Name = [], fm_Params = demo_config, fm_Size = 3, fm_Meta = zero_metadata,
     fm_Chunks = [\<lparr>ref_Key = [], ref_Compressed = False, ref_Shards = map (HashOf demo_prims) shards\<rparr>]\<rparr>"

theorem Repair_restores_witness:
  "\<exists>s shards s' rep. length shards = 3 \<and> \<not> isl (op_Get (disk_ops demo_prims) s (HashOf demo_prims (shards ! 0)))
     \<and> Repair xor_new (disk_ops demo_prims) (demo_manifest shards) s = (s', rep, [])
     \<and> (\<forall>sh \<in> set shards. op_Get (disk_ops demo_prims) s' (HashOf demo_prims sh) = Inr sh)"
proof -
  let ?p = "cfg_Params (fm_Params (demo_manifest []))" and ?ops = "disk_ops demo_prims"
  have p: "?p = \<lparr>param_K = 2, param_M = 1\<rparr>" by (simp add: demo_manifest_def demo_config_def)
  obtain shards where e: "Encode xor_new ?p [1, 2, 3] = Inr shards" "length shards = 3"
    using Encode_shape [OF xor_codec_ok, of "[1, 2, 3]"] unfolding p by (auto simp: params_N_def)
  let ?m = "demo_manifest shards" and ?x = "(hd (fm_Chunks (demo_manifest shards)), shards)"
  have small: "list_all (\<lambda>b. length b \<le> 28) shards"
    using xor_Encode_length [OF e(1) [unfolded p]] by (simp add: list_all_iff)
  obtain s where s: "disk_inv demo_prims s" "ran (disk_abs demo_prims s) \<subseteq> ran (disk_abs demo_prims demo_disk) \<union> set (take 2 shards)"
    "\<forall>sh \<in> set (take 2 shards). disk_abs demo_prims s (HashOf demo_prims sh) \<noteq> None"
    using disk.put_shards_ok [OF demo_disk_inv, of demo_prims "take 2 shards"] by blast
  have two: "avail ?ops s (map (HashOf demo_prims) (take 2 shards)) = 2"
    using disk.avail_all [OF s(1), of "map (HashOf demo_prims) (take 2 shards)"] s(3) e(2) by simp
  then have av: "2 \<le> avail ?ops s (map (HashOf demo_prims) shards)"
    using avail_append [of ?ops s "map (HashOf demo_prims) (take 2 shards)" "map (HashOf demo_prims) (drop 2 shards)"]
    by (simp flip: map_append)
  have first: "\<not> isl (op_Get ?ops s (HashOf demo_prims (shards ! 0)))"
    using s(3) e(2) by (cases shards) (auto simp: disk.get_law [OF s(1)] eval_nat_numeral split: option.splits)
  have int: "\<forall>x \<in> set [?x]. chunk_intact demo_prims xor_new (cfg_Params (fm_Params ?m)) x"
    using e(1) by (auto simp: chunk_intact_def demo_manifest_def intro!: exI [of _ "[1, 2, 3]"])
  have inj: "inj_on (HashOf demo_prims) (ran (disk_abs demo_prims s) \<union> set (concat (map snd [?x])))"
    using s(2) by (intro inj_on_subset [OF demo_shards_inj [OF small]]) (auto dest: in_set_takeD)
  have codec: "codec_ok xor_new (cfg_Params (fm_Params ?m))"
    using xor_codec_ok by (simp add: demo_manifest_def demo_config_def)
  have chunks: "fm_Chunks ?m = map fst [?x]" by (simp add: demo_manifest_def)
  from Repair_restores [OF s(1) codec chunks int inj] av first e(2) show ?thesis
    by (auto simp: demo_manifest_def demo_config_def)
qed

text \<open>A disk file that is there is never rewritten, whatever its bytes.\<close>

lemma disk_Put_existing:
  assumes "map_of (files d) (pathFor sid) = Some b" and "\<not> fails d SysStat"
  shows "map_of (files (fst (disk_Put P d data))) (pathFor sid) = Some b"
proof (cases "sid = HashOf P data")
  case True
  then show ?thesis using assms by (cases "pathFor sid") (simp add: disk_Put_def Let_def)
next
  case False
  then show ?thesis using disk_Put_files [of P d data "fst (disk_Put P d data)" "snd (disk_Put P d data)" sid] assms(1) by simp
qed

definition holds_file :: "disk_store \<Rightarrow> shard_id \<Rightarrow> bytes \<Rightarrow> bool" where
  "holds_file d sid b \<longleftrightarrow> map_of (files d) (pathFor sid) = Some b \<and> \<not> fails d SysStat \<and> \<not> fails d SysRead"

lemma holds_file_Put: "holds_file d sid b \<Longrightarrow> disk_Put P d data = (d', r) \<Longrightarrow> holds_file d' sid b"
  using disk_Put_existing [of d sid b P data] disk_Put_fails [of P d data] by (simp add: holds_file_def)

lemma holds_file_put_missing:
  "holds_file d sid b \<Longrightarrow> put_missing (disk_ops P) regen want ps d = (d', r) \<Longrightarrow> holds_file d' sid b"
  by (induction ps arbitrary: d) (auto simp: disk_ops_def dest: holds_file_Put split: prod.splits sum.splits if_splits)

lemma holds_file_repairChunk:
  "holds_file d sid b \<Longrightarrow> repairChunk new (disk_ops P) p ref d = (d', r) \<Longrightarrow> holds_file d' sid b"
  by (auto simp: repairChunk_def Let_def dest: holds_file_put_missing split: sum.splits if_splits)

lemma holds_file_repair_chunks:
  "holds_file d sid b \<Longrightarrow> repair_chunks new (disk_ops P) p refs d = (d', errs) \<Longrightarrow> holds_file d' sid b"
  by (induction refs arbitrary: d errs) (auto dest: holds_file_repairChunk split: prod.splits)

text \<open>
  a damaged shard file is not repaired. When the file at a content address holds other
  bytes, \<open>Repair\<close> leaves it as it is: reading the shard still reports corruption
  afterwards, while the closing probe counts the shard as present. The deduplicating \<open>Put\<close> of
  the disk store skips the regenerated shard because the file exists.
\<close>

lemma Repair_leaves_damaged_file:
  assumes "map_of (files d) (pathFor sid) = Some b" and "HashOf P b \<noteq> sid" and "\<not> fails d SysStat" "\<not> fails d SysRead"
    and "Repair new (disk_ops P) m d = (d', rep, errs)"
  shows "disk_Get P d' sid = Inl ErrCorrupt \<and> disk_Has d' sid = Inr True"
proof -
  have "holds_file d' sid b"
    using assms holds_file_repair_chunks [of d sid b new P]
    by (auto simp: Repair_def holds_file_def split: prod.splits sum.splits)
  then show ?thesis using assms(2) by (simp add: holds_file_def disk_Get_def disk_Has_def)
qed

lemma Repair_leaves_damaged_file_witness:
  "disk_Get demo_prims (fst (Repair xor_new (disk_ops demo_prims) (demo_manifest [[1]])
     (demo_disk\<lparr>files := [(pathFor (HashOf demo_prims [1]), [2])]\<rparr>))) (HashOf demo_prims [1]) = Inl ErrCorrupt"
proof -
  let ?d = "demo_disk\<lparr>files := [(pathFor (HashOf demo_prims [1]), [2])]\<rparr>"
  obtain d' rep errs where r: "Repair xor_new (disk_ops demo_prims) (demo_manifest [[1]]) ?d = (d', rep, errs)"
    by (metis prod_cases3)
  have "demo_hash [2] \<noteq> demo_hash [1]" using demo_hash_inj by (auto dest: inj_onD)
  then show ?thesis
    using Repair_leaves_damaged_file [of ?d "HashOf demo_prims [1]" "[2]" demo_prims, OF _ _ _ _ r] r
    by (simp add: demo_disk_def HashOf_def)
qed

end
