(* ===== verification/Auth.thy ===== *)
theory Auth
  imports Crypto Stripe
begin

text \<open>
  Who may write: \<^verbatim>\<open>src/internal/cap\<close> (sealing a capability to a recipient, proof of work on
  an owner key), \<^verbatim>\<open>src/internal/net/auth.go\<close> (write tokens) and
  \<^verbatim>\<open>src/internal/net/authcache.go\<close> (the replay cache). Times are nanoseconds since the Unix
  epoch, token timestamps are 64-bit seconds.
\<close>

section \<open>Capabilities\<close>

definition CiphertextSize768 :: nat where
  "CiphertextSize768 = 1088"

definition Wrap :: "prims \<Rightarrow> bytes \<Rightarrow> bytes \<Rightarrow> bytes \<Rightarrow> (bytes \<times> bytes) res" where
  "Wrap P recipient plaintext rnd =
     bindR (read_full 32 rnd) (\<lambda>(coins, rnd1).
       case kem_encap P recipient coins of
         None \<Rightarrow> Inl ErrInvalid
       | Some (sharedKey, kemCiphertext) \<Rightarrow>
           bindR (Seal P sharedKey plaintext rnd1) (\<lambda>(dem, rnd2). Inr (kemCiphertext @ dem, rnd2)))"

definition Unwrap :: "prims \<Rightarrow> bytes \<Rightarrow> bytes \<Rightarrow> bytes res" where
  "Unwrap P priv sealed =
     (if length sealed < CiphertextSize768 then Inl ErrUnwrap
      else case kem_decap P priv (take CiphertextSize768 sealed) of
        None \<Rightarrow> Inl ErrUnwrap
      | Some sharedKey \<Rightarrow> (case Open P sharedKey (drop CiphertextSize768 sealed) of
            Inl _ \<Rightarrow> Inl ErrUnwrap | Inr plaintext \<Rightarrow> Inr plaintext))"

section \<open>Proof of work\<close>

definition LeadingZeros8 :: "byte \<Rightarrow> nat" where
  "LeadingZeros8 x = (if 128 \<le> x then 0 else if 64 \<le> x then 1 else if 32 \<le> x then 2 else if 16 \<le> x then 3
     else if 8 \<le> x then 4 else if 4 \<le> x then 5 else if 2 \<le> x then 6 else if 1 \<le> x then 7 else 8)"

fun leadingZeroBits :: "bytes \<Rightarrow> nat" where
  "leadingZeroBits [] = 0"
| "leadingZeroBits (x # b) = (if x = 0 then 8 + leadingZeroBits b else LeadingZeros8 x)"

definition MeetsPoW :: "prims \<Rightarrow> bytes \<Rightarrow> byte \<Rightarrow> bool" where
  "MeetsPoW P pubkey d \<longleftrightarrow> d = 0 \<or> unat d \<le> leadingZeroBits (argon_sum P pubkey)"

text \<open>One minting worker: the keys its generator yields, until one meets the target.\<close>

fun mint_worker :: "prims \<Rightarrow> byte \<Rightarrow> bytes res list \<Rightarrow> (bytes \<times> bytes) res option" where
  "mint_worker P d [] = None"
| "mint_worker P d (Inl e # gens) = Some (Inl e)"
| "mint_worker P d (Inr key # gens) =
     (if MeetsPoW P (ed_public P key) d then Some (Inr (key, ed_public P key)) else mint_worker P d gens)"

section \<open>Write tokens\<close>

datatype op = opPut | opGet | opHas | opDelete | opRenew | opRevokeGrant

fun op_byte :: "op \<Rightarrow> byte" where
  "op_byte opPut = 1"
| "op_byte opGet = 2"
| "op_byte opHas = 3"
| "op_byte opDelete = 4"
| "op_byte opRenew = 5"
| "op_byte opRevokeGrant = 6"

definition authTokenSize :: nat where
  "authTokenSize = SignPubKeySize + 8 + SignatureSize"

definition tokenSkew :: int where
  "tokenSkew = 5 * 60 * 10 ^ 9"

definition tokenPayload :: "op \<Rightarrow> shard_id \<Rightarrow> bytes \<Rightarrow> 64 word \<Rightarrow> bytes" where
  "tokenPayload opr sid peer ts = op_byte opr # sid @ peer @ be_put 8 (unat ts)"

definition buildToken :: "prims \<Rightarrow> bytes \<Rightarrow> op \<Rightarrow> shard_id \<Rightarrow> bytes \<Rightarrow> 64 word \<Rightarrow> bytes" where
  "buildToken P signer opr sid peer ts =
     ed_public P signer @ be_put 8 (unat ts) @ ed_sign P signer (tokenPayload opr sid peer ts)"

definition verifyToken :: "prims \<Rightarrow> bytes \<Rightarrow> op \<Rightarrow> shard_id \<Rightarrow> bytes \<Rightarrow> int \<Rightarrow> bytes res" where
  "verifyToken P token opr sid peer now =
     (if length token \<noteq> authTokenSize then Inl ErrUnauthorized
      else let pub = take SignPubKeySize token;
               ts = word_of_nat (be_get (take 8 (drop SignPubKeySize token))) :: 64 word;
               sig = drop (SignPubKeySize + 8) token;
               d = now - sint ts * 10 ^ 9 in
        if d < - tokenSkew \<or> tokenSkew < d then Inl ErrUnauthorized
        else if \<not> ed_verify P pub (tokenPayload opr sid peer ts) sig then Inl ErrUnauthorized
        else Inr pub)"

section \<open>The replay cache\<close>

text \<open>\<open>lastGC\<close> is \<open>None\<close> for the zero time, which lies further back than any interval.\<close>

record auth_cache =
  ac_entries :: "(bytes \<times> int) list"
  ac_lastGC :: "int option"

definition newAuthCache :: auth_cache where
  "newAuthCache = \<lparr>ac_entries = [], ac_lastGC = None\<rparr>"

definition authCacheGCInterval :: int where
  "authCacheGCInterval = 60 * 10 ^ 9"

definition authCache_gc :: "auth_cache \<Rightarrow> int \<Rightarrow> auth_cache" where
  "authCache_gc c now =
     (if (case ac_lastGC c of None \<Rightarrow> True | Some t \<Rightarrow> authCacheGCInterval \<le> now - t)
      then c\<lparr>ac_entries := filter (\<lambda>(_, exp). \<not> exp < now) (ac_entries c), ac_lastGC := Some now\<rparr>
      else c)"

definition seen :: "auth_cache \<Rightarrow> bytes \<Rightarrow> int \<Rightarrow> auth_cache \<times> bool" where
  "seen c sig now =
     (let c1 = authCache_gc c now; expiry = now + 2 * tokenSkew;
          fresh = (c1\<lparr>ac_entries := AList.update sig expiry (ac_entries c1)\<rparr>, False) in
      case map_of (ac_entries c1) sig of
        Some exp \<Rightarrow> if now < exp then (c1, True) else fresh
      | None \<Rightarrow> fresh)"

section \<open>Lemmas\<close>

lemma Unwrap_Wrap:
  assumes "kem_law P" and "gcm_law P" and "Wrap P (kem_public P priv) pt rnd = Inr (sealed, rnd')"
  shows "Unwrap P priv sealed = Inr pt"
proof -
  obtain k c dem where kc: "kem_encap P (kem_public P priv) (take 32 rnd) = Some (k, c)"
    and s: "Seal P k pt (drop 32 rnd) = Inr (dem, rnd')" and sealed: "sealed = c @ dem"
    using assms(3) by (auto simp: Wrap_def read_full_def split: if_splits option.splits)
  have "length c = 1088" "kem_decap P priv c = Some k"
    using assms(1) kc unfolding kem_law_def by (metis option.inject prod.inject)+
  then show ?thesis using Open_Seal [OF assms(2) s] by (simp add: Unwrap_def sealed CiphertextSize768_def)
qed

lemma LeadingZeros8_nat: "LeadingZeros8 x = (let n = unat x in if 128 \<le> n then 0 else if 64 \<le> n then 1 else if 32 \<le> n then 2
    else if 16 \<le> n then 3 else if 8 \<le> n then 4 else if 4 \<le> n then 5 else if 2 \<le> n then 6 else if 1 \<le> n then 7 else 8)"
  by (simp add: LeadingZeros8_def word_le_nat_alt Let_def)

lemma LeadingZeros8_le:
  assumes "x \<noteq> 0"
  shows "d \<le> LeadingZeros8 x \<longleftrightarrow> d \<le> 8 \<and> unat x < 2 ^ (8 - d)"
proof (cases "d \<le> 8")
  case True
  then consider "d = 0" | "d = 1" | "d = 2" | "d = 3" | "d = 4" | "d = 5" | "d = 6" | "d = 7" | "d = 8" by linarith
  then show ?thesis using byte_less_256 [of x] by cases (simp_all add: LeadingZeros8_nat Let_def)
next
  case False
  then show ?thesis by (simp add: LeadingZeros8_nat Let_def)
qed

lemma be_get_acc_base: "be_get_acc a bs = a * 256 ^ length bs + be_get bs"
proof (induction bs arbitrary: a)
  case Nil
  then show ?case by (simp add: be_get_def)
next
  case (Cons b bs)
  have "be_get (b # bs) = be_get_acc (unat b) bs" by (simp add: be_get_def)
  also have "\<dots> = unat b * 256 ^ length bs + be_get bs" by (rule Cons)
  finally have "be_get (b # bs) = unat b * 256 ^ length bs + be_get bs" .
  moreover have "be_get_acc a (b # bs) = (a * 256 + unat b) * 256 ^ length bs + be_get bs" using Cons by simp
  ultimately show ?case by (simp add: algebra_simps)
qed

lemma be_get_Cons: "be_get (b # bs) = unat b * 256 ^ length bs + be_get bs"
  using be_get_acc_base [of "unat b" bs] by (simp add: be_get_def)

lemma leadingZeroBits_le:
  "d \<le> 8 * length b \<Longrightarrow> d \<le> leadingZeroBits b \<longleftrightarrow> be_get b < 2 ^ (8 * length b - d)"
proof (induction b arbitrary: d)
  case Nil
  then show ?case by (simp add: be_get_def)
next
  case (Cons x b)
  let ?B = "256 ^ length b :: nat"
  have B: "?B = 2 ^ (8 * length b)" "be_get b < ?B" using be_get_bound [of b] by (simp_all add: power_mult)
  show ?case
  proof (cases "d \<le> 8")
    case True
    have e: "(2 :: nat) ^ (8 * length (x # b) - d) = 2 ^ (8 - d) * ?B"
      using True unfolding B(1) by (simp flip: power_add)
    have "be_get (x # b) < 2 ^ (8 - d) * ?B \<longleftrightarrow> unat x < 2 ^ (8 - d)"
    proof
      assume l: "be_get (x # b) < 2 ^ (8 - d) * ?B"
      show "unat x < 2 ^ (8 - d)"
      proof (rule ccontr)
        assume "\<not> unat x < 2 ^ (8 - d)"
        then have "2 ^ (8 - d) * ?B \<le> unat x * ?B" by (intro mult_right_mono) auto
        then show False using l unfolding be_get_Cons by linarith
      qed
    next
      assume "unat x < 2 ^ (8 - d)"
      then have "(unat x + 1) * ?B \<le> 2 ^ (8 - d) * ?B" by (intro mult_right_mono) auto
      then show "be_get (x # b) < 2 ^ (8 - d) * ?B" using B(2) by (simp add: be_get_Cons)
    qed
    moreover have "unat (0 :: byte) < 2 ^ (8 - d)" by simp
    ultimately show ?thesis unfolding e using True LeadingZeros8_le [of x d] by auto
  next
    case False
    then have e: "8 * length (x # b) - d = 8 * length b - (d - 8)" by simp
    show ?thesis
    proof (cases "x = 0")
      case True
      have "d - 8 \<le> 8 * length b" using Cons.prems by simp
      from Cons.IH [OF this] True False show ?thesis unfolding e by (auto simp: be_get_Cons)
    next
      case x: False
      then have "?B \<le> unat x * ?B" by (simp add: unat_eq_zero leI)
      moreover have "(2 :: nat) ^ (8 * length b - (d - 8)) \<le> ?B" unfolding B(1) by (intro power_increasing) auto
      ultimately have "\<not> be_get (x # b) < 2 ^ (8 * length b - (d - 8))" unfolding be_get_Cons by linarith
      then show ?thesis using x False LeadingZeros8_le [of x d] unfolding e by simp
    qed
  qed
qed

lemma tokenPayload_inj:
  assumes "tokenPayload o1 s1 p1 t1 = tokenPayload o2 s2 p2 t2" and "length s1 = length s2"
  shows "o1 = o2 \<and> s1 = s2 \<and> p1 = p2 \<and> t1 = t2"
proof -
  have ob: "op_byte o1 = op_byte o2" and r: "s1 @ p1 @ be_put 8 (unat t1) = s2 @ p2 @ be_put 8 (unat t2)"
    using assms(1) by (simp_all add: tokenPayload_def)
  have s: "s1 = s2" and pt: "p1 @ be_put 8 (unat t1) = p2 @ be_put 8 (unat t2)" using r assms(2) by auto
  then have p: "p1 = p2" and t: "be_put 8 (unat t1) = be_put 8 (unat t2)" by (simp_all add: append_eq_append_conv)
  have "unat t1 = unat t2"
    using be_put_inj [OF t] unsigned_less [of t1, where 'a = nat] unsigned_less [of t2, where 'a = nat] by simp
  moreover have "o1 = o2" using ob by (cases o1; cases o2) simp_all
  ultimately show ?thesis using s p by (simp add: word_unat_eq_iff)
qed

subsection \<open>The cache over time\<close>

text \<open>An entry is good for as long as its expiry says; until then no call loses it.\<close>

lemma map_of_filter_value:
  assumes "distinct (map fst al)" and "map_of al k = Some v" and "Q v"
  shows "map_of (filter (\<lambda>(_, w). Q w) al) k = Some v"
  using assms by (intro map_of_is_SomeI) (auto simp: distinct_map_filter dest: map_of_SomeD)

lemma authCache_gc_distinct: "distinct (map fst (ac_entries c)) \<Longrightarrow> distinct (map fst (ac_entries (authCache_gc c now)))"
  by (simp add: authCache_gc_def distinct_map_filter)

lemma authCache_gc_keeps:
  assumes "distinct (map fst (ac_entries c))" and "map_of (ac_entries c) sig = Some exp" and "now < exp"
  shows "map_of (ac_entries (authCache_gc c now)) sig = Some exp"
  using map_of_filter_value [OF assms(1,2), of "\<lambda>e. \<not> e < now"] assms(2,3) by (simp add: authCache_gc_def)

lemma seen_distinct: "distinct (map fst (ac_entries c)) \<Longrightarrow> distinct (map fst (ac_entries (fst (seen c sig now))))"
  using authCache_gc_distinct [of c now] by (simp add: seen_def Let_def distinct_update split: option.split)

lemma seen_keeps:
  assumes "distinct (map fst (ac_entries c))" and "map_of (ac_entries c) sig = Some exp" and "now < exp"
  shows "map_of (ac_entries (fst (seen c sig' now))) sig = Some exp" and "snd (seen c sig now)"
proof -
  note c1 = authCache_gc_keeps [OF assms]
  show "snd (seen c sig now)" using c1 assms(3) by (simp add: seen_def Let_def)
  show "map_of (ac_entries (fst (seen c sig' now))) sig = Some exp"
    using c1 assms(3) by (cases "sig' = sig") (simp_all add: seen_def Let_def split: option.split)
qed

lemma seen_records:
  assumes "seen c sig now = (c', False)"
  shows "map_of (ac_entries c') sig = Some (now + 2 * tokenSkew)"
  using assms by (auto simp: seen_def Let_def split: option.splits if_splits)

fun seen_run :: "auth_cache \<Rightarrow> (bytes \<times> int) list \<Rightarrow> auth_cache" where
  "seen_run c [] = c"
| "seen_run c ((sig, now) # calls) = seen_run (fst (seen c sig now)) calls"

lemma seen_run_keeps:
  "distinct (map fst (ac_entries c)) \<Longrightarrow> map_of (ac_entries c) sig = Some exp \<Longrightarrow> \<forall>(_, t) \<in> set calls. t < exp \<Longrightarrow>
   distinct (map fst (ac_entries (seen_run c calls))) \<and> map_of (ac_entries (seen_run c calls)) sig = Some exp"
proof (induction calls arbitrary: c)
  case (Cons call calls)
  obtain sig' now where call: "call = (sig', now)" by fastforce
  have "now < exp" "\<forall>(_, t) \<in> set calls. t < exp" using Cons.prems(3) by (auto simp: call)
  then show ?case
    using Cons.IH [of "fst (seen c sig' now)"] seen_distinct [OF Cons.prems(1)] seen_keeps(1) [OF Cons.prems(1,2)] by (simp add: call)
qed simp

lemma verifyToken_buildToken_eq:
  assumes "sign_law P"
  shows "verifyToken P (buildToken P signer opr sid peer ts) opr sid peer now =
    (if now - sint ts * 10 ^ 9 < - tokenSkew \<or> tokenSkew < now - sint ts * 10 ^ 9 then Inl ErrUnauthorized
     else Inr (ed_public P signer))"
proof -
  have l: "length (ed_public P signer) = 32" "\<And>msg. length (ed_sign P signer msg) = 64"
    "\<And>msg. ed_verify P (ed_public P signer) msg (ed_sign P signer msg)"
    using assms by (auto simp: sign_law_def)
  then show ?thesis using word_be_get [of ts]
    by (simp add: verifyToken_def buildToken_def authTokenSize_def SignPubKeySize_def SignatureSize_def Let_def)
qed

section \<open>Properties\<close>

text \<open>
  C37: a sealed capability opens for its recipient, and failures look alike. With a KEM and a
  cipher that behave as documented and enough entropy, wrapping to a recipient succeeds and
  unwrapping with the matching private key returns the plaintext; whatever is wrong with a
  sealed capability, the only error is \<open>ErrUnwrap\<close>.
\<close>

theorem Wrap_Unwrap:
  assumes "kem_law P" and "gcm_law P" and "32 + nonceSize \<le> length rnd"
  shows "(\<exists>sealed rnd'. Wrap P (kem_public P priv) pt rnd = Inr (sealed, rnd') \<and> Unwrap P priv sealed = Inr pt)
    \<and> (\<forall>key sealed e. Unwrap P key sealed = Inl e \<longrightarrow> e = ErrUnwrap)"
proof -
  obtain k c where kc: "kem_encap P (kem_public P priv) (take 32 rnd) = Some (k, c)"
    using assms(1) by (fastforce simp: kem_law_def)
  obtain dem r where "Seal P k pt (drop 32 rnd) = Inr (dem, r)" using Seal_ok [of "drop 32 rnd" P k pt] assms(3) by auto
  then have "Wrap P (kem_public P priv) pt rnd = Inr (c @ dem, r)"
    using kc assms(3) by (simp add: Wrap_def read_full_ok)
  moreover have "e = ErrUnwrap" if "Unwrap P key sealed = Inl e" for key sealed e
    using that by (auto simp: Unwrap_def split: if_splits option.splits sum.splits)
  ultimately show ?thesis using Unwrap_Wrap [OF assms(1,2)] by blast
qed

theorem Wrap_Unwrap_witness:
  "\<exists>sealed rnd'. Wrap demo_prims (demo_public [3]) [1, 2] (replicate 44 9) = Inr (sealed, rnd') \<and> Unwrap demo_prims [3] sealed = Inr [1, 2]"
  using Wrap_Unwrap [OF demo_kem_law demo_gcm_law, of "replicate 44 9" "[3]" "[1, 2]"]
  by (simp add: nonceSize_def demo_prims_def)

text \<open>
  Proof of work means what it says. Counting leading zero bits byte by byte agrees with the
  numeric target: for a difficulty within the digest's length, a key meets it exactly when its
  puzzle digest, read as a big-endian number, is below two to the remaining bits; difficulty zero
  admits every key.
\<close>

lemma MeetsPoW_target:
  "MeetsPoW P pubkey 0 \<and> (d \<noteq> 0 \<longrightarrow> unat d \<le> 8 * length (argon_sum P pubkey) \<longrightarrow>
     (MeetsPoW P pubkey d \<longleftrightarrow> be_get (argon_sum P pubkey) < 2 ^ (8 * length (argon_sum P pubkey) - unat d)))"
  by (simp add: MeetsPoW_def leadingZeroBits_le)

lemma MeetsPoW_target_witness: "MeetsPoW demo_prims [1] 200 \<longleftrightarrow> be_get (demo_hash [1]) < 2 ^ 56"
  using MeetsPoW_target [of demo_prims "[1]" 200] by (simp add: demo_prims_def)

text \<open>
  C38: a write token authorizes one thing. A token built for an operation on a shard at a node
  verifies there, as the signer, exactly while the clock is within five minutes of its
  timestamp; and the signed bytes of two tokens for 32-byte addresses are equal only if operation,
  shard, node and timestamp all are, so a signature cannot be moved to another operation, shard or node.
\<close>

theorem token_scope:
  assumes "sign_law P" and "length s1 = length s2"
  shows "verifyToken P (buildToken P signer opr sid peer ts) opr sid peer now =
      (if \<bar>now - sint ts * 10 ^ 9\<bar> \<le> tokenSkew then Inr (ed_public P signer) else Inl ErrUnauthorized)
    \<and> (tokenPayload o1 s1 p1 t1 = tokenPayload o2 s2 p2 t2 \<longrightarrow> o1 = o2 \<and> s1 = s2 \<and> p1 = p2 \<and> t1 = t2)"
  using verifyToken_buildToken_eq [OF assms(1), of signer opr sid peer ts now] tokenPayload_inj [OF _ assms(2), of o1 p1 t1 o2 p2 t2]
  by (auto simp: abs_le_iff)

theorem token_scope_witness:
  "verifyToken demo_prims (buildToken demo_prims [5] opPut [1] [2] 1000) opPut [1] [2] (1000 * 10 ^ 9) = Inr (demo_public [5])"
  using token_scope [OF demo_sign_law, of "[1]" "[1]" "[5]" opPut "[1]" "[2]" 1000 "1000 * 10 ^ 9" opPut "[]" 0 opPut "[]" 0]
  by (simp add: tokenSkew_def demo_prims_def)

text \<open>The timestamp of a token, in seconds.\<close>

definition token_time :: "bytes \<Rightarrow> int" where
  "token_time token = sint (word_of_nat (be_get (take 8 (drop SignPubKeySize token))) :: 64 word)"

text \<open>
  C39: replays are caught throughout the validity window, except at its very last instant. Once a
  token was accepted and its signature recorded at \<open>t0\<close>, then after any further calls on the cache up
  to a later time \<open>t\<close> a second use of the token that still verifies is recognised as a replay,
  unless \<open>t\<close> is exactly two skews after \<open>t0\<close>, which is possible only for a token stamped a whole skew ahead.
\<close>

theorem replay_caught:
  assumes "distinct (map fst (ac_entries c))" and "verifyToken P token opr sid peer t0 = Inr ow"
    and "seen c (drop (SignPubKeySize + 8) token) t0 = (c0, False)" and "\<forall>(_, t') \<in> set calls. t' \<le> t"
    and "verifyToken P token opr' sid' peer' t = Inr ow'"
  shows "snd (seen (seen_run c0 calls) (drop (SignPubKeySize + 8) token) t)
    \<or> t = t0 + 2 * tokenSkew \<and> token_time token * 10 ^ 9 = t0 + tokenSkew"
proof -
  let ?sig = "drop (SignPubKeySize + 8) token" and ?exp = "t0 + 2 * tokenSkew"
  have "t \<le> ?exp" "t = ?exp \<Longrightarrow> token_time token * 10 ^ 9 = t0 + tokenSkew"
    using assms(2,5) by (auto simp: verifyToken_def token_time_def Let_def split: if_splits)
  moreover have "snd (seen (seen_run c0 calls) ?sig t)" if "t < ?exp"
  proof -
    have d: "distinct (map fst (ac_entries c0))" using seen_distinct [OF assms(1), of ?sig t0] assms(3) by simp
    have "\<forall>(_, t') \<in> set calls. t' < ?exp" using assms(4) that by auto
    from seen_run_keeps [OF d seen_records [OF assms(3)] this] show ?thesis using seen_keeps(2) that by blast
  qed
  ultimately show ?thesis by (cases "t < ?exp") simp_all
qed

text \<open>
  At that instant a replay gets through. A token stamped five minutes ahead, accepted as soon
  as it becomes valid, is accepted again exactly ten minutes later, when it is still within its
  window but its cache entry no longer counts.
\<close>

lemma replay_at_boundary:
  "let token = buildToken demo_prims [5] opPut [1] [2] 300; sig = drop (SignPubKeySize + 8) token;
       (c1, r1) = seen newAuthCache sig 0; (c2, r2) = seen c1 sig (600 * 10 ^ 9)
   in verifyToken demo_prims token opPut [1] [2] 0 = Inr (demo_public [5]) \<and> \<not> r1
    \<and> verifyToken demo_prims token opPut [1] [2] (600 * 10 ^ 9) = Inr (demo_public [5]) \<and> \<not> r2"
proof -
  have "ed_public demo_prims [5] = demo_public [5]" by (simp add: demo_prims_def)
  then show ?thesis unfolding Let_def verifyToken_buildToken_eq [OF demo_sign_law]
    by (simp add: seen_def authCache_gc_def newAuthCache_def tokenSkew_def authCacheGCInterval_def)
qed

theorem replay_caught_witness:
  "snd (seen (fst (seen newAuthCache (drop 40 (buildToken demo_prims [5] opPut [1] [2] 300)) (10 ^ 9)))
     (drop 40 (buildToken demo_prims [5] opPut [1] [2] 300)) (2 * 10 ^ 9))"
proof -
  let ?token = "buildToken demo_prims [5] opPut [1] [2] 300"
  have ok: "verifyToken demo_prims ?token opPut [1] [2] (10 ^ 9) = Inr (demo_public [5])"
    "verifyToken demo_prims ?token opPut [1] [2] (2 * 10 ^ 9) = Inr (demo_public [5])"
    unfolding verifyToken_buildToken_eq [OF demo_sign_law] by (simp_all add: tokenSkew_def demo_prims_def)
  have "seen newAuthCache (drop (SignPubKeySize + 8) ?token) (10 ^ 9) =
      (fst (seen newAuthCache (drop (SignPubKeySize + 8) ?token) (10 ^ 9)), False)"
    by (simp add: seen_def authCache_gc_def newAuthCache_def)
  from replay_caught [OF _ ok(1) this _ ok(2), of "[]"] show ?thesis
    by (simp add: newAuthCache_def tokenSkew_def SignPubKeySize_def)
qed

end
