(* ===== verification/Wire.thy ===== *)
theory Wire
  imports Auth Store
begin

text \<open>
  The shard protocol's frames, \<^verbatim>\<open>src/internal/net/proto.go\<close>, and its client,
  \<^verbatim>\<open>src/internal/net/client.go\<close>. A stream carries one request and one response, each a byte
  string; reading consumes a prefix. The node at the other end is a parameter: it maps its own
  state and the bytes it receives to a new state and the bytes it answers, or to a transport
  error. Nothing is assumed of it.
\<close>

section \<open>Frames\<close>

definition MaxShardSize :: nat where
  "MaxShardSize = 64 * 2 ^ 20"

definition NonceSize :: nat where
  "NonceSize = 32"

definition maxStripeBlob :: nat where
  "maxStripeBlob = 2 ^ 16"

definition ReasonClient :: byte where
  "ReasonClient = 0"

definition ReasonRepair :: byte where
  "ReasonRepair = 1"

definition ReasonRebalance :: byte where
  "ReasonRebalance = 2"

text \<open>\<^verbatim>\<open>io.ReadFull\<close> on a stream.\<close>

definition ReadFull :: "nat \<Rightarrow> bytes \<Rightarrow> (bytes \<times> bytes) res" where
  "ReadFull n s = (if length s < n then Inl ErrRead else Inr (take n s, drop n s))"

definition readByte :: "bytes \<Rightarrow> (byte \<times> bytes) res" where
  "readByte s = (case s of [] \<Rightarrow> Inl ErrRead | b # rest \<Rightarrow> Inr (b, rest))"

definition readID :: "bytes \<Rightarrow> (shard_id \<times> bytes) res" where
  "readID s = ReadFull idSize s"

definition readNonce :: "bytes \<Rightarrow> (bytes \<times> bytes) res" where
  "readNonce s = ReadFull NonceSize s"

definition writeBlob :: "bytes \<Rightarrow> bytes res" where
  "writeBlob b = (if MaxShardSize < length b then Inl ErrTooLarge else Inr (be_put 4 (length b) @ b))"

definition readBlob :: "nat \<Rightarrow> bytes \<Rightarrow> (bytes \<times> bytes) res" where
  "readBlob limit s = bindR (ReadFull 4 s) (\<lambda>(hdr, s1).
     let n = be_get hdr in if limit < n then Inl ErrTooLarge else ReadFull n s1)"

section \<open>Statuses\<close>

definition statusOK :: byte where "statusOK = 0"
definition statusError :: byte where "statusError = 3"

fun errToStatus :: "error \<Rightarrow> byte" where
  "errToStatus ErrNotFound = 1"
| "errToStatus ErrCorrupt = 2"
| "errToStatus ErrUnauthorized = 4"
| "errToStatus ErrQuotaExceeded = 5"
| "errToStatus ErrRateLimited = 6"
| "errToStatus _ = statusError"

definition statusToErr :: "byte \<Rightarrow> unit res" where
  "statusToErr s = (if s = statusOK then Inr () else if s = 1 then Inl ErrNotFound else if s = 2 then Inl ErrCorrupt
     else if s = 4 then Inl ErrUnauthorized else if s = 5 then Inl ErrQuotaExceeded else if s = 6 then Inl ErrRateLimited
     else if s = statusError then Inl ErrRemote else Inl ErrCodec)"

text \<open>\<open>text\<close> is the error's message, \<^verbatim>\<open>err.Error()\<close>; one too long for a blob is not written.\<close>

definition replyErr :: "(error \<Rightarrow> bytes) \<Rightarrow> error \<Rightarrow> bytes" where
  "replyErr txt e = errToStatus e #
     (if errToStatus e = statusError then (case writeBlob (txt e) of Inl _ \<Rightarrow> [] | Inr b \<Rightarrow> b) else [])"

definition readResp :: "bytes \<Rightarrow> (unit \<times> bytes) res" where
  "readResp s = bindR (readByte s) (\<lambda>(st, s1).
     if st = statusError then bindR (readBlob MaxShardSize s1) (\<lambda>_. Inl ErrRemote)
     else bindR (statusToErr st) (\<lambda>u. Inr (u, s1)))"

section \<open>The client\<close>

record net_store =
  ns_peer :: bytes
  ns_signer :: "bytes option"
  ns_grantExpiry :: "64 word"

definition authToken :: "prims \<Rightarrow> net_store \<Rightarrow> op \<Rightarrow> shard_id \<Rightarrow> 64 word \<Rightarrow> bytes" where
  "authToken P n opr sid ts = (case ns_signer n of None \<Rightarrow> []
     | Some k \<Rightarrow> buildToken P k opr sid (ns_peer n) ts)"

text \<open>
  The writes of a request, in order, up to the first that fails. A client that fails to write
  resets the stream: the node has received what was written, the client gets the error.
\<close>

fun write_parts :: "bytes res list \<Rightarrow> bytes \<times> error option" where
  "write_parts [] = ([], None)"
| "write_parts (Inl e # ps) = ([], Some e)"
| "write_parts (Inr b # ps) = (case write_parts ps of (bs, e) \<Rightarrow> (b @ bs, e))"

definition exchange :: "('s \<Rightarrow> bytes \<Rightarrow> 's \<times> bytes res) \<Rightarrow> 's \<Rightarrow> bytes res list \<Rightarrow> 's \<times> bytes res" where
  "exchange node s parts = (case write_parts parts of (req, e) \<Rightarrow>
     (case node s req of (s', r) \<Rightarrow> (s', case e of None \<Rightarrow> r | Some err \<Rightarrow> Inl err)))"

definition putRaw :: "prims \<Rightarrow> ('s \<Rightarrow> bytes \<Rightarrow> 's \<times> bytes res) \<Rightarrow> 's \<Rightarrow> bytes \<Rightarrow> bytes \<Rightarrow> bytes \<Rightarrow> bytes \<Rightarrow> byte
    \<Rightarrow> 's \<times> shard_id res" where
  "putRaw P node s data token stripeBytes grant reason =
     (case exchange node s ([Inr [op_byte opPut]] @ map writeBlob [data, token, stripeBytes, grant] @ [Inr [reason]]) of
        (s', r) \<Rightarrow> (s', bindR r (\<lambda>resp. bindR (readResp resp) (\<lambda>(_, s1). bindR (readID s1) (\<lambda>(sid, _).
           if sid \<noteq> HashOf P data then Inl ErrMismatch else Inr sid)))))"

definition net_Put :: "prims \<Rightarrow> net_store \<Rightarrow> 64 word \<Rightarrow> ('s \<Rightarrow> bytes \<Rightarrow> 's \<times> bytes res) \<Rightarrow> 's \<Rightarrow> bytes \<Rightarrow> 's \<times> shard_id res" where
  "net_Put P n ts node s data = putRaw P node s data (authToken P n opPut (HashOf P data) ts) [] [] ReasonClient"

definition net_PutStripe :: "prims \<Rightarrow> net_store \<Rightarrow> 64 word \<Rightarrow> bytes \<Rightarrow> ('s \<Rightarrow> bytes \<Rightarrow> 's \<times> bytes res) \<Rightarrow> 's \<Rightarrow> bytes \<Rightarrow> descriptor
    \<Rightarrow> 's \<times> shard_id res" where
  "net_PutStripe P n ts rnd node s data d = (case ns_signer n of
     None \<Rightarrow> net_Put P n ts node s data
   | Some k \<Rightarrow> (case MarshalBinary d of Inl e \<Rightarrow> (s, Inl e) | Inr stripeBytes \<Rightarrow>
       (case BuildGrant P k d (ns_grantExpiry n) rnd of Inl e \<Rightarrow> (s, Inl e) | Inr (grant, _) \<Rightarrow>
         putRaw P node s data (authToken P n opPut (HashOf P data) ts) stripeBytes grant ReasonClient)))"

definition putGrant :: "prims \<Rightarrow> ('s \<Rightarrow> bytes \<Rightarrow> 's \<times> bytes res) \<Rightarrow> 's \<Rightarrow> bytes \<Rightarrow> descriptor \<Rightarrow> bytes \<Rightarrow> byte \<Rightarrow> 's \<times> shard_id res" where
  "putGrant P node s data d grant reason = (case MarshalBinary d of Inl e \<Rightarrow> (s, Inl e)
     | Inr stripeBytes \<Rightarrow> putRaw P node s data [] stripeBytes grant reason)"

definition net_Get :: "prims \<Rightarrow> ('s \<Rightarrow> bytes \<Rightarrow> 's \<times> bytes res) \<Rightarrow> 's \<Rightarrow> shard_id \<Rightarrow> 's \<times> bytes res" where
  "net_Get P node s sid = (case exchange node s [Inr [op_byte opGet], Inr sid] of (s', r) \<Rightarrow>
     (s', bindR r (\<lambda>resp. bindR (readResp resp) (\<lambda>(_, s1). bindR (readBlob MaxShardSize s1) (\<lambda>(data, _).
        if HashOf P data \<noteq> sid then Inl ErrCorrupt else Inr data)))))"

definition net_Has :: "('s \<Rightarrow> bytes \<Rightarrow> 's \<times> bytes res) \<Rightarrow> 's \<Rightarrow> shard_id \<Rightarrow> 's \<times> bool res" where
  "net_Has node s sid = (case exchange node s [Inr [op_byte opHas], Inr sid] of (s', r) \<Rightarrow>
     (s', bindR r (\<lambda>resp. bindR (readResp resp) (\<lambda>(_, s1). bindR (readByte s1) (\<lambda>(present, _). Inr (present \<noteq> 0))))))"

definition net_Delete :: "prims \<Rightarrow> net_store \<Rightarrow> 64 word \<Rightarrow> ('s \<Rightarrow> bytes \<Rightarrow> 's \<times> bytes res) \<Rightarrow> 's \<Rightarrow> shard_id \<Rightarrow> 's \<times> unit res" where
  "net_Delete P n ts node s sid =
     (case exchange node s [Inr [op_byte opDelete], Inr sid, writeBlob (authToken P n opDelete sid ts)] of (s', r) \<Rightarrow>
        (s', bindR r (\<lambda>resp. bindR (readResp resp) (\<lambda>_. Inr ()))))"

definition net_Renew :: "prims \<Rightarrow> net_store \<Rightarrow> 64 word \<Rightarrow> ('s \<Rightarrow> bytes \<Rightarrow> 's \<times> bytes res) \<Rightarrow> 's \<Rightarrow> shard_id \<Rightarrow> 's \<times> unit res" where
  "net_Renew P n ts node s sid =
     (case exchange node s [Inr [op_byte opRenew], Inr sid, writeBlob (authToken P n opRenew sid ts)] of (s', r) \<Rightarrow>
        (s', bindR r (\<lambda>resp. bindR (readResp resp) (\<lambda>_. Inr ()))))"

definition net_RevokeGrant :: "prims \<Rightarrow> net_store \<Rightarrow> 64 word \<Rightarrow> ('s \<Rightarrow> bytes \<Rightarrow> 's \<times> bytes res) \<Rightarrow> 's \<Rightarrow> bytes \<Rightarrow> 's \<times> unit res" where
  "net_RevokeGrant P n ts node s nonce = (if length nonce \<noteq> 8 then (s, Inl ErrInvalid)
     else case exchange node s [Inr [op_byte opRevokeGrant], Inr nonce,
          writeBlob (authToken P n opRevokeGrant (replicate idSize 0) ts)] of (s', r) \<Rightarrow>
        (s', bindR r (\<lambda>resp. bindR (readResp resp) (\<lambda>_. Inr ()))))"

definition Probe :: "prims \<Rightarrow> ('s \<Rightarrow> bytes \<Rightarrow> 's \<times> bytes res) \<Rightarrow> 's \<Rightarrow> shard_id \<Rightarrow> bytes \<Rightarrow> bytes \<Rightarrow> 's \<times> bool res" where
  "Probe P node s sid want nonce = (if length nonce \<noteq> NonceSize then (s, Inl ErrInvalid)
     else case exchange node s [Inr sid, Inr nonce] of (s', r) \<Rightarrow>
       (s', bindR r (\<lambda>resp. bindR (readResp resp) (\<lambda>(_, s1). bindR (ReadFull 32 s1) (\<lambda>(got, _).
          Inr (got = sha256 P (nonce @ want)))))))"

section \<open>Lemmas\<close>

lemma ReadFull_append [simp]: "length b = n \<Longrightarrow> ReadFull n (b @ rest) = Inr (b, rest)"
  by (simp add: ReadFull_def)

lemma readByte_Cons [simp]: "readByte (b # rest) = Inr (b, rest)"
  by (simp add: readByte_def)

lemma readID_append [simp]: "length sid = idSize \<Longrightarrow> readID (sid @ rest) = Inr (sid, rest)"
  by (simp add: readID_def)

lemma readID_exact [simp]: "length sid = idSize \<Longrightarrow> readID sid = Inr (sid, [])"
  using readID_append [of sid "[]"] by simp

lemma be_put_4: "be_put 4 x = [word_of_nat (x div 256 div 256 div 256), word_of_nat (x div 256 div 256), word_of_nat (x div 256), word_of_nat x]"
proof -
  have "be_put (Suc (Suc (Suc (Suc 0)))) x = [word_of_nat (x div 256 div 256 div 256), word_of_nat (x div 256 div 256), word_of_nat (x div 256), word_of_nat x]"
    by simp
  then show ?thesis by (simp only: numeral_nat One_nat_def)
qed

lemma MaxShardSize_4: "MaxShardSize < 256 ^ 4"
  by (simp add: MaxShardSize_def)

lemma readBlob_writeBlob:
  assumes "writeBlob b = Inr w"
  shows "readBlob limit (w @ rest) = (if limit < length b then Inl ErrTooLarge else Inr (b, rest))"
proof -
  have w: "w = be_put 4 (length b) @ b" "length b \<le> MaxShardSize"
    using assms by (auto simp: writeBlob_def split: if_splits)
  then have "be_get (be_put 4 (length b)) = length b" using MaxShardSize_4 by (intro be_get_be_put_small) linarith
  then show ?thesis by (simp add: readBlob_def w)
qed

lemma readBlob_consumes:
  assumes "readBlob limit s = Inr (b, rest)"
  shows "s = be_put 4 (length b) @ b @ rest \<and> length b \<le> limit"
proof -
  have 4: "4 \<le> length s" and lim: "\<not> limit < be_get (take 4 s)" and n: "be_get (take 4 s) \<le> length (drop 4 s)"
    and b: "b = take (be_get (take 4 s)) (drop 4 s)" "rest = drop (be_get (take 4 s)) (drop 4 s)"
    using assms by (auto simp: readBlob_def ReadFull_def Let_def split: if_splits)
  have "length b = be_get (take 4 s)" using n b by simp
  moreover have "be_put 4 (be_get (take 4 s)) = take 4 s" using 4 by (intro be_put_be_get) simp
  moreover have "b @ rest = drop 4 s" by (simp only: b append_take_drop_id)
  ultimately show ?thesis using lim by (simp add: append_take_drop_id)
qed

lemma errToStatus_ne_OK [simp]: "errToStatus e \<noteq> statusOK"
  by (cases e) (simp_all add: statusOK_def statusError_def)

definition wire_error :: "error \<Rightarrow> error" where
  "wire_error e = (if e \<in> {ErrNotFound, ErrCorrupt, ErrUnauthorized, ErrQuotaExceeded, ErrRateLimited} then e else ErrRemote)"

lemma readResp_replyErr:
  assumes "length (txt e) \<le> MaxShardSize"
  shows "readResp (replyErr txt e) = Inl (wire_error e)"
proof (cases "errToStatus e = statusError")
  case True
  obtain w where w: "writeBlob (txt e) = Inr w" using assms by (simp add: writeBlob_def)
  have "e \<notin> {ErrNotFound, ErrCorrupt, ErrUnauthorized, ErrQuotaExceeded, ErrRateLimited}"
    using True by (cases e) (auto simp: statusError_def)
  then show ?thesis using readBlob_writeBlob [OF w, of MaxShardSize "[]"] assms True w
    by (simp add: readResp_def replyErr_def wire_error_def)
next
  case False
  then show ?thesis
    by (cases e) (auto simp: readResp_def replyErr_def wire_error_def statusToErr_def statusOK_def statusError_def)
qed

lemma readResp_OK [simp]: "readResp (statusOK # rest) = Inr ((), rest)"
  by (simp add: readResp_def statusToErr_def statusOK_def statusError_def)

lemma ReadFull_Inr: "ReadFull n s = Inr (a, rest) \<Longrightarrow> s = a @ rest \<and> length a = n"
  by (auto simp: ReadFull_def split: if_splits)

lemma readResp_Inr:
  assumes "readResp s = Inr (u, rest)"
  shows "s = statusOK # rest"
  using assms by (cases s) (auto simp: readResp_def readByte_def statusToErr_def split: if_splits)

lemma write_parts_ok: "write_parts (map Inr bs) = (concat bs, None)"
  by (induction bs) auto

lemma exchange_ok: "exchange node s (map Inr bs) = node s (concat bs)"
  by (auto simp: exchange_def write_parts_ok split: prod.splits)

section \<open>Properties\<close>

text \<open>
  framing is lossless and bounded. A blob the client can write is read back unchanged with the
  rest of the stream, or refused exactly when it is over the reader's limit; whatever bytes
  arrive, a blob that is read never exceeds that limit and is the prefix the header announces.
\<close>

lemma blob_frames:
  assumes "writeBlob b = Inr w" and "readBlob limit' s = Inr (b', rest')"
  shows "readBlob limit (w @ rest) = (if limit < length b then Inl ErrTooLarge else Inr (b, rest))
    \<and> length b' \<le> limit' \<and> s = be_put 4 (length b') @ b' @ rest'"
  using readBlob_writeBlob [OF assms(1)] readBlob_consumes [OF assms(2)] by blast

lemma blob_frames_witness:
  "readBlob 2 ([0, 0, 0, 2, 7, 8] @ [9]) = Inr ([7, 8], [9])"
proof -
  have w: "writeBlob [7, 8] = Inr [0, 0, 0, 2, 7, 8]" by (simp add: writeBlob_def MaxShardSize_def be_put_4)
  have r: "readBlob 2 [0, 0, 0, 0] = Inr ([], [])" by (simp add: readBlob_def ReadFull_def be_get_def)
  show ?thesis using blob_frames [OF w r, of 2 "[9]"] by simp
qed

text \<open>
  C36: the client trusts nothing. Whatever the node at the other end is and answers, bytes returned
  by \<^verbatim>\<open>Get\<close> hash to the address asked for, a \<^verbatim>\<open>Put\<close> that succeeds returned the true address of the data,
  and a positive probe means that the answer is the digest of the fresh nonce and the wanted bytes.
\<close>

theorem client_verifies:
  shows "(net_Get P node s sid = (s1, Inr data) \<longrightarrow> HashOf P data = sid)
    \<and> (putRaw P node s data' token stripeBytes grant reason = (s2, Inr sid') \<longrightarrow> sid' = HashOf P data')
    \<and> (Probe P node s sid want nonce = (s3, Inr True) \<longrightarrow>
       (\<exists>rest. node s (sid @ nonce) = (s3, Inr (statusOK # sha256 P (nonce @ want) @ rest))))"
proof (intro conjI impI)
  show "HashOf P data = sid" if "net_Get P node s sid = (s1, Inr data)"
    using that by (auto simp: net_Get_def split: prod.splits if_splits)
  show "sid' = HashOf P data'" if "putRaw P node s data' token stripeBytes grant reason = (s2, Inr sid')"
    using that by (auto simp: putRaw_def split: prod.splits if_splits)
  show "\<exists>rest. node s (sid @ nonce) = (s3, Inr (statusOK # sha256 P (nonce @ want) @ rest))"
    if p: "Probe P node s sid want nonce = (s3, Inr True)"
  proof -
    have x: "exchange node s [Inr sid, Inr nonce] = node s (sid @ nonce)"
      using exchange_ok [of node s "[sid, nonce]"] by simp
    obtain resp u a got rest where n: "node s (sid @ nonce) = (s3, Inr resp)" and r: "readResp resp = Inr (u, a)"
      and g: "ReadFull 32 a = Inr (got, rest)" and h: "got = sha256 P (nonce @ want)"
      using p unfolding Probe_def x by (auto split: prod.splits if_splits)
    show ?thesis using n readResp_Inr [OF r] ReadFull_Inr [OF g] h by simp
  qed
qed

theorem client_verifies_witness:
  "HashOf demo_prims [7] = demo_hash [7]
   \<and> net_Get demo_prims (\<lambda>s req. (s, Inr ([0, 0, 0, 0, 1, 7]))) () (demo_hash [7]) = ((), Inr [7])"
proof -
  have n: "net_Get demo_prims (\<lambda>s req. (s, Inr ([0, 0, 0, 0, 1, 7]))) () (demo_hash [7]) = ((), Inr [7])"
    by (simp add: net_Get_def exchange_def readResp_def statusToErr_def statusOK_def statusError_def readBlob_def ReadFull_def
        be_get_def MaxShardSize_def HashOf_def demo_prims_def)
  show ?thesis using client_verifies [of demo_prims "\<lambda>s req. (s, Inr ([0, 0, 0, 0, 1, 7]))" "()" "demo_hash [7]" "()" "[7]"] n by blast
qed

end
