(* ===== verification/Flow_Limits.thy ===== *)
theory Flow_Limits
  imports Complex_Main Concrete_Prims
begin

text \<open>
  The node's self-defence by flow: \<^verbatim>\<open>src/internal/net/ratelimit.go\<close> (a token bucket per owner),
  \<^verbatim>\<open>src/internal/net/subnetlimit.go\<close> (the same per source subnet) and
  \<^verbatim>\<open>src/internal/net/abuse.go\<close> (off-schedule rebalancing and possession lies). Each call holds
  the component's mutex, so it is one state transition. Times are nanoseconds; a zero
  \<^verbatim>\<open>time.Time\<close> is \<open>None\<close>. Token counts, \<^verbatim>\<open>float64\<close> in the code, are exact rationals.
\<close>

unbundle bit_operations_syntax

section \<open>Token buckets\<close>

definition Seconds :: "int \<Rightarrow> rat" where
  "Seconds d = of_int d / 10 ^ 9"

record bucket =
  bk_tokens :: rat
  bk_last :: int

record 'k limiter =
  lim_rate :: rat
  lim_burst :: rat
  lim_buckets :: "('k \<times> bucket) list"
  lim_lastPrune :: "int option"

definition rateBucketIdle :: int where
  "rateBucketIdle = 10 * 60 * 10 ^ 9"

definition NewOwnerRateLimiter :: "rat \<Rightarrow> rat \<Rightarrow> bytes limiter option" where
  "NewOwnerRateLimiter rate burst = (if rate \<le> 0 then None
     else Some \<lparr>lim_rate = rate, lim_burst = (if burst < 1 then 1 else burst), lim_buckets = [], lim_lastPrune = None\<rparr>)"

definition pruneLocked :: "int \<Rightarrow> 'k limiter \<Rightarrow> 'k limiter" where
  "pruneLocked now l =
     (if (case lim_lastPrune l of None \<Rightarrow> False | Some t \<Rightarrow> now - t < rateBucketIdle) then l
      else l\<lparr>lim_lastPrune := Some now,
             lim_buckets := filter (\<lambda>(_, b). now - bk_last b < rateBucketIdle
               \<or> \<not> lim_burst l \<le> bk_tokens b + Seconds (now - bk_last b) * lim_rate l) (lim_buckets l)\<rparr>)"

definition refill :: "'k limiter \<Rightarrow> int \<Rightarrow> bucket \<Rightarrow> bucket" where
  "refill l now b = (let elapsed = Seconds (now - bk_last b) in
     if 0 < elapsed then \<lparr>bk_tokens = min (bk_tokens b + elapsed * lim_rate l) (lim_burst l), bk_last = now\<rparr> else b)"

definition bucket_Allow :: "'k \<Rightarrow> int \<Rightarrow> 'k limiter \<Rightarrow> 'k limiter \<times> bool" where
  "bucket_Allow key now l0 = (let l = pruneLocked now l0 in
     case map_of (lim_buckets l) key of
       None \<Rightarrow> (l\<lparr>lim_buckets := AList.update key \<lparr>bk_tokens = lim_burst l - 1, bk_last = now\<rparr> (lim_buckets l)\<rparr>, True)
     | Some b0 \<Rightarrow> (let b = refill l now b0 in
         if 1 \<le> bk_tokens b
         then (l\<lparr>lim_buckets := AList.update key (b\<lparr>bk_tokens := bk_tokens b - 1\<rparr>) (lim_buckets l)\<rparr>, True)
         else (l\<lparr>lim_buckets := AList.update key b (lim_buckets l)\<rparr>, False)))"

text \<open>A nil limiter and an empty owner are not metered.\<close>

definition owner_Allow :: "bytes \<Rightarrow> int \<Rightarrow> bytes limiter option \<Rightarrow> bytes limiter option \<times> bool" where
  "owner_Allow owner now lo = (case lo of
     None \<Rightarrow> (None, True)
   | Some l \<Rightarrow> if owner = [] then (Some l, True)
       else (case bucket_Allow owner now l of (l', ok) \<Rightarrow> (Some l', ok)))"

section \<open>Subnets\<close>

text \<open>
  \<open>CIDRMask n len\<close> is \<^verbatim>\<open>net.CIDRMask\<close> on \<open>len\<close> bytes, \<open>Mask\<close> the bytewise conjunction. An address
  is the 4 or 16 bytes \<^verbatim>\<open>manet.ToIP\<close> extracts, or nothing; a v4-mapped address has become 4 bytes.
\<close>

fun CIDRMask :: "nat \<Rightarrow> nat \<Rightarrow> bytes" where
  "CIDRMask n 0 = []"
| "CIDRMask n (Suc len) = (if 8 \<le> n then 255 # CIDRMask (n - 8) len else NOT (drop_bit n 255) # CIDRMask 0 len)"

definition Mask :: "bytes \<Rightarrow> bytes \<Rightarrow> bytes" where
  "Mask ip msk = map2 (AND) ip msk"

record subnet_limiter =
  sub_lim :: "bytes limiter"
  sub_mask4 :: bytes
  sub_mask6 :: bytes

definition NewSubnetRateLimiter :: "rat \<Rightarrow> rat \<Rightarrow> int \<Rightarrow> int \<Rightarrow> subnet_limiter option" where
  "NewSubnetRateLimiter rate burst prefix4 prefix6 =
     (if rate \<le> 0 then None
      else let p4 = (if prefix4 \<le> 0 \<or> 32 < prefix4 then 24 else prefix4);
               p6 = (if prefix6 \<le> 0 \<or> 128 < prefix6 then 56 else prefix6) in
        Some \<lparr>sub_lim = \<lparr>lim_rate = rate, lim_burst = (if burst < 1 then 1 else burst), lim_buckets = [], lim_lastPrune = None\<rparr>,
              sub_mask4 = CIDRMask (nat p4) 4, sub_mask6 = CIDRMask (nat p6) 16\<rparr>)"

definition subnet_key :: "subnet_limiter \<Rightarrow> bytes option \<Rightarrow> bytes option" where
  "subnet_key l addr = (case addr of None \<Rightarrow> None
     | Some ip \<Rightarrow> if length ip = 4 then Some (Mask ip (sub_mask4 l))
         else if length ip = 16 then Some (Mask ip (sub_mask6 l)) else None)"

definition subnet_Allow :: "bytes option \<Rightarrow> int \<Rightarrow> subnet_limiter option \<Rightarrow> subnet_limiter option \<times> bool" where
  "subnet_Allow addr now lo = (case lo of
     None \<Rightarrow> (None, True)
   | Some l \<Rightarrow> (case subnet_key l addr of
         None \<Rightarrow> (Some l, True)
       | Some key \<Rightarrow> (case bucket_Allow key now (sub_lim l) of (l', ok) \<Rightarrow> (Some (l\<lparr>sub_lim := l'\<rparr>), ok))))"

section \<open>Maintenance abuse\<close>

record abuse_config =
  ab_Interval :: int
  ab_Tolerance :: int
  ab_Coalesce :: int
  ab_Strikes :: int
  ab_Decay :: int

definition withDefaults :: "abuse_config \<Rightarrow> abuse_config" where
  "withDefaults c = (let minute = 60 * 10 ^ 9;
       c1 = (if ab_Tolerance c = 0 then c\<lparr>ab_Tolerance := 10 * minute\<rparr> else c);
       c2 = (if ab_Coalesce c1 = 0
             then c1\<lparr>ab_Coalesce := (if 0 < ab_Interval c1 \<and> ab_Interval c1 div 4 < 5 * minute
                                    then ab_Interval c1 div 4 else 5 * minute)\<rparr> else c1);
       c3 = (if ab_Strikes c2 = 0 then c2\<lparr>ab_Strikes := 3\<rparr> else c2) in
     if ab_Decay c3 = 0 then c3\<lparr>ab_Decay := 24 * 60 * minute\<rparr> else c3)"

record peer_abuse =
  pa_lastMove :: "int option"
  pa_lastEvent :: "int option"
  pa_haveEvent :: bool
  pa_strikes :: "int list"

record 'p abuse_monitor =
  am_cfg :: abuse_config
  am_peers :: "('p \<times> peer_abuse) list"

text \<open>
  \<open>since now t\<close> is \<^verbatim>\<open>now.Sub(t)\<close>; from the zero time it is the largest duration. The second
  component of a result says whether the peer is banned.
\<close>

definition since :: "int \<Rightarrow> int option \<Rightarrow> int" where
  "since now t = (case t of None \<Rightarrow> 2 ^ 63 - 1 | Some x \<Rightarrow> now - x)"

definition RecordRebalanceMove :: "'p \<Rightarrow> int \<Rightarrow> 'p abuse_monitor \<Rightarrow> 'p abuse_monitor \<times> bool" where
  "RecordRebalanceMove p now m =
     (if ab_Interval (am_cfg m) \<le> 0 then (m, False)
      else case map_of (am_peers m) p of
        None \<Rightarrow> (m\<lparr>am_peers := AList.update p
          \<lparr>pa_lastMove = Some now, pa_lastEvent = Some now, pa_haveEvent = True, pa_strikes = []\<rparr> (am_peers m)\<rparr>, False)
      | Some st \<Rightarrow>
         if since now (pa_lastMove st) < ab_Coalesce (am_cfg m)
         then (m\<lparr>am_peers := AList.update p (st\<lparr>pa_lastMove := Some now\<rparr>) (am_peers m)\<rparr>, False)
         else (let gap = since now (pa_lastEvent st);
                   tooFast = (pa_haveEvent st \<and> gap < ab_Interval (am_cfg m) - ab_Tolerance (am_cfg m)) in
           (m\<lparr>am_peers := AList.update p (st\<lparr>pa_lastEvent := Some now, pa_lastMove := Some now, pa_haveEvent := True\<rparr>)
               (am_peers m)\<rparr>, tooFast)))"

definition RecordPossessionLie :: "'p \<Rightarrow> int \<Rightarrow> 'p abuse_monitor \<Rightarrow> 'p abuse_monitor \<times> bool" where
  "RecordPossessionLie p now m =
     (let st = (case map_of (am_peers m) p of Some st \<Rightarrow> st
            | None \<Rightarrow> \<lparr>pa_lastMove = None, pa_lastEvent = None, pa_haveEvent = False, pa_strikes = []\<rparr>);
          strikes = filter (\<lambda>t. now - ab_Decay (am_cfg m) < t) (pa_strikes st) @ [now];
          over = (ab_Strikes (am_cfg m) \<le> int (length strikes)) in
      (m\<lparr>am_peers := AList.update p (st\<lparr>pa_strikes := (if over then [] else strikes)\<rparr>) (am_peers m)\<rparr>, over))"

section \<open>What a bucket is worth\<close>

text \<open>
  The abstraction of a limiter: the tokens a key could spend at a time. Pruning does not
  change it, a call costs one token when there is one, and time adds at most the rate.
\<close>

definition worth :: "'k limiter \<Rightarrow> 'k \<Rightarrow> int \<Rightarrow> rat" where
  "worth l key now = (case map_of (lim_buckets l) key of
     None \<Rightarrow> lim_burst l
   | Some b \<Rightarrow> min (lim_burst l) (bk_tokens b + Seconds (now - bk_last b) * lim_rate l))"

definition lim_ok :: "int \<Rightarrow> 'k limiter \<Rightarrow> bool" where
  "lim_ok now l \<longleftrightarrow> 0 < lim_rate l \<and> 1 \<le> lim_burst l \<and> distinct (map fst (lim_buckets l))
     \<and> list_all (\<lambda>(_, b). bk_last b \<le> now \<and> 0 \<le> bk_tokens b \<and> bk_tokens b \<le> lim_burst l) (lim_buckets l)"

section \<open>The contract of a token bucket\<close>

text \<open>
  What a caller may rely on, whatever the key: the calls of one slot (an owner, a subnet) spend
  that slot's worth and nobody else's, and time adds at most the rate. A key without a slot is not metered. The bound on any run of
  calls follows once and for all.
\<close>

fun allow_run :: "('k \<Rightarrow> int \<Rightarrow> 'l \<Rightarrow> 'l \<times> bool) \<Rightarrow> ('k \<times> int) list \<Rightarrow> 'l \<Rightarrow> 'l \<times> bool list" where
  "allow_run allow [] l = (l, [])"
| "allow_run allow ((k, now) # calls) l =
     (case allow k now l of (l1, b) \<Rightarrow> (case allow_run allow calls l1 of (l2, bs) \<Rightarrow> (l2, b # bs)))"

definition accepted :: "('k \<Rightarrow> bool) \<Rightarrow> ('k \<times> int) list \<Rightarrow> bool list \<Rightarrow> nat" where
  "accepted Q calls bs = length (filter (\<lambda>((k, _), b). b \<and> Q k) (zip calls bs))"

lemma accepted_Cons: "accepted Q ((k, t) # calls) (b # bs) = (if b \<and> Q k then 1 else 0) + accepted Q calls bs"
  by (simp add: accepted_def)

locale token_bucket =
  fixes allow :: "'k \<Rightarrow> int \<Rightarrow> 'l \<Rightarrow> 'l \<times> bool"
    and slot :: "'l \<Rightarrow> 'k \<Rightarrow> 's option"
    and wr :: "'l \<Rightarrow> 's \<Rightarrow> int \<Rightarrow> rat"
    and ok :: "int \<Rightarrow> 'l \<Rightarrow> bool"
    and rate :: "'l \<Rightarrow> rat"
    and burst :: "'l \<Rightarrow> rat"
  assumes step: "ok t l \<Longrightarrow> t \<le> now \<Longrightarrow> allow k now l = (l', b) \<Longrightarrow>
      ok now l' \<and> rate l' = rate l \<and> burst l' = burst l \<and> slot l' = slot l"
    and charge: "ok t l \<Longrightarrow> t \<le> now \<Longrightarrow> allow k now l = (l', b) \<Longrightarrow> slot l k = Some s \<Longrightarrow>
      (b \<longleftrightarrow> 1 \<le> wr l s now) \<and> wr l' s now = wr l s now - of_bool b"
    and others: "ok t l \<Longrightarrow> t \<le> now \<Longrightarrow> allow k now l = (l', b) \<Longrightarrow> slot l k \<noteq> Some s \<Longrightarrow> wr l' s now = wr l s now"
    and accrue: "ok t l \<Longrightarrow> t \<le> now \<Longrightarrow> now \<le> now' \<Longrightarrow> wr l s now' \<le> wr l s now + Seconds (now' - now) * rate l"
    and range: "ok t l \<Longrightarrow> t \<le> now \<Longrightarrow> 0 \<le> wr l s now \<and> wr l s now \<le> burst l"
    and rate_pos: "ok t l \<Longrightarrow> 0 < rate l"
begin

lemma run_spends:
  assumes "ok t l" and "sorted (t # map snd calls @ [T])" and "allow_run allow calls l = (l', bs)"
  shows "of_nat (accepted (\<lambda>k. slot l k = Some s) calls bs) \<le> wr l s t + Seconds (T - t) * rate l"
  using assms
proof (induction calls arbitrary: t l bs)
  case Nil
  then have "0 \<le> wr l s t" "0 \<le> Seconds (T - t)" "0 < rate l"
    using range [of t l t s] rate_pos by (auto simp: Seconds_def)
  then show ?case using Nil by (simp add: accepted_def)
next
  case (Cons call calls)
  obtain k now where call: "call = (k, now)" by fastforce
  obtain l1 b where a: "allow k now l = (l1, b)" by fastforce
  obtain bs1 where r: "allow_run allow calls l1 = (l', bs1)" and bs: "bs = b # bs1"
    using Cons.prems(3) a by (auto simp: call split: prod.splits)
  have t: "t \<le> now" and srt: "sorted (now # map snd calls @ [T])" using Cons.prems(2) by (auto simp: call)
  note S = step [OF Cons.prems(1) t a]
  have "of_nat (accepted (\<lambda>k. slot l k = Some s) calls bs1) \<le> wr l1 s now + Seconds (T - now) * rate l"
    using Cons.IH [of now l1 bs1] S srt r by simp
  moreover have "wr l1 s now = wr l s now - of_bool (b \<and> slot l k = Some s)"
    using charge [OF Cons.prems(1) t a] others [OF Cons.prems(1) t a] by (cases "slot l k = Some s") auto
  moreover have "wr l s now \<le> wr l s t + Seconds (now - t) * rate l" using accrue [OF Cons.prems(1) order_refl t] .
  moreover have "Seconds (T - now) * rate l + Seconds (now - t) * rate l = Seconds (T - t) * rate l"
    by (simp add: Seconds_def flip: distrib_right add_divide_distrib)
  ultimately show ?case unfolding call bs accepted_Cons by (cases b; cases "slot l k = Some s") simp_all
qed

lemma run_bound:
  assumes "ok t l" and "sorted (t # map snd calls @ [T])" and "allow_run allow calls l = (l', bs)"
  shows "of_nat (accepted (\<lambda>k. slot l k = Some s) calls bs) \<le> burst l + Seconds (T - t) * rate l"
  using run_spends [OF assms, of s] range [OF assms(1) order_refl, of s] by linarith

end

section \<open>Both limiters keep the contract\<close>

lemma Seconds_mono: "a \<le> b \<Longrightarrow> Seconds a \<le> Seconds b"
  by (simp add: Seconds_def divide_right_mono)

lemma Seconds_add: "Seconds (a + b) = Seconds a + Seconds b"
  by (simp add: Seconds_def add_divide_distrib)

lemma lim_ok_bucket: "lim_ok t l \<Longrightarrow> map_of (lim_buckets l) k = Some b \<Longrightarrow> bk_last b \<le> t \<and> 0 \<le> bk_tokens b \<and> bk_tokens b \<le> lim_burst l"
  by (auto simp: lim_ok_def list_all_iff dest!: map_of_SomeD)

lemma lim_ok_mono: "lim_ok t l \<Longrightarrow> t \<le> now \<Longrightarrow> lim_ok now l"
  by (auto simp: lim_ok_def list_all_iff)

lemma lim_ok_update:
  assumes "lim_ok now l" and "bk_last b \<le> now" "0 \<le> bk_tokens b" "bk_tokens b \<le> lim_burst l"
  shows "lim_ok now (l\<lparr>lim_buckets := AList.update k b (lim_buckets l)\<rparr>)"
  using assms by (auto simp: lim_ok_def list_all_iff distinct_update dest!: set_AList_update [THEN subsetD])

lemma pruneLocked_simps [simp]:
  "lim_rate (pruneLocked now l) = lim_rate l" "lim_burst (pruneLocked now l) = lim_burst l"
  by (simp_all add: pruneLocked_def)

lemma lim_ok_prune: "lim_ok t l \<Longrightarrow> lim_ok t (pruneLocked now l)"
  by (auto simp: lim_ok_def pruneLocked_def list_all_iff distinct_map_filter)

lemma map_of_filter_distinct:
  assumes "distinct (map fst al)"
  shows "map_of (filter (\<lambda>(_, v). Q v) al) k = (case map_of al k of None \<Rightarrow> None | Some v \<Rightarrow> if Q v then Some v else None)"
  using assms by (induction al) (auto simp: map_of_eq_None_iff split: option.splits)


lemma worth_prune:
  assumes "lim_ok t l" and "t \<le> now"
  shows "worth (pruneLocked now l) k now = worth l k now"
proof (cases "map_of (lim_buckets l) k")
  case None
  then show ?thesis using assms(1)
    by (auto simp: pruneLocked_def worth_def lim_ok_def map_of_filter_distinct split: option.splits)
next
  case (Some b)
  have "0 \<le> Seconds (now - bk_last b) * lim_rate l" using lim_ok_bucket [OF assms(1) Some] assms
    by (auto simp: Seconds_def lim_ok_def)
  then show ?thesis using Some assms(1)
    by (auto simp: pruneLocked_def worth_def lim_ok_def map_of_filter_distinct min_def split: option.splits)
qed

lemma worth_update: "worth (l\<lparr>lim_buckets := AList.update k b (lim_buckets l)\<rparr>) j now =
    (if j = k then min (lim_burst l) (bk_tokens b + Seconds (now - bk_last b) * lim_rate l) else worth l j now)"
  by (simp add: worth_def update_conv' split: option.split)

lemma refill_spec:
  assumes "lim_ok t l" and "t \<le> now" and "map_of (lim_buckets l) k = Some b"
  shows "bk_tokens (refill l now b) = worth l k now \<and> bk_last (refill l now b) = now"
proof -
  note B = lim_ok_bucket [OF assms(1,3)]
  show ?thesis
  proof (cases "bk_last b = now")
    case True
    then show ?thesis using B assms(3) by (simp add: refill_def worth_def Seconds_def)
  next
    case False
    then have "0 < Seconds (now - bk_last b)" using B assms(2) by (simp add: Seconds_def)
    then show ?thesis using assms(3) by (simp add: refill_def worth_def min.commute)
  qed
qed

lemma worth_range:
  assumes "lim_ok t l" and "t \<le> now"
  shows "0 \<le> worth l k now \<and> worth l k now \<le> lim_burst l"
proof (cases "map_of (lim_buckets l) k")
  case None
  then show ?thesis using assms(1) by (simp add: worth_def lim_ok_def)
next
  case (Some b)
  have "0 \<le> Seconds (now - bk_last b) * lim_rate l" using lim_ok_bucket [OF assms(1) Some] assms
    by (auto simp: Seconds_def lim_ok_def)
  then show ?thesis using Some lim_ok_bucket [OF assms(1) Some] assms(1) by (simp add: worth_def lim_ok_def)
qed

lemma worth_accrue:
  assumes "lim_ok t l" and "now \<le> now'"
  shows "worth l k now' \<le> worth l k now + Seconds (now' - now) * lim_rate l"
proof -
  have pos: "0 \<le> Seconds (now' - now) * lim_rate l" using assms by (auto simp: Seconds_def lim_ok_def)
  have add: "Seconds (now' - x) * lim_rate l = Seconds (now - x) * lim_rate l + Seconds (now' - now) * lim_rate l" for x
    by (simp add: Seconds_def flip: distrib_right add_divide_distrib)
  show ?thesis
  proof (cases "map_of (lim_buckets l) k")
    case None
    then show ?thesis using pos by (simp add: worth_def)
  next
    case (Some b)
    then show ?thesis using pos add [of "bk_last b"] by (simp add: worth_def min_def)
  qed
qed

lemma bucket_Allow_spec:
  assumes ok: "lim_ok t l" and t: "t \<le> now" and a: "bucket_Allow k now l = (l', b)"
  shows "lim_ok now l' \<and> lim_rate l' = lim_rate l \<and> lim_burst l' = lim_burst l
    \<and> (b \<longleftrightarrow> 1 \<le> worth l k now)
    \<and> (\<forall>j. worth l' j now = worth l j now - of_bool (j = k \<and> b))"
proof -
  let ?p = "pruneLocked now l"
  have okp: "lim_ok now ?p" using lim_ok_mono [OF lim_ok_prune [OF ok] t] .
  have wp: "worth ?p j now = worth l j now" for j by (rule worth_prune [OF ok t])
  have burst: "1 \<le> lim_burst l" using ok by (simp add: lim_ok_def)
  show ?thesis
  proof (cases "map_of (lim_buckets ?p) k")
    case None
    let ?b = "\<lparr>bk_tokens = lim_burst l - 1, bk_last = now\<rparr>"
    have l': "l' = ?p\<lparr>lim_buckets := AList.update k ?b (lim_buckets ?p)\<rparr>" and b: b
      using a None by (auto simp: bucket_Allow_def Let_def)
    have "worth ?p k now = lim_burst l" using None by (simp add: worth_def)
    then have "worth l k now = lim_burst l" by (simp add: wp)
    then show ?thesis using b burst lim_ok_update [OF okp, of ?b k]
      by (simp add: l' worth_update wp Seconds_def)
  next
    case (Some b0)
    let ?b = "refill ?p now b0"
    have R: "bk_tokens ?b = worth l k now" "bk_last ?b = now" using refill_spec [OF okp order_refl Some] by (simp_all add: wp)
    note W = worth_range [OF ok t, of k]
    show ?thesis
    proof (cases "1 \<le> worth l k now")
      case True
      let ?c = "?b\<lparr>bk_tokens := bk_tokens ?b - 1\<rparr>"
      have "l' = ?p\<lparr>lim_buckets := AList.update k ?c (lim_buckets ?p)\<rparr>" and "b"
        using a Some True R by (auto simp: bucket_Allow_def Let_def)
      then show ?thesis using True W R lim_ok_update [OF okp, of ?c k] by (simp add: worth_update wp Seconds_def)
    next
      case False
      have "l' = ?p\<lparr>lim_buckets := AList.update k ?b (lim_buckets ?p)\<rparr>" and "\<not> b"
        using a Some False R by (auto simp: bucket_Allow_def Let_def)
      then show ?thesis using False W R lim_ok_update [OF okp, of ?b k] by (simp add: worth_update wp Seconds_def)
    qed
  qed
qed

text \<open>Both limiters are this bucket behind a key: unmetered keys pass and change nothing.\<close>

lemma metered_step:
  assumes "lim_ok t l" and "t \<le> now"
    and "(k = None \<and> l' = l \<and> b) \<or> (\<exists>x. k = Some x \<and> bucket_Allow x now l = (l', b))"
  shows "lim_ok now l'" "lim_rate l' = lim_rate l" "lim_burst l' = lim_burst l"
    and "k = Some s \<Longrightarrow> b \<longleftrightarrow> 1 \<le> worth l s now"
    and "k = Some s \<Longrightarrow> worth l' s now = worth l s now - of_bool b"
    and "k \<noteq> Some s \<Longrightarrow> worth l' s now = worth l s now"
  using assms(3) bucket_Allow_spec [OF assms(1,2)] lim_ok_mono [OF assms(1,2)] by fastforce+

lemma token_bucket_behind_key:
  assumes inv: "\<And>t lo. ok t lo \<longleftrightarrow> P lo \<and> lim_ok t (proj lo)"
    and step: "\<And>t lo now k lo' b. ok t lo \<Longrightarrow> allow k now lo = (lo', b) \<Longrightarrow> P lo' \<and> slot lo' = slot lo
      \<and> ((slot lo k = None \<and> proj lo' = proj lo \<and> b) \<or> (\<exists>x. slot lo k = Some x \<and> bucket_Allow x now (proj lo) = (proj lo', b)))"
  shows "token_bucket allow slot (\<lambda>l. worth (proj l)) ok (\<lambda>l. lim_rate (proj l)) (\<lambda>l. lim_burst (proj l))"
proof (unfold_locales, goal_cases)
  case (1 t lo now k lo' b)
  then have m: "lim_ok t (proj lo)" by (simp add: inv)
  note M = metered_step(1-3) [OF m 1(2) conjunct2 [OF conjunct2 [OF step [OF 1(1,3)]]]]
  show ?case using M conjunct1 [OF step [OF 1(1,3)]] conjunct1 [OF conjunct2 [OF step [OF 1(1,3)]]] by (simp add: inv)
next
  case (2 t lo now k lo' b s)
  then have m: "lim_ok t (proj lo)" by (simp add: inv)
  show ?case using metered_step(4,5) [OF m 2(2) _ 2(4)] step [OF 2(1,3)] by blast
next
  case (3 t lo now k lo' b s)
  then have m: "lim_ok t (proj lo)" by (simp add: inv)
  show ?case using metered_step(6) [OF m 3(2) _ 3(4)] step [OF 3(1,3)] by blast
next
  case (4 t lo now now' s)
  then show ?case using worth_accrue [of t "proj lo" now now' s] by (simp add: inv)
next
  case (5 t lo now s)
  then show ?case using worth_range [of t "proj lo" now s] by (simp add: inv)
next
  case (6 t lo)
  then show ?case by (simp add: inv lim_ok_def)
qed

definition owner_slot :: "bytes limiter option \<Rightarrow> bytes \<Rightarrow> bytes option" where
  "owner_slot l k = (if k = [] then None else Some k)"

definition owner_ok :: "int \<Rightarrow> bytes limiter option \<Rightarrow> bool" where
  "owner_ok t lo \<longleftrightarrow> lo \<noteq> None \<and> lim_ok t (the lo)"

interpretation owner_bucket: token_bucket owner_Allow owner_slot "\<lambda>l. worth (the l)" owner_ok
    "\<lambda>l. lim_rate (the l)" "\<lambda>l. lim_burst (the l)"
  by (rule token_bucket_behind_key [where P = "\<lambda>l. l \<noteq> None"])
    (auto simp: owner_ok_def owner_Allow_def owner_slot_def split: if_splits prod.splits)

definition subnet_slot :: "subnet_limiter option \<Rightarrow> bytes option \<Rightarrow> bytes option" where
  "subnet_slot lo addr = subnet_key (the lo) addr"

definition subnet_ok :: "int \<Rightarrow> subnet_limiter option \<Rightarrow> bool" where
  "subnet_ok t lo \<longleftrightarrow> lo \<noteq> None \<and> lim_ok t (sub_lim (the lo))"

interpretation subnet_bucket: token_bucket subnet_Allow subnet_slot "\<lambda>l. worth (sub_lim (the l))" subnet_ok
    "\<lambda>l. lim_rate (sub_lim (the l))" "\<lambda>l. lim_burst (sub_lim (the l))"
  by (rule token_bucket_behind_key [where P = "\<lambda>l. l \<noteq> None" and proj = "\<lambda>l. sub_lim (the l)"])
    (auto simp: subnet_ok_def subnet_Allow_def subnet_slot_def subnet_key_def fun_eq_iff split: option.splits if_splits prod.splits)

text \<open>
  C40: From a fresh limiter, an owner gets at most \<^verbatim>\<open>burst\<close> requests (at least one) plus what the rate adds
  over the elapsed time accepted, however its requests interleave with those of other owners
  and whatever pruning drops.
\<close>

theorem owner_rate_bound:
  assumes "NewOwnerRateLimiter rate burst = Some l" and "owner \<noteq> []"
    and "sorted (t # map snd calls @ [T])" and "allow_run owner_Allow calls (Some l) = (l', bs)"
  shows "of_nat (accepted (\<lambda>k. k = owner) calls bs) \<le> max 1 burst + Seconds (T - t) * rate"
proof -
  have "lim_rate l = rate" "lim_burst l = max 1 burst" and ok: "owner_ok t (Some l)"
    using assms(1) by (auto simp: NewOwnerRateLimiter_def owner_ok_def lim_ok_def split: if_splits)
  moreover have "(\<lambda>k. owner_slot (Some l) k = Some owner) = (\<lambda>k. k = owner)"
    using assms(2) by (auto simp: owner_slot_def fun_eq_iff)
  ultimately show ?thesis using owner_bucket.run_bound [OF ok assms(3,4), of owner] by simp
qed

theorem owner_rate_bound_witness:
  "of_nat (accepted (\<lambda>k. k = [7]) [([7 :: byte], 0), ([8], 1), ([7], 2), ([7], 1000000000)]
     (snd (allow_run owner_Allow [([7], 0), ([8], 1), ([7], 2), ([7], 1000000000)] (NewOwnerRateLimiter 1 1)))) \<le> (2 :: rat)"
proof -
  obtain l where l: "NewOwnerRateLimiter 1 1 = Some l" by (simp add: NewOwnerRateLimiter_def)
  obtain l' bs where r: "allow_run owner_Allow [([7], 0), ([8], 1), ([7], 2), ([7], 1000000000)] (Some l) = (l', bs)" by fastforce
  show ?thesis using owner_rate_bound [OF l _ _ r, of "[7]" 0 "1000000000"] by (simp add: l r Seconds_def del: allow_run.simps)
qed

text \<open>
  The requests of one source subnet are bounded the same way, however many addresses of it they
  come from: all addresses with the same masked bits share one bucket.
\<close>

lemma subnet_rate_bound:
  assumes "NewSubnetRateLimiter rate burst p4 p6 = Some l"
    and "sorted (t # map snd calls @ [T])" and "allow_run subnet_Allow calls (Some l) = (l', bs)"
  shows "of_nat (accepted (\<lambda>addr. subnet_key l addr = Some net) calls bs) \<le> max 1 burst + Seconds (T - t) * rate"
proof -
  have "lim_rate (sub_lim l) = rate" "lim_burst (sub_lim l) = max 1 burst" and ok: "subnet_ok t (Some l)"
    using assms(1) by (auto simp: NewSubnetRateLimiter_def subnet_ok_def lim_ok_def Let_def split: if_splits)
  then show ?thesis using subnet_bucket.run_bound [OF ok assms(2,3), of net] by (simp add: subnet_slot_def)
qed

lemma subnet_rate_bound_witness:
  "of_nat (accepted (\<lambda>addr. subnet_key (the (NewSubnetRateLimiter 1 2 0 0)) addr = Some [10, 0, 0, 0])
      [(Some [10, 0, 0, 1], 0), (Some [10, 0, 0, 2], 0), (Some [10, 0, 0, 3], 0)]
      (snd (allow_run subnet_Allow [(Some [10, 0, 0, 1], 0), (Some [10, 0, 0, 2], 0), (Some [10, 0, 0, 3], 0)]
        (NewSubnetRateLimiter 1 2 0 0)))) \<le> (2 :: rat)"
proof -
  obtain l where l: "NewSubnetRateLimiter 1 2 0 0 = Some l" by (simp add: NewSubnetRateLimiter_def Let_def)
  obtain l' bs where r: "allow_run subnet_Allow [(Some [10, 0, 0, 1], 0), (Some [10, 0, 0, 2], 0), (Some [10, 0, 0, 3], 0)] (Some l)
      = (l', bs)" by fastforce
  show ?thesis using subnet_rate_bound [OF l _ r, of 0 0 "[10, 0, 0, 0]"] by (simp add: l r Seconds_def del: allow_run.simps)
qed

section \<open>What the abuse monitor sees\<close>

fun record_moves :: "'p \<Rightarrow> int list \<Rightarrow> 'p abuse_monitor \<Rightarrow> 'p abuse_monitor \<times> bool" where
  "record_moves p [] m = (m, False)"
| "record_moves p (t # ts) m = (case RecordRebalanceMove p t m of (m1, b) \<Rightarrow>
     (case record_moves p ts m1 of (m2, bs) \<Rightarrow> (m2, b \<or> bs)))"

fun spaced :: "int \<Rightarrow> int list \<Rightarrow> bool" where
  "spaced d (t # u # ts) \<longleftrightarrow> u - t < d \<and> spaced d (u # ts)"
| "spaced d _ \<longleftrightarrow> True"

lemma record_moves_coalesced:
  assumes "map_of (am_peers m) p = Some st" and "pa_lastMove st = Some t" and "spaced (ab_Coalesce (am_cfg m)) (t # ts)"
  shows "\<not> snd (record_moves p ts m)"
  using assms
proof (induction ts arbitrary: m st t)
  case (Cons u ts)
  let ?st = "st\<lparr>pa_lastMove := Some u\<rparr>"
  let ?m = "m\<lparr>am_peers := AList.update p ?st (am_peers m)\<rparr>"
  show ?case
  proof (cases "ab_Interval (am_cfg m) \<le> 0")
    case True
    have "spaced (ab_Coalesce (am_cfg m)) (u # ts)" using Cons.prems(3) by simp
    then show ?thesis using True by (induction ts arbitrary: u) (auto simp: RecordRebalanceMove_def split: prod.splits)
  next
    case False
    then have "RecordRebalanceMove p u m = (?m, False)" using Cons.prems
      by (simp add: RecordRebalanceMove_def since_def)
    then show ?thesis using Cons.IH [of ?m ?st u] Cons.prems(3) by (simp add: update_conv' split: prod.splits)
  qed
qed simp

text \<open>
  A peer is banned for lying about possession exactly when its strikes within the decay window
  reach the budget, and a banned peer starts over with none.
\<close>

lemma possession_strikes:
  assumes "map_of (am_peers m) p = Some st" and "RecordPossessionLie p now m = (m', banned)"
  defines "n \<equiv> int (length (filter (\<lambda>t. now - ab_Decay (am_cfg m) < t) (pa_strikes st))) + 1"
  shows "(banned \<longleftrightarrow> ab_Strikes (am_cfg m) \<le> n)
    \<and> (\<exists>st'. map_of (am_peers m') p = Some st' \<and> int (length (pa_strikes st')) = (if banned then 0 else n))
    \<and> (\<forall>q. q \<noteq> p \<longrightarrow> map_of (am_peers m') q = map_of (am_peers m) q)"
  using assms by (auto simp: RecordPossessionLie_def Let_def update_conv')

lemma possession_strikes_witness:
  "\<exists>m' st'. RecordPossessionLie ''p'' 20 \<lparr>am_cfg = withDefaults \<lparr>ab_Interval = 0, ab_Tolerance = 0, ab_Coalesce = 0, ab_Strikes = 2, ab_Decay = 15\<rparr>,
       am_peers = [(''p'', \<lparr>pa_lastMove = None, pa_lastEvent = None, pa_haveEvent = False, pa_strikes = [1, 10]\<rparr>)]\<rparr> = (m', True)
     \<and> map_of (am_peers m') ''p'' = Some st' \<and> pa_strikes st' = []"
proof -
  let ?st = "\<lparr>pa_lastMove = None, pa_lastEvent = None, pa_haveEvent = False, pa_strikes = [1, 10]\<rparr>"
  let ?m = "\<lparr>am_cfg = withDefaults \<lparr>ab_Interval = 0, ab_Tolerance = 0, ab_Coalesce = 0, ab_Strikes = 2, ab_Decay = 15\<rparr>,
       am_peers = [(''p'', ?st)]\<rparr>"
  obtain m' b where r: "RecordPossessionLie ''p'' 20 ?m = (m', b)" by fastforce
  have *: "map_of (am_peers ?m) ''p'' = Some ?st" by simp
  show ?thesis using possession_strikes [OF * r] r by (auto simp: withDefaults_def Let_def)
qed

text \<open>
  Moves that follow each other within the coalescing window count as one sweep for as long as they
  go on: after the first, such a stream is never judged, however long it lasts and however many
  moves it makes.
\<close>

lemma sustained_flood_unjudged:
  assumes "map_of (am_peers m) p = None" and "spaced (ab_Coalesce (am_cfg m)) ts"
  shows "\<not> snd (record_moves p ts m)"
proof (cases ts)
  case (Cons t ts')
  let ?st = "\<lparr>pa_lastMove = Some t, pa_lastEvent = Some t, pa_haveEvent = True, pa_strikes = []\<rparr>"
  let ?m = "m\<lparr>am_peers := AList.update p ?st (am_peers m)\<rparr>"
  show ?thesis
  proof (cases "ab_Interval (am_cfg m) \<le> 0")
    case True
    then have "RecordRebalanceMove p u m = (m, False)" for u by (simp add: RecordRebalanceMove_def)
    then have "\<not> snd (record_moves p us m)" for us by (induction us) (auto split: prod.splits)
    then show ?thesis .
  next
    case False
    then have "RecordRebalanceMove p t m = (?m, False)" using assms(1) by (simp add: RecordRebalanceMove_def)
    moreover have "\<not> snd (record_moves p ts' ?m)"
      using record_moves_coalesced [of ?m p ?st t ts'] assms(2) Cons by (simp add: update_conv')
    ultimately show ?thesis by (simp add: Cons split: prod.splits)
  qed
qed simp

lemma sustained_flood_unjudged_witness:
  "\<not> snd (record_moves ''p'' [0, 200, 400, 600] \<lparr>am_cfg = withDefaults \<lparr>ab_Interval = 1000, ab_Tolerance = 1, ab_Coalesce = 0, ab_Strikes = 2, ab_Decay = 15\<rparr>,
       am_peers = []\<rparr>)"
  by (rule sustained_flood_unjudged) (simp_all add: withDefaults_def Let_def)

end
