(* ===== verification/Ledger.thy ===== *)
theory Ledger
  imports Complex_Main Stripe
begin

text \<open>
  \<^verbatim>\<open>src/internal/ledger\<close>: who owns which shard, what each owner is charged, what may be
  collected. The database is a record of tables, each an association list keyed by the table's
  primary key; an operation is one transaction, so it runs on the whole record, and one that
  fails returns the record unchanged. Failures of the SQL engine itself, which all roll back,
  are not modelled. Times are nanoseconds; the tables hold Unix seconds. The quota ramp's
  \<^verbatim>\<open>float64\<close> arithmetic is exact rational arithmetic here.
\<close>

section \<open>Tables\<close>

record shard_row =
  row_size :: int
  row_created :: int

record owner_row =
  row_put_at :: int
  row_expiry :: int

record account_row =
  acc_bytes :: int
  acc_shards :: int
  acc_first_seen :: int

record stripe_row =
  str_k :: int
  str_m :: int
  str_siblings :: bytes
  str_grant :: bytes

record ledger =
  tbl_shards :: "(shard_id \<times> shard_row) list"
  tbl_owners :: "((shard_id \<times> bytes) \<times> owner_row) list"
  tbl_accounts :: "(bytes \<times> account_row) list"
  tbl_stripes :: "(shard_id \<times> stripe_row) list"
  tbl_revoked :: "(bytes \<times> bytes \<times> int) list"

definition empty_ledger :: ledger where
  "empty_ledger = \<lparr>tbl_shards = [], tbl_owners = [], tbl_accounts = [], tbl_stripes = [], tbl_revoked = []\<rparr>"

record options =
  opt_QuotaBytes :: int
  opt_LeaseTTL :: int
  opt_QuotaRamp :: int
  opt_QuotaInitialFraction :: rat

definition Unix :: "int \<Rightarrow> int" where
  "Unix now = now div 10 ^ 9"

section \<open>Claims\<close>

definition lease_expiry :: "options \<Rightarrow> int \<Rightarrow> int" where
  "lease_expiry opts now = (if 0 < opt_LeaseTTL opts then Unix (now + opt_LeaseTTL opts) else 0)"

definition effectiveQuota :: "options \<Rightarrow> int \<Rightarrow> int \<Rightarrow> int" where
  "effectiveQuota opts firstSeenUnix now =
     (let full = opt_QuotaBytes opts; frac = opt_QuotaInitialFraction opts;
          age = now - firstSeenUnix * 10 ^ 9 in
      if opt_QuotaRamp opts \<le> 0 then full
      else if frac \<le> 0 \<or> 1 \<le> frac then full
      else if opt_QuotaRamp opts \<le> age then full
      else let age = max age 0;
               ratio = frac + (1 - frac) * (of_int age / of_int (opt_QuotaRamp opts)) in
        max \<lfloor>of_int full * ratio\<rfloor> 1)"

definition over_quota :: "options \<Rightarrow> ledger \<Rightarrow> bytes \<Rightarrow> int \<Rightarrow> int \<Rightarrow> bool" where
  "over_quota opts l owner sz now \<longleftrightarrow> 0 < opt_QuotaBytes opts \<and>
     (let (used, firstSeen) = (case map_of (tbl_accounts l) owner of
            None \<Rightarrow> (0, Unix now) | Some a \<Rightarrow> (acc_bytes a, acc_first_seen a)) in
      0 < used \<and> effectiveQuota opts firstSeen now < used + sz)"

definition charge_up :: "bytes \<Rightarrow> int \<Rightarrow> int \<Rightarrow> (bytes \<times> account_row) list \<Rightarrow> (bytes \<times> account_row) list" where
  "charge_up owner sz now accts = AList.update owner
     (case map_of accts owner of
        None \<Rightarrow> \<lparr>acc_bytes = sz, acc_shards = 1, acc_first_seen = Unix now\<rparr>
      | Some a \<Rightarrow> a\<lparr>acc_bytes := acc_bytes a + sz, acc_shards := acc_shards a + 1\<rparr>) accts"

definition AddOwner :: "options \<Rightarrow> shard_id \<Rightarrow> bytes \<Rightarrow> int \<Rightarrow> int \<Rightarrow> ledger \<Rightarrow> ledger \<times> bool res" where
  "AddOwner opts sid owner sz now l =
     (let row = \<lparr>row_put_at = Unix now, row_expiry = lease_expiry opts now\<rparr> in
      if map_of (tbl_owners l) (sid, owner) \<noteq> None
      then (l\<lparr>tbl_owners := AList.update (sid, owner) row (tbl_owners l)\<rparr>, Inr False)
      else if over_quota opts l owner sz now then (l, Inl ErrQuotaExceeded)
      else (l\<lparr>tbl_shards := (if map_of (tbl_shards l) sid \<noteq> None then tbl_shards l
                 else AList.update sid \<lparr>row_size = sz, row_created = Unix now\<rparr> (tbl_shards l)),
              tbl_owners := AList.update (sid, owner) row (tbl_owners l),
              tbl_accounts := charge_up owner sz now (tbl_accounts l)\<rparr>, Inr True))"

definition RenewLease :: "options \<Rightarrow> shard_id \<Rightarrow> bytes \<Rightarrow> int \<Rightarrow> ledger \<Rightarrow> ledger \<times> unit res" where
  "RenewLease opts sid owner now l =
     (if opt_LeaseTTL opts = 0 then (l, Inr ())
      else if map_of (tbl_owners l) (sid, owner) = None then (l, Inl ErrUnauthorized)
      else (l\<lparr>tbl_owners := AList.update (sid, owner)
                \<lparr>row_put_at = Unix now, row_expiry = Unix (now + opt_LeaseTTL opts)\<rparr> (tbl_owners l)\<rparr>, Inr ()))"

definition chargeDown :: "int \<Rightarrow> bytes \<Rightarrow> (bytes \<times> account_row) list \<Rightarrow> (bytes \<times> account_row) list" where
  "chargeDown sz owner accts =
     (case map_of accts owner of
        None \<Rightarrow> accts
      | Some a \<Rightarrow> let a' = a\<lparr>acc_bytes := acc_bytes a - sz, acc_shards := acc_shards a - 1\<rparr> in
          if acc_shards a' \<le> 0 then AList.delete owner accts else AList.update owner a' accts)"

definition RemoveOwner :: "shard_id \<Rightarrow> bytes \<Rightarrow> ledger \<Rightarrow> ledger \<times> nat res" where
  "RemoveOwner sid owner l =
     (case (map_of (tbl_owners l) (sid, owner), map_of (tbl_shards l) sid) of
        (Some _, Some s) \<Rightarrow>
          let owners' = AList.delete (sid, owner) (tbl_owners l) in
          (l\<lparr>tbl_owners := owners', tbl_accounts := chargeDown (row_size s) owner (tbl_accounts l)\<rparr>,
           Inr (length (filter (\<lambda>k. fst k = sid) (map fst owners'))))
      | _ \<Rightarrow> (l, Inl ErrUnauthorized))"

section \<open>Dropping records\<close>

definition owners_of :: "ledger \<Rightarrow> shard_id \<Rightarrow> bytes list" where
  "owners_of l sid = map snd (filter (\<lambda>k. fst k = sid) (map fst (tbl_owners l)))"

text \<open>The stripe row goes with the shard row: \<^verbatim>\<open>ON DELETE CASCADE\<close>.\<close>

definition dropRecordTx :: "shard_id \<Rightarrow> ledger \<Rightarrow> ledger \<times> bool" where
  "dropRecordTx sid l =
     (case map_of (tbl_shards l) sid of
        None \<Rightarrow> (l, False)
      | Some s \<Rightarrow>
          (l\<lparr>tbl_shards := AList.delete sid (tbl_shards l),
             tbl_owners := filter (\<lambda>(k, _). fst k \<noteq> sid) (tbl_owners l),
             tbl_accounts := fold (chargeDown (row_size s)) (owners_of l sid) (tbl_accounts l),
             tbl_stripes := AList.delete sid (tbl_stripes l)\<rparr>, True))"

definition DropRecord :: "shard_id \<Rightarrow> ledger \<Rightarrow> ledger" where
  "DropRecord sid l = fst (dropRecordTx sid l)"

definition live_owner :: "int \<Rightarrow> bool \<Rightarrow> owner_row \<Rightarrow> bool" where
  "live_owner now expireLeases r \<longleftrightarrow> \<not> expireLeases \<or> row_expiry r = 0 \<or> Unix now \<le> row_expiry r"

definition has_live :: "int \<Rightarrow> bool \<Rightarrow> ledger \<Rightarrow> shard_id \<Rightarrow> bool" where
  "has_live now expireLeases l sid \<longleftrightarrow>
     list_ex (\<lambda>(k, r). fst k = sid \<and> live_owner now expireLeases r) (tbl_owners l)"

definition CollectRecord :: "shard_id \<Rightarrow> int \<Rightarrow> bool \<Rightarrow> ledger \<Rightarrow> ledger \<times> bool" where
  "CollectRecord sid now expireLeases l =
     (if has_live now expireLeases l sid then (l, False) else dropRecordTx sid l)"

definition Collectible :: "int \<Rightarrow> bool \<Rightarrow> ledger \<Rightarrow> shard_id list" where
  "Collectible now expireLeases l = filter (\<lambda>sid. \<not> has_live now expireLeases l sid) (map fst (tbl_shards l))"

section \<open>Reports\<close>

definition Account :: "bytes \<Rightarrow> ledger \<Rightarrow> int \<times> int" where
  "Account owner l = (case map_of (tbl_accounts l) owner of
     None \<Rightarrow> (0, 0) | Some a \<Rightarrow> (acc_bytes a, acc_shards a))"

record stats =
  stats_Shards :: nat
  stats_BytesUsed :: int
  stats_Clients :: nat
  stats_Owners :: "(bytes \<times> int \<times> int) list"

definition Stats :: "ledger \<Rightarrow> stats" where
  "Stats l = (let rows = map (\<lambda>(ow, a). (ow, acc_bytes a, acc_shards a)) (tbl_accounts l);
       ord = sort_key (\<lambda>(ow, b, _). - b) (sort_key fst rows) in
     \<lparr>stats_Shards = length (tbl_shards l), stats_BytesUsed = sum_list (map (row_size \<circ> snd) (tbl_shards l)),
      stats_Clients = length ord, stats_Owners = ord\<rparr>)"

section \<open>Stripes\<close>

text \<open>The foreign key rejects a stripe of a shard without a row.\<close>

definition PutStripe :: "shard_id \<Rightarrow> int \<Rightarrow> int \<Rightarrow> shard_id list \<Rightarrow> bytes \<Rightarrow> ledger \<Rightarrow> ledger \<times> unit res" where
  "PutStripe sid k m siblings grant l =
     (if grant = [] then (l, Inl ErrInvalid)
      else if map_of (tbl_shards l) sid = None then (l, Inl ErrInvalid)
      else (l\<lparr>tbl_stripes := AList.update sid
                \<lparr>str_k = k, str_m = m, str_siblings = concat siblings, str_grant = grant\<rparr> (tbl_stripes l)\<rparr>, Inr ()))"

record stripe_info =
  si_ShardID :: shard_id
  si_K :: int
  si_M :: int
  si_Siblings :: "shard_id list"
  si_Grant :: bytes

fun scanStripeRows :: "(shard_id \<times> stripe_row) list \<Rightarrow> stripe_info list res" where
  "scanStripeRows [] = Inr []"
| "scanStripeRows ((sid, r) # rows) =
     (if length sid \<noteq> idSize then Inl ErrCodec
      else if length (str_siblings r) mod idSize \<noteq> 0 then Inl ErrCodec
      else bindR (scanStripeRows rows) (\<lambda>rest.
        Inr (\<lparr>si_ShardID = sid, si_K = str_k r, si_M = str_m r,
              si_Siblings = split_ids (length (str_siblings r) div idSize) (str_siblings r),
              si_Grant = str_grant r\<rparr> # rest)))"

definition Stripes :: "ledger \<Rightarrow> stripe_info list res" where
  "Stripes l = scanStripeRows (tbl_stripes l)"

definition created_of :: "ledger \<Rightarrow> shard_id \<Rightarrow> int" where
  "created_of l sid = (case map_of (tbl_shards l) sid of None \<Rightarrow> 0 | Some s \<Rightarrow> row_created s)"

definition ColdShards :: "int \<Rightarrow> ledger \<Rightarrow> stripe_info list res" where
  "ColdShards limit l =
     (let joined = filter (\<lambda>(sid, _). map_of (tbl_shards l) sid \<noteq> None) (tbl_stripes l);
          ord = sort_key (\<lambda>(sid, _). created_of l sid) (sort_key fst joined) in
      scanStripeRows (if 0 < limit then take (nat limit) ord else ord))"

section \<open>Reconciliation\<close>

text \<open>\<^verbatim>\<open>recomputeAccounts\<close>: group the join of owners and shards by owner.\<close>

definition joined_claims :: "ledger \<Rightarrow> ((shard_id \<times> bytes) \<times> owner_row) list" where
  "joined_claims l = filter (\<lambda>(k, _). map_of (tbl_shards l) (fst k) \<noteq> None) (tbl_owners l)"

definition size_of :: "ledger \<Rightarrow> shard_id \<Rightarrow> int" where
  "size_of l sid = (case map_of (tbl_shards l) sid of None \<Rightarrow> 0 | Some s \<Rightarrow> row_size s)"

definition group_row :: "ledger \<Rightarrow> ((shard_id \<times> bytes) \<times> owner_row) list \<Rightarrow> account_row" where
  "group_row l cs = \<lparr>acc_bytes = sum_list (map (\<lambda>(k, _). size_of l (fst k)) cs), acc_shards = int (length cs),
     acc_first_seen = Min (set (map (row_put_at \<circ> snd) cs))\<rparr>"

definition recomputeAccounts :: "ledger \<Rightarrow> ledger" where
  "recomputeAccounts l = l\<lparr>tbl_accounts := map (\<lambda>ow. (ow, group_row l (filter (\<lambda>(k, _). snd k = ow) (joined_claims l))))
     (remdups (map (snd \<circ> fst) (joined_claims l)))\<rparr>"

record reconcile_report =
  rep_OrphanBlobs :: nat
  rep_DroppedRecords :: nat

fun drop_missing :: "shard_id set \<Rightarrow> shard_id list \<Rightarrow> ledger \<Rightarrow> nat \<Rightarrow> ledger \<times> nat" where
  "drop_missing onDisk [] l n = (l, n)"
| "drop_missing onDisk (sid # sids) l n =
     (if sid \<in> onDisk then drop_missing onDisk sids l n
      else drop_missing onDisk sids (DropRecord sid l) (n + 1))"

text \<open>\<open>disk\<close> is the outcome of the blob store's \<^verbatim>\<open>List\<close>.\<close>

definition Reconcile :: "shard_id list res \<Rightarrow> ledger \<Rightarrow> ledger \<times> reconcile_report res" where
  "Reconcile disk l =
     (case disk of
        Inl e \<Rightarrow> (l, Inl e)
      | Inr diskIDs \<Rightarrow>
         (let ledgerIDs = map fst (tbl_shards l); (l1, dropped) = drop_missing (set diskIDs) ledgerIDs l 0;
              orphans = length (filter (\<lambda>sid. sid \<notin> set ledgerIDs) diskIDs) in
          (recomputeAccounts l1, Inr \<lparr>rep_OrphanBlobs = orphans, rep_DroppedRecords = dropped\<rparr>)))"

section \<open>Revoked grants\<close>

definition RevokeGrant :: "bytes \<Rightarrow> bytes \<Rightarrow> int \<Rightarrow> ledger \<Rightarrow> ledger" where
  "RevokeGrant nonce owner now l =
     (if map_of (tbl_revoked l) nonce \<noteq> None then l
      else l\<lparr>tbl_revoked := AList.update nonce (owner, Unix now) (tbl_revoked l)\<rparr>)"

definition IsGrantRevoked :: "bytes \<Rightarrow> ledger \<Rightarrow> bool" where
  "IsGrantRevoked nonce l \<longleftrightarrow> map_of (tbl_revoked l) nonce \<noteq> None"

section \<open>What the accounts must say\<close>

definition claims :: "ledger \<Rightarrow> bytes \<Rightarrow> (shard_id \<times> bytes) list" where
  "claims l ow = filter (\<lambda>k. snd k = ow) (map fst (tbl_owners l))"

definition charged :: "ledger \<Rightarrow> bytes \<Rightarrow> int" where
  "charged l ow = sum_list (map (size_of l \<circ> fst) (claims l ow))"

definition account_is :: "account_row option \<Rightarrow> int \<Rightarrow> int \<Rightarrow> bool" where
  "account_is a b n \<longleftrightarrow> (case a of None \<Rightarrow> n = 0 \<and> b = 0 | Some r \<Rightarrow> 0 < n \<and> acc_bytes r = b \<and> acc_shards r = n)"

text \<open>
  The invariant: primary keys are keys, claims and stripes refer to shard rows, and the account
  of every owner is exactly the number and the total size of its claims.
\<close>

definition ledger_keys :: "ledger \<Rightarrow> bool" where
  "ledger_keys l \<longleftrightarrow> distinct (map fst (tbl_shards l)) \<and> distinct (map fst (tbl_owners l))
     \<and> distinct (map fst (tbl_accounts l)) \<and> distinct (map fst (tbl_stripes l)) \<and> distinct (map fst (tbl_revoked l))
     \<and> fst ` set (map fst (tbl_owners l)) \<subseteq> set (map fst (tbl_shards l))
     \<and> set (map fst (tbl_stripes l)) \<subseteq> set (map fst (tbl_shards l))"

definition ledger_inv :: "ledger \<Rightarrow> bool" where
  "ledger_inv l \<longleftrightarrow> ledger_keys l \<and>
     (\<forall>ow. account_is (map_of (tbl_accounts l) ow) (charged l ow) (int (length (claims l ow))))"

lemma distinct_removeAll_sum:
  assumes "distinct xs" and "k \<in> set xs"
  shows "sum_list (map f (removeAll k xs)) = sum_list (map f xs) - (f k :: int)" and "length (removeAll k xs) = length xs - 1"
proof -
  have r: "removeAll k xs = remove1 k xs" using assms(1) by (simp add: distinct_remove1_removeAll)
  show "sum_list (map f (removeAll k xs)) = sum_list (map f xs) - f k"
    unfolding r using assms(2) by (simp add: sum_list_map_remove1)
  show "length (removeAll k xs) = length xs - 1" unfolding r using assms(2) by (simp add: length_remove1)
qed

lemma filter_removeAll: "filter P (removeAll k xs) = removeAll k (filter P xs)"
  by (induction xs) auto

text \<open>Charging and crediting one owner.\<close>

lemma charge_up_account:
  "account_is (map_of accts ow) b n \<Longrightarrow> 0 \<le> n \<Longrightarrow> account_is (map_of (charge_up ow sz now accts) ow) (b + sz) (n + 1)"
  by (auto simp: account_is_def charge_up_def split: option.splits)

lemma charge_up_other: "ow' \<noteq> ow \<Longrightarrow> map_of (charge_up ow sz now accts) ow' = map_of accts ow'"
  by (simp add: charge_up_def)

lemma charge_up_keys: "distinct (map fst accts) \<Longrightarrow> distinct (map fst (charge_up ow sz now accts))"
  by (simp add: charge_up_def distinct_update)

lemma chargeDown_account:
  "account_is (map_of accts ow) b n \<Longrightarrow> n \<noteq> 0 \<Longrightarrow> (n = 1 \<Longrightarrow> b = sz) \<Longrightarrow>
   account_is (map_of (chargeDown sz ow accts) ow) (b - sz) (n - 1)"
  by (auto simp: account_is_def chargeDown_def Let_def split: option.splits)

lemma chargeDown_other: "ow' \<noteq> ow \<Longrightarrow> map_of (chargeDown sz ow accts) ow' = map_of accts ow'"
  by (simp add: chargeDown_def Let_def split: option.split)

lemma chargeDown_keys: "distinct (map fst accts) \<Longrightarrow> distinct (map fst (chargeDown sz ow accts))"
  by (simp add: chargeDown_def Let_def distinct_update distinct_delete split: option.split)

lemma chargeDown_fold_other: "ow \<notin> set ows \<Longrightarrow> map_of (fold (chargeDown sz) ows accts) ow = map_of accts ow"
  by (induction ows arbitrary: accts) (auto simp: chargeDown_other)

lemma chargeDown_fold_keys: "distinct (map fst accts) \<Longrightarrow> distinct (map fst (fold (chargeDown sz) ows accts))"
  by (induction ows arbitrary: accts) (auto simp: chargeDown_keys)

lemma chargeDown_fold_account:
  assumes "distinct ows" and "ow \<in> set ows" and "account_is (map_of accts ow) b n" and "n \<noteq> 0" and "n = 1 \<Longrightarrow> b = sz"
  shows "account_is (map_of (fold (chargeDown sz) ows accts) ow) (b - sz) (n - 1)"
  using assms
proof (induction ows arbitrary: accts)
  case (Cons o1 ows)
  show ?case
  proof (cases "ow = o1")
    case True
    then show ?thesis using Cons.prems chargeDown_account [of accts ow b n sz] by (simp add: chargeDown_fold_other)
  next
    case False
    then show ?thesis using Cons.prems Cons.IH [of "chargeDown sz o1 accts"] by (simp add: chargeDown_other)
  qed
qed simp

lemma claims_keys: "k \<in> set (claims l ow) \<Longrightarrow> k \<in> set (map fst (tbl_owners l)) \<and> snd k = ow"
  by (auto simp: claims_def)

lemma distinct_claims: "ledger_keys l \<Longrightarrow> distinct (claims l ow)"
  by (simp add: claims_def ledger_keys_def)

lemma map_of_None_keys: "map_of al k = None \<longleftrightarrow> k \<notin> set (map fst al)"
  by (simp add: map_of_eq_None_iff)

lemma owner_shard:
  assumes "ledger_keys l" and "k \<in> set (map fst (tbl_owners l))"
  shows "map_of (tbl_shards l) (fst k) \<noteq> None"
proof -
  have "fst k \<in> fst ` set (map fst (tbl_owners l))" using assms(2) by (rule imageI)
  then show ?thesis using assms(1) unfolding map_of_None_keys ledger_keys_def by blast
qed

text \<open>Removing one claim and crediting its size keeps an account exact.\<close>

lemma account_remove_claim:
  assumes "distinct cs" and "k \<in> set cs" and "account_is a (sum_list (map f cs)) (int (length cs))"
    and "\<And>b n. account_is a b n \<Longrightarrow> n \<noteq> 0 \<Longrightarrow> (n = 1 \<Longrightarrow> b = f k) \<Longrightarrow> account_is a' (b - f k) (n - 1)"
  shows "account_is a' (sum_list (map f (removeAll k cs))) (int (length (removeAll k cs)))"
proof -
  have "cs \<noteq> []" using assms(2) by auto
  moreover have "sum_list (map f cs) = f k" if "length cs = 1"
    using that assms(2) by (cases cs) auto
  ultimately have "account_is a' (sum_list (map f cs) - f k) (int (length cs) - 1)"
    using assms(4) [OF assms(3)] by simp
  moreover have "int (length cs - 1) = int (length cs) - 1" using \<open>cs \<noteq> []\<close> by (cases cs) auto
  ultimately show ?thesis by (simp add: distinct_removeAll_sum [OF assms(1,2)])
qed

section \<open>Every operation keeps the invariant\<close>

lemma size_of_shards: "tbl_shards l' = tbl_shards l \<Longrightarrow> size_of l' = size_of l"
  by (rule ext) (simp add: size_of_def)

lemma claims_owners: "map fst (tbl_owners l') = map fst (tbl_owners l) \<Longrightarrow> claims l' = claims l"
  by (rule ext) (simp add: claims_def)

text \<open>Touching only row contents of the owners, the stripes or the revoked grants.\<close>

lemma ledger_inv_same_keys:
  assumes "ledger_inv l" and "tbl_shards l' = tbl_shards l" and "map fst (tbl_owners l') = map fst (tbl_owners l)"
    and "tbl_accounts l' = tbl_accounts l" and "distinct (map fst (tbl_stripes l'))"
    and "set (map fst (tbl_stripes l')) \<subseteq> set (map fst (tbl_shards l))" and "distinct (map fst (tbl_revoked l'))"
  shows "ledger_inv l'"
  using assms size_of_shards [OF assms(2)] claims_owners [OF assms(3)]
  unfolding ledger_inv_def ledger_keys_def charged_def by simp

lemma ledger_inv_renew:
  assumes "ledger_inv l" and "map_of (tbl_owners l) k \<noteq> None"
  shows "ledger_inv (l\<lparr>tbl_owners := AList.update k r (tbl_owners l)\<rparr>)"
  using assms(1) by (rule ledger_inv_same_keys)
    (use assms in \<open>simp_all add: ledger_inv_def ledger_keys_def update_keys map_of_eq_None_iff\<close>)

text \<open>A shard is recorded with the size of the bytes its address stands for.\<close>

definition size_consistent :: "ledger \<Rightarrow> shard_id \<Rightarrow> int \<Rightarrow> bool" where
  "size_consistent l sid sz \<longleftrightarrow> (case map_of (tbl_shards l) sid of None \<Rightarrow> True | Some r \<Rightarrow> row_size r = sz)"

lemma ledger_inv_AddOwner:
  assumes inv: "ledger_inv l" and sz: "size_consistent l sid sz"
  shows "ledger_inv (fst (AddOwner opts sid ow sz now l))"
proof -
  have keys: "ledger_keys l" using inv by (simp add: ledger_inv_def)
  consider "map_of (tbl_owners l) (sid, ow) \<noteq> None" | "over_quota opts l ow sz now" "map_of (tbl_owners l) (sid, ow) = None"
    | "map_of (tbl_owners l) (sid, ow) = None" "\<not> over_quota opts l ow sz now" by blast
  then show ?thesis
  proof cases
    case 1
    then show ?thesis using ledger_inv_renew [OF inv] by (simp add: AddOwner_def Let_def)
  next
    case 2
    then show ?thesis using inv by (simp add: AddOwner_def Let_def)
  next
    case 3
    let ?l = "fst (AddOwner opts sid ow sz now l)"
    have new: "(sid, ow) \<notin> set (map fst (tbl_owners l))" using 3(1) by (simp add: map_of_eq_None_iff)
    have sh: "map_of (tbl_shards ?l) x = (if x = sid \<and> map_of (tbl_shards l) sid = None
        then Some \<lparr>row_size = sz, row_created = Unix now\<rparr> else map_of (tbl_shards l) x)" for x
      using 3 by (simp add: AddOwner_def Let_def)
    have own: "map fst (tbl_owners ?l) = map fst (tbl_owners l) @ [(sid, ow)]"
      using 3 new by (simp add: AddOwner_def Let_def update_keys)
    have acc: "tbl_accounts ?l = charge_up ow sz now (tbl_accounts l)" using 3 by (simp add: AddOwner_def Let_def)
    have rest: "tbl_stripes ?l = tbl_stripes l" "tbl_revoked ?l = tbl_revoked l" using 3 by (simp_all add: AddOwner_def Let_def)
    have shk: "set (map fst (tbl_shards ?l)) = insert sid (set (map fst (tbl_shards l)))" "distinct (map fst (tbl_shards ?l))"
      using 3 keys by (auto simp: AddOwner_def Let_def dom_update distinct_update ledger_keys_def map_of_None_keys)
    have k': "ledger_keys ?l"
      using keys shk(2) new unfolding ledger_keys_def rest acc own shk(1)
      by (auto simp: charge_up_keys simp del: set_map)
    have size: "size_of ?l (fst k) = size_of l (fst k)" if "k \<in> set (map fst (tbl_owners l))" for k
    proof -
      have "map_of (tbl_shards l) (fst k) \<noteq> None" by (rule owner_shard [OF keys that])
      then show ?thesis unfolding size_of_def sh by (cases "fst k = sid") auto
    qed
    have new_size: "size_of ?l sid = sz" using sz unfolding size_of_def sh by (auto simp: size_consistent_def split: option.splits)
    have cl: "claims ?l x = claims l x @ (if x = ow then [(sid, ow)] else [])" for x
      unfolding claims_def own by simp
    have same: "map (size_of ?l \<circ> fst) (claims l x) = map (size_of l \<circ> fst) (claims l x)" for x
      using size claims_keys by (intro map_cong) auto
    have ch: "charged ?l x = charged l x + (if x = ow then sz else 0)" for x
      unfolding charged_def cl map_append same using new_size by simp
    have "account_is (map_of (tbl_accounts ?l) x) (charged ?l x) (int (length (claims ?l x)))" for x
      using inv charge_up_account [of "tbl_accounts l" ow "charged l ow" "int (length (claims l ow))" sz now]
        charge_up_other [of x ow]
      unfolding acc ch cl ledger_inv_def by (cases "x = ow") (auto simp: add.commute)
    then show ?thesis using k' by (simp add: ledger_inv_def)
  qed
qed

lemma RemoveOwner_cases:
  obtains (no) "RemoveOwner sid ow l = (l, Inl ErrUnauthorized)"
      "map_of (tbl_owners l) (sid, ow) = None \<or> map_of (tbl_shards l) sid = None"
    | (yes) r s where "map_of (tbl_owners l) (sid, ow) = Some r" "map_of (tbl_shards l) sid = Some s"
      "RemoveOwner sid ow l = (l\<lparr>tbl_owners := AList.delete (sid, ow) (tbl_owners l),
         tbl_accounts := chargeDown (row_size s) ow (tbl_accounts l)\<rparr>,
         Inr (length (filter (\<lambda>k. fst k = sid) (map fst (AList.delete (sid, ow) (tbl_owners l))))))"
  by (cases "map_of (tbl_owners l) (sid, ow)"; cases "map_of (tbl_shards l) sid") (auto simp: RemoveOwner_def Let_def)

lemma ledger_inv_RemoveOwner:
  assumes inv: "ledger_inv l"
  shows "ledger_inv (fst (RemoveOwner sid ow l))"
proof (cases rule: RemoveOwner_cases [of sid ow l])
  case no
  then show ?thesis using inv by simp
next
  case (yes r s)
  let ?l = "fst (RemoveOwner sid ow l)"
  have keys: "ledger_keys l" using inv by (simp add: ledger_inv_def)
  have own: "map fst (tbl_owners ?l) = removeAll (sid, ow) (map fst (tbl_owners l))"
    using yes(3) by (simp add: delete_keys)
  have t: "tbl_shards ?l = tbl_shards l" "tbl_accounts ?l = chargeDown (row_size s) ow (tbl_accounts l)"
    "tbl_stripes ?l = tbl_stripes l" "tbl_revoked ?l = tbl_revoked l" using yes(3) by simp_all
  have k': "ledger_keys ?l" using keys unfolding ledger_keys_def t own
    by (auto simp: chargeDown_keys distinct_removeAll simp del: set_map)
  have cl: "claims ?l x = removeAll (sid, ow) (claims l x)" for x unfolding claims_def own filter_removeAll by simp
  have mem: "(sid, ow) \<in> set (claims l ow)" using yes(1) by (force simp: claims_def dest: map_of_SomeD)
  have size: "size_of ?l = size_of l" "size_of l sid = row_size s"
    using size_of_shards [OF t(1)] yes(2) by (simp_all add: size_of_def)
  have "account_is (map_of (tbl_accounts ?l) x) (charged ?l x) (int (length (claims ?l x)))" for x
  proof (cases "x = ow")
    case True
    show ?thesis unfolding True charged_def cl size(1) t(2)
    proof (rule account_remove_claim [OF distinct_claims [OF keys] mem])
      show "account_is (map_of (tbl_accounts l) ow) (sum_list (map (size_of l \<circ> fst) (claims l ow))) (int (length (claims l ow)))"
        using inv by (simp add: ledger_inv_def charged_def)
    next
      fix b n
      assume "account_is (map_of (tbl_accounts l) ow) b n" "n \<noteq> 0" "n = 1 \<Longrightarrow> b = (size_of l \<circ> fst) (sid, ow)"
      then show "account_is (map_of (chargeDown (row_size s) ow (tbl_accounts l)) ow) (b - (size_of l \<circ> fst) (sid, ow)) (n - 1)"
        using chargeDown_account size(2) by simp
    qed
  next
    case False
    then have "removeAll (sid, ow) (claims l x) = claims l x" by (auto simp: claims_def intro!: removeAll_id)
    then show ?thesis using False inv unfolding charged_def cl size(1) t(2)
      by (simp add: chargeDown_other ledger_inv_def charged_def)
  qed
  then show ?thesis using k' by (simp add: ledger_inv_def)
qed

lemma ledger_inv_drop:
  assumes inv: "ledger_inv l"
  shows "ledger_inv (fst (dropRecordTx sid l))"
proof (cases "map_of (tbl_shards l) sid")
  case None
  then show ?thesis using inv by (simp add: dropRecordTx_def)
next
  case (Some s)
  let ?l = "fst (dropRecordTx sid l)"
  have keys: "ledger_keys l" using inv by (simp add: ledger_inv_def)
  have own: "map fst (tbl_owners ?l) = filter (\<lambda>k. fst k \<noteq> sid) (map fst (tbl_owners l))"
    using Some by (simp add: dropRecordTx_def filter_map comp_def case_prod_unfold)
  have t: "map fst (tbl_shards ?l) = removeAll sid (map fst (tbl_shards l))"
    "tbl_accounts ?l = fold (chargeDown (row_size s)) (owners_of l sid) (tbl_accounts l)"
    "map fst (tbl_stripes ?l) = removeAll sid (map fst (tbl_stripes l))" "tbl_revoked ?l = tbl_revoked l"
    using Some by (simp_all add: dropRecordTx_def delete_keys)
  have k': "ledger_keys ?l" using keys unfolding ledger_keys_def t own
    by (auto simp: chargeDown_fold_keys distinct_removeAll simp del: set_map)
  have size: "size_of ?l x = size_of l x" if "x \<noteq> sid" for x using Some that by (simp add: size_of_def dropRecordTx_def)
  have "snd ` {k \<in> set (map fst (tbl_owners l)). fst k = sid} = {ow. (sid, ow) \<in> set (map fst (tbl_owners l))}" by force
  then have ows: "set (owners_of l sid) = {ow. (sid, ow) \<in> set (map fst (tbl_owners l))}"
    unfolding owners_of_def by (simp only: set_map set_filter)
  have "inj_on snd {k \<in> set (map fst (tbl_owners l)). fst k = sid}" by (auto simp: inj_on_def prod_eq_iff)
  then have dist: "distinct (owners_of l sid)"
    using keys unfolding owners_of_def distinct_map ledger_keys_def set_filter by (auto simp: distinct_map)
  have cl: "claims ?l x = removeAll (sid, x) (claims l x)" for x
    unfolding claims_def own removeAll_filter_not_eq filter_filter by (rule filter_cong) auto
  have ch: "charged ?l x = sum_list (map (size_of l \<circ> fst) (removeAll (sid, x) (claims l x)))" for x
    unfolding charged_def cl by (rule arg_cong [of _ _ sum_list], rule map_cong) (auto simp: claims_def intro!: size)
  have "account_is (map_of (tbl_accounts ?l) x) (charged ?l x) (int (length (claims ?l x)))" for x
  proof (cases "x \<in> set (owners_of l sid)")
    case True
    then have mem: "(sid, x) \<in> set (claims l x)" unfolding ows by (simp add: claims_def)
    have f: "(size_of l \<circ> fst) (sid, x) = row_size s" using Some by (simp add: size_of_def)
    show ?thesis unfolding ch cl t(2)
    proof (rule account_remove_claim [OF distinct_claims [OF keys] mem])
      show "account_is (map_of (tbl_accounts l) x) (sum_list (map (size_of l \<circ> fst) (claims l x))) (int (length (claims l x)))"
        using inv by (simp add: ledger_inv_def charged_def)
    next
      fix b n
      assume "account_is (map_of (tbl_accounts l) x) b n" "n \<noteq> 0" "n = 1 \<Longrightarrow> b = (size_of l \<circ> fst) (sid, x)"
      then show "account_is (map_of (fold (chargeDown (row_size s)) (owners_of l sid) (tbl_accounts l)) x)
          (b - (size_of l \<circ> fst) (sid, x)) (n - 1)"
        unfolding f by (rule chargeDown_fold_account [OF dist True])
    qed
  next
    case False
    then have "removeAll (sid, x) (claims l x) = claims l x" unfolding ows by (auto simp: claims_def intro!: removeAll_id)
    then show ?thesis using False inv unfolding ch cl t(2)
      by (simp add: chargeDown_fold_other ledger_inv_def charged_def)
  qed
  then show ?thesis using k' by (simp add: ledger_inv_def)
qed

lemma ledger_inv_DropRecord: "ledger_inv l \<Longrightarrow> ledger_inv (DropRecord sid l)"
  by (simp add: DropRecord_def ledger_inv_drop)

lemma ledger_inv_CollectRecord: "ledger_inv l \<Longrightarrow> ledger_inv (fst (CollectRecord sid now ex l))"
  by (simp add: CollectRecord_def ledger_inv_drop)

lemma ledger_inv_RenewLease: "ledger_inv l \<Longrightarrow> ledger_inv (fst (RenewLease opts sid ow now l))"
  by (simp add: RenewLease_def ledger_inv_renew)

lemma ledger_inv_PutStripe:
  assumes "ledger_inv l"
  shows "ledger_inv (fst (PutStripe sid k m sibs g l))"
proof (cases "g = [] \<or> map_of (tbl_shards l) sid = None")
  case True
  then show ?thesis using assms by (auto simp: PutStripe_def)
next
  case False
  then have "sid \<in> set (map fst (tbl_shards l))" unfolding map_of_None_keys by simp
  with False assms show ?thesis
    by (intro ledger_inv_same_keys [OF assms]) (auto simp: PutStripe_def ledger_inv_def ledger_keys_def distinct_update dom_update)
qed

lemma ledger_inv_RevokeGrant: "ledger_inv l \<Longrightarrow> ledger_inv (RevokeGrant nonce ow now l)"
  by (rule ledger_inv_same_keys [of l]) (auto simp: RevokeGrant_def ledger_inv_def ledger_keys_def distinct_update)

lemma map_of_group: "map_of (map (\<lambda>k. (k, f k)) ks) k = (if k \<in> set ks then Some (f k) else None)"
  by (induction ks) auto

lemma ledger_inv_recompute:
  assumes keys: "ledger_keys l"
  shows "ledger_inv (recomputeAccounts l)"
proof -
  let ?l = "recomputeAccounts l"
  have "map_of (tbl_shards l) (fst k) \<noteq> None" if "(k, r) \<in> set (tbl_owners l)" for k r
    by (rule owner_shard [OF keys]) (use that in force)
  then have j: "joined_claims l = tbl_owners l" by (auto simp: joined_claims_def filter_id_conv)
  have t: "tbl_shards ?l = tbl_shards l" "tbl_owners ?l = tbl_owners l" "tbl_stripes ?l = tbl_stripes l" "tbl_revoked ?l = tbl_revoked l"
    by (simp_all add: recomputeAccounts_def)
  have "map fst (tbl_accounts ?l) = remdups (map (snd \<circ> fst) (tbl_owners l))"
    by (simp add: recomputeAccounts_def j comp_def)
  then have k': "ledger_keys ?l" using keys unfolding ledger_keys_def t by (simp only: distinct_remdups)
  have cl: "claims l ow = map fst (filter (\<lambda>(k, _). snd k = ow) (tbl_owners l))" for ow
    by (simp add: claims_def filter_map comp_def case_prod_unfold)
  have acc: "map_of (tbl_accounts ?l) ow = (if ow \<in> set (map (snd \<circ> fst) (tbl_owners l))
      then Some (group_row l (filter (\<lambda>(k, _). snd k = ow) (tbl_owners l))) else None)" for ow
    unfolding recomputeAccounts_def j by (simp add: map_of_group del: set_map) 
  have none: "claims l ow = [] \<longleftrightarrow> ow \<notin> set (map (snd \<circ> fst) (tbl_owners l))" for ow
    by (force simp: claims_def filter_empty_conv)
  have "account_is (map_of (tbl_accounts ?l) ow) (charged ?l ow) (int (length (claims ?l ow)))" for ow
  proof -
    have c: "claims ?l ow = claims l ow" "charged ?l ow = charged l ow"
      using claims_owners [of ?l l] size_of_shards [of ?l l] t by (simp_all add: charged_def)
    show ?thesis
    proof (cases "claims l ow = []")
      case True
      then show ?thesis unfolding c acc using none [of ow] by (simp add: account_is_def charged_def)
    next
      case False
      then have "account_is (map_of (tbl_accounts ?l) ow) (charged l ow) (int (length (claims l ow)))"
        unfolding acc using none [of ow]
        by (simp add: account_is_def charged_def group_row_def cl case_prod_unfold comp_def)
      then show ?thesis unfolding c .
    qed
  qed
  then show ?thesis using k' by (simp add: ledger_inv_def)
qed

lemma drop_missing_inv:
  "ledger_inv l \<Longrightarrow> drop_missing D sids l n = (l', n') \<Longrightarrow> ledger_inv l'"
  by (induction sids arbitrary: l n) (auto dest: ledger_inv_DropRecord split: if_splits)

lemma ledger_inv_Reconcile:
  assumes "ledger_inv l"
  shows "ledger_inv (fst (Reconcile disk l))"
proof (cases disk)
  case (Inl e)
  then show ?thesis using assms by (simp add: Reconcile_def)
next
  case (Inr ids)
  obtain l1 n where d: "drop_missing (set ids) (map fst (tbl_shards l)) l 0 = (l1, n)" by fastforce
  have "ledger_inv l1" by (rule drop_missing_inv [OF assms d])
  then show ?thesis using Inr d by (simp add: Reconcile_def Let_def ledger_inv_def [of l1] ledger_inv_recompute)
qed

section \<open>Reachable ledgers\<close>

text \<open>
  One step is one call on the ledger, by whatever handler. A claim comes with the length of
  the bytes the shard's address stands for, the same at every claim of it.
\<close>

inductive ledger_step :: "options \<Rightarrow> ledger \<Rightarrow> ledger \<Rightarrow> bool" for opts where
  add: "size_consistent l sid sz \<Longrightarrow> 0 \<le> sz \<Longrightarrow> ledger_step opts l (fst (AddOwner opts sid ow sz now l))"
| renew: "ledger_step opts l (fst (RenewLease opts sid ow now l))"
| remove: "ledger_step opts l (fst (RemoveOwner sid ow l))"
| drop: "ledger_step opts l (DropRecord sid l)"
| collect: "ledger_step opts l (fst (CollectRecord sid now ex l))"
| stripe: "ledger_step opts l (fst (PutStripe sid k m sibs g l))"
| reconcile: "ledger_step opts l (fst (Reconcile disk l))"
| revoke: "ledger_step opts l (RevokeGrant nonce ow now l)"

inductive ledger_reach :: "options \<Rightarrow> ledger \<Rightarrow> bool" for opts where
  init: "ledger_reach opts empty_ledger"
| step: "ledger_reach opts l \<Longrightarrow> ledger_step opts l l' \<Longrightarrow> ledger_reach opts l'"

inductive_cases ledger_stepE: "ledger_step opts l l'"

lemmas ledger_inv_ops = ledger_inv_AddOwner ledger_inv_RenewLease ledger_inv_RemoveOwner ledger_inv_DropRecord
  ledger_inv_CollectRecord ledger_inv_PutStripe ledger_inv_Reconcile ledger_inv_RevokeGrant

lemma ledger_step_inv: "ledger_step opts l l' \<Longrightarrow> ledger_inv l \<Longrightarrow> ledger_inv l'"
  by (erule ledger_stepE) (simp_all add: ledger_inv_ops)

lemma ledger_reach_inv: "ledger_reach opts l \<Longrightarrow> ledger_inv l"
proof (induction rule: ledger_reach.induct)
  case init
  then show ?case by (simp add: ledger_inv_def ledger_keys_def empty_ledger_def account_is_def charged_def claims_def)
next
  case (step l l')
  then show ?case using ledger_step_inv by blast
qed

lemma Account_exact: "ledger_inv l \<Longrightarrow> Account ow l = (charged l ow, int (length (claims l ow)))"
  by (auto simp: Account_def ledger_inv_def account_is_def split: option.splits dest!: spec [of _ ow])

section \<open>Effects on the claims\<close>

text \<open>Whether an owner holds a claim on a shard.\<close>

definition holds :: "ledger \<Rightarrow> bytes \<Rightarrow> shard_id \<Rightarrow> bool" where
  "holds l ow sid \<longleftrightarrow> map_of (tbl_owners l) (sid, ow) \<noteq> None"

lemma effectiveQuota_le:
  assumes "0 < opt_QuotaBytes opts"
  shows "1 \<le> effectiveQuota opts fs now \<and> effectiveQuota opts fs now \<le> opt_QuotaBytes opts"
proof -
  let ?f = "opt_QuotaInitialFraction opts" and ?r = "of_int (opt_QuotaRamp opts) :: rat"
  have "\<lfloor>of_int (opt_QuotaBytes opts) * (?f + (1 - ?f) * (of_int a / ?r))\<rfloor> \<le> opt_QuotaBytes opts"
    if f: "0 < ?f" "?f < 1" and a: "0 \<le> a" "a < opt_QuotaRamp opts" for a
  proof -
    have "0 < ?r" "(of_int a :: rat) \<le> ?r" using a by simp_all
    then have "(1 - ?f) * (of_int a / ?r) \<le> (1 - ?f) * 1"
      using f a by (intro mult_left_mono) (auto simp: divide_le_eq)
    then have "of_int (opt_QuotaBytes opts) * (?f + (1 - ?f) * (of_int a / ?r)) \<le> of_int (opt_QuotaBytes opts) * 1"
      using assms by (intro mult_left_mono) auto
    then show ?thesis by (simp add: floor_le_iff)
  qed
  then show ?thesis using assms by (auto simp: effectiveQuota_def Let_def)
qed

lemma AddOwner_accounts:
  assumes inv: "ledger_inv l" and sz: "size_consistent l sid sz" and add: "AddOwner opts sid ow sz now l = (l', Inr new)"
  shows "Account x l' = (if x = ow \<and> new then (fst (Account ow l) + sz, snd (Account ow l) + 1) else Account x l)"
    and "holds l' x y \<longleftrightarrow> x = ow \<and> y = sid \<or> holds l x y" and "new \<longleftrightarrow> \<not> holds l ow sid"
  using add by (auto simp: AddOwner_def Account_def charge_up_def holds_def Let_def split: if_splits option.splits)

section \<open>Properties\<close>

text \<open>
  C19: accounting never drifts. In every ledger reachable from the empty one by any sequence of
  claims, renewals, removals, drops, collections, stripe records, reconciliations and
  revocations, primary keys are unique, claims and stripes refer to recorded shards, and every
  owner's account is exactly the number and total size of its claims (no account row when it
  has none).
\<close>

theorem ledger_accounts_exact:
  assumes "ledger_reach opts l"
  shows "ledger_inv l \<and> Account ow l = (charged l ow, int (length (claims l ow)))"
  using ledger_reach_inv [OF assms] Account_exact by blast

theorem ledger_accounts_exact_witness:
  "Account [7] (fst (AddOwner \<lparr>opt_QuotaBytes = 0, opt_LeaseTTL = 0, opt_QuotaRamp = 0, opt_QuotaInitialFraction = 0\<rparr>
     [1] [7] 100 0 empty_ledger)) = (100, 1)"
proof -
  let ?opts = "\<lparr>opt_QuotaBytes = 0, opt_LeaseTTL = 0, opt_QuotaRamp = 0, opt_QuotaInitialFraction = 0\<rparr>"
  let ?l = "fst (AddOwner ?opts [1] [7] 100 0 empty_ledger)"
  have "ledger_step ?opts empty_ledger ?l" by (rule ledger_step.add) (simp_all add: size_consistent_def empty_ledger_def)
  then have "ledger_reach ?opts ?l" using ledger_reach.intros by blast
  from ledger_accounts_exact [OF this, of "[7]"] show ?thesis
    by (simp add: AddOwner_def empty_ledger_def Let_def over_quota_def charged_def claims_def size_of_def)
qed

text \<open>
  C20: admission. A claim on a shard already held is a free renewal; a new claim charges exactly
  the shard's size to the claiming owner and nobody else; and a new claim by an owner that
  already stores something never takes it over the configured quota: it is refused with the
  ledger unchanged.
\<close>

theorem AddOwner_quota:
  assumes "ledger_inv l" and "size_consistent l sid sz" and "AddOwner opts sid ow sz now l = (l', r)"
  shows "(r = Inl ErrQuotaExceeded \<and> l' = l \<and> 0 < opt_QuotaBytes opts \<and> \<not> holds l ow sid \<and> 0 < fst (Account ow l))
    \<or> (r = Inr False \<and> holds l ow sid \<and> (\<forall>x. Account x l' = Account x l) \<and> holds l' = holds l)
    \<or> (r = Inr True \<and> \<not> holds l ow sid \<and> holds l' ow sid \<and> ledger_inv l'
       \<and> Account ow l' = (fst (Account ow l) + sz, snd (Account ow l) + 1)
       \<and> (\<forall>x. x \<noteq> ow \<longrightarrow> Account x l' = Account x l)
       \<and> (0 < opt_QuotaBytes opts \<longrightarrow> 0 < fst (Account ow l) \<longrightarrow> fst (Account ow l') \<le> opt_QuotaBytes opts))"
proof (cases r)
  case (Inl e)
  then show ?thesis using assms(3)
    by (auto simp: AddOwner_def Let_def holds_def over_quota_def Account_def split: if_splits option.splits)
next
  case (Inr new)
  note A = AddOwner_accounts [OF assms(1,2) assms(3) [unfolded Inr]]
  have inv': "ledger_inv l'" using ledger_inv_AddOwner [OF assms(1,2), of opts ow now] assms(3) by simp
  have "fst (Account ow l) + sz \<le> opt_QuotaBytes opts"
    if n: "new" and q: "0 < opt_QuotaBytes opts" and u: "0 < fst (Account ow l)"
  proof -
    obtain a where a: "map_of (tbl_accounts l) ow = Some a" "fst (Account ow l) = acc_bytes a"
      using u by (auto simp: Account_def split: option.splits)
    have "\<not> over_quota opts l ow sz now" using assms(3) Inr n by (auto simp: AddOwner_def Let_def split: if_splits)
    then have "acc_bytes a + sz \<le> effectiveQuota opts (acc_first_seen a) now"
      using a q u by (auto simp: over_quota_def)
    then show ?thesis using effectiveQuota_le [OF q] a(2) by (metis order_trans)
  qed
  then show ?thesis using Inr A inv' by (cases new) (auto simp: fun_eq_iff)
qed

definition demo_opts :: options where
  "demo_opts = \<lparr>opt_QuotaBytes = 1000, opt_LeaseTTL = 60 * 10 ^ 9, opt_QuotaRamp = 100 * 10 ^ 9, opt_QuotaInitialFraction = 1 / 10\<rparr>"

definition demo_ledger :: ledger where
  "demo_ledger = fst (AddOwner demo_opts [1] [7] 90 0 empty_ledger)"

lemma demo_ledger_inv: "ledger_inv demo_ledger"
  unfolding demo_ledger_def
  by (rule ledger_inv_AddOwner [OF ledger_reach_inv [OF ledger_reach.init]]) (simp add: size_consistent_def empty_ledger_def)

text \<open>At age zero a tenth of the quota is in force: a second claim of 20 bytes is refused.\<close>

theorem AddOwner_quota_witness: "snd (AddOwner demo_opts [2] [7] 20 0 demo_ledger) = Inl ErrQuotaExceeded"
proof -
  have s: "size_consistent demo_ledger [2] 20" "\<not> holds demo_ledger [7] [2]"
    by (simp_all add: size_consistent_def holds_def demo_ledger_def AddOwner_def empty_ledger_def over_quota_def Let_def)
  have over: "over_quota demo_opts demo_ledger [7] 20 0"
    by (simp add: over_quota_def demo_ledger_def AddOwner_def empty_ledger_def Let_def charge_up_def effectiveQuota_def
        demo_opts_def Unix_def)
  then have "snd (AddOwner demo_opts [2] [7] 20 0 demo_ledger) \<noteq> Inr True"
    by (simp add: AddOwner_def Let_def)
  then show ?thesis using AddOwner_quota [OF demo_ledger_inv s(1), of demo_opts "[7]" 0] s(2) by (metis prod.collapse snd_conv)
qed

text \<open>
  the age-graduated quota. With a ramp configured, an owner's effective quota never exceeds
  the full quota and is never below one byte, never shrinks as time passes, and is the full
  quota once the owner's age reaches the ramp.
\<close>

lemma effectiveQuota_ramp:
  assumes "0 < opt_QuotaBytes opts" and "now \<le> now'"
  shows "1 \<le> effectiveQuota opts fs now \<and> effectiveQuota opts fs now \<le> effectiveQuota opts fs now'
    \<and> effectiveQuota opts fs now' \<le> opt_QuotaBytes opts
    \<and> (opt_QuotaRamp opts \<le> now - fs * 10 ^ 9 \<longrightarrow> effectiveQuota opts fs now = opt_QuotaBytes opts)"
proof -
  let ?f = "opt_QuotaInitialFraction opts" and ?r = "of_int (opt_QuotaRamp opts) :: rat"
  let ?q = "\<lambda>a. max \<lfloor>of_int (opt_QuotaBytes opts) * (?f + (1 - ?f) * (of_int a / ?r))\<rfloor> 1"
  have mono: "?q a \<le> ?q b" if "a \<le> b" "0 < ?f" "?f < 1" "0 < opt_QuotaRamp opts" for a b
  proof -
    have "of_int a / ?r \<le> of_int b / ?r" using that by (intro divide_right_mono) auto
    then have "of_int (opt_QuotaBytes opts) * (?f + (1 - ?f) * (of_int a / ?r)) \<le> of_int (opt_QuotaBytes opts) * (?f + (1 - ?f) * (of_int b / ?r))"
      using assms(1) that by (intro mult_left_mono add_left_mono) auto
    then show ?thesis using floor_mono by (intro max.mono) auto
  qed
  have "effectiveQuota opts fs now \<le> effectiveQuota opts fs now'"
  proof (cases "opt_QuotaRamp opts \<le> 0 \<or> ?f \<le> 0 \<or> 1 \<le> ?f \<or> opt_QuotaRamp opts \<le> now' - fs * 10 ^ 9")
    case True
    then have "effectiveQuota opts fs now' = opt_QuotaBytes opts" by (auto simp: effectiveQuota_def Let_def)
    then show ?thesis using effectiveQuota_le [OF assms(1)] by simp
  next
    case False
    then show ?thesis
      using assms(2) mono [of "max (now - fs * 10 ^ 9) 0" "max (now' - fs * 10 ^ 9) 0"]
      by (simp add: effectiveQuota_def Let_def)
  qed
  then show ?thesis using effectiveQuota_le [OF assms(1)] by (auto simp: effectiveQuota_def Let_def)
qed

lemma effectiveQuota_ramp_witness: "effectiveQuota demo_opts 0 (50 * 10 ^ 9) \<le> effectiveQuota demo_opts 0 (70 * 10 ^ 9)"
  using effectiveQuota_ramp [of demo_opts "50 * 10 ^ 9" "70 * 10 ^ 9" 0] by (simp add: demo_opts_def)

text \<open>
  nobody can drop another owner's claim. \<open>RemoveOwner\<close> by a caller without a claim changes
  nothing and is refused; by a claimant it removes exactly that claim, credits exactly that
  owner with the shard's size, leaves every other claim and account alone, and returns the
  number of owners left, so zero means the shard is no longer claimed by anyone.
\<close>

lemma RemoveOwner_isolated:
  assumes "ledger_inv l" and "RemoveOwner sid ow l = (l', r)"
  shows "(\<not> holds l ow sid \<longrightarrow> l' = l \<and> r = Inl ErrUnauthorized)
    \<and> (holds l ow sid \<longrightarrow> (\<exists>n. r = Inr n \<and> (n = 0 \<longleftrightarrow> (\<forall>x. \<not> holds l' x sid)))
        \<and> Account ow l' = (fst (Account ow l) - size_of l sid, snd (Account ow l) - 1) \<and> tbl_shards l' = tbl_shards l)
    \<and> (\<forall>x y. holds l' x y \<longleftrightarrow> holds l x y \<and> \<not> (x = ow \<and> y = sid))
    \<and> (\<forall>x. x \<noteq> ow \<longrightarrow> Account x l' = Account x l)"
proof (cases rule: RemoveOwner_cases [of sid ow l])
  case no
  have "map_of (tbl_owners l) (sid, ow) = None"
  proof (rule ccontr)
    assume some: "\<not> ?thesis"
    then have "(sid, ow) \<in> set (map fst (tbl_owners l))" unfolding map_of_None_keys by simp
    then have "map_of (tbl_shards l) sid \<noteq> None"
      using owner_shard [of l "(sid, ow)"] assms(1) unfolding ledger_inv_def fst_conv by blast
    then show False using no(2) some by auto
  qed
  then show ?thesis using no(1) assms(2) by (auto simp: holds_def)
next
  case (yes a s)
  let ?ks = "map fst (tbl_owners l')"
  have l': "l' = fst (RemoveOwner sid ow l)" and r: "r = Inr (length (filter (\<lambda>k. fst k = sid) ?ks))"
    using assms(2) yes(3) by auto
  have inv': "ledger_inv l'" unfolding l' by (rule ledger_inv_RemoveOwner [OF assms(1)])
  have holds: "holds l' x y \<longleftrightarrow> holds l x y \<and> \<not> (x = ow \<and> y = sid)" for x y
    using yes(3) by (auto simp: holds_def l')
  have own: "?ks = removeAll (sid, ow) (map fst (tbl_owners l))" using yes(3) by (simp add: l' delete_keys)
  have sh: "tbl_shards l' = tbl_shards l" using yes(3) by (simp add: l')
  have mem: "(sid, ow) \<in> set (claims l ow)" using yes(1) by (force simp: claims_def dest: map_of_SomeD)
  have cl: "claims l' ow = removeAll (sid, ow) (claims l ow)" unfolding claims_def own filter_removeAll by simp
  have dist: "distinct (claims l ow)" using assms(1) by (simp add: ledger_inv_def distinct_claims)
  have "claims l ow \<noteq> []" using mem by auto
  then have "int (length (claims l ow) - 1) = int (length (claims l ow)) - 1" by (cases "claims l ow") auto
  then have "Account ow l' = (fst (Account ow l) - size_of l sid, snd (Account ow l) - 1)"
    unfolding Account_exact [OF inv'] Account_exact [OF assms(1)] charged_def cl size_of_shards [OF sh]
    by (simp add: distinct_removeAll_sum [OF dist mem])
  moreover have "Account x l' = Account x l" if "x \<noteq> ow" for x
    using that yes(3) by (simp add: l' Account_def chargeDown_other)
  moreover have "length (filter (\<lambda>k. fst k = sid) ?ks) = 0 \<longleftrightarrow> (\<forall>x. \<not> holds l' x sid)"
    unfolding holds_def map_of_None_keys by (force simp: filter_empty_conv)
  moreover have "holds l ow sid" using yes(1) by (simp add: holds_def)
  ultimately show ?thesis using holds sh r by blast
qed

lemma RemoveOwner_isolated_witness: "snd (RemoveOwner [1] [8] demo_ledger) = Inl ErrUnauthorized"
proof -
  have "\<not> holds demo_ledger [8] [1]"
    by (simp add: holds_def demo_ledger_def AddOwner_def empty_ledger_def over_quota_def Let_def)
  then show ?thesis using RemoveOwner_isolated [OF demo_ledger_inv, of "[1]" "[8]"] by (metis prod.collapse)
qed

text \<open>
  C21: garbage collection takes only dead shards. \<open>CollectRecord\<close> drops a record exactly when
  \<open>Collectible\<close> lists it, that is when the shard has no owner (or, with expiring leases, no
  owner whose lease is still running); a shard with a live claim is untouched, and the claims
  on every other shard are too.
\<close>

theorem CollectRecord_only_dead:
  assumes "CollectRecord sid now ex l = (l', dropped)"
  shows "(dropped \<longleftrightarrow> sid \<in> set (Collectible now ex l)) \<and> (\<not> dropped \<longrightarrow> l' = l)
    \<and> (dropped \<longrightarrow> (\<forall>k r. (k, r) \<in> set (tbl_owners l) \<longrightarrow> fst k = sid \<longrightarrow>
          ex \<and> row_expiry r \<noteq> 0 \<and> row_expiry r < Unix now) \<and> map_of (tbl_shards l') sid = None \<and> map_of (tbl_stripes l') sid = None)
    \<and> (\<forall>y. y \<noteq> sid \<longrightarrow> map_of (tbl_shards l') y = map_of (tbl_shards l) y \<and> (\<forall>x. holds l' x y \<longleftrightarrow> holds l x y))"
proof (cases "has_live now ex l sid \<or> map_of (tbl_shards l) sid = None")
  case True
  then have "l' = l" "\<not> dropped" using assms by (auto simp: CollectRecord_def dropRecordTx_def split: if_splits)
  moreover have "sid \<notin> set (Collectible now ex l)" using True unfolding map_of_None_keys by (auto simp: Collectible_def)
  ultimately show ?thesis by simp
next
  case False
  then obtain s where s: "map_of (tbl_shards l) sid = Some s" and dead: "\<not> has_live now ex l sid" by auto
  have l': "l' = fst (dropRecordTx sid l)" "dropped" using assms s dead by (auto simp: CollectRecord_def dropRecordTx_def)
  have mem: "sid \<in> set (map fst (tbl_shards l))" using s by (force dest: map_of_SomeD)
  have "map_of (filter (\<lambda>(k, _). fst k \<noteq> sid) al) (y, x) = map_of al (y, x)" if "y \<noteq> sid"
    for y x and al :: "((shard_id \<times> bytes) \<times> owner_row) list" using that by (induction al) auto
  then show ?thesis using s dead mem l'(2) unfolding l'(1)
    by (auto simp: dropRecordTx_def Collectible_def has_live_def live_owner_def list_ex_iff holds_def)
qed

theorem CollectRecord_only_dead_witness:
  "\<not> snd (CollectRecord [1] (60 * 10 ^ 9) True demo_ledger) \<and> snd (CollectRecord [1] (61 * 10 ^ 9) True demo_ledger)"
proof -
  have "Collectible (60 * 10 ^ 9) True demo_ledger = []" "Collectible (61 * 10 ^ 9) True demo_ledger = [[1]]"
    by (simp_all add: Collectible_def has_live_def live_owner_def demo_ledger_def AddOwner_def empty_ledger_def
        over_quota_def Let_def lease_expiry_def demo_opts_def Unix_def)
  then show ?thesis
    using CollectRecord_only_dead [of "[1]" "60 * 10 ^ 9" True demo_ledger] CollectRecord_only_dead [of "[1]" "61 * 10 ^ 9" True demo_ledger]
    by (metis empty_iff insertI1 list.set(1) list.simps(15) prod.collapse)
qed

text \<open>What dropping a record leaves of the other shards.\<close>

lemma DropRecord_tables:
  "map_of (tbl_shards (DropRecord sid l)) y = (if y = sid then None else map_of (tbl_shards l) y)"
  "y \<noteq> sid \<Longrightarrow> map_of (tbl_owners (DropRecord sid l)) (y, x) = map_of (tbl_owners l) (y, x)"
proof -
  have "map_of (filter (\<lambda>(k, _). fst k \<noteq> sid) al) (y, x) = map_of al (y, x)" if "y \<noteq> sid"
    for al :: "((shard_id \<times> bytes) \<times> owner_row) list" using that by (induction al) auto
  then show "map_of (tbl_shards (DropRecord sid l)) y = (if y = sid then None else map_of (tbl_shards l) y)"
    "y \<noteq> sid \<Longrightarrow> map_of (tbl_owners (DropRecord sid l)) (y, x) = map_of (tbl_owners l) (y, x)"
    by (auto simp: DropRecord_def dropRecordTx_def split: option.splits)
qed

lemma drop_missing_shards: "drop_missing D sids l n = (l', n') \<Longrightarrow>
   map_of (tbl_shards l') y = (if y \<in> set sids \<and> y \<notin> D then None else map_of (tbl_shards l) y)"
  by (induction sids arbitrary: l n) (auto simp: DropRecord_tables(1) split: if_splits)

lemma drop_missing_owners: "drop_missing D sids l n = (l', n') \<Longrightarrow> y \<in> D \<Longrightarrow>
   map_of (tbl_owners l') (y, x) = map_of (tbl_owners l) (y, x)"
proof (induction sids arbitrary: l n)
  case (Cons sid sids)
  then show ?case using DropRecord_tables(2) [of y sid l x] by (cases "sid \<in> D") auto
qed simp

lemma drop_missing_count: "drop_missing D sids l n = (l', n') \<Longrightarrow> n' = n + length (filter (\<lambda>sid. sid \<notin> D) sids)"
proof (induction sids arbitrary: l n)
  case (Cons sid sids)
  then show ?case using Cons.IH [of "DropRecord sid l" "n + 1"] by (cases "sid \<in> D") auto
qed simp

text \<open>
  C22: reconciliation aligns the ledger with the disk. Afterwards the ledger satisfies the
  invariant, records exactly the shards it recorded before that are on disk, keeps all claims
  on those, and the report counts the dropped records and the orphan blobs; when listing the
  disk fails nothing changes.
\<close>

theorem Reconcile_aligns:
  assumes "ledger_inv l" and "Reconcile disk l = (l', r)"
  shows "ledger_inv l' \<and> (\<forall>e. disk = Inl e \<longrightarrow> l' = l \<and> r = Inl e) \<and>
    (\<forall>ids. disk = Inr ids \<longrightarrow>
       (\<forall>y. map_of (tbl_shards l') y = (if y \<in> set ids then map_of (tbl_shards l) y else None))
       \<and> (\<forall>x y. y \<in> set ids \<longrightarrow> holds l' x y = holds l x y)
       \<and> r = Inr \<lparr>rep_OrphanBlobs = length (filter (\<lambda>y. map_of (tbl_shards l) y = None) ids),
                  rep_DroppedRecords = length (filter (\<lambda>y. y \<notin> set ids) (map fst (tbl_shards l)))\<rparr>)"
proof (cases disk)
  case (Inl e)
  then show ?thesis using assms by (simp add: Reconcile_def)
next
  case (Inr ids)
  obtain l1 n where d: "drop_missing (set ids) (map fst (tbl_shards l)) l 0 = (l1, n)" by fastforce
  note T = drop_missing_shards [OF d] drop_missing_owners [OF d] drop_missing_count [OF d]
  have l': "l' = recomputeAccounts l1" "r = Inr \<lparr>rep_OrphanBlobs = length (filter (\<lambda>sid. sid \<notin> set (map fst (tbl_shards l))) ids), rep_DroppedRecords = n\<rparr>"
    using assms(2) Inr d by (simp_all add: Reconcile_def Let_def)
  have inv: "ledger_inv l'" using ledger_inv_Reconcile [OF assms(1), of disk] assms(2) by simp
  have tbl: "tbl_shards l' = tbl_shards l1" "tbl_owners l' = tbl_owners l1" using l'(1) by (simp_all add: recomputeAccounts_def)
  have "map_of (tbl_shards l') y = (if y \<in> set ids then map_of (tbl_shards l) y else None)" for y
    unfolding tbl T(1) using map_of_None_keys [of "tbl_shards l" y] by auto
  moreover have "holds l' x y = holds l x y" if "y \<in> set ids" for x y using T(2) [OF that] tbl by (simp add: holds_def)
  moreover have "n = length (filter (\<lambda>y. y \<notin> set ids) (map fst (tbl_shards l)))" using T(3) by simp
  ultimately show ?thesis using Inr inv l'(2) unfolding map_of_None_keys by simp
qed

theorem Reconcile_aligns_witness: "map_of (tbl_shards (fst (Reconcile (Inr [[9]]) demo_ledger))) [1] = None"
  using Reconcile_aligns [OF demo_ledger_inv, of "Inr [[9]]" "fst (Reconcile (Inr [[9]]) demo_ledger)" "snd (Reconcile (Inr [[9]]) demo_ledger)"]
  by simp

text \<open>
  reconciliation can make an owner young again. Renewing a lease overwrites the claim's
  time and reconciliation rebuilds the owner's first-seen time from the claims: an owner first
  seen at second 0 that renews at second 1000 is, after a reconciliation that drops nothing,
  first seen at second 1000, and falls back to the initial fraction of the quota.
\<close>

lemma Reconcile_resets_age:
  "let renewed = fst (RenewLease demo_opts [1] [7] (1000 * 10 ^ 9) demo_ledger);
       after = fst (Reconcile (Inr [[1]]) renewed)
   in snd (AddOwner demo_opts [2] [7] 20 (1000 * 10 ^ 9) renewed) = Inr True
      \<and> snd (AddOwner demo_opts [2] [7] 20 (1000 * 10 ^ 9) after) = Inl ErrQuotaExceeded"
  by (simp add: demo_ledger_def AddOwner_def empty_ledger_def over_quota_def Let_def RenewLease_def Reconcile_def
      recomputeAccounts_def joined_claims_def group_row_def size_of_def demo_opts_def effectiveQuota_def charge_up_def
      lease_expiry_def Unix_def)

text \<open>
  The stripe context survives the database. After a claim recorded its stripe (with 32-byte
  addresses), reading all stripes back returns, for that shard, the same parameters, siblings in
  position order and grant; a stripe for an unknown shard or without a grant is refused.
\<close>

lemma PutStripe_Stripes:
  assumes "Stripes l = Inr rows" and "length sid = idSize" and "\<forall>x \<in> set sibs. length x = idSize"
    and "grant \<noteq> []" and "map_of (tbl_shards l) sid \<noteq> None" and "PutStripe sid k m sibs grant l = (l', r)"
  shows "r = Inr () \<and> (\<exists>rows'. Stripes l' = Inr rows'
    \<and> \<lparr>si_ShardID = sid, si_K = k, si_M = m, si_Siblings = sibs, si_Grant = grant\<rparr> \<in> set rows'
    \<and> {x \<in> set rows. si_ShardID x \<noteq> sid} \<subseteq> set rows')"
proof -
  let ?row = "\<lparr>str_k = k, str_m = m, str_siblings = concat sibs, str_grant = grant\<rparr>"
  let ?info = "\<lparr>si_ShardID = sid, si_K = k, si_M = m, si_Siblings = sibs, si_Grant = grant\<rparr>"
  have len: "length (concat sibs) = length sibs * idSize" by (rule length_concat_ids [OF assms(3)])
  have "\<exists>rows'. scanStripeRows (AList.update sid ?row al) = Inr rows' \<and> ?info \<in> set rows' \<and> {x \<in> set rows. si_ShardID x \<noteq> sid} \<subseteq> set rows'"
    if "scanStripeRows al = Inr rows" for al rows
    using that
  proof (induction al arbitrary: rows)
    case Nil
    then show ?case using assms(2) len split_ids_concat [OF assms(3)] by (simp add: idSize_def)
  next
    case (Cons a al)
    obtain s row where a: "a = (s, row)" by fastforce
    show ?case
    proof (cases "s = sid")
      case True
      then show ?thesis using Cons.prems assms(2) len split_ids_concat [OF assms(3)] a by (auto simp: idSize_def split: if_splits)
    next
      case False
      then show ?thesis using Cons a by (fastforce split: if_splits)
    qed
  qed
  from this [of "tbl_stripes l" rows] show ?thesis using assms by (auto simp: PutStripe_def Stripes_def)
qed

lemma PutStripe_Stripes_witness:
  "\<exists>rows'. Stripes (fst (PutStripe (replicate 32 1) 2 1 [replicate 32 1, replicate 32 2, replicate 32 3] [9]
     (fst (AddOwner demo_opts (replicate 32 1) [7] 90 0 empty_ledger)))) = Inr rows'
     \<and> \<lparr>si_ShardID = replicate 32 1, si_K = 2, si_M = 1, si_Siblings = [replicate 32 1, replicate 32 2, replicate 32 3],
         si_Grant = [9]\<rparr> \<in> set rows'"
proof -
  let ?l = "fst (AddOwner demo_opts (replicate 32 1) [7] 90 0 empty_ledger)"
  have "Stripes ?l = Inr []" "map_of (tbl_shards ?l) (replicate 32 1) \<noteq> None"
    by (simp_all add: Stripes_def AddOwner_def empty_ledger_def over_quota_def Let_def)
  then show ?thesis
    using PutStripe_Stripes [of ?l "[]" "replicate 32 1" "[replicate 32 1, replicate 32 2, replicate 32 3]" "[9]" 2 1]
    by (simp add: idSize_def) (metis prod.collapse)
qed

end
