(* ===== verification/Server.thy ===== *)
theory Server
  imports Wire Flow_Limits Ledger
begin

text \<open>
  The node: \<^verbatim>\<open>src/internal/net/server.go\<close> (the stream handlers) and the garbage collector of
  \<^verbatim>\<open>src/cmd/revika-node/main.go\<close>. A handler takes the bytes of a request and the state of the node
  to a new state and a response. The store behind the node is a parameter, a \<open>store_ops\<close> with the
  laws of the \<open>content_store\<close> interface where a theorem needs them.

  The handlers run concurrently; each of their calls on the ledger, the store, the replay cache
  and the limiters is atomic. The first part treats a whole handler as one step, the last one
  takes DELETE and PUT apart into those calls and interleaves them.
\<close>

section \<open>State\<close>

record server_config =
  cfg_self :: bytes
  cfg_opts :: options
  cfg_powMin :: byte
  cfg_putCap :: "nat option"
  cfg_text :: "error \<Rightarrow> bytes"

record conn =
  conn_peer :: bytes
  conn_addr :: "bytes option"
  conn_now :: int

text \<open>
  \<open>srv_putBusy\<close> counts the slots of \<^verbatim>\<open>putSem\<close> other requests hold. \<open>srv_announced\<close> records the
  addresses handed to the announcer, \<open>srv_blocked\<close> the peers the abuse monitor banned.
\<close>

record 's server =
  srv_store :: 's
  srv_ledger :: "ledger option"
  srv_tokenCache :: auth_cache
  srv_limiter :: "bytes limiter option"
  srv_subnetLimiter :: "subnet_limiter option"
  srv_abuse :: "bytes abuse_monitor option"
  srv_putBusy :: nat
  srv_announced :: "shard_id list"
  srv_blocked :: "bytes list"

datatype response = Reset | Reply bytes

definition NewServer :: "'s \<Rightarrow> 's server" where
  "NewServer st = \<lparr>srv_store = st, srv_ledger = None, srv_tokenCache = newAuthCache, srv_limiter = None,
     srv_subnetLimiter = None, srv_abuse = None, srv_putBusy = 0, srv_announced = [], srv_blocked = []\<rparr>"

definition enforcePoW :: "prims \<Rightarrow> server_config \<Rightarrow> bytes \<Rightarrow> unit res" where
  "enforcePoW P cfg owner = (if cfg_powMin cfg = 0 then Inr ()
     else if \<not> MeetsPoW P owner (cfg_powMin cfg) then Inl ErrUnauthorized else Inr ())"

definition fail :: "server_config \<Rightarrow> error \<Rightarrow> response" where
  "fail cfg e = Reply (replyErr (cfg_text cfg) e)"

definition ok :: "bytes \<Rightarrow> response" where
  "ok body = Reply (statusOK # body)"

section \<open>Authentication\<close>

text \<open>The token check and the replay check, the same in every handler that takes a token.\<close>

definition authenticate :: "prims \<Rightarrow> server_config \<Rightarrow> int \<Rightarrow> op \<Rightarrow> shard_id \<Rightarrow> bytes \<Rightarrow> 's server \<Rightarrow> 's server \<times> bytes res" where
  "authenticate P cfg now opr sid token s = (case verifyToken P token opr sid (cfg_self cfg) now of
     Inl e \<Rightarrow> (s, Inl e)
   | Inr owner \<Rightarrow> (case seen (srv_tokenCache s) (drop (SignPubKeySize + 8) token) now of (c, replay) \<Rightarrow>
       (s\<lparr>srv_tokenCache := c\<rparr>, if replay then Inl ErrUnauthorized else Inr owner)))"

definition meter :: "int \<Rightarrow> bytes \<Rightarrow> 's server \<Rightarrow> 's server \<times> unit res" where
  "meter now owner s = (case owner_Allow owner now (srv_limiter s) of (l, allowed) \<Rightarrow>
     (s\<lparr>srv_limiter := l\<rparr>, if allowed then Inr () else Inl ErrRateLimited))"

section \<open>PUT\<close>

record put_request =
  pr_data :: bytes
  pr_token :: bytes
  pr_stripe :: bytes
  pr_grant :: bytes
  pr_reason :: byte

definition read_put :: "bytes \<Rightarrow> put_request res" where
  "read_put s = bindR (readBlob MaxShardSize s) (\<lambda>(data, s1). bindR (readBlob authTokenSize s1) (\<lambda>(token, s2).
     bindR (readBlob maxStripeBlob s2) (\<lambda>(stripeBytes, s3). bindR (readBlob GrantSize s3) (\<lambda>(grant, s4).
     bindR (readByte s4) (\<lambda>(reason, _).
       Inr \<lparr>pr_data = data, pr_token = token, pr_stripe = stripeBytes, pr_grant = grant, pr_reason = reason\<rparr>)))))"

text \<open>The descriptor and the granting owner, when the grant signs the descriptor and it names the shard.\<close>

definition stripe_context :: "prims \<Rightarrow> put_request \<Rightarrow> int \<Rightarrow> (descriptor \<times> bytes) option" where
  "stripe_context P rq now =
     (if pr_stripe rq = [] \<or> pr_grant rq = [] then None
      else case UnmarshalDescriptor (pr_stripe rq) of
        Inl _ \<Rightarrow> None
      | Inr d \<Rightarrow> (case VerifyGrant P (pr_grant rq) d now of
            Inl _ \<Rightarrow> None
          | Inr ow \<Rightarrow> if desc_Contains d (HashOf P (pr_data rq)) then Some (d, ow) else None))"

definition grant_revoked :: "put_request \<Rightarrow> 's server \<Rightarrow> bool" where
  "grant_revoked rq s = (case (GrantNonce (pr_grant rq), srv_ledger s) of
     (Inr nonce, Some l) \<Rightarrow> IsGrantRevoked nonce l | _ \<Rightarrow> False)"

definition authorize_put :: "prims \<Rightarrow> server_config \<Rightarrow> conn \<Rightarrow> put_request \<Rightarrow> (descriptor \<times> bytes) option \<Rightarrow> 's server
    \<Rightarrow> 's server \<times> bytes res" where
  "authorize_put P cfg c rq ctx s =
     (if srv_ledger s = None then (s, Inr [])
      else if pr_token rq \<noteq> []
      then (case authenticate P cfg (conn_now c) opPut (HashOf P (pr_data rq)) (pr_token rq) s of
              (s1, Inl e) \<Rightarrow> (s1, Inl e)
            | (s1, Inr owner) \<Rightarrow> (case enforcePoW P cfg owner of
                  Inl e \<Rightarrow> (s1, Inl e)
                | Inr _ \<Rightarrow> (case meter (conn_now c) owner s1 of
                      (s2, Inl e) \<Rightarrow> (s2, Inl e)
                    | (s2, Inr _) \<Rightarrow> (s2, Inr owner))))
      else (case ctx of Some (_, grantOwner) \<Rightarrow> (s, Inr grantOwner) | None \<Rightarrow> (s, Inl ErrUnauthorized)))"

definition police_move :: "conn \<Rightarrow> put_request \<Rightarrow> (descriptor \<times> bytes) option \<Rightarrow> 's server \<Rightarrow> 's server" where
  "police_move c rq ctx s = (case srv_abuse s of
     Some m \<Rightarrow> (if srv_ledger s \<noteq> None \<and> pr_reason rq = ReasonRebalance \<and> pr_token rq = [] \<and> ctx \<noteq> None
        then (case RecordRebalanceMove (conn_peer c) (conn_now c) m of (m', banned) \<Rightarrow>
          s\<lparr>srv_abuse := Some m', srv_blocked := (if banned then conn_peer c # srv_blocked s else srv_blocked s)\<rparr>)
        else s)
   | None \<Rightarrow> s)"

text \<open>The two writes of a PUT: the bytes, then the claim (with the stripe context and the announcement).\<close>

definition put_blob :: "'s store_ops \<Rightarrow> bytes \<Rightarrow> 's server \<Rightarrow> 's server \<times> unit res" where
  "put_blob ops data s = (case op_Put ops (srv_store s) data of (st, r) \<Rightarrow>
     (s\<lparr>srv_store := st\<rparr>, case r of Inl e \<Rightarrow> Inl e | Inr _ \<Rightarrow> Inr ()))"

definition announce :: "shard_id \<Rightarrow> 's server \<Rightarrow> 's server" where
  "announce sid s = s\<lparr>srv_announced := sid # srv_announced s\<rparr>"

definition put_claim :: "prims \<Rightarrow> server_config \<Rightarrow> int \<Rightarrow> put_request \<Rightarrow> (descriptor \<times> bytes) option \<Rightarrow> bytes \<Rightarrow> 's server
    \<Rightarrow> 's server \<times> unit res" where
  "put_claim P cfg now rq ctx owner s = (let sid = HashOf P (pr_data rq) in case srv_ledger s of
     None \<Rightarrow> (announce sid s, Inr ())
   | Some l \<Rightarrow> (case AddOwner (cfg_opts cfg) sid owner (int (length (pr_data rq))) now l of
        (l1, Inl e) \<Rightarrow> (s\<lparr>srv_ledger := Some l1\<rparr>, Inl e)
      | (l1, Inr False) \<Rightarrow> (s\<lparr>srv_ledger := Some l1\<rparr>, Inr ())
      | (l1, Inr True) \<Rightarrow>
          let l2 = (case ctx of None \<Rightarrow> l1
                    | Some (d, _) \<Rightarrow> fst (PutStripe sid (desc_K d) (desc_M d) (desc_Shards d) (pr_grant rq) l1)) in
          (announce sid (s\<lparr>srv_ledger := Some l2\<rparr>), Inr ())))"

definition store_put :: "prims \<Rightarrow> 's store_ops \<Rightarrow> server_config \<Rightarrow> int \<Rightarrow> put_request \<Rightarrow> (descriptor \<times> bytes) option \<Rightarrow> bytes \<Rightarrow> 's server
    \<Rightarrow> 's server \<times> response" where
  "store_put P ops cfg now rq ctx owner s = (case put_blob ops (pr_data rq) s of
     (s1, Inl e) \<Rightarrow> (s1, fail cfg e)
   | (s1, Inr _) \<Rightarrow> (case put_claim P cfg now rq ctx owner s1 of
        (s2, Inl e) \<Rightarrow> (s2, fail cfg e)
      | (s2, Inr _) \<Rightarrow> (s2, ok (HashOf P (pr_data rq)))))"

definition handlePut :: "prims \<Rightarrow> 's store_ops \<Rightarrow> server_config \<Rightarrow> conn \<Rightarrow> bytes \<Rightarrow> 's server \<Rightarrow> 's server \<times> response" where
  "handlePut P ops cfg c body s =
     (if (case cfg_putCap cfg of None \<Rightarrow> False | Some n \<Rightarrow> n \<le> srv_putBusy s) then (s, fail cfg ErrRateLimited)
      else case read_put body of
        Inl _ \<Rightarrow> (s, Reset)
      | Inr rq \<Rightarrow> let ctx = stripe_context P rq (conn_now c) in
          if ctx \<noteq> None \<and> grant_revoked rq s then (s, fail cfg ErrUnauthorized)
          else (case authorize_put P cfg c rq ctx s of
                  (s1, Inl e) \<Rightarrow> (s1, fail cfg e)
                | (s1, Inr owner) \<Rightarrow> store_put P ops cfg (conn_now c) rq ctx owner (police_move c rq ctx s1)))"

section \<open>GET and HAS\<close>

definition handleGet :: "'s store_ops \<Rightarrow> server_config \<Rightarrow> bytes \<Rightarrow> 's server \<Rightarrow> 's server \<times> response" where
  "handleGet ops cfg body s = (case readID body of
     Inl _ \<Rightarrow> (s, Reset)
   | Inr (sid, _) \<Rightarrow> (case op_Get ops (srv_store s) sid of
        Inl e \<Rightarrow> (s, fail cfg e)
      | Inr data \<Rightarrow> (s, ok (case writeBlob data of Inl _ \<Rightarrow> [] | Inr b \<Rightarrow> b))))"

definition handleHas :: "'s store_ops \<Rightarrow> server_config \<Rightarrow> bytes \<Rightarrow> 's server \<Rightarrow> 's server \<times> response" where
  "handleHas ops cfg body s = (case readID body of
     Inl _ \<Rightarrow> (s, Reset)
   | Inr (sid, _) \<Rightarrow> (case op_Has ops (srv_store s) sid of
        Inl e \<Rightarrow> (s, fail cfg e)
      | Inr present \<Rightarrow> (s, ok [if present then 1 else 0])))"

section \<open>DELETE\<close>

definition read_id_token :: "bytes \<Rightarrow> (shard_id \<times> bytes) res" where
  "read_id_token body = bindR (readID body) (\<lambda>(sid, s1). bindR (readBlob authTokenSize s1) (\<lambda>(token, _). Inr (sid, token)))"

text \<open>The three writes of a DELETE: the claim, then the bytes and the record when it was the last claim.\<close>

definition delete_claim :: "shard_id \<Rightarrow> bytes \<Rightarrow> ledger \<Rightarrow> 's server \<Rightarrow> 's server \<times> nat res" where
  "delete_claim sid owner l s = (case RemoveOwner sid owner l of (l', r) \<Rightarrow> (s\<lparr>srv_ledger := Some l'\<rparr>, r))"

definition delete_blob :: "'s store_ops \<Rightarrow> shard_id \<Rightarrow> 's server \<Rightarrow> 's server \<times> unit res" where
  "delete_blob ops sid s = (case op_Delete ops (srv_store s) sid of (st, r) \<Rightarrow>
     (s\<lparr>srv_store := st\<rparr>, case r of Inl ErrNotFound \<Rightarrow> Inr () | _ \<Rightarrow> r))"

definition delete_record :: "shard_id \<Rightarrow> 's server \<Rightarrow> 's server" where
  "delete_record sid s = s\<lparr>srv_ledger := map_option (DropRecord sid) (srv_ledger s)\<rparr>"

definition handleDelete :: "prims \<Rightarrow> 's store_ops \<Rightarrow> server_config \<Rightarrow> conn \<Rightarrow> bytes \<Rightarrow> 's server \<Rightarrow> 's server \<times> response" where
  "handleDelete P ops cfg c body s = (case read_id_token body of
     Inl _ \<Rightarrow> (s, Reset)
   | Inr (sid, token) \<Rightarrow> (case srv_ledger s of
       None \<Rightarrow> (case op_Delete ops (srv_store s) sid of
           (st, Inl e) \<Rightarrow> (s\<lparr>srv_store := st\<rparr>, fail cfg e)
         | (st, Inr _) \<Rightarrow> (s\<lparr>srv_store := st\<rparr>, ok []))
     | Some l \<Rightarrow> (case authenticate P cfg (conn_now c) opDelete sid token s of
           (s1, Inl e) \<Rightarrow> (s1, fail cfg e)
         | (s1, Inr owner) \<Rightarrow> (case meter (conn_now c) owner s1 of
               (s2, Inl e) \<Rightarrow> (s2, fail cfg e)
             | (s2, Inr _) \<Rightarrow> (case delete_claim sid owner l s2 of
                   (s3, Inl e) \<Rightarrow> (s3, fail cfg e)
                 | (s3, Inr remaining) \<Rightarrow>
                     if remaining \<noteq> 0 then (s3, ok [])
                     else (case delete_blob ops sid s3 of
                         (s4, Inl e) \<Rightarrow> (s4, fail cfg e)
                       | (s4, Inr _) \<Rightarrow> (delete_record sid s4, ok [])))))))"

section \<open>RENEW, REVOKE and the probe\<close>

definition handleRenew :: "prims \<Rightarrow> server_config \<Rightarrow> conn \<Rightarrow> bytes \<Rightarrow> 's server \<Rightarrow> 's server \<times> response" where
  "handleRenew P cfg c body s = (case read_id_token body of
     Inl _ \<Rightarrow> (s, Reset)
   | Inr (sid, token) \<Rightarrow> (case authenticate P cfg (conn_now c) opRenew sid token s of
       (s1, Inl e) \<Rightarrow> (s1, fail cfg e)
     | (s1, Inr owner) \<Rightarrow> (case srv_ledger s1 of
         None \<Rightarrow> (s1, ok [])
       | Some l \<Rightarrow> (case RenewLease (cfg_opts cfg) sid owner (conn_now c) l of
             (l', Inl e) \<Rightarrow> (s1\<lparr>srv_ledger := Some l'\<rparr>, fail cfg e)
           | (l', Inr _) \<Rightarrow> (s1\<lparr>srv_ledger := Some l'\<rparr>, ok [])))))"

definition read_revoke :: "bytes \<Rightarrow> (bytes \<times> bytes) res" where
  "read_revoke body = bindR (ReadFull 8 body) (\<lambda>(nonce, s1). bindR (readBlob authTokenSize s1) (\<lambda>(token, _). Inr (nonce, token)))"

definition handleRevokeGrant :: "prims \<Rightarrow> server_config \<Rightarrow> conn \<Rightarrow> bytes \<Rightarrow> 's server \<Rightarrow> 's server \<times> response" where
  "handleRevokeGrant P cfg c body s =
     (case read_revoke body of
        Inl _ \<Rightarrow> (s, Reset)
      | Inr (nonce, token) \<Rightarrow> (case authenticate P cfg (conn_now c) opRevokeGrant (replicate idSize 0) token s of
          (s1, Inl e) \<Rightarrow> (s1, fail cfg e)
        | (s1, Inr owner) \<Rightarrow>
            (s1\<lparr>srv_ledger := map_option (RevokeGrant nonce owner (conn_now c)) (srv_ledger s1)\<rparr>, ok [])))"

definition handleProbe :: "prims \<Rightarrow> 's store_ops \<Rightarrow> server_config \<Rightarrow> conn \<Rightarrow> bytes \<Rightarrow> 's server \<Rightarrow> 's server \<times> response" where
  "handleProbe P ops cfg c body s = (case subnet_Allow (conn_addr c) (conn_now c) (srv_subnetLimiter s) of (sl, allowed) \<Rightarrow>
     let s0 = s\<lparr>srv_subnetLimiter := sl\<rparr> in
     if \<not> allowed then (s0, Reset)
     else case bindR (readID body) (\<lambda>(sid, s1). bindR (readNonce s1) (\<lambda>(nonce, _). Inr (sid, nonce))) of
       Inl _ \<Rightarrow> (s0, Reset)
     | Inr (sid, nonce) \<Rightarrow> (case op_Get ops (srv_store s) sid of
         Inl e \<Rightarrow> (s0, fail cfg e)
       | Inr data \<Rightarrow> (s0, ok (sha256 P (nonce @ data)))))"

section \<open>Dispatch\<close>

definition handleShard :: "prims \<Rightarrow> 's store_ops \<Rightarrow> server_config \<Rightarrow> conn \<Rightarrow> bytes \<Rightarrow> 's server \<Rightarrow> 's server \<times> response" where
  "handleShard P ops cfg c req s = (case subnet_Allow (conn_addr c) (conn_now c) (srv_subnetLimiter s) of (sl, allowed) \<Rightarrow>
     let s0 = s\<lparr>srv_subnetLimiter := sl\<rparr> in
     if \<not> allowed then (s0, Reset)
     else case readByte req of
       Inl _ \<Rightarrow> (s0, Reset)
     | Inr (b, body) \<Rightarrow>
         if b = op_byte opPut then handlePut P ops cfg c body s0
         else if b = op_byte opGet then handleGet ops cfg body s0
         else if b = op_byte opHas then handleHas ops cfg body s0
         else if b = op_byte opDelete then handleDelete P ops cfg c body s0
         else if b = op_byte opRenew then handleRenew P cfg c body s0
         else if b = op_byte opRevokeGrant then handleRevokeGrant P cfg c body s0
         else (s0, fail cfg ErrCodec))"

text \<open>The node as the other end of a client's stream: a reset leaves the client nothing to read.\<close>

definition serve :: "prims \<Rightarrow> 's store_ops \<Rightarrow> server_config \<Rightarrow> conn \<Rightarrow> 's server \<Rightarrow> bytes \<Rightarrow> 's server \<times> bytes res" where
  "serve P ops cfg c s req = (case handleShard P ops cfg c req s of
     (s', Reset) \<Rightarrow> (s', Inl ErrRead) | (s', Reply b) \<Rightarrow> (s', Inr b))"

section \<open>Garbage collection\<close>

text \<open>
  One pass over the collectible shards of a snapshot. \<open>stop\<close> says at which shard the context is
  found cancelled. The result says how many were freed, or that the pass was cut short.
\<close>

fun gc_pass :: "'s store_ops \<Rightarrow> int \<Rightarrow> bool \<Rightarrow> (shard_id \<Rightarrow> bool) \<Rightarrow> shard_id list \<Rightarrow> shard_id list \<Rightarrow> nat \<Rightarrow> 's \<Rightarrow> ledger
    \<Rightarrow> 's \<times> ledger \<times> nat option" where
  "gc_pass ops now expire stop prev [] freed st l = (st, l, Some freed)"
| "gc_pass ops now expire stop prev (sid # sids) freed st l =
     (if stop sid then (st, l, None)
      else if sid \<notin> set prev then gc_pass ops now expire stop prev sids freed st l
      else case CollectRecord sid now expire l of
        (l1, False) \<Rightarrow> gc_pass ops now expire stop prev sids freed st l1
      | (l1, True) \<Rightarrow> (case op_Delete ops st sid of
          (st1, r) \<Rightarrow> gc_pass ops now expire stop prev sids
             (if r = Inr () \<or> r = Inl ErrNotFound then freed + 1 else freed) st1 l1))"

definition runGC :: "'s store_ops \<Rightarrow> ('s \<Rightarrow> shard_id list res) \<Rightarrow> int \<Rightarrow> bool \<Rightarrow> (shard_id \<Rightarrow> bool) \<Rightarrow> shard_id list \<Rightarrow> 's \<Rightarrow> ledger
    \<Rightarrow> 's \<times> ledger \<times> shard_id list" where
  "runGC ops lst now expire stop prev st l = (let ids = Collectible now expire l in
     case gc_pass ops now expire stop prev ids 0 st l of
       (st1, l1, None) \<Rightarrow> (st1, l1, ids)
     | (st1, l1, Some freed) \<Rightarrow> (st1, fst (Reconcile (lst st1) l1), ids))"

section \<open>What a request may do\<close>

text \<open>
  The abstract specification of the node: its store and its ledger, and the effects a request may
  have on them, each with the authority it takes. The rest of the server's state (caches, limiters,
  monitors) only decides whether an effect happens.
\<close>

definition put_permitted :: "prims \<Rightarrow> server_config \<Rightarrow> conn \<Rightarrow> put_request \<Rightarrow> ledger \<Rightarrow> bytes \<Rightarrow> bool" where
  "put_permitted P cfg c rq l ow \<longleftrightarrow>
     (if pr_token rq \<noteq> []
      then verifyToken P (pr_token rq) opPut (HashOf P (pr_data rq)) (cfg_self cfg) (conn_now c) = Inr ow
        \<and> enforcePoW P cfg ow = Inr ()
      else (\<exists>d. stripe_context P rq (conn_now c) = Some (d, ow))
        \<and> (\<forall>nonce. GrantNonce (pr_grant rq) = Inr nonce \<longrightarrow> \<not> IsGrantRevoked nonce l))"

definition with_stripe :: "prims \<Rightarrow> put_request \<Rightarrow> (descriptor \<times> bytes) option \<Rightarrow> bool \<Rightarrow> ledger \<Rightarrow> ledger" where
  "with_stripe P rq ctx added l = (case ctx of
     Some (d, _) \<Rightarrow> if added then fst (PutStripe (HashOf P (pr_data rq)) (desc_K d) (desc_M d) (desc_Shards d) (pr_grant rq) l) else l
   | None \<Rightarrow> l)"

definition accepted :: "response \<Rightarrow> bool" where
  "accepted resp = (case resp of Reply (b # _) \<Rightarrow> b = statusOK | _ \<Rightarrow> False)"

text \<open>
  \<open>effect P ops cfg c req resp x y\<close>: the request \<open>req\<close> may be answered with \<open>resp\<close> and take store and
  ledger from \<open>x\<close> to \<open>y\<close>. The operation byte selects the rule; a request that is answered
  with success has had its whole effect, one that is not has had none, apart from a PUT
  whose bytes were stored and whose claim the ledger refused and a DELETE whose blob could not be removed.
\<close>

inductive effect :: "prims \<Rightarrow> 's store_ops \<Rightarrow> server_config \<Rightarrow> conn \<Rightarrow> bytes \<Rightarrow> response
    \<Rightarrow> 's \<times> ledger option \<Rightarrow> 's \<times> ledger option \<Rightarrow> bool"
  for P ops cfg c req where
  refused: "\<not> accepted resp \<Longrightarrow> effect P ops cfg c req resp x x"
| get: "hd req = op_byte opGet \<Longrightarrow> readID (tl req) = Inr (sid, rest) \<Longrightarrow> op_Get ops st sid = Inr data \<Longrightarrow>
    effect P ops cfg c req (ok (case writeBlob data of Inl _ \<Rightarrow> [] | Inr b \<Rightarrow> b)) (st, l) (st, l)"
| has: "hd req = op_byte opHas \<Longrightarrow> readID (tl req) = Inr (sid, rest) \<Longrightarrow> op_Has ops st sid = Inr present \<Longrightarrow>
    effect P ops cfg c req (ok [if present then 1 else 0]) (st, l) (st, l)"
| open_put: "hd req = op_byte opPut \<Longrightarrow> read_put (tl req) = Inr rq \<Longrightarrow> op_Put ops st (pr_data rq) = (st', Inr x) \<Longrightarrow>
    effect P ops cfg c req (ok (HashOf P (pr_data rq))) (st, None) (st', None)"
| store: "hd req = op_byte opPut \<Longrightarrow> read_put (tl req) = Inr rq \<Longrightarrow> op_Put ops st (pr_data rq) = (st', r) \<Longrightarrow>
    (case l of None \<Rightarrow> \<exists>e. r = Inl e
     | Some l' \<Rightarrow> \<exists>ow e. put_permitted P cfg c rq l' ow \<and> (r = Inl e
         \<or> snd (AddOwner (cfg_opts cfg) (HashOf P (pr_data rq)) ow (int (length (pr_data rq))) (conn_now c) l') = Inl e)) \<Longrightarrow>
    \<not> accepted resp \<Longrightarrow> effect P ops cfg c req resp (st, l) (st', l)"
| claim: "hd req = op_byte opPut \<Longrightarrow> read_put (tl req) = Inr rq \<Longrightarrow> put_permitted P cfg c rq l ow \<Longrightarrow>
    op_Put ops st (pr_data rq) = (st', Inr x) \<Longrightarrow>
    AddOwner (cfg_opts cfg) (HashOf P (pr_data rq)) ow (int (length (pr_data rq))) (conn_now c) l = (l1, Inr b) \<Longrightarrow>
    effect P ops cfg c req (ok (HashOf P (pr_data rq))) (st, Some l) (st', Some (with_stripe P rq (stripe_context P rq (conn_now c)) b l1))"
| open_delete: "hd req = op_byte opDelete \<Longrightarrow> read_id_token (tl req) = Inr (sid, tok) \<Longrightarrow> op_Delete ops st sid = (st', r) \<Longrightarrow>
    (if r = Inr () then resp = ok [] else \<not> accepted resp) \<Longrightarrow> effect P ops cfg c req resp (st, None) (st', None)"
| unclaim: "hd req = op_byte opDelete \<Longrightarrow> read_id_token (tl req) = Inr (sid, tok) \<Longrightarrow>
    verifyToken P tok opDelete sid (cfg_self cfg) (conn_now c) = Inr ow \<Longrightarrow>
    RemoveOwner sid ow l = (l', Inr n) \<Longrightarrow> 0 < n \<Longrightarrow> effect P ops cfg c req (ok []) (st, Some l) (st, Some l')"
| remove: "hd req = op_byte opDelete \<Longrightarrow> read_id_token (tl req) = Inr (sid, tok) \<Longrightarrow>
    verifyToken P tok opDelete sid (cfg_self cfg) (conn_now c) = Inr ow \<Longrightarrow>
    RemoveOwner sid ow l = (l', Inr 0) \<Longrightarrow> op_Delete ops st sid = (st', r) \<Longrightarrow>
    (if r = Inr () \<or> r = Inl ErrNotFound then l2 = DropRecord sid l' \<and> resp = ok [] else l2 = l' \<and> \<not> accepted resp) \<Longrightarrow>
    effect P ops cfg c req resp (st, Some l) (st', Some l2)"
| renew: "hd req = op_byte opRenew \<Longrightarrow> read_id_token (tl req) = Inr (sid, tok) \<Longrightarrow>
    verifyToken P tok opRenew sid (cfg_self cfg) (conn_now c) = Inr ow \<Longrightarrow>
    (case l of None \<Rightarrow> l' = None
     | Some l1 \<Rightarrow> \<exists>l2. RenewLease (cfg_opts cfg) sid ow (conn_now c) l1 = (l2, Inr ()) \<and> l' = Some l2) \<Longrightarrow>
    effect P ops cfg c req (ok []) (st, l) (st, l')"
| revoke: "hd req = op_byte opRevokeGrant \<Longrightarrow> read_revoke (tl req) = Inr (nonce, tok) \<Longrightarrow>
    verifyToken P tok opRevokeGrant (replicate idSize 0) (cfg_self cfg) (conn_now c) = Inr ow \<Longrightarrow>
    effect P ops cfg c req (ok []) (st, l) (st, map_option (RevokeGrant nonce ow (conn_now c)) l)"

lemma accepted_simps [simp]: "accepted (ok b)" "\<not> accepted (fail cfg e)" "\<not> accepted Reset"
  by (simp_all add: accepted_def ok_def fail_def replyErr_def)

lemma authenticate_frame:
  assumes "authenticate P cfg now opr sid token s = (s', r)"
  shows "srv_store s' = srv_store s \<and> srv_ledger s' = srv_ledger s"
    and "r = Inr ow \<Longrightarrow> verifyToken P token opr sid (cfg_self cfg) now = Inr ow"
  using assms by (auto simp: authenticate_def split: sum.splits prod.splits if_splits)

lemma meter_frame:
  assumes "meter now owner s = (s', r)"
  shows "srv_store s' = srv_store s \<and> srv_ledger s' = srv_ledger s"
  using assms by (auto simp: meter_def split: prod.splits)

lemma police_move_frame [simp]:
  "srv_store (police_move c rq ctx s) = srv_store s" "srv_ledger (police_move c rq ctx s) = srv_ledger s"
  by (auto simp: police_move_def split: option.splits prod.splits)

lemma authorize_put_frame:
  assumes "authorize_put P cfg c rq (stripe_context P rq (conn_now c)) s = (s', r)"
  shows "srv_store s' = srv_store s \<and> srv_ledger s' = srv_ledger s"
  using assms by (auto simp: authorize_put_def dest!: authenticate_frame(1) meter_frame split: if_splits sum.splits prod.splits option.splits)

lemma authorize_put_permitted:
  assumes "authorize_put P cfg c rq (stripe_context P rq (conn_now c)) s = (s', Inr ow)" and "srv_ledger s = Some l"
    and "\<not> (stripe_context P rq (conn_now c) \<noteq> None \<and> grant_revoked rq s)"
  shows "put_permitted P cfg c rq l ow"
proof (cases "pr_token rq = []")
  case True
  then show ?thesis using assms
    by (auto simp: authorize_put_def put_permitted_def grant_revoked_def split: option.splits sum.splits)
next
  case False
  then obtain s1 where "authenticate P cfg (conn_now c) opPut (HashOf P (pr_data rq)) (pr_token rq) s = (s1, Inr ow)"
    and "enforcePoW P cfg ow = Inr ()"
    using assms by (auto simp: authorize_put_def split: if_splits sum.splits prod.splits)
  then show ?thesis using False authenticate_frame(2) by (force simp: put_permitted_def)
qed

lemma AddOwner_Inl: "AddOwner opts sid ow sz now l = (l', Inl e) \<Longrightarrow> l' = l"
  by (auto simp: AddOwner_def Let_def split: if_splits)

lemma put_claim_effect:
  assumes "put_claim P cfg now rq ctx owner s = (s', r)"
  shows "srv_store s' = srv_store s \<and> (case srv_ledger s of None \<Rightarrow> srv_ledger s' = None \<and> r = Inr ()
    | Some l \<Rightarrow> (case AddOwner (cfg_opts cfg) (HashOf P (pr_data rq)) owner (int (length (pr_data rq))) now l of
        (l1, Inl e) \<Rightarrow> srv_ledger s' = Some l \<and> r = Inl e
      | (l1, Inr b) \<Rightarrow> srv_ledger s' = Some (with_stripe P rq ctx b l1) \<and> r = Inr ()))"
proof (cases "srv_ledger s")
  case None
  then show ?thesis using assms by (auto simp: put_claim_def announce_def)
next
  case (Some l)
  obtain l1 a where add: "AddOwner (cfg_opts cfg) (HashOf P (pr_data rq)) owner (int (length (pr_data rq))) now l = (l1, a)" by fastforce
  show ?thesis
  proof (cases a)
    case (Inl e)
    then show ?thesis using assms Some add AddOwner_Inl by (fastforce simp: put_claim_def Let_def)
  next
    case (Inr b)
    have "srv_store s' = srv_store s \<and> srv_ledger s' = Some (with_stripe P rq ctx b l1) \<and> r = Inr ()"
      using assms Some add Inr by (auto simp: put_claim_def announce_def with_stripe_def Let_def split: bool.splits option.splits prod.splits)
    then show ?thesis using Some add Inr by simp
  qed
qed

lemma put_blob_frame:
  assumes "put_blob ops data s = (s', r)"
  shows "srv_ledger s' = srv_ledger s"
    and "\<exists>x. op_Put ops (srv_store s) data = (srv_store s', x) \<and> r = (case x of Inl e \<Rightarrow> Inl e | Inr _ \<Rightarrow> Inr ())"
  using assms by (auto simp: put_blob_def split: prod.splits)

lemma store_put_effect:
  assumes "store_put P ops cfg (conn_now c) rq (stripe_context P rq (conn_now c)) ow s = (s', resp)"
    and hd: "hd req = op_byte opPut" and rq: "read_put (tl req) = Inr rq"
    and perm: "\<And>l. srv_ledger s = Some l \<Longrightarrow> put_permitted P cfg c rq l ow"
  shows "effect P ops cfg c req resp (srv_store s, srv_ledger s) (srv_store s', srv_ledger s')"
proof -
  let ?ctx = "stripe_context P rq (conn_now c)"
  obtain s1 b where pb: "put_blob ops (pr_data rq) s = (s1, b)" by fastforce
  obtain x where x: "op_Put ops (srv_store s) (pr_data rq) = (srv_store s1, x)" "b = (case x of Inl e \<Rightarrow> Inl e | Inr _ \<Rightarrow> Inr ())"
    using put_blob_frame(2) [OF pb] by blast
  note L = put_blob_frame(1) [OF pb]
  show ?thesis
  proof (cases x)
    case (Inl e)
    then have "s' = s1" "resp = fail cfg e" using assms(1) pb x by (simp_all add: store_put_def)
    then show ?thesis using effect.store [where l = "srv_ledger s" and resp = resp and P = P and cfg = cfg and c = c, OF hd rq x(1)] Inl L perm
      by (cases "srv_ledger s") auto
  next
    case (Inr y)
    obtain s2 d where pc: "put_claim P cfg (conn_now c) rq ?ctx ow s1 = (s2, d)" by fastforce
    note C = put_claim_effect [OF pc, unfolded L]
    have R: "s' = s2" "resp = (case d of Inl e \<Rightarrow> fail cfg e | Inr _ \<Rightarrow> ok (HashOf P (pr_data rq)))"
      using assms(1) pb x Inr pc by (auto simp: store_put_def split: sum.splits)
    show ?thesis
    proof (cases "srv_ledger s")
      case None
      then show ?thesis using effect.open_put [where P = P and cfg = cfg and c = c, OF hd rq x(1) [unfolded Inr]] C R by simp
    next
      case (Some l)
      note perm' = perm [OF Some]
      obtain l1 a where add: "AddOwner (cfg_opts cfg) (HashOf P (pr_data rq)) ow (int (length (pr_data rq))) (conn_now c) l = (l1, a)" by fastforce
      show ?thesis
      proof (cases a)
        case (Inl e)
        then have "\<exists>ow e. put_permitted P cfg c rq l ow \<and> (x = Inl e
          \<or> snd (AddOwner (cfg_opts cfg) (HashOf P (pr_data rq)) ow (int (length (pr_data rq))) (conn_now c) l) = Inl e)"
          using perm' add by (intro exI [of _ ow] exI [of _ e]) simp
        then show ?thesis using effect.store [where l = "Some l" and resp = resp and P = P and cfg = cfg and c = c, OF hd rq x(1)] C R add Inl Some by simp
      next
        case (Inr b)
        then show ?thesis using effect.claim [OF hd rq perm' x(1) [unfolded \<open>x = Inr y\<close>] add [unfolded Inr]] C R add Some by simp
      qed
    qed
  qed
qed

lemma handlePut_effect:
  assumes "handlePut P ops cfg c (tl req) s = (s', resp)" and hd: "hd req = op_byte opPut"
  shows "effect P ops cfg c req resp (srv_store s, srv_ledger s) (srv_store s', srv_ledger s')"
proof (cases "\<not> accepted resp \<and> (srv_store s', srv_ledger s') = (srv_store s, srv_ledger s)")
  case True
  then show ?thesis using effect.refused by metis
next
  case False
  obtain rq where rq: "read_put (tl req) = Inr rq" and
    nr: "\<not> (stripe_context P rq (conn_now c) \<noteq> None \<and> grant_revoked rq s)"
    using assms(1) False by (auto simp: handlePut_def Let_def split: if_splits sum.splits)
  let ?ctx = "stripe_context P rq (conn_now c)"
  obtain s1 r where a: "authorize_put P cfg c rq ?ctx s = (s1, r)" by fastforce
  note F = authorize_put_frame [OF a]
  obtain ow where r: "r = Inr ow"
    using assms(1) False rq nr a F by (cases r) (auto simp: handlePut_def Let_def split: if_splits)
  have sp: "store_put P ops cfg (conn_now c) rq ?ctx ow (police_move c rq ?ctx s1) = (s', resp)"
    using assms(1) False rq nr a r by (auto simp: handlePut_def Let_def split: if_splits)
  show ?thesis using store_put_effect [OF sp hd rq] authorize_put_permitted [OF a [unfolded r] _ nr] F by simp
qed

lemma handleDelete_effect:
  assumes "handleDelete P ops cfg c (tl req) s = (s', resp)" and hd: "hd req = op_byte opDelete"
  shows "effect P ops cfg c req resp (srv_store s, srv_ledger s) (srv_store s', srv_ledger s')"
proof (cases "\<not> accepted resp \<and> (srv_store s', srv_ledger s') = (srv_store s, srv_ledger s)")
  case True
  then show ?thesis using effect.refused by metis
next
  case False
  let ?now = "conn_now c"
  obtain sid tok where rd: "read_id_token (tl req) = Inr (sid, tok)"
    using assms False by (auto simp: handleDelete_def split: sum.splits)
  obtain st d where d: "op_Delete ops (srv_store s) sid = (st, d)" by fastforce
  show ?thesis
  proof (cases "srv_ledger s")
    case None
    then have "srv_store s' = st" "srv_ledger s' = None" "if d = Inr () then resp = ok [] else \<not> accepted resp"
      using assms rd d by (auto simp: handleDelete_def split: sum.splits)
    then show ?thesis using effect.open_delete [OF hd rd d] None by simp
  next
    case (Some l)
    obtain s1 a where a: "authenticate P cfg ?now opDelete sid tok s = (s1, a)" by fastforce
    note A = authenticate_frame [OF a]
    obtain ow where ow: "a = Inr ow" using assms False rd Some a A by (cases a) (auto simp: handleDelete_def)
    obtain s2 m where m: "meter ?now ow s1 = (s2, m)" by fastforce
    note F = meter_frame [OF m]
    have mr: "m = Inr ()" using assms False rd Some a A m F ow by (cases m) (auto simp: handleDelete_def)
    obtain l' r where rm: "RemoveOwner sid ow l = (l', r)" by fastforce
    have dc: "delete_claim sid ow l s2 = (s2\<lparr>srv_ledger := Some l'\<rparr>, r)" by (simp add: delete_claim_def rm)
    have "l' = l" if "r = Inl e" for e
      using rm that by (auto simp: RemoveOwner_def Let_def split: option.splits)
    then obtain n where n: "r = Inr n" using assms False rd Some a A m mr F ow dc by (cases r) (auto simp: handleDelete_def)
    note H = assms(1) rd Some a A m mr F ow dc n
    show ?thesis
    proof (cases "n = 0")
      case False
      then have "srv_store s' = srv_store s" "srv_ledger s' = Some l'" "resp = ok []" using H by (auto simp: handleDelete_def)
      then show ?thesis using effect.unclaim [OF hd rd A(2) [OF ow] rm [unfolded n]] False Some by simp
    next
      case True
      have "srv_store s' = st \<and> srv_ledger s' = Some (if d = Inr () \<or> d = Inl ErrNotFound then DropRecord sid l' else l')
          \<and> (if d = Inr () \<or> d = Inl ErrNotFound then resp = ok [] else \<not> accepted resp)"
        using H True d by (auto simp: handleDelete_def delete_blob_def delete_record_def split: sum.splits error.splits)
      then show ?thesis
        using effect.remove [OF hd rd A(2) [OF ow] rm [unfolded n True] d,
            of "if d = Inr () \<or> d = Inl ErrNotFound then DropRecord sid l' else l'" resp] Some by (simp split: if_splits)
    qed
  qed
qed

lemma handleRenew_effect:
  assumes "handleRenew P cfg c (tl req) s = (s', resp)" and hd: "hd req = op_byte opRenew"
  shows "effect P ops cfg c req resp (srv_store s, srv_ledger s) (srv_store s', srv_ledger s')"
proof (cases "\<not> accepted resp \<and> (srv_store s', srv_ledger s') = (srv_store s, srv_ledger s)")
  case True
  then show ?thesis using effect.refused by metis
next
  case False
  obtain sid tok where rd: "read_id_token (tl req) = Inr (sid, tok)"
    using assms False by (auto simp: handleRenew_def split: sum.splits)
  obtain s1 a where a: "authenticate P cfg (conn_now c) opRenew sid tok s = (s1, a)" by fastforce
  note A = authenticate_frame [OF a]
  obtain ow where ow: "a = Inr ow" using assms False rd a A by (cases a) (auto simp: handleRenew_def)
  show ?thesis
  proof (cases "srv_ledger s")
    case None
    then show ?thesis using assms rd a A ow effect.renew [where l = None and l' = None, OF hd rd A(2) [OF ow]] by (auto simp: handleRenew_def)
  next
    case (Some l)
    obtain l' r where rl: "RenewLease (cfg_opts cfg) sid ow (conn_now c) l = (l', r)" by fastforce
    have "r = Inl e \<Longrightarrow> l' = l" for e using rl by (auto simp: RenewLease_def split: if_splits)
    then have "r = Inr ()" using assms False rd a A ow rl Some by (cases r) (auto simp: handleRenew_def)
    then show ?thesis using assms rd a A ow rl Some effect.renew [where l = "Some l" and l' = "Some l'", OF hd rd A(2) [OF ow]] by (auto simp: handleRenew_def)
  qed
qed

lemma handleRevokeGrant_effect:
  assumes "handleRevokeGrant P cfg c (tl req) s = (s', resp)" and hd: "hd req = op_byte opRevokeGrant"
  shows "effect P ops cfg c req resp (srv_store s, srv_ledger s) (srv_store s', srv_ledger s')"
proof (cases "\<not> accepted resp \<and> (srv_store s', srv_ledger s') = (srv_store s, srv_ledger s)")
  case True
  then show ?thesis using effect.refused by metis
next
  case False
  obtain nonce tok where rd: "read_revoke (tl req) = Inr (nonce, tok)"
    using assms False by (cases "read_revoke (tl req)") (auto simp: handleRevokeGrant_def)
  obtain s1 a where a: "authenticate P cfg (conn_now c) opRevokeGrant (replicate idSize 0) tok s = (s1, a)" by fastforce
  note A = authenticate_frame [OF a]
  obtain ow where ow: "a = Inr ow" using assms False rd a A by (cases a) (auto simp: handleRevokeGrant_def)
  have "srv_store s' = srv_store s" "srv_ledger s' = map_option (RevokeGrant nonce ow (conn_now c)) (srv_ledger s)" "resp = ok []"
    using assms a A ow rd by (auto simp: handleRevokeGrant_def)
  then show ?thesis using effect.revoke [OF hd rd A(2) [OF ow]] by simp
qed

lemma handleGet_effect:
  assumes "handleGet ops cfg (tl req) s = (s', resp)" and hd: "hd req = op_byte opGet"
  shows "effect P ops cfg c req resp (srv_store s, srv_ledger s) (srv_store s', srv_ledger s')"
proof (cases "readID (tl req)")
  case (Inl e)
  then show ?thesis using assms(1) effect.refused [of Reset] by (simp add: handleGet_def)
next
  case (Inr r)
  obtain sid rest where r: "readID (tl req) = Inr (sid, rest)" using Inr by (cases r) simp
  show ?thesis
  proof (cases "op_Get ops (srv_store s) sid")
    case (Inl e)
    then show ?thesis using assms(1) r effect.refused [OF accepted_simps(2)] by (auto simp: handleGet_def)
  next
    case (Inr data)
    then show ?thesis using assms(1) r effect.get [OF hd r Inr] by (simp add: handleGet_def)
  qed
qed

lemma handleHas_effect:
  assumes "handleHas ops cfg (tl req) s = (s', resp)" and hd: "hd req = op_byte opHas"
  shows "effect P ops cfg c req resp (srv_store s, srv_ledger s) (srv_store s', srv_ledger s')"
proof (cases "readID (tl req)")
  case (Inl e)
  then show ?thesis using assms(1) effect.refused [of Reset] by (simp add: handleHas_def)
next
  case (Inr r)
  obtain sid rest where r: "readID (tl req) = Inr (sid, rest)" using Inr by (cases r) simp
  show ?thesis
  proof (cases "op_Has ops (srv_store s) sid")
    case (Inl e)
    then show ?thesis using assms(1) r effect.refused [OF accepted_simps(2)] by (auto simp: handleHas_def)
  next
    case (Inr present)
    then show ?thesis using assms(1) r effect.has [OF hd r Inr] by (simp add: handleHas_def)
  qed
qed

lemma handleShard_effect:
  assumes "handleShard P ops cfg c req s = (s', resp)"
  shows "effect P ops cfg c req resp (srv_store s, srv_ledger s) (srv_store s', srv_ledger s')"
proof -
  obtain sl b where sl: "subnet_Allow (conn_addr c) (conn_now c) (srv_subnetLimiter s) = (sl, b)" by fastforce
  let ?s = "s\<lparr>srv_subnetLimiter := sl\<rparr>"
  consider "s' = ?s" "\<not> accepted resp" | "handlePut P ops cfg c (tl req) ?s = (s', resp)" "hd req = op_byte opPut"
    | "handleGet ops cfg (tl req) ?s = (s', resp)" "hd req = op_byte opGet"
    | "handleHas ops cfg (tl req) ?s = (s', resp)" "hd req = op_byte opHas"
    | "handleDelete P ops cfg c (tl req) ?s = (s', resp)" "hd req = op_byte opDelete"
    | "handleRenew P cfg c (tl req) ?s = (s', resp)" "hd req = op_byte opRenew"
    | "handleRevokeGrant P cfg c (tl req) ?s = (s', resp)" "hd req = op_byte opRevokeGrant"
    using assms sl by (cases req) (auto simp: handleShard_def readByte_def Let_def split: if_splits)
  then have "effect P ops cfg c req resp (srv_store ?s, srv_ledger ?s) (srv_store s', srv_ledger s')"
    by cases (blast intro: effect.refused handlePut_effect handleGet_effect handleHas_effect handleDelete_effect
        handleRenew_effect handleRevokeGrant_effect)+
  then show ?thesis by simp
qed

end
