(* ===== verification/Node_Safety.thy ===== *)
theory Node_Safety
  imports Server
begin

text \<open>
  What the node guarantees over any sequence of requests and collections, and what it loses when
  the calls of a DELETE and a PUT interleave. The invariant ties the ledger to the store: every
  claim is backed by a readable blob, and the recorded size of a shard is the length of the bytes
  its address stands for. The latter needs that no two blobs in play collide: \<open>D\<close> is a set of
  blobs on which the hash is injective, and requests carry blobs of \<open>D\<close>.
\<close>

section \<open>Ledger operations, seen from the claims\<close>

definition backed :: "(shard_id \<Rightarrow> bytes option) \<Rightarrow> ledger \<Rightarrow> bool" where
  "backed A l \<longleftrightarrow> (\<forall>ow sid. holds l ow sid \<longrightarrow> A sid \<noteq> None)"

definition sizes_of :: "prims \<Rightarrow> bytes set \<Rightarrow> ledger \<Rightarrow> bool" where
  "sizes_of P D l \<longleftrightarrow> (\<forall>d \<in> D. size_consistent l (HashOf P d) (int (length d)))"

lemma backed_mono: "backed A l \<Longrightarrow> (\<And>x y. holds l' x y \<Longrightarrow> holds l x y) \<Longrightarrow> backed A l'"
  unfolding backed_def by blast

lemma sizes_of_mono:
  assumes "sizes_of P D l" and "\<And>y. map_of (tbl_shards l') y = None \<or> map_of (tbl_shards l') y = map_of (tbl_shards l) y"
  shows "sizes_of P D l'"
  unfolding sizes_of_def size_consistent_def
proof
  fix d assume "d \<in> D"
  then show "case map_of (tbl_shards l') (HashOf P d) of None \<Rightarrow> True | Some r \<Rightarrow> row_size r = int (length d)"
    using assms(1) assms(2) [of "HashOf P d"] by (auto simp: sizes_of_def size_consistent_def split: option.splits)
qed

lemma AddOwner_tables:
  assumes "AddOwner opts sid ow sz now l = (l', Inr b)"
  shows "holds l' x y \<longleftrightarrow> x = ow \<and> y = sid \<or> holds l x y"
    and "map_of (tbl_shards l') y = map_of (tbl_shards l) y
      \<or> y = sid \<and> map_of (tbl_shards l) y = None \<and> map_of (tbl_shards l') y = Some \<lparr>row_size = sz, row_created = Unix now\<rparr>"
    and "\<not> holds l ow sid \<Longrightarrow> map_of (tbl_shards l') sid \<noteq> None"
  using assms by (auto simp: AddOwner_def holds_def Let_def split: if_splits)

lemma PutStripe_tables:
  "tbl_owners (fst (PutStripe sid k m sibs g l)) = tbl_owners l" "tbl_shards (fst (PutStripe sid k m sibs g l)) = tbl_shards l"
  by (simp_all add: PutStripe_def)

lemma with_stripe_tables:
  "tbl_owners (with_stripe P rq ctx b l) = tbl_owners l" "tbl_shards (with_stripe P rq ctx b l) = tbl_shards l"
  by (auto simp: with_stripe_def PutStripe_tables split: option.splits)

lemma RemoveOwner_tables:
  assumes "RemoveOwner sid ow l = (l', Inr n)"
  shows "tbl_shards l' = tbl_shards l" and "holds l' x y \<longleftrightarrow> holds l x y \<and> \<not> (x = ow \<and> y = sid)"
    and "n = 0 \<Longrightarrow> \<not> holds l' z sid"
proof -
  obtain s :: shard_row where l': "l' = l\<lparr>tbl_owners := AList.delete (sid, ow) (tbl_owners l), tbl_accounts := chargeDown (row_size s) ow (tbl_accounts l)\<rparr>"
    and n: "n = length (filter (\<lambda>k. fst k = sid) (map fst (tbl_owners l')))"
  proof (cases rule: RemoveOwner_cases [of sid ow l])
    case no
    then show thesis using assms by simp
  next
    case (yes a s)
    have "(l', Inr n) = RemoveOwner sid ow l" using assms by simp
    then show thesis using that [of s] yes(3) by simp
  qed
  then show "tbl_shards l' = tbl_shards l" "holds l' x y \<longleftrightarrow> holds l x y \<and> \<not> (x = ow \<and> y = sid)"
    by (auto simp: holds_def)
  show "\<not> holds l' z sid" if "n = 0"
    using n that unfolding holds_def map_of_None_keys by (force simp: filter_empty_conv)
qed

lemma dropRecordTx_tables:
  "holds (fst (dropRecordTx sid l)) x y \<longleftrightarrow> holds l x y \<and> \<not> (y = sid \<and> map_of (tbl_shards l) sid \<noteq> None)"
  "map_of (tbl_shards (fst (dropRecordTx sid l))) y = (if y = sid then None else map_of (tbl_shards l) y)"
proof -
  have "map_of (filter (\<lambda>(k, _). fst k \<noteq> sid) al) (y, x) = (if y = sid then None else map_of al (y, x))"
    for al :: "((shard_id \<times> bytes) \<times> owner_row) list" by (induction al) auto
  then show "holds (fst (dropRecordTx sid l)) x y \<longleftrightarrow> holds l x y \<and> \<not> (y = sid \<and> map_of (tbl_shards l) sid \<noteq> None)"
    by (auto simp: dropRecordTx_def holds_def split: option.splits)
  show "map_of (tbl_shards (fst (dropRecordTx sid l))) y = (if y = sid then None else map_of (tbl_shards l) y)"
    using DropRecord_tables(1) [of sid l y] by (simp add: DropRecord_def)
qed

lemma RenewLease_tables:
  "holds (fst (RenewLease opts sid ow now l)) x y \<longleftrightarrow> holds l x y" "tbl_shards (fst (RenewLease opts sid ow now l)) = tbl_shards l"
  by (auto simp: RenewLease_def holds_def)

lemma RevokeGrant_tables:
  "tbl_owners (RevokeGrant nonce ow now l) = tbl_owners l" "tbl_shards (RevokeGrant nonce ow now l) = tbl_shards l"
  by (auto simp: RevokeGrant_def)

lemma holds_owners: "tbl_owners l' = tbl_owners l \<Longrightarrow> holds l' = holds l"
  by (simp add: holds_def fun_eq_iff)

lemma Reconcile_keeps: "y \<in> set ids \<Longrightarrow> holds (fst (Reconcile (Inr ids) l)) x y = holds l x y"
proof -
  assume y: "y \<in> set ids"
  obtain l1 n where d: "drop_missing (set ids) (map fst (tbl_shards l)) l 0 = (l1, n)" by fastforce
  show ?thesis using drop_missing_owners [OF d y] d by (simp add: Reconcile_def Let_def recomputeAccounts_def holds_def)
qed

lemma Reconcile_tables:
  "holds (fst (Reconcile disk l)) x y \<Longrightarrow> holds l x y"
  "map_of (tbl_shards (fst (Reconcile disk l))) y = None \<or> map_of (tbl_shards (fst (Reconcile disk l))) y = map_of (tbl_shards l) y"
proof -
  have drop: "holds (fst (drop_missing D sids l n)) x y \<Longrightarrow> holds l x y" for D sids l n
  proof (induction sids arbitrary: l n)
    case (Cons sid sids)
    then show ?case using Cons.IH [of "DropRecord sid l" "n + 1"] dropRecordTx_tables(1) [of sid l x y]
      by (auto simp: DropRecord_def split: if_splits)
  qed simp
  show "holds (fst (Reconcile disk l)) x y \<Longrightarrow> holds l x y"
  proof (cases disk)
    case (Inr ids)
    obtain l1 n where d: "drop_missing (set ids) (map fst (tbl_shards l)) l 0 = (l1, n)" by fastforce
    assume "holds (fst (Reconcile disk l)) x y"
    then have "holds l1 x y" using Inr d by (simp add: Reconcile_def Let_def recomputeAccounts_def holds_def)
    then show ?thesis using drop [of "set ids" "map fst (tbl_shards l)" l 0] d by simp
  qed (simp add: Reconcile_def)
  show "map_of (tbl_shards (fst (Reconcile disk l))) y = None \<or> map_of (tbl_shards (fst (Reconcile disk l))) y = map_of (tbl_shards l) y"
  proof (cases disk)
    case (Inr ids)
    obtain l1 n where d: "drop_missing (set ids) (map fst (tbl_shards l)) l 0 = (l1, n)" by fastforce
    show ?thesis using drop_missing_shards [OF d, of y] Inr d by (auto simp: Reconcile_def Let_def recomputeAccounts_def)
  qed (simp add: Reconcile_def)
qed

section \<open>The node's invariant\<close>

definition node_inv :: "prims \<Rightarrow> bytes set \<Rightarrow> ('s \<Rightarrow> shard_id \<Rightarrow> bytes option) \<Rightarrow> ('s \<Rightarrow> bool) \<Rightarrow> 's \<times> ledger option \<Rightarrow> bool" where
  "node_inv P D A invar x \<longleftrightarrow> invar (fst x) \<and> (case snd x of None \<Rightarrow> True
     | Some l \<Rightarrow> ledger_inv l \<and> backed (A (fst x)) l \<and> sizes_of P D l)"

definition carries :: "bytes set \<Rightarrow> bytes \<Rightarrow> bool" where
  "carries D req \<longleftrightarrow> (hd req = op_byte opPut \<longrightarrow> (\<forall>rq. read_put (tl req) = Inr rq \<longrightarrow> pr_data rq \<in> D))"

lemma sizes_of_AddOwner:
  assumes "sizes_of P D l" and "inj_on (sha256 P) D" and "d \<in> D"
    and "AddOwner opts (HashOf P d) ow (int (length d)) now l = (l', Inr b)"
  shows "sizes_of P D l'"
  unfolding sizes_of_def size_consistent_def
proof
  fix e assume e: "e \<in> D"
  have "HashOf P e = HashOf P d \<Longrightarrow> e = d" using assms(2,3) e by (auto simp: HashOf_def dest: inj_onD)
  then show "case map_of (tbl_shards l') (HashOf P e) of None \<Rightarrow> True | Some r \<Rightarrow> row_size r = int (length e)"
    using AddOwner_tables(2) [OF assms(4), of "HashOf P e"] assms(1) e
    by (auto simp: sizes_of_def size_consistent_def split: option.splits)
qed

context content_store
begin

lemma put_abs_mono: "invar s \<Longrightarrow> op_Put ops s d = (s', r) \<Longrightarrow> abs s x \<noteq> None \<Longrightarrow> abs s' x \<noteq> None"
  and put_abs_new: "invar s \<Longrightarrow> op_Put ops s d = (s', r) \<Longrightarrow> abs s' (HashOf P d) \<noteq> None"
  using put_law by (auto split: if_splits)

lemma node_inv_put:
  assumes "node_inv P D abs invar (st, l)" and "op_Put ops st d = (st', r)"
  shows "node_inv P D abs invar (st', l)"
proof -
  have I: "invar st" using assms(1) by (simp add: node_inv_def)
  then have "backed (abs st') l'" if "backed (abs st) l'" for l' using put_abs_mono [OF I assms(2)] that unfolding backed_def by blast
  then show ?thesis using assms(1) put_law [OF I assms(2)] by (auto simp: node_inv_def split: option.splits)
qed

lemma node_inv_ledger:
  assumes "node_inv P D abs invar (st, Some l)" and "ledger_inv l'" and "\<And>x y. holds l' x y \<Longrightarrow> holds l x y"
    and "\<And>y. map_of (tbl_shards l') y = None \<or> map_of (tbl_shards l') y = map_of (tbl_shards l) y"
  shows "node_inv P D abs invar (st, Some l')"
  using assms backed_mono [of "abs st" l l'] sizes_of_mono [of P D l l'] by (simp add: node_inv_def)

lemma effect_inv:
  assumes "effect P ops cfg c req resp x y" and "node_inv P D abs invar x" and "inj_on (sha256 P) D" and "carries D req"
  shows "node_inv P D abs invar y"
  using assms
proof (induction rule: effect.induct)
  case (open_put rq st st' x)
  then show ?case using node_inv_put by blast
next
  case (store rq st st' r l resp)
  then show ?case using node_inv_put by blast
next
  case (claim rq l ow st st' x l1 b)
  note N = claim.prems(1) [unfolded node_inv_def, simplified]
  have d: "pr_data rq \<in> D" using claim.hyps(1,2) claim.prems(3) by (simp add: carries_def)
  let ?l = "with_stripe P rq (stripe_context P rq (conn_now c)) b l1"
  have "size_consistent l (HashOf P (pr_data rq)) (int (length (pr_data rq)))" using N d by (simp add: sizes_of_def)
  then have i1: "ledger_inv l1" using ledger_inv_AddOwner [of l] N claim.hyps(5) by (metis fst_conv)
  have i2: "ledger_inv ?l" using ledger_inv_PutStripe i1 by (auto simp: with_stripe_def split: option.splits)
  have "backed (abs st') l1"
    using N put_abs_mono [OF _ claim.hyps(4)] put_abs_new [OF _ claim.hyps(4)] AddOwner_tables(1) [OF claim.hyps(5)]
    by (auto simp: backed_def)
  then have b2: "backed (abs st') ?l" using holds_owners [OF with_stripe_tables(1)] by (simp add: backed_def)
  have "sizes_of P D l1" using sizes_of_AddOwner [OF _ claim.prems(2) d claim.hyps(5)] N by simp
  then have "sizes_of P D ?l" using with_stripe_tables(2) by (auto intro: sizes_of_mono)
  then show ?case using i2 b2 put_law [OF _ claim.hyps(4)] N by (simp add: node_inv_def)
next
  case (open_delete sid tok st st' r resp)
  then show ?case using delete_law [of st sid] by (auto simp: node_inv_def)
next
  case (unclaim sid tok ow l l' n st)
  have "ledger_inv l'" using ledger_inv_RemoveOwner [of l sid ow] unclaim.hyps(4) unclaim.prems(1) by (simp add: node_inv_def)
  from node_inv_ledger [OF unclaim.prems(1) this] RemoveOwner_tables(1,2) [OF unclaim.hyps(4)] show ?case by simp
next
  case (remove sid tok ow l l' st st' r l2 resp)
  note N = remove.prems(1) [unfolded node_inv_def, simplified]
  note R = RemoveOwner_tables [OF remove.hyps(4)]
  have l2: "l2 = l' \<or> l2 = DropRecord sid l'" using remove.hyps(6) by (simp split: if_splits)
  have il: "ledger_inv l'" using ledger_inv_RemoveOwner [of l sid ow] remove.hyps(4) N by simp
  have i2: "ledger_inv l2" using l2 il ledger_inv_DropRecord by blast
  have h: "holds l2 a b \<Longrightarrow> holds l a b \<and> b \<noteq> sid" for a b
    using l2 R(2,3) dropRecordTx_tables(1) [of sid l'] by (auto simp: DropRecord_def)
  have D: "invar st'" "abs st' = (abs st)(sid := None)" using delete_law [OF _ remove.hyps(5)] N by simp_all
  have "backed (abs st') l2" unfolding backed_def D using h N unfolding backed_def by (metis fun_upd_other)
  moreover have "sizes_of P D l2"
    using N l2 R(1) DropRecord_tables(1) [of sid l'] by (auto intro!: sizes_of_mono [of P D l])
  ultimately show ?case using i2 D by (simp add: node_inv_def)
next
  case (renew sid tok ow l l' st)
  show ?case
  proof (cases l)
    case (Some l1)
    then obtain l2 where l2: "l' = Some l2" "l2 = fst (RenewLease (cfg_opts cfg) sid ow (conn_now c) l1)" using renew.hyps(4) by auto
    have "ledger_inv l2" using renew.prems(1) Some l2(2) ledger_inv_RenewLease by (simp add: node_inv_def)
    then show ?thesis using node_inv_ledger [of D st l1 l2] renew.prems(1) Some l2 RenewLease_tables by simp
  qed (use renew in simp)
next
  case (revoke nonce tok ow st l)
  show ?case
  proof (cases l)
    case (Some l1)
    have "ledger_inv (RevokeGrant nonce ow (conn_now c) l1)" using revoke.prems(1) Some ledger_inv_RevokeGrant by (simp add: node_inv_def)
    then show ?thesis
      using node_inv_ledger [of D st l1 "RevokeGrant nonce ow (conn_now c) l1"] revoke.prems(1) Some RevokeGrant_tables(2)
        holds_owners [OF RevokeGrant_tables(1)] by simp
  qed (use revoke in simp)
qed simp_all

lemma CollectRecord_inv:
  assumes "node_inv P D abs invar (st, Some l)" and "CollectRecord sid now ex l = (l', dropped)"
  shows "node_inv P D abs invar (st, Some l') \<and> (dropped \<longrightarrow> (\<forall>x. \<not> holds l' x sid))"
proof -
  note N = assms(1) [unfolded node_inv_def, simplified]
  have inv: "ledger_inv l'" using ledger_inv_CollectRecord [of l sid now ex] N assms(2) by simp
  have h: "holds l' x y \<Longrightarrow> holds l x y \<and> \<not> (dropped \<and> y = sid)" for x y
    using assms(2) dropRecordTx_tables(1) [of sid l x y] by (auto simp: CollectRecord_def dropRecordTx_def split: if_splits option.splits)
  have "map_of (tbl_shards l') y = None \<or> map_of (tbl_shards l') y = map_of (tbl_shards l) y" for y
    using assms(2) dropRecordTx_tables(2) [of sid l y] by (auto simp: CollectRecord_def split: if_splits)
  then have "sizes_of P D l'" using N sizes_of_mono by blast
  moreover have "backed (abs st) l'" using N h backed_mono by blast
  ultimately show ?thesis using N inv h by (auto simp: node_inv_def)
qed

lemma gc_pass_inv:
  assumes "node_inv P D abs invar (st, Some l)" and "gc_pass ops now ex stop prev sids freed st l = (st', l', r)"
  shows "node_inv P D abs invar (st', Some l')"
  using assms
proof (induction sids arbitrary: freed st l)
  case (Cons sid sids)
  obtain l1 dropped where c: "CollectRecord sid now ex l = (l1, dropped)" by fastforce
  note C = CollectRecord_inv [OF Cons.prems(1) c]
  obtain st1 u where d: "op_Delete ops st sid = (st1, u)" by fastforce
  have "node_inv P D abs invar (st1, Some l1)" if dropped
  proof -
    have "invar st1" "abs st1 = (abs st)(sid := None)" using delete_law [OF _ d] Cons.prems(1) by (simp_all add: node_inv_def)
    moreover have "backed ((abs st)(sid := None)) l1" using C that by (auto simp: node_inv_def backed_def)
    ultimately show ?thesis using C by (simp add: node_inv_def)
  qed
  then show ?case using Cons.IH [of st l freed] Cons.IH [of st l1 freed] Cons.IH [of st1 l1] Cons.prems C c d
    by (auto split: if_splits bool.splits)
qed simp

lemma gc_pass_keeps:
  assumes "gc_pass ops now ex stop prev sids freed st l = (st', l', r)" and "map_of (tbl_owners l) (sid, ow) = Some row"
    and "sid \<in> set prev \<longrightarrow> live_owner now ex row"
  shows "map_of (tbl_owners l') (sid, ow) = Some row"
  using assms
proof (induction sids arbitrary: freed st l)
  case (Cons x sids)
  obtain l1 dropped where c: "CollectRecord x now ex l = (l1, dropped)" by fastforce
  obtain st1 u where d: "op_Delete ops st x = (st1, u)" by fastforce
  have row: "((sid, ow), row) \<in> set (tbl_owners l)" using Cons.prems(2) by (rule map_of_SomeD)
  have "map_of (filter (\<lambda>(k, _). fst k \<noteq> x) al) (sid, ow) = map_of al (sid, ow)" if "x \<noteq> sid"
    for al :: "((shard_id \<times> bytes) \<times> owner_row) list" using that by (induction al) auto
  moreover have "has_live now ex l sid" if "live_owner now ex row"
    using row that by (force simp: has_live_def list_ex_iff)
  ultimately have "map_of (tbl_owners l1) (sid, ow) = Some row" if "x \<in> set prev"
    using c Cons.prems(2,3) that by (cases "x = sid") (auto simp: CollectRecord_def dropRecordTx_def split: if_splits option.splits)
  then show ?case using Cons.IH [of freed st l] Cons.IH [of freed st l1] Cons.IH [of _ st1 l1] Cons.prems c d
    by (auto split: if_splits bool.splits)
qed simp

lemma runGC_inv:
  assumes "node_inv P D abs invar (st, Some l)" and "runGC ops lst now ex stop prev st l = (st', l', prev')"
  shows "node_inv P D abs invar (st', Some l')"
proof -
  obtain st1 l1 r where g: "gc_pass ops now ex stop prev (Collectible now ex l) 0 st l = (st1, l1, r)" by (metis prod_cases3)
  note G = gc_pass_inv [OF assms(1) g]
  note N = G [unfolded node_inv_def, simplified]
  have "backed (abs st1) (fst (Reconcile (lst st1) l1))" using N Reconcile_tables(1) backed_mono by blast
  moreover have "sizes_of P D (fst (Reconcile (lst st1) l1))" using N Reconcile_tables(2) sizes_of_mono by blast
  ultimately have "node_inv P D abs invar (st1, Some (fst (Reconcile (lst st1) l1)))"
    using N ledger_inv_Reconcile by (simp add: node_inv_def)
  then show ?thesis using assms(2) g G by (auto simp: runGC_def Let_def split: option.splits)
qed

lemma runGC_claims:
  assumes "runGC ops lst now ex stop prev st l = (st', l', prev')"
  shows "holds l' x y \<Longrightarrow> holds l x y"
proof -
  have pass: "gc_pass ops now ex stop prev sids freed st l = (st1, l1, r) \<Longrightarrow> holds l1 x y \<Longrightarrow> holds l x y" for sids freed st l st1 l1 r
  proof (induction sids arbitrary: freed st l)
    case (Cons sid sids)
    obtain l2 dropped where c: "CollectRecord sid now ex l = (l2, dropped)" by fastforce
    obtain st2 u where d: "op_Delete ops st sid = (st2, u)" by fastforce
    have "holds l2 x y \<Longrightarrow> holds l x y"
      using c dropRecordTx_tables(1) [of sid l x y] by (auto simp: CollectRecord_def split: if_splits)
    then show ?case using Cons.IH [of freed st l] Cons.IH [of freed st l2] Cons.IH [of _ st2 l2] Cons.prems c d
      by (auto split: if_splits bool.splits)
  qed simp
  obtain st1 l1 r where g: "gc_pass ops now ex stop prev (Collectible now ex l) 0 st l = (st1, l1, r)" by (metis prod_cases3)
  assume "holds l' x y"
  then have "holds l1 x y" using assms g Reconcile_tables(1) by (auto simp: runGC_def Let_def split: option.splits)
  then show "holds l x y" by (rule pass [OF g])
qed

lemma runGC_keeps:
  assumes "node_inv P D abs invar (st, Some l)" and "runGC ops lst now ex stop prev st l = (st', l', prev')"
    and "\<And>st ids. invar st \<Longrightarrow> lst st = Inr ids \<Longrightarrow> dom (abs st) \<subseteq> set ids"
    and "map_of (tbl_owners l) (sid, ow) = Some row" and "sid \<in> set prev \<longrightarrow> live_owner now ex row"
  shows "holds l' ow sid"
proof -
  obtain st1 l1 r where g: "gc_pass ops now ex stop prev (Collectible now ex l) 0 st l = (st1, l1, r)" by (metis prod_cases3)
  have h: "holds l1 ow sid" using gc_pass_keeps [OF g assms(4,5)] by (simp add: holds_def)
  have N: "invar st1" "abs st1 sid \<noteq> None" using gc_pass_inv [OF assms(1) g] h by (auto simp: node_inv_def backed_def)
  have "holds (fst (Reconcile (lst st1) l1)) ow sid"
  proof (cases "lst st1")
    case (Inr ids)
    then have "sid \<in> set ids" using assms(3) N by blast
    then show ?thesis using Reconcile_keeps h Inr by simp
  qed (simp add: Reconcile_def h)
  then show ?thesis using assms(2) g h by (auto simp: runGC_def Let_def split: option.splits)
qed

end

section \<open>Runs of a node\<close>

text \<open>
  A step is a request on either protocol, with any bytes, from any peer at any time, or a
  collection cycle, each taken as a whole; \<open>prev\<close> is the collector's grace set. A run is a sequence of events.
\<close>

datatype node_event =
    Shard conn bytes
  | Probe conn bytes
  | Collect int bool "shard_id \<Rightarrow> bool"

inductive node_step :: "prims \<Rightarrow> 's store_ops \<Rightarrow> ('s \<Rightarrow> shard_id list res) \<Rightarrow> server_config \<Rightarrow> bytes set
    \<Rightarrow> node_event \<Rightarrow> 's server \<times> shard_id list \<Rightarrow> 's server \<times> shard_id list \<Rightarrow> bool" for P ops lst cfg D where
  request: "carries D req \<Longrightarrow> handleShard P ops cfg c req s = (s', resp) \<Longrightarrow> node_step P ops lst cfg D (Shard c req) (s, prev) (s', prev)"
| probe: "handleProbe P ops cfg c req s = (s', resp) \<Longrightarrow> node_step P ops lst cfg D (Probe c req) (s, prev) (s', prev)"
| collect: "srv_ledger s = Some l \<Longrightarrow> runGC ops lst now ex stop prev (srv_store s) l = (st', l', prev') \<Longrightarrow>
    node_step P ops lst cfg D (Collect now ex stop) (s, prev) (s\<lparr>srv_store := st', srv_ledger := Some l'\<rparr>, prev')"

inductive node_run :: "prims \<Rightarrow> 's store_ops \<Rightarrow> ('s \<Rightarrow> shard_id list res) \<Rightarrow> server_config \<Rightarrow> bytes set
    \<Rightarrow> node_event list \<Rightarrow> 's server \<times> shard_id list \<Rightarrow> 's server \<times> shard_id list \<Rightarrow> bool" for P ops lst cfg D where
  refl: "node_run P ops lst cfg D [] x x"
| step: "node_run P ops lst cfg D es x y \<Longrightarrow> node_step P ops lst cfg D e y z \<Longrightarrow> node_run P ops lst cfg D (es @ [e]) x z"

inductive_cases node_run_nilE: "node_run P ops lst cfg D [] x y"

definition node_view :: "'s server \<Rightarrow> 's \<times> ledger option" where
  "node_view s = (srv_store s, srv_ledger s)"

text \<open>
  The ways a claim of \<open>ow\<close> on \<open>sid\<close> may end: a DELETE for that shard with a valid token of that owner, or
  a collection with leases on, after the lease of the claim ran out, of a shard that was collectible
  in the cycle before. And the one way it may begin: a PUT of the bytes with that address, permitted for that owner.
\<close>

definition given_up :: "prims \<Rightarrow> server_config \<Rightarrow> bytes \<Rightarrow> shard_id \<Rightarrow> ledger \<Rightarrow> shard_id list \<Rightarrow> node_event \<Rightarrow> bool" where
  "given_up P cfg ow sid l prev e = (case e of
     Shard c req \<Rightarrow> hd req = op_byte opDelete \<and> (\<exists>tok. read_id_token (tl req) = Inr (sid, tok)
       \<and> verifyToken P tok opDelete sid (cfg_self cfg) (conn_now c) = Inr ow)
   | Probe _ _ \<Rightarrow> False
   | Collect now ex _ \<Rightarrow> ex \<and> sid \<in> set prev \<and> (\<exists>row. map_of (tbl_owners l) (sid, ow) = Some row
       \<and> row_expiry row \<noteq> 0 \<and> row_expiry row < Unix now))"

definition taken_up :: "prims \<Rightarrow> server_config \<Rightarrow> bytes \<Rightarrow> shard_id \<Rightarrow> ledger \<Rightarrow> node_event \<Rightarrow> bool" where
  "taken_up P cfg ow sid l e = (case e of
     Shard c req \<Rightarrow> hd req = op_byte opPut \<and> (\<exists>rq. read_put (tl req) = Inr rq \<and> sid = HashOf P (pr_data rq) \<and> put_permitted P cfg c rq l ow)
   | _ \<Rightarrow> False)"

lemma handleProbe_view: "handleProbe P ops cfg c req s = (s', resp) \<Longrightarrow> node_view s' = node_view s"
  by (auto simp: handleProbe_def node_view_def Let_def split: prod.splits if_splits sum.splits)

lemma effect_ledger: "effect P ops cfg c req resp x y \<Longrightarrow> snd y = None \<longleftrightarrow> snd x = None"
  by (induction rule: effect.induct) (auto split: option.splits)

lemma effect_claims:
  assumes "effect P ops cfg c req resp (st, Some l) (st', Some l')" and "holds l' ow sid \<noteq> holds l ow sid"
  shows "if holds l' ow sid then taken_up P cfg ow sid l (Shard c req) else given_up P cfg ow sid l prev (Shard c req)"
  using assms(1)
proof cases
  case (claim rq ow' x l1 b)
  then have "holds l' ow sid \<longleftrightarrow> ow = ow' \<and> sid = HashOf P (pr_data rq) \<or> holds l ow sid"
    using AddOwner_tables(1) [of "cfg_opts cfg" "HashOf P (pr_data rq)" ow' _ "conn_now c" l l1 b ow sid] holds_owners [OF with_stripe_tables(1)]
    by simp
  then show ?thesis using assms(2) claim by (auto simp: taken_up_def)
next
  case (unclaim sid' tok ow' n)
  then show ?thesis using RemoveOwner_tables(2) [of sid' ow' l l' n ow sid] assms(2) by (auto simp: given_up_def)
next
  case (remove sid' tok ow' l1 r)
  note R = RemoveOwner_tables [OF remove(4)]
  have "holds l' ow sid \<longleftrightarrow> holds l1 ow sid"
    using remove(6) R(3) dropRecordTx_tables(1) [of sid' l1 ow sid] by (auto simp: DropRecord_def split: if_splits)
  then show ?thesis using R(2) [of ow sid] assms(2) remove by (auto simp: given_up_def)
next
  case (renew sid' tok ow')
  then show ?thesis using RenewLease_tables(1) [of "cfg_opts cfg" sid' ow' "conn_now c" l ow sid] assms(2) by auto
next
  case (revoke nonce tok ow')
  then show ?thesis using holds_owners [OF RevokeGrant_tables(1)] assms(2) by simp
qed (use assms(2) in simp_all)

context content_store
begin

lemma node_step_inv:
  assumes "node_step P ops lst cfg D e x y" and "node_inv P D abs invar (node_view (fst x))" and "inj_on (sha256 P) D"
  shows "node_inv P D abs invar (node_view (fst y)) \<and> (srv_ledger (fst y) = None \<longleftrightarrow> srv_ledger (fst x) = None)"
  using assms(1)
proof cases
  case (request req c s s' resp prev)
  note E = handleShard_effect [OF request(5)]
  show ?thesis using effect_inv [OF E _ assms(3) request(4)] effect_ledger [OF E] assms(2) request
    by (simp add: node_view_def)
next
  case (probe c req s s' resp prev)
  then show ?thesis using handleProbe_view [OF probe(4)] assms(2) by (simp add: node_view_def)
next
  case (collect s l now ex stop prev st' l' prev')
  then show ?thesis using runGC_inv [OF _ collect(5)] assms(2) by (simp add: node_view_def)
qed

lemma node_step_claims:
  assumes "node_step P ops lst cfg D e (s, prev) (s', prev')" and "node_inv P D abs invar (node_view s)"
    and "\<And>st ids. invar st \<Longrightarrow> lst st = Inr ids \<Longrightarrow> dom (abs st) \<subseteq> set ids"
    and "srv_ledger s = Some l" and "srv_ledger s' = Some l'" and "holds l' ow sid \<noteq> holds l ow sid"
  shows "if holds l' ow sid then taken_up P cfg ow sid l e else given_up P cfg ow sid l prev e"
  using assms(1)
proof cases
  case (request req c resp)
  have E: "effect P ops cfg c req resp (srv_store s, Some l) (srv_store s', Some l')"
    using handleShard_effect [OF request(4)] assms(4,5) by simp
  show ?thesis unfolding request(1) by (rule effect_claims [OF E assms(6)])
next
  case (probe c req resp)
  then show ?thesis using handleProbe_view [OF probe(3)] assms(4-6) by (simp add: node_view_def)
next
  case (collect l0 now ex stop st' l1)
  then have gc: "runGC ops lst now ex stop prev (srv_store s) l = (st', l', prev')" and e: "e = Collect now ex stop" using assms(4,5) by auto
  have no_new: "holds l' ow sid \<Longrightarrow> holds l ow sid" using runGC_claims [OF gc] by blast
  then obtain row where row: "map_of (tbl_owners l) (sid, ow) = Some row" and gone: "\<not> holds l' ow sid" using assms(6) by (auto simp: holds_def)
  then have "\<not> (sid \<in> set prev \<longrightarrow> live_owner now ex row)"
    using runGC_keeps [OF _ gc assms(3) row] assms(2,4) by (auto simp: node_view_def)
  then show ?thesis using gone row e by (auto simp: given_up_def live_owner_def)
qed

lemma node_run_inv:
  assumes "node_run P ops lst cfg D es x y" and "node_inv P D abs invar (node_view (fst x))" and "inj_on (sha256 P) D"
  shows "node_inv P D abs invar (node_view (fst y)) \<and> (srv_ledger (fst y) = None \<longleftrightarrow> srv_ledger (fst x) = None)"
  using assms
proof (induction rule: node_run.induct)
  case (step es x y e z)
  then show ?case using node_step_inv [OF step.hyps(2)] by simp
qed simp

text \<open>A claim lost by a run was lost at one of its steps, which gave it up.\<close>

lemma node_run_claims:
  assumes "node_run P ops lst cfg D es x y" and "node_inv P D abs invar (node_view (fst x))" and "inj_on (sha256 P) D"
    and "\<And>st ids. invar st \<Longrightarrow> lst st = Inr ids \<Longrightarrow> dom (abs st) \<subseteq> set ids"
    and "srv_ledger (fst x) = Some l" and "holds l ow sid"
  shows "\<exists>l'. srv_ledger (fst y) = Some l' \<and> (holds l' ow sid \<or> (\<exists>es1 e es2 s1 prev1 l1. es = es1 @ e # es2
    \<and> node_run P ops lst cfg D es1 x (s1, prev1) \<and> srv_ledger s1 = Some l1 \<and> holds l1 ow sid \<and> given_up P cfg ow sid l1 prev1 e))"
  using assms(1,2,5)
proof (induction rule: node_run.induct)
  case (refl x)
  then show ?case using assms(6) by simp
next
  case (step es x y e z)
  obtain l1 where l1: "srv_ledger (fst y) = Some l1" and IH: "holds l1 ow sid \<or> (\<exists>es1 e es2 s1 prev1 l2. es = es1 @ e # es2
    \<and> node_run P ops lst cfg D es1 x (s1, prev1) \<and> srv_ledger s1 = Some l2 \<and> holds l2 ow sid \<and> given_up P cfg ow sid l2 prev1 e)"
    using step.IH [OF step.prems] by blast
  have inv: "node_inv P D abs invar (node_view (fst y))" using node_run_inv [OF step.hyps(1) step.prems(1) assms(3)] by blast
  then obtain l2 where l2: "srv_ledger (fst z) = Some l2" using node_step_inv [OF step.hyps(2) _ assms(3)] l1 by auto
  show ?case
  proof (cases "holds l2 ow sid \<or> \<not> holds l1 ow sid")
    case True
    then show ?thesis using IH l2 by (metis append.assoc append_Cons)
  next
    case False
    obtain s1 p1 s2 p2 where yz: "y = (s1, p1)" "z = (s2, p2)" by fastforce
    have "given_up P cfg ow sid l1 p1 e"
      using node_step_claims [OF step.hyps(2) [unfolded yz] _ assms(4), of l1 l2 ow sid] inv l1 l2 yz False by auto
    then show ?thesis using l2 l1 yz False step.hyps(1) by fastforce
  qed
qed

end

section \<open>An example node\<close>

definition demo_cfg :: server_config where
  "demo_cfg = \<lparr>cfg_self = [1], cfg_opts = demo_opts, cfg_powMin = 0, cfg_putCap = None, cfg_text = (\<lambda>_. [])\<rparr>"

definition demo_conn :: conn where
  "demo_conn = \<lparr>conn_peer = [2], conn_addr = None, conn_now = 0\<rparr>"

definition demo_sid :: shard_id where
  "demo_sid = HashOf demo_prims [5]"

definition demo_owner :: bytes where
  "demo_owner = ed_public demo_prims [9]"

text \<open>One shard, claimed by one owner.\<close>

definition demo_node :: "mem_store server" where
  "demo_node = (NewServer (fst (mem_Put demo_prims NewMemStore [5])))
     \<lparr>srv_ledger := Some (fst (AddOwner demo_opts demo_sid demo_owner 1 0 empty_ledger))\<rparr>"

lemma demo_node_parts:
  "blobs (srv_store demo_node) = [(demo_sid, [5])]"
  "srv_ledger demo_node = Some \<lparr>tbl_shards = [(demo_sid, \<lparr>row_size = 1, row_created = 0\<rparr>)],
     tbl_owners = [((demo_sid, demo_owner), \<lparr>row_put_at = 0, row_expiry = 60\<rparr>)],
     tbl_accounts = [(demo_owner, \<lparr>acc_bytes = 1, acc_shards = 1, acc_first_seen = 0\<rparr>)], tbl_stripes = [], tbl_revoked = []\<rparr>"
  "srv_subnetLimiter demo_node = None"
  by (simp_all add: demo_node_def NewServer_def mem_Put_def NewMemStore_def demo_sid_def Let_def AddOwner_def empty_ledger_def
      over_quota_def charge_up_def lease_expiry_def Unix_def demo_opts_def)

lemma demo_node_inv: "node_inv demo_prims {[5]} mem_abs (mem_inv demo_prims) (node_view demo_node)"
proof -
  let ?l = "the (srv_ledger demo_node)"
  have l: "srv_ledger demo_node = Some ?l" by (simp add: demo_node_parts)
  have "mem_inv demo_prims (srv_store demo_node)"
    by (simp add: mem_inv_def demo_node_parts demo_sid_def)
  moreover have "ledger_inv ?l"
  proof -
    have "ledger_inv empty_ledger" by (rule ledger_reach_inv [OF ledger_reach.init])
    then have "ledger_inv (fst (AddOwner demo_opts demo_sid demo_owner 1 0 empty_ledger))"
      by (rule ledger_inv_AddOwner) (simp add: size_consistent_def empty_ledger_def)
    then show ?thesis by (simp add: demo_node_def)
  qed
  moreover have "backed (mem_abs (srv_store demo_node)) ?l"
    by (simp add: backed_def holds_def mem_abs_def demo_node_parts)
  moreover have "sizes_of demo_prims {[5]} ?l"
    by (simp add: sizes_of_def size_consistent_def demo_node_parts demo_sid_def)
  ultimately show ?thesis by (auto simp: node_inv_def node_view_def split: option.split)
qed

definition demo_token :: bytes where
  "demo_token = buildToken demo_prims [9] opDelete demo_sid [1] 0"

definition demo_delete :: bytes where
  "demo_delete = 4 # demo_sid @ be_put 4 (length demo_token) @ demo_token"

lemma demo_sid_length: "length demo_sid = idSize"
  by (simp add: demo_sid_def HashOf_def demo_prims_def demo_hash_def idSize_def)

lemma demo_delete_read: "read_id_token (tl demo_delete) = Inr (demo_sid, demo_token)"
proof -
  have len: "length demo_token = authTokenSize"
    using demo_sign_law by (simp add: demo_token_def buildToken_def sign_law_def authTokenSize_def SignPubKeySize_def SignatureSize_def)
  then have "writeBlob demo_token = Inr (be_put 4 (length demo_token) @ demo_token)"
    by (simp add: writeBlob_def MaxShardSize_def authTokenSize_def SignPubKeySize_def SignatureSize_def)
  from readBlob_writeBlob [OF this, of authTokenSize "[]"] show ?thesis
    using len by (simp add: demo_delete_def read_id_token_def demo_sid_length)
qed

lemma demo_delete_verifies: "verifyToken demo_prims demo_token opDelete demo_sid [1] 0 = Inr demo_owner"
  unfolding demo_token_def verifyToken_buildToken_eq [OF demo_sign_law] by (simp add: tokenSkew_def demo_owner_def)

lemma demo_delete_result:
  "\<exists>s'. handleShard demo_prims (mem_ops demo_prims) demo_cfg demo_conn demo_delete demo_node = (s', Reply [0])
     \<and> srv_ledger s' = Some (DropRecord demo_sid (fst (RemoveOwner demo_sid demo_owner (the (srv_ledger demo_node)))))
     \<and> snd (RemoveOwner demo_sid demo_owner (the (srv_ledger demo_node))) = Inr 0"
proof -
  have hd: "demo_delete = 4 # tl demo_delete" by (simp add: demo_delete_def)
  have nc: "srv_tokenCache demo_node = newAuthCache" "srv_limiter demo_node = None"
    by (simp_all add: demo_node_def NewServer_def)
  have sn: "snd (seen newAuthCache sig 0) = False" for sig by (simp add: seen_def authCache_gc_def newAuthCache_def)
  have rm: "snd (RemoveOwner demo_sid demo_owner (the (srv_ledger demo_node))) = Inr 0"
    by (simp add: demo_node_parts RemoveOwner_def Let_def)
  let ?s = "demo_node\<lparr>srv_subnetLimiter := None\<rparr>"
  obtain ch where ch: "seen newAuthCache (drop (SignPubKeySize + 8) demo_token) 0 = (ch, False)"
    using sn by (metis prod.collapse)
  have au: "authenticate demo_prims demo_cfg 0 opDelete demo_sid demo_token ?s = (?s\<lparr>srv_tokenCache := ch\<rparr>, Inr demo_owner)"
    by (simp add: authenticate_def demo_delete_verifies demo_cfg_def nc ch)
  have me: "meter 0 demo_owner (?s\<lparr>srv_tokenCache := ch\<rparr>) = (?s\<lparr>srv_tokenCache := ch\<rparr>, Inr ())"
    by (simp add: meter_def owner_Allow_def nc)
  obtain l where l: "srv_ledger demo_node = Some l" by (simp add: demo_node_parts)
  obtain l1 where l1: "RemoveOwner demo_sid demo_owner l = (l1, Inr 0)" using rm l by (metis option.sel prod.collapse)
  obtain st u where d: "op_Delete (mem_ops demo_prims) (srv_store demo_node) demo_sid = (st, u)" by fastforce
  have "u = Inr ()" using d by (auto simp: mem_ops_def mem_Delete_def demo_node_parts)
  then have "handleDelete demo_prims (mem_ops demo_prims) demo_cfg demo_conn (tl demo_delete) ?s =
     (?s\<lparr>srv_tokenCache := ch, srv_ledger := Some (DropRecord demo_sid l1), srv_store := st\<rparr>, Reply [0])"
    by (simp add: handleDelete_def demo_delete_read l demo_conn_def au me delete_claim_def l1 delete_blob_def d delete_record_def ok_def statusOK_def)
  moreover have "handleShard demo_prims (mem_ops demo_prims) demo_cfg demo_conn demo_delete demo_node =
     handleDelete demo_prims (mem_ops demo_prims) demo_cfg demo_conn (tl demo_delete) ?s"
    by (subst hd) (simp add: handleShard_def demo_node_parts(3) subnet_Allow_def Let_def)
  ultimately show ?thesis using l1 l by simp
qed

lemma demo_delete_gone:
  "\<not> holds (DropRecord demo_sid (fst (RemoveOwner demo_sid demo_owner (the (srv_ledger demo_node))))) demo_owner demo_sid"
  using dropRecordTx_tables(1) by (simp add: DropRecord_def RemoveOwner_def demo_node_parts Let_def holds_def)

lemma mem_List_complete: "dom (mem_abs st) \<subseteq> set (mem_List st)"
  by (force simp: mem_abs_def mem_List_def dest: map_of_SomeD)

section \<open>Properties\<close>

text \<open>
  C2: the node implements its specification. Whatever bytes a shard request consists of, served as a whole, its
  response and its effect on the store and the ledger are those the specification \<open>effect\<close> allows for its operation
  byte: a GET or HAS answers from the store; a PUT stores the bytes it carries and, with a ledger, claims them
  for the owner whose token verifies and meets the proof of work, or whose unrevoked grant names the shard; a DELETE
  removes the claim of the owner whose token verifies for that shard, with the blob and the record when it was the last;
  a RENEW and a REVOKE act on the shard and the nonce they carry for the owner of their token. What is answered with
  success has happened; a refused request changes nothing, apart from bytes stored without
  a claim and a last claim dropped although its blob could not be removed.
\<close>

theorem handleShard_refines:
  assumes "handleShard P ops cfg c req s = (s', resp)"
  shows "effect P ops cfg c req resp (srv_store s, srv_ledger s) (srv_store s', srv_ledger s')"
  by (rule handleShard_effect [OF assms])

theorem handleShard_refines_witness:
  "\<exists>st' l'. effect demo_prims (mem_ops demo_prims) demo_cfg demo_conn demo_delete (Reply [0])
      (srv_store demo_node, srv_ledger demo_node) (st', Some l') \<and> \<not> holds l' demo_owner demo_sid"
proof -
  obtain s' where h: "handleShard demo_prims (mem_ops demo_prims) demo_cfg demo_conn demo_delete demo_node = (s', Reply [0])"
    and l': "srv_ledger s' = Some (DropRecord demo_sid (fst (RemoveOwner demo_sid demo_owner (the (srv_ledger demo_node)))))"
    using demo_delete_result by blast
  show ?thesis using handleShard_refines [OF h] l' demo_delete_gone by auto
qed

text \<open>
  C1: a claim stays, and what it claims stays readable. Take any state in which every claim is backed by a blob, and
  any sequence of shard requests (any bytes, any peers, any times), probes and collection cycles, each taken
  as a whole, over a store whose listing is complete. Then every claim the ledger holds at the end is backed by
  bytes that a GET returns and that hash to the address, the accounts are exact, and every claim held
  at the start is still held, unless at one of the steps it was given up: by a DELETE with
  its owner's valid token, or by a collection after its lease had run out and the shard had
  been collectible in the cycle before.
\<close>

theorem claims_stay_readable:
  assumes "content_store P ops A I" and "inj_on (sha256 P) D"
    and "\<forall>st ids. I st \<longrightarrow> lst st = Inr ids \<longrightarrow> dom (A st) \<subseteq> set ids"
    and "node_inv P D A I (node_view s0)" and "srv_ledger s0 = Some l0"
    and "node_run P ops lst cfg D es (s0, prev0) (s, prev)"
  shows "\<exists>l. srv_ledger s = Some l \<and> ledger_inv l
    \<and> (\<forall>ow sid. holds l ow sid \<longrightarrow> (\<exists>b. op_Get ops (srv_store s) sid = Inr b \<and> HashOf P b = sid))
    \<and> (\<forall>ow sid. holds l0 ow sid \<longrightarrow> holds l ow sid
        \<or> (\<exists>es1 e es2 s1 prev1 l1. es = es1 @ e # es2 \<and> node_run P ops lst cfg D es1 (s0, prev0) (s1, prev1)
             \<and> srv_ledger s1 = Some l1 \<and> holds l1 ow sid \<and> given_up P cfg ow sid l1 prev1 e))"
proof -
  have "node_inv P D A I (node_view s) \<and> (srv_ledger s = None \<longleftrightarrow> srv_ledger s0 = None)"
    using content_store.node_run_inv [OF assms(1,6) _ assms(2)] assms(4) by simp
  then obtain l where l: "srv_ledger s = Some l" and inv: "I (srv_store s)" "ledger_inv l" "backed (A (srv_store s)) l"
    using assms(5) by (auto simp: node_inv_def node_view_def)
  have "\<exists>b. op_Get ops (srv_store s) sid = Inr b \<and> HashOf P b = sid" if "holds l ow sid" for ow sid
    using content_store.get_law [OF assms(1) inv(1), of sid] content_store.addressed [OF assms(1) inv(1), of sid] inv(3) that
    by (auto simp: backed_def split: option.splits)
  then show ?thesis using l inv(2) content_store.node_run_claims [OF assms(1,6) _ assms(2), of l0] assms(3,4,5) by fastforce
qed

text \<open>A collection while the lease still runs, then a DELETE without a token.\<close>

theorem claims_stay_readable_witness:
  "\<exists>s prev b. node_run demo_prims (mem_ops demo_prims) (\<lambda>m. Inr (mem_List m)) demo_cfg {[5]}
       [Collect 0 True (\<lambda>_. False), Shard demo_conn (4 # demo_sid @ [0, 0, 0, 0])] (demo_node, [demo_sid]) (s, prev)
     \<and> op_Get (mem_ops demo_prims) (srv_store s) demo_sid = Inr b \<and> HashOf demo_prims b = demo_sid"
proof -
  let ?run = "node_run demo_prims (mem_ops demo_prims) (\<lambda>m. Inr (mem_List m)) demo_cfg {[5]}"
  let ?e1 = "Collect 0 True (\<lambda>_. False)" and ?e2 = "Shard demo_conn (4 # demo_sid @ [0, 0, 0, 0])"
  obtain l0 where l0: "srv_ledger demo_node = Some l0" "map_of (tbl_owners l0) (demo_sid, demo_owner) = Some \<lparr>row_put_at = 0, row_expiry = 60\<rparr>"
    by (simp add: demo_node_parts)
  obtain st1 l1 p1 where gc: "runGC (mem_ops demo_prims) (\<lambda>m. Inr (mem_List m)) 0 True (\<lambda>_. False) [demo_sid] (srv_store demo_node) l0 = (st1, l1, p1)"
    by (metis prod_cases3)
  let ?s1 = "demo_node\<lparr>srv_store := st1, srv_ledger := Some l1\<rparr>"
  obtain s2 resp where h: "handleShard demo_prims (mem_ops demo_prims) demo_cfg demo_conn (4 # demo_sid @ [0, 0, 0, 0]) ?s1 = (s2, resp)"
    by fastforce
  have "?run ([] @ [?e1]) (demo_node, [demo_sid]) (?s1, p1)"
    by (rule node_run.step [OF node_run.refl node_step.collect [OF l0(1) gc]])
  moreover have "carries {[5]} (4 # demo_sid @ [0, 0, 0, 0])" by (simp add: carries_def)
  ultimately have run: "?run [?e1, ?e2] (demo_node, [demo_sid]) (s2, p1)"
    using node_run.step [OF _ node_step.request [OF _ h]] by fastforce
  have e1: "\<not> given_up demo_prims demo_cfg demo_owner demo_sid l0 [demo_sid] ?e1" using l0(2) by (simp add: given_up_def Unix_def)
  have "read_id_token (demo_sid @ [0, 0, 0, 0]) = Inr (demo_sid, [])"
    using demo_sid_length by (simp add: read_id_token_def readBlob_def ReadFull_def be_get_def)
  then have e2: "\<not> given_up demo_prims demo_cfg demo_owner demo_sid l p ?e2" for l p
    by (simp add: given_up_def verifyToken_def authTokenSize_def SignPubKeySize_def)
  have held: "holds l0 demo_owner demo_sid" using l0(2) by (simp add: holds_def)
  have kept: "\<not> (\<exists>es1 e es2 s1 prev1 l1. [?e1, ?e2] = es1 @ e # es2 \<and> ?run es1 (demo_node, [demo_sid]) (s1, prev1)
       \<and> srv_ledger s1 = Some l1 \<and> holds l1 demo_owner demo_sid \<and> given_up demo_prims demo_cfg demo_owner demo_sid l1 prev1 e)"
  proof (intro notI, elim exE conjE)
    fix es1 e es2 s1 prev1 l1
    assume es: "[?e1, ?e2] = es1 @ e # es2" and r: "?run es1 (demo_node, [demo_sid]) (s1, prev1)" "srv_ledger s1 = Some l1"
      and g: "given_up demo_prims demo_cfg demo_owner demo_sid l1 prev1 e"
    then consider "es1 = []" "e = ?e1" | "e = ?e2" by (cases es1) (auto simp: Cons_eq_append_conv)
    then show False
      by cases (use r g e1 e2 l0(1) in \<open>auto elim: node_run_nilE\<close>)
  qed
  have "inj_on (sha256 demo_prims) {[5]}" by simp
  moreover have "\<forall>st ids. mem_inv demo_prims st \<longrightarrow> Inr (mem_List st) = (Inr ids :: shard_id list res) \<longrightarrow> dom (mem_abs st) \<subseteq> set ids"
    using mem_List_complete by auto
  ultimately obtain b where "op_Get (mem_ops demo_prims) (srv_store s2) demo_sid = Inr b \<and> HashOf demo_prims b = demo_sid"
    using claims_stay_readable [OF mem.content_store_axioms _ _ demo_node_inv l0(1) run] held kept by metis
  then show ?thesis using run by blast
qed



section \<open>DELETE and PUT interleaved\<close>

text \<open>
  a PUT that races a DELETE is lost. When the last owner's DELETE has removed its claim, and another
  owner's PUT of the same bytes then stores and claims them and is acknowledged, the DELETE's remaining
  two calls remove the bytes and the record with the new claim: the acknowledged shard is gone from
  the store and from the ledger.
\<close>

lemma delete_put_race:
  assumes "content_store P ops A I" and "I (srv_store s)" and "srv_ledger s = Some l" and "sid = HashOf P (pr_data rq)"
    and d1: "delete_claim sid ow1 l s = (s1, Inr 0)"
    and p1: "put_blob ops (pr_data rq) s1 = (s2, Inr ())" and p2: "put_claim P cfg now rq None ow2 s2 = (s3, Inr ())"
    and d2: "delete_blob ops sid s3 = (s4, Inr ())"
  shows "op_Get ops (srv_store (delete_record sid s4)) sid = Inl ErrNotFound
    \<and> (\<exists>l'. srv_ledger (delete_record sid s4) = Some l' \<and> (\<forall>x. \<not> holds l' x sid) \<and> map_of (tbl_shards l') sid = None)"
proof -
  note C = content_store.put_law [OF assms(1)] content_store.delete_law [OF assms(1)] content_store.get_law [OF assms(1)]
  obtain l1 where l1: "RemoveOwner sid ow1 l = (l1, Inr 0)" and s1: "s1 = s\<lparr>srv_ledger := Some l1\<rparr>"
    using d1 by (auto simp: delete_claim_def split: prod.splits)
  obtain st where st: "op_Put ops (srv_store s) (pr_data rq) = (st, Inr (HashOf P (pr_data rq)))" "I st"
    using C(1) [OF assms(2), of "pr_data rq"] by (cases "op_Put ops (srv_store s) (pr_data rq)") auto
  have s2: "srv_store s2 = st" "srv_ledger s2 = Some l1" using p1 st s1 by (auto simp: put_blob_def)
  obtain l2 b where add: "AddOwner (cfg_opts cfg) sid ow2 (int (length (pr_data rq))) now l1 = (l2, Inr b)"
    and s3: "srv_ledger s3 = Some l2" "srv_store s3 = st"
    using p2 s2 assms(4)
    by (auto simp: put_claim_def Let_def announce_def split: prod.splits sum.splits bool.splits)
  obtain st' u where dl: "op_Delete ops st sid = (st', u)" by fastforce
  have s4: "srv_store s4 = st'" "srv_ledger s4 = Some l2" using d2 s3 dl by (auto simp: delete_blob_def)
  have "op_Get ops st' sid = Inl ErrNotFound" using C(2) [OF st(2) dl] C(3) by simp
  moreover have "map_of (tbl_shards l2) sid \<noteq> None"
    using AddOwner_tables(3) [OF add] RemoveOwner_tables(3) [OF l1] by blast
  then have "\<not> holds (DropRecord sid l2) x sid" for x using dropRecordTx_tables(1) [of sid l2 x sid] by (simp add: DropRecord_def)
  ultimately show ?thesis using s4 DropRecord_tables(1) [of sid l2 sid] by (simp add: delete_record_def)
qed

definition demo_put :: put_request where
  "demo_put = \<lparr>pr_data = [5], pr_token = [], pr_stripe = [], pr_grant = [], pr_reason = 0\<rparr>"

lemma delete_put_race_witness:
  "let l = the (srv_ledger demo_node); (s1, _) = delete_claim demo_sid demo_owner l demo_node;
       (s2, _) = put_blob (mem_ops demo_prims) [5] s1; (s3, acknowledged) = put_claim demo_prims demo_cfg 0 demo_put None [8] s2;
       (s4, _) = delete_blob (mem_ops demo_prims) demo_sid s3
   in acknowledged = Inr () \<and> mem_Get (srv_store (delete_record demo_sid s4)) demo_sid = Inl ErrNotFound"
proof -
  obtain l where l: "srv_ledger demo_node = Some l" by (simp add: demo_node_parts)
  obtain s1 r1 where d1: "delete_claim demo_sid demo_owner l demo_node = (s1, r1)" by fastforce
  have r1: "r1 = Inr 0" and l1: "srv_ledger s1 = Some (fst (RemoveOwner demo_sid demo_owner l))" "srv_store s1 = srv_store demo_node"
    using d1 l by (auto simp: delete_claim_def demo_node_parts RemoveOwner_def Let_def)
  obtain s2 r2 where p1: "put_blob (mem_ops demo_prims) (pr_data demo_put) s1 = (s2, r2)" by fastforce
  have r2: "r2 = Inr ()" and l2: "srv_ledger s2 = srv_ledger s1"
    using p1 by (auto simp: put_blob_def mem_ops_def mem_Put_def Let_def)
  obtain s3 r3 where p2: "put_claim demo_prims demo_cfg 0 demo_put None [8] s2 = (s3, r3)" by fastforce
  have "\<not> over_quota demo_opts (fst (RemoveOwner demo_sid demo_owner l)) [8] 1 0"
    using l by (auto simp: over_quota_def demo_node_parts RemoveOwner_def Let_def chargeDown_def)
  then have r3: "r3 = Inr ()" using p2 l1 l2
    by (auto simp: put_claim_def AddOwner_def demo_put_def demo_cfg_def Let_def announce_def split: if_splits)
  obtain s4 r4 where d2: "delete_blob (mem_ops demo_prims) demo_sid s3 = (s4, r4)" by fastforce
  have r4: "r4 = Inr ()" using d2 by (auto simp: delete_blob_def mem_ops_def mem_Delete_def split: if_splits)
  have inv: "mem_inv demo_prims (srv_store demo_node)" using demo_node_inv by (simp add: node_inv_def node_view_def)
  have sid: "demo_sid = HashOf demo_prims (pr_data demo_put)" by (simp add: demo_sid_def demo_put_def)
  have "mem_Get (srv_store (delete_record demo_sid s4)) demo_sid = Inl ErrNotFound"
    using delete_put_race [OF mem.content_store_axioms inv l sid d1 [unfolded r1] p1 [unfolded r2] p2 [unfolded r3] d2 [unfolded r4]]
    by (simp add: mem_ops_def)
  moreover have "put_blob (mem_ops demo_prims) [5] s1 = (s2, r2)" using p1 by (simp add: demo_put_def)
  ultimately show ?thesis using d1 p2 d2 r3 l by simp
qed

end
