(* ===== verification/Remote.thy ===== *)
theory Remote
  imports Node_Safety
begin

text \<open>
  The client of \<^verbatim>\<open>src/internal/net/client.go\<close> against the node of \<^verbatim>\<open>src/internal/net/server.go\<close>:
  frames written by the one are parsed by the other, errors cross the wire as statuses, and a remote
  node behaves as the store behind it.
\<close>

section \<open>A node without a ledger\<close>

text \<open>A plain node: no ledger, no limits; every stored blob fits a frame.\<close>

definition plain :: "server_config \<Rightarrow> 's server \<Rightarrow> bool" where
  "plain cfg s \<longleftrightarrow> cfg_putCap cfg = None \<and> srv_ledger s = None \<and> srv_subnetLimiter s = None \<and> srv_abuse s = None"

lemma plain_subnet: "plain cfg s \<Longrightarrow> subnet_Allow a now (srv_subnetLimiter s) = (None, True)"
  by (simp add: plain_def subnet_Allow_def)

lemma plain_same: "plain cfg s \<Longrightarrow> s\<lparr>srv_subnetLimiter := None\<rparr> = s"
  by (simp add: plain_def)

lemma writeBlob_ok: "length b \<le> MaxShardSize \<Longrightarrow> writeBlob b = Inr (be_put 4 (length b) @ b)"
  by (simp add: writeBlob_def)

lemma readBlob_ok: "length b \<le> MaxShardSize \<Longrightarrow> length b \<le> limit \<Longrightarrow> readBlob limit (be_put 4 (length b) @ b @ rest) = Inr (b, rest)"
  using readBlob_writeBlob [OF writeBlob_ok, of b limit rest] by simp

definition client_put :: "bytes \<Rightarrow> bytes \<Rightarrow> put_request" where
  "client_put d tok = \<lparr>pr_data = d, pr_token = tok, pr_stripe = [], pr_grant = [], pr_reason = ReasonClient\<rparr>"

definition put_bytes :: "bytes \<Rightarrow> bytes \<Rightarrow> bytes" where
  "put_bytes d tok = be_put 4 (length d) @ d @ be_put 4 (length tok) @ tok @ be_put 4 0 @ be_put 4 0 @ [0]"

lemma authTokenSize_small: "authTokenSize \<le> MaxShardSize"
  by (simp add: authTokenSize_def SignPubKeySize_def SignatureSize_def MaxShardSize_def)

lemma put_bytes_read:
  assumes "length d \<le> MaxShardSize" and "length tok \<le> authTokenSize"
  shows "read_put (put_bytes d tok) = Inr (client_put d tok)"
  using readBlob_ok [OF assms(1,1)] readBlob_ok [OF _ assms(2)] readBlob_ok [of "[]"] assms(2) authTokenSize_small
  by (simp add: read_put_def put_bytes_def client_put_def ReasonClient_def)

lemma id_token_read:
  assumes "length sid = idSize" and "length tok \<le> authTokenSize"
  shows "read_id_token (sid @ be_put 4 (length tok) @ tok) = Inr (sid, tok)"
  using readBlob_ok [OF _ assms(2), of "[]"] assms authTokenSize_small by (simp add: read_id_token_def)

lemma exchange_parts: "exchange node s [Inr a, Inr b] = node s (a @ b)"
  using exchange_ok [of node s "[a, b]"] by simp

section \<open>Requests of the client\<close>

lemma notFound_status: "readResp (replyErr t ErrNotFound) = Inl ErrNotFound"
  by (simp add: replyErr_def readResp_def statusToErr_def statusError_def statusOK_def)

lemma net_Put_frame:
  assumes "length d \<le> MaxShardSize" and "length (authToken P n opPut (HashOf P d) ts) \<le> authTokenSize"
  shows "net_Put P n ts node s d = (case node s (1 # put_bytes d (authToken P n opPut (HashOf P d) ts)) of
    (s', r) \<Rightarrow> (s', bindR r (\<lambda>resp. bindR (readResp resp) (\<lambda>(_, s1). bindR (readID s1) (\<lambda>(sid, _).
           if sid \<noteq> HashOf P d then Inl ErrMismatch else Inr sid)))))"
proof -
  let ?tok = "authToken P n opPut (HashOf P d) ts"
  have "length ?tok \<le> MaxShardSize" using assms(2) authTokenSize_small by linarith
  then have "write_parts ([Inr [op_byte opPut]] @ map writeBlob [d, ?tok, [], []] @ [Inr [ReasonClient]]) = (1 # put_bytes d ?tok, None)"
    using assms(1) by (simp add: writeBlob_ok put_bytes_def ReasonClient_def)
  then show ?thesis unfolding net_Put_def putRaw_def exchange_def by (simp del: append.simps list.map split: prod.split)
qed

lemma net_Delete_frame:
  assumes "length (authToken P n opDelete sid ts) \<le> authTokenSize"
  shows "net_Delete P n ts node s sid = (case node s (4 # sid @ be_put 4 (length (authToken P n opDelete sid ts)) @ authToken P n opDelete sid ts) of
    (s', r) \<Rightarrow> (s', bindR r (\<lambda>resp. bindR (readResp resp) (\<lambda>_. Inr ()))))"
proof -
  let ?tok = "authToken P n opDelete sid ts"
  have "writeBlob ?tok = Inr (be_put 4 (length ?tok) @ ?tok)" using assms authTokenSize_small by (intro writeBlob_ok) linarith
  then show ?thesis using exchange_ok [of node s "[[4], sid, be_put 4 (length ?tok) @ ?tok]"] by (simp add: net_Delete_def)
qed

lemma authToken_length: "sign_law P \<Longrightarrow> length (authToken P n opr sid ts) \<le> authTokenSize"
  by (simp add: authToken_def buildToken_def sign_law_def authTokenSize_def SignPubKeySize_def SignatureSize_def split: option.split)

text \<open>The reply of a plain node to each request, whatever the store answers.\<close>

lemma plain_get:
  assumes "plain cfg s" and "length sid = idSize"
  shows "serve P ops cfg c s (2 # sid) = (s, Inr (case op_Get ops (srv_store s) sid of
     Inl e \<Rightarrow> replyErr (cfg_text cfg) e | Inr data \<Rightarrow> statusOK # (case writeBlob data of Inl _ \<Rightarrow> [] | Inr b \<Rightarrow> b)))"
  using assms plain_subnet [OF assms(1)] plain_same [OF assms(1)]
  by (simp add: serve_def handleShard_def Let_def handleGet_def fail_def ok_def split: sum.splits)

lemma plain_has:
  assumes "plain cfg s" and "length sid = idSize"
  shows "serve P ops cfg c s (3 # sid) = (s, Inr (case op_Has ops (srv_store s) sid of
     Inl e \<Rightarrow> replyErr (cfg_text cfg) e | Inr b \<Rightarrow> [statusOK, if b then 1 else 0]))"
  using assms plain_subnet [OF assms(1)] plain_same [OF assms(1)]
  by (simp add: serve_def handleShard_def Let_def handleHas_def fail_def ok_def split: sum.splits)

lemma plain_delete:
  assumes "plain cfg s" and "length sid = idSize"
  shows "serve P ops cfg c s (4 # sid @ be_put 4 0) = (case op_Delete ops (srv_store s) sid of (st, r) \<Rightarrow>
     (s\<lparr>srv_store := st\<rparr>, Inr (case r of Inl e \<Rightarrow> replyErr (cfg_text cfg) e | Inr _ \<Rightarrow> [statusOK])))"
  using assms plain_subnet [OF assms(1)] plain_same [OF assms(1)] readBlob_ok [of "[]" authTokenSize "[]"]
  by (simp add: serve_def handleShard_def Let_def handleDelete_def read_id_token_def plain_def fail_def ok_def split: sum.splits prod.splits)

lemma plain_put:
  assumes "plain cfg s" and "length d \<le> MaxShardSize"
  shows "serve P ops cfg c s (1 # put_bytes d []) =
    (case op_Put ops (srv_store s) d of
       (st, Inl e) \<Rightarrow> (s\<lparr>srv_store := st\<rparr>, Inr (replyErr (cfg_text cfg) e))
     | (st, Inr _) \<Rightarrow> (announce (HashOf P d) (s\<lparr>srv_store := st\<rparr>), Inr (statusOK # HashOf P d)))"
proof -
  have "police_move c rq ctx s = s" for rq ctx using assms(1) by (simp add: police_move_def plain_def)
  moreover have "srv_ledger s = None" "cfg_putCap cfg = None" using assms(1) by (simp_all add: plain_def)
  ultimately show ?thesis
    by (simp add: serve_def handleShard_def plain_subnet [OF assms(1)] plain_same [OF assms(1)] Let_def handlePut_def
        put_bytes_read [OF assms(2)] client_put_def stripe_context_def authorize_put_def store_put_def put_blob_def put_claim_def fail_def ok_def split: sum.splits prod.splits)
qed

text \<open>
  a remote node without a ledger is its store. Against a node without a ledger, over a store that keeps the store
  contract and holds blobs that fit a frame, every operation of the unsigned client, through its
  frames, the node's handler and the answer, returns exactly what the same operation on the node's
  store returns, and leaves the node's store as that operation leaves it.
\<close>

lemma NetStore_plain:
  assumes "content_store P ops A I" and "I (srv_store s)" and "plain cfg s" and "ns_signer n = None"
    and "\<forall>x b. A (srv_store s) x = Some b \<longrightarrow> length b \<le> MaxShardSize"
    and "length sid = idSize" and "length d \<le> MaxShardSize" and "length (HashOf P d) = idSize"
  shows "net_Get P (serve P ops cfg c) s sid = (s, op_Get ops (srv_store s) sid)
    \<and> net_Has (serve P ops cfg c) s sid = (s, op_Has ops (srv_store s) sid)
    \<and> (\<exists>s'. net_Put P n ts (serve P ops cfg c) s d = (s', snd (op_Put ops (srv_store s) d))
        \<and> srv_store s' = fst (op_Put ops (srv_store s) d) \<and> plain cfg s')
    \<and> net_Delete P n ts (serve P ops cfg c) s sid =
        (s\<lparr>srv_store := fst (op_Delete ops (srv_store s) sid)\<rparr>, snd (op_Delete ops (srv_store s) sid))"
proof -
  note C = content_store.get_law [OF assms(1,2)] content_store.has_law [OF assms(1,2)]
    content_store.put_law [OF assms(1,2)] content_store.delete_law [OF assms(1,2)] content_store.addressed [OF assms(1,2)]
  have "net_Get P (serve P ops cfg c) s sid = (s, op_Get ops (srv_store s) sid)"
  proof (cases "A (srv_store s) sid")
    case None
    then show ?thesis using plain_get [OF assms(3,6), of P ops c] C(1) [of sid]
      by (simp add: net_Get_def exchange_parts notFound_status)
  next
    case (Some b)
    then have "length b \<le> MaxShardSize" "HashOf P b = sid" using assms(5) C(5) by auto
    then show ?thesis using plain_get [OF assms(3,6), of P ops c] C(1) [of sid] Some readBlob_ok [of b MaxShardSize "[]"]
      by (simp add: net_Get_def exchange_parts writeBlob_ok)
  qed
  moreover have "net_Has (serve P ops cfg c) s sid = (s, op_Has ops (srv_store s) sid)"
    using plain_has [OF assms(3,6), of P ops c] C(2) [of sid] by (simp add: net_Has_def exchange_parts)
  moreover have "\<exists>s'. net_Put P n ts (serve P ops cfg c) s d = (s', snd (op_Put ops (srv_store s) d))
        \<and> srv_store s' = fst (op_Put ops (srv_store s) d) \<and> plain cfg s'"
  proof -
    obtain st where st: "op_Put ops (srv_store s) d = (st, Inr (HashOf P d))"
      using C(3) [of d] by (cases "op_Put ops (srv_store s) d") auto
    then have "net_Put P n ts (serve P ops cfg c) s d = (announce (HashOf P d) (s\<lparr>srv_store := st\<rparr>), Inr (HashOf P d))"
      using assms(4,8) plain_put [OF assms(3,7), of P ops c] net_Put_frame [OF assms(7), of P n ts "serve P ops cfg c" s]
      by (simp add: authToken_def)
    then show ?thesis using st assms(3) by (simp add: announce_def plain_def)
  qed
  moreover have "net_Delete P n ts (serve P ops cfg c) s sid =
        (s\<lparr>srv_store := fst (op_Delete ops (srv_store s) sid)\<rparr>, snd (op_Delete ops (srv_store s) sid))"
  proof -
    obtain st r where d: "op_Delete ops (srv_store s) sid = (st, r)" by fastforce
    have r: "r = (if A (srv_store s) sid = None then Inl ErrNotFound else Inr ())" using C(4) [OF d] by simp
    have "exchange (serve P ops cfg c) s [Inr [op_byte opDelete], Inr sid, writeBlob []] = serve P ops cfg c s (4 # sid @ be_put 4 0)"
      using exchange_ok [of "serve P ops cfg c" s "[[4], sid, be_put 4 0]"] by (simp add: writeBlob_ok)
    then show ?thesis using plain_delete [OF assms(3,6), of P ops c] d r assms(4) by (simp add: net_Delete_def authToken_def notFound_status)
  qed
  ultimately show ?thesis by blast
qed

section \<open>Any node\<close>

text \<open>A request that passes the limiter of the peer's subnet, as every request does without one.\<close>

definition reached :: "conn \<Rightarrow> 's server \<Rightarrow> bool" where
  "reached c s \<longleftrightarrow> snd (subnet_Allow (conn_addr c) (conn_now c) (srv_subnetLimiter s))"

lemma serve_accepted:
  assumes "serve P ops cfg c s req = (s', Inr resp)" and "readResp resp = Inr (u, rest)"
  shows "effect P ops cfg c req (Reply resp) (srv_store s, srv_ledger s) (srv_store s', srv_ledger s') \<and> accepted (Reply resp)"
proof -
  have "handleShard P ops cfg c req s = (s', Reply resp)"
    using assms(1) by (auto simp: serve_def split: prod.splits response.splits)
  then show ?thesis using handleShard_effect readResp_Inr [OF assms(2)] by (auto simp: accepted_def)
qed

lemma serve_get:
  assumes "length sid = idSize"
  shows "\<exists>s'. serve P ops cfg c s (2 # sid) = (s', if reached c s then Inr (case op_Get ops (srv_store s) sid of
     Inl e \<Rightarrow> replyErr (cfg_text cfg) e | Inr data \<Rightarrow> statusOK # (case writeBlob data of Inl _ \<Rightarrow> [] | Inr b \<Rightarrow> b)) else Inl ErrRead)
     \<and> node_view s' = node_view s"
  using assms by (cases "subnet_Allow (conn_addr c) (conn_now c) (srv_subnetLimiter s)")
    (auto simp: serve_def handleShard_def Let_def handleGet_def fail_def ok_def reached_def node_view_def split: sum.splits)

lemma serve_has:
  assumes "length sid = idSize"
  shows "\<exists>s'. serve P ops cfg c s (3 # sid) = (s', if reached c s then Inr (case op_Has ops (srv_store s) sid of
     Inl e \<Rightarrow> replyErr (cfg_text cfg) e | Inr b \<Rightarrow> [statusOK, if b then 1 else 0]) else Inl ErrRead)
     \<and> node_view s' = node_view s"
  using assms by (cases "subnet_Allow (conn_addr c) (conn_now c) (srv_subnetLimiter s)")
    (auto simp: serve_def handleShard_def Let_def handleHas_def fail_def ok_def reached_def node_view_def split: sum.splits)

text \<open>Reading through a node.\<close>

lemma remote_get:
  assumes "content_store P ops A I" and "I (srv_store s)"
    and "\<forall>x b. A (srv_store s) x = Some b \<longrightarrow> length b \<le> MaxShardSize" and "length sid = idSize"
  shows "\<exists>s'. net_Get P (serve P ops cfg c) s sid = (s', if reached c s then op_Get ops (srv_store s) sid else Inl ErrRead)
      \<and> node_view s' = node_view s"
proof -
  note G = content_store.get_law [OF assms(1,2), of sid]
  obtain s' where s': "serve P ops cfg c s (2 # sid) = (s', if reached c s then Inr (case op_Get ops (srv_store s) sid of
     Inl e \<Rightarrow> replyErr (cfg_text cfg) e | Inr data \<Rightarrow> statusOK # (case writeBlob data of Inl _ \<Rightarrow> [] | Inr b \<Rightarrow> b)) else Inl ErrRead)"
     "node_view s' = node_view s" using serve_get [OF assms(4)] by blast
  show ?thesis
  proof (cases "A (srv_store s) sid")
    case None
    then show ?thesis using s' G by (simp add: net_Get_def exchange_parts notFound_status)
  next
    case (Some b)
    then have "length b \<le> MaxShardSize" "HashOf P b = sid" using assms(3) content_store.addressed [OF assms(1,2)] by auto
    then show ?thesis using s' G Some readBlob_ok [of b MaxShardSize "[]"] by (simp add: net_Get_def exchange_parts writeBlob_ok)
  qed
qed

lemma remote_has:
  assumes "content_store P ops A I" and "I (srv_store s)" and "length sid = idSize"
  shows "\<exists>s'. net_Has (serve P ops cfg c) s sid = (s', if reached c s then op_Has ops (srv_store s) sid else Inl ErrRead)
      \<and> node_view s' = node_view s"
proof -
  obtain s' where "serve P ops cfg c s (3 # sid) = (s', if reached c s then Inr (case op_Has ops (srv_store s) sid of
     Inl e \<Rightarrow> replyErr (cfg_text cfg) e | Inr b \<Rightarrow> [statusOK, if b then 1 else 0]) else Inl ErrRead)"
     "node_view s' = node_view s" using serve_has [OF assms(3)] by blast
  then show ?thesis using content_store.has_law [OF assms(1,2), of sid] by (simp add: net_Has_def exchange_parts)
qed

lemma RemoveOwner_left:
  assumes "RemoveOwner sid ow l = (l', Inr n)"
  shows "holds l ow sid" and "0 < n \<Longrightarrow> \<exists>x. holds l' x sid"
proof -
  have H: "holds l ow sid \<and> n = length (filter (\<lambda>k. fst k = sid) (map fst (tbl_owners l')))"
  proof (cases rule: RemoveOwner_cases [of sid ow l])
    case no
    then show ?thesis using assms by simp
  next
    case (yes a s)
    have "(l', Inr n) = RemoveOwner sid ow l" using assms by simp
    then show ?thesis using yes by (auto simp: holds_def)
  qed
  then show "holds l ow sid" by simp
  show "\<exists>x. holds l' x sid" if "0 < n"
  proof -
    have "filter (\<lambda>k. fst k = sid) (map fst (tbl_owners l')) \<noteq> []" using H that by (simp only: length_greater_0_conv not_False_eq_True)
    then obtain k where k: "k \<in> set (map fst (tbl_owners l'))" "fst k = sid" unfolding filter_empty_conv by blast
    then have "(sid, snd k) \<in> set (map fst (tbl_owners l'))" by (metis prod.collapse)
    then show ?thesis unfolding holds_def map_of_None_keys by blast
  qed
qed

lemma token_owner:
  assumes "sign_law P" and "verifyToken P (authToken P n opr sid ts) opr sid self now = Inr ow" and "self = ns_peer n"
  shows "\<exists>k. ns_signer n = Some k \<and> ow = ed_public P k"
proof (cases "ns_signer n")
  case None
  then show ?thesis using assms(2) by (simp add: authToken_def verifyToken_def authTokenSize_def SignPubKeySize_def)
next
  case (Some k)
  then show ?thesis using assms(2,3) verifyToken_buildToken_eq [OF assms(1), of k opr sid "ns_peer n" ts now]
    by (simp add: authToken_def split: if_splits)
qed

text \<open>What an acknowledged write has done.\<close>

lemma put_acknowledged:
  assumes "sign_law P" and "cfg_self cfg = ns_peer n" and "length d \<le> MaxShardSize"
    and "net_Put P n ts (serve P ops cfg c) s d = (s', Inr x)"
  shows "x = HashOf P d \<and> srv_store s' = fst (op_Put ops (srv_store s) d)
    \<and> (case srv_ledger s of None \<Rightarrow> srv_ledger s' = None
       | Some l \<Rightarrow> \<exists>k l'. ns_signer n = Some k \<and> srv_ledger s' = Some l'
           \<and> (\<forall>ow y. holds l' ow y \<longleftrightarrow> ow = ed_public P k \<and> y = x \<or> holds l ow y))"
proof -
  let ?tok = "authToken P n opPut (HashOf P d) ts"
  note tl = authToken_length [OF assms(1), of n opPut "HashOf P d" ts]
  obtain r where sv: "serve P ops cfg c s (1 # put_bytes d ?tok) = (s', r)"
    and res: "bindR r (\<lambda>resp. bindR (readResp resp) (\<lambda>(_, s1). bindR (readID s1) (\<lambda>(sid, _).
           if sid \<noteq> HashOf P d then Inl ErrMismatch else Inr sid))) = Inr x"
    using assms(4) net_Put_frame [OF assms(3) tl, of "serve P ops cfg c" s] by (auto split: prod.splits)
  obtain resp u rest where r: "r = Inr resp" "readResp resp = Inr (u, rest)" and x: "x = HashOf P d"
    using res by (auto split: if_splits)
  have eff: "effect P ops cfg c (1 # put_bytes d ?tok) (Reply resp) (srv_store s, srv_ledger s) (srv_store s', srv_ledger s')"
    and acc: "accepted (Reply resp)" using serve_accepted [OF sv [unfolded r] r(2)] by auto
  note rd = put_bytes_read [OF assms(3) tl]
  from eff show ?thesis
  proof cases
    case (claim rq l ow y l1 b)
    have rq: "rq = client_put d ?tok" using claim rd by simp
    have "verifyToken P ?tok opPut (HashOf P d) (cfg_self cfg) (conn_now c) = Inr ow"
      using claim(6) rq by (auto simp: put_permitted_def client_put_def stripe_context_def split: if_splits)
    from token_owner [OF assms(1) this assms(2)] obtain k where k: "ns_signer n = Some k" and ow: "ow = ed_public P k" by blast
    have "holds (with_stripe P rq (stripe_context P rq (conn_now c)) b l1) = holds l1"
      by (rule holds_owners) (rule with_stripe_tables)
    then show ?thesis using claim rq x ow k AddOwner_tables(1) [OF claim(8)] by (auto simp: client_put_def)
  qed (use acc x rd in \<open>auto simp: client_put_def\<close>)
qed

lemma delete_acknowledged:
  assumes "sign_law P" and "cfg_self cfg = ns_peer n" and "length sid = idSize"
    and "net_Delete P n ts (serve P ops cfg c) s sid = (s', Inr ())"
  shows "case srv_ledger s of None \<Rightarrow> srv_ledger s' = None \<and> op_Delete ops (srv_store s) sid = (srv_store s', Inr ())
       | Some l \<Rightarrow> \<exists>k l'. ns_signer n = Some k \<and> srv_ledger s' = Some l' \<and> holds l (ed_public P k) sid
           \<and> (\<forall>ow y. holds l' ow y \<longleftrightarrow> holds l ow y \<and> \<not> (ow = ed_public P k \<and> y = sid))
           \<and> srv_store s' = (if \<exists>ow. holds l' ow sid then srv_store s else fst (op_Delete ops (srv_store s) sid))"
proof -
  let ?tok = "authToken P n opDelete sid ts"
  let ?req = "4 # sid @ be_put 4 (length ?tok) @ ?tok"
  note tl = authToken_length [OF assms(1), of n opDelete sid ts]
  obtain resp u rest where sv: "serve P ops cfg c s ?req = (s', Inr resp)" and r: "readResp resp = Inr (u, rest)"
    using assms(4) net_Delete_frame [OF tl, of "serve P ops cfg c" s] by (auto split: prod.splits)
  have eff: "effect P ops cfg c ?req (Reply resp) (srv_store s, srv_ledger s) (srv_store s', srv_ledger s')"
    and acc: "accepted (Reply resp)" using serve_accepted [OF sv r] by auto
  note rd = id_token_read [OF assms(3) tl]
  from eff show ?thesis
  proof cases
    case (unclaim i tok ow l l' m)
    have i: "i = sid" "tok = ?tok" using unclaim rd by auto
    obtain k where "ns_signer n = Some k" "ow = ed_public P k"
      using token_owner [OF assms(1) _ assms(2)] unclaim i by blast
    then show ?thesis using unclaim i RemoveOwner_left [of sid ow l l' m] RemoveOwner_tables(2) [of sid ow l l' m] by auto
  next
    case (remove i tok ow l l' r l2)
    have i: "i = sid" "tok = ?tok" using remove rd by auto
    have l2: "l2 = DropRecord sid l'" using remove i acc by (auto split: if_splits)
    obtain k where k: "ns_signer n = Some k" "ow = ed_public P k"
      using token_owner [OF assms(1) _ assms(2)] remove i by blast
    have rm: "RemoveOwner sid ow l = (l', Inr 0)" using remove i by simp
    have E: "srv_ledger s = Some l" "srv_ledger s' = Some l2" "srv_store s' = fst (op_Delete ops (srv_store s) sid)"
      using remove i(1) by simp_all
    note T = RemoveOwner_tables(2,3) [OF rm]
    have A: "holds l2 x y \<longleftrightarrow> holds l x y \<and> \<not> (x = ow \<and> y = sid)" for x y
      using dropRecordTx_tables(1) [of sid l' x y] T(1) [of x y] T(2) [of x] by (auto simp: l2 DropRecord_def)
    have B: "\<not> holds l2 x sid" for x using A [of x sid] T(1) [of x sid] T(2) [of x] by simp
    have "(\<forall>x y. holds l2 x y \<longleftrightarrow> holds l x y \<and> \<not> (x = ow \<and> y = sid))
      \<and> srv_store s' = (if \<exists>x. holds l2 x sid then srv_store s else fst (op_Delete ops (srv_store s) sid))"
      by (intro conjI allI A) (simp add: B E(3))
    then show ?thesis using k RemoveOwner_left(1) [OF rm] unfolding E(1,2) option.case by blast
  qed (use acc rd in \<open>auto split: if_splits\<close>)
qed

section \<open>A client that is admitted\<close>

text \<open>
  A node admits a signed request: within the limits of the peer's subnet, of concurrent PUTs and of the owner, with
  a token that verifies and was not used before and, for a PUT, the proof of work.
\<close>

definition admits :: "prims \<Rightarrow> server_config \<Rightarrow> conn \<Rightarrow> op \<Rightarrow> shard_id \<Rightarrow> bytes \<Rightarrow> bytes \<Rightarrow> 's server \<Rightarrow> bool" where
  "admits P cfg c opr sid tok ow s \<longleftrightarrow> reached c s
     \<and> (opr = opPut \<longrightarrow> (case cfg_putCap cfg of None \<Rightarrow> True | Some n \<Rightarrow> srv_putBusy s < n) \<and> enforcePoW P cfg ow = Inr ())
     \<and> verifyToken P tok opr sid (cfg_self cfg) (conn_now c) = Inr ow
     \<and> \<not> snd (seen (srv_tokenCache s) (drop (SignPubKeySize + 8) tok) (conn_now c))
     \<and> snd (owner_Allow ow (conn_now c) (srv_limiter s))"

lemma reached_Allow: "reached c s \<Longrightarrow> \<exists>sl. subnet_Allow (conn_addr c) (conn_now c) (srv_subnetLimiter s) = (sl, True)"
  unfolding reached_def by (metis prod.collapse)

lemma admits_authenticate:
  assumes "admits P cfg c opr sid tok ow s"
  shows "\<exists>ch. authenticate P cfg (conn_now c) opr sid tok (s\<lparr>srv_subnetLimiter := x\<rparr>) =
    (s\<lparr>srv_subnetLimiter := x, srv_tokenCache := ch\<rparr>, Inr ow)"
  using assms by (auto simp: admits_def authenticate_def split: prod.splits)

lemma admits_meter:
  assumes "admits P cfg c opr sid tok ow s"
  shows "\<exists>lm. meter (conn_now c) ow (s\<lparr>srv_subnetLimiter := x, srv_tokenCache := ch\<rparr>) =
    (s\<lparr>srv_subnetLimiter := x, srv_tokenCache := ch, srv_limiter := lm\<rparr>, Inr ())"
  using assms by (auto simp: admits_def meter_def split: prod.splits)

lemma admitted_put:
  assumes "content_store P ops A I" and "I (srv_store s)" and "srv_ledger s = Some l"
    and "length d \<le> MaxShardSize" and "length tok = authTokenSize"
    and "admits P cfg c opPut (HashOf P d) tok ow s"
    and "snd (AddOwner (cfg_opts cfg) (HashOf P d) ow (int (length d)) (conn_now c) l) = Inr b"
  shows "\<exists>s'. serve P ops cfg c s (1 # put_bytes d tok) = (s', Inr (statusOK # HashOf P d))"
proof -
  obtain sl where sl: "subnet_Allow (conn_addr c) (conn_now c) (srv_subnetLimiter s) = (sl, True)"
    using reached_Allow assms(6) unfolding admits_def by blast
  obtain ch where au: "authenticate P cfg (conn_now c) opPut (HashOf P d) tok (s\<lparr>srv_subnetLimiter := sl\<rparr>) =
      (s\<lparr>srv_subnetLimiter := sl, srv_tokenCache := ch\<rparr>, Inr ow)" using admits_authenticate [OF assms(6)] by blast
  obtain lm where me: "meter (conn_now c) ow (s\<lparr>srv_subnetLimiter := sl, srv_tokenCache := ch\<rparr>) =
    (s\<lparr>srv_subnetLimiter := sl, srv_tokenCache := ch, srv_limiter := lm\<rparr>, Inr ())" using admits_meter [OF assms(6)] by blast
  have ne: "tok \<noteq> []" using assms(5) by (auto simp: authTokenSize_def SignPubKeySize_def)
  have pow: "enforcePoW P cfg ow = Inr ()"
    and busy: "\<not> (case cfg_putCap cfg of None \<Rightarrow> False | Some n \<Rightarrow> n \<le> srv_putBusy (s\<lparr>srv_subnetLimiter := sl\<rparr>))"
    using assms(6) by (auto simp: admits_def split: option.splits)
  obtain st where st: "op_Put ops (srv_store s) d = (st, Inr (HashOf P d))"
    using content_store.put_law [OF assms(1,2), of d] by (cases "op_Put ops (srv_store s) d") auto
  obtain l1 where add: "AddOwner (cfg_opts cfg) (HashOf P d) ow (int (length d)) (conn_now c) l = (l1, Inr b)"
    using assms(7) by (metis prod.collapse)
  let ?rq = "client_put d tok" and ?s2 = "s\<lparr>srv_subnetLimiter := sl, srv_tokenCache := ch, srv_limiter := lm\<rparr>"
  have ctx: "stripe_context P ?rq (conn_now c) = None" by (simp add: stripe_context_def client_put_def)
  have ap: "authorize_put P cfg c ?rq None (s\<lparr>srv_subnetLimiter := sl\<rparr>) = (?s2, Inr ow)"
    using ne by (simp add: authorize_put_def client_put_def assms(3) au pow me)
  have pm: "police_move c ?rq None ?s2 = ?s2" by (simp add: police_move_def split: option.split)
  have "\<exists>s'. store_put P ops cfg (conn_now c) ?rq None ow ?s2 = (s', ok (HashOf P d))"
    using st add assms(3) by (cases b) (simp_all add: store_put_def put_blob_def put_claim_def client_put_def Let_def)
  then obtain s' where "store_put P ops cfg (conn_now c) ?rq None ow ?s2 = (s', ok (HashOf P d))" by blast
  then have "handlePut P ops cfg c (put_bytes d tok) (s\<lparr>srv_subnetLimiter := sl\<rparr>) = (s', ok (HashOf P d))"
    using busy assms(5) put_bytes_read [OF assms(4), of tok] ctx ap pm by (simp add: handlePut_def Let_def)
  then show ?thesis by (simp add: serve_def handleShard_def sl Let_def ok_def)
qed

lemma admitted_delete:
  assumes "content_store P ops A I" and "I (srv_store s)" and "srv_ledger s = Some l"
    and "length sid = idSize" and "length tok = authTokenSize"
    and "admits P cfg c opDelete sid tok ow s" and "snd (RemoveOwner sid ow l) = Inr m"
  shows "\<exists>s'. serve P ops cfg c s (4 # sid @ be_put 4 (length tok) @ tok) = (s', Inr [statusOK])"
proof -
  obtain sl where sl: "subnet_Allow (conn_addr c) (conn_now c) (srv_subnetLimiter s) = (sl, True)"
    using reached_Allow assms(6) unfolding admits_def by blast
  obtain ch where au: "authenticate P cfg (conn_now c) opDelete sid tok (s\<lparr>srv_subnetLimiter := sl\<rparr>) =
      (s\<lparr>srv_subnetLimiter := sl, srv_tokenCache := ch\<rparr>, Inr ow)" using admits_authenticate [OF assms(6)] by blast
  obtain lm where me: "meter (conn_now c) ow (s\<lparr>srv_subnetLimiter := sl, srv_tokenCache := ch\<rparr>) =
    (s\<lparr>srv_subnetLimiter := sl, srv_tokenCache := ch, srv_limiter := lm\<rparr>, Inr ())" using admits_meter [OF assms(6)] by blast
  obtain st u where st: "op_Delete ops (srv_store s) sid = (st, u)" by fastforce
  have u: "u = Inr () \<or> u = Inl ErrNotFound" using content_store.delete_law [OF assms(1,2) st] by (auto split: if_splits)
  obtain l1 where rm: "RemoveOwner sid ow l = (l1, Inr m)" using assms(7) by (metis prod.collapse)
  have "\<exists>s'. handleDelete P ops cfg c (sid @ be_put 4 (length tok) @ tok) (s\<lparr>srv_subnetLimiter := sl\<rparr>) = (s', ok [])"
    using id_token_read [OF assms(4), of tok] assms(3,5) au me rm st u
    by (auto simp: handleDelete_def delete_claim_def delete_blob_def)
  then show ?thesis by (auto simp: serve_def handleShard_def sl Let_def ok_def)
qed

section \<open>Properties\<close>

text \<open>
  C3: a remote node is its store. Take any node, with or without a ledger and limits, over a store that keeps the
  store contract and holds blobs that fit a frame, and any client, signed or not, that addresses it. A
  GET or HAS through frames, handler and answer returns exactly what the store returns and changes
  nothing, or fails to read when the subnet's limiter turned the stream away. A PUT that the client sees succeed returns the address of the
  bytes and has stored them as the store's Put does; with a ledger the client was signed, its owner holds
  the claim and no other claim changed. A DELETE that the client sees succeed was, without a ledger, the
  store's own Delete; with one it has dropped the claim of the client's owner, no other claim, and the blob exactly when
  that was the last claim.
\<close>

theorem NetStore_refines_store:
  assumes "content_store P ops A I" and "I (srv_store s)" and "sign_law P" and "cfg_self cfg = ns_peer n"
    and "\<forall>x b. A (srv_store s) x = Some b \<longrightarrow> length b \<le> MaxShardSize"
    and "length sid = idSize" and "length d \<le> MaxShardSize"
  shows "(\<exists>s'. net_Get P (serve P ops cfg c) s sid = (s', if reached c s then op_Get ops (srv_store s) sid else Inl ErrRead)
        \<and> node_view s' = node_view s)
    \<and> (\<exists>s'. net_Has (serve P ops cfg c) s sid = (s', if reached c s then op_Has ops (srv_store s) sid else Inl ErrRead)
        \<and> node_view s' = node_view s)
    \<and> (\<forall>s' x. net_Put P n ts (serve P ops cfg c) s d = (s', Inr x) \<longrightarrow>
        x = HashOf P d \<and> srv_store s' = fst (op_Put ops (srv_store s) d)
        \<and> (case srv_ledger s of None \<Rightarrow> srv_ledger s' = None
           | Some l \<Rightarrow> \<exists>k l'. ns_signer n = Some k \<and> srv_ledger s' = Some l'
               \<and> (\<forall>ow y. holds l' ow y \<longleftrightarrow> ow = ed_public P k \<and> y = x \<or> holds l ow y)))
    \<and> (\<forall>s'. net_Delete P n ts (serve P ops cfg c) s sid = (s', Inr ()) \<longrightarrow>
        (case srv_ledger s of None \<Rightarrow> srv_ledger s' = None \<and> op_Delete ops (srv_store s) sid = (srv_store s', Inr ())
         | Some l \<Rightarrow> \<exists>k l'. ns_signer n = Some k \<and> srv_ledger s' = Some l' \<and> holds l (ed_public P k) sid
             \<and> (\<forall>ow y. holds l' ow y \<longleftrightarrow> holds l ow y \<and> \<not> (ow = ed_public P k \<and> y = sid))
             \<and> srv_store s' = (if \<exists>ow. holds l' ow sid then srv_store s else fst (op_Delete ops (srv_store s) sid))))"
proof (intro conjI allI impI)
  show "\<exists>s'. net_Get P (serve P ops cfg c) s sid = (s', if reached c s then op_Get ops (srv_store s) sid else Inl ErrRead)
      \<and> node_view s' = node_view s"
    by (rule remote_get [OF assms(1,2,5,6)])
  show "\<exists>s'. net_Has (serve P ops cfg c) s sid = (s', if reached c s then op_Has ops (srv_store s) sid else Inl ErrRead)
      \<and> node_view s' = node_view s"
    by (rule remote_has [OF assms(1,2,6)])
qed (use put_acknowledged [OF assms(3,4,7)] delete_acknowledged [OF assms(3,4,6)] in blast)+

definition demo_client :: net_store where
  "demo_client = \<lparr>ns_peer = [1], ns_signer = Some [9], ns_grantExpiry = 0\<rparr>"

theorem NetStore_refines_store_witness:
  "\<exists>s' l'. net_Delete demo_prims demo_client 0 (serve demo_prims (mem_ops demo_prims) demo_cfg demo_conn) demo_node demo_sid = (s', Inr ())
     \<and> srv_ledger s' = Some l' \<and> \<not> holds l' demo_owner demo_sid"
proof -
  have tok: "authToken demo_prims demo_client opDelete demo_sid 0 = demo_token" by (simp add: authToken_def demo_client_def demo_token_def)
  obtain s' where h: "handleShard demo_prims (mem_ops demo_prims) demo_cfg demo_conn demo_delete demo_node = (s', Reply [0])"
    using demo_delete_result by blast
  have d: "net_Delete demo_prims demo_client 0 (serve demo_prims (mem_ops demo_prims) demo_cfg demo_conn) demo_node demo_sid = (s', Inr ())"
    using net_Delete_frame [OF authToken_length [OF demo_sign_law, of demo_client opDelete demo_sid 0], of "serve demo_prims (mem_ops demo_prims) demo_cfg demo_conn" demo_node]
      h readResp_OK [of "[]"] by (simp add: tok demo_delete_def serve_def statusOK_def)
  have inv: "mem_inv demo_prims (srv_store demo_node)" using demo_node_inv by (simp add: node_inv_def node_view_def)
  have self: "cfg_self demo_cfg = ns_peer demo_client" by (simp add: demo_cfg_def demo_client_def)
  have small: "\<forall>x b. mem_abs (srv_store demo_node) x = Some b \<longrightarrow> length b \<le> MaxShardSize"
    by (auto simp: mem_abs_def demo_node_parts MaxShardSize_def split: if_splits)
  obtain l where l: "srv_ledger demo_node = Some l" by (simp add: demo_node_parts)
  have own: "ed_public demo_prims [9] = demo_owner" by (simp add: demo_owner_def)
  note T = NetStore_refines_store [OF mem.content_store_axioms inv demo_sign_law self small demo_sid_length, of "[]" demo_conn 0]
  have "\<exists>k l'. ns_signer demo_client = Some k \<and> srv_ledger s' = Some l' \<and> \<not> holds l' (ed_public demo_prims k) demo_sid"
    using T d unfolding l option.case by fastforce
  then show ?thesis using d own by (auto simp: demo_client_def)
qed

text \<open>
  C34: an admitted client is served. Against a node with a ledger, a signed client whose request is within the limits, whose token
  verifies and is fresh and which meets the proof of work: a PUT within its quota succeeds, its owner then holds
  the claim, and a GET that gets through returns bytes with that address; a DELETE of a shard the ledger lets the owner give up succeeds.
\<close>

theorem admitted_client_served:
  assumes "content_store P ops A I" and "I (srv_store s)" and "sign_law P" and "cfg_self cfg = ns_peer n"
    and "ns_signer n = Some k" and "srv_ledger s = Some l"
    and "length sid = idSize" and "length d \<le> MaxShardSize" and "length (HashOf P d) = idSize"
    and "\<forall>x b. A (srv_store s) x = Some b \<longrightarrow> length b \<le> MaxShardSize"
  shows "(admits P cfg c opPut (HashOf P d) (authToken P n opPut (HashOf P d) ts) (ed_public P k) s
        \<and> snd (AddOwner (cfg_opts cfg) (HashOf P d) (ed_public P k) (int (length d)) (conn_now c) l) = Inr b \<longrightarrow>
      (\<exists>s' l'. net_Put P n ts (serve P ops cfg c) s d = (s', Inr (HashOf P d))
         \<and> srv_ledger s' = Some l' \<and> holds l' (ed_public P k) (HashOf P d)
         \<and> (\<forall>c'. reached c' s' \<longrightarrow> (\<exists>bs. snd (net_Get P (serve P ops cfg c') s' (HashOf P d)) = Inr bs \<and> HashOf P bs = HashOf P d))))
    \<and> (admits P cfg c opDelete sid (authToken P n opDelete sid ts) (ed_public P k) s
        \<and> snd (RemoveOwner sid (ed_public P k) l) = Inr m \<longrightarrow>
      (\<exists>s'. net_Delete P n ts (serve P ops cfg c) s sid = (s', Inr ())))"
proof (intro conjI impI; elim conjE)
  have len: "length (authToken P n opr x ts) = authTokenSize" for opr x
    using assms(3,5) by (simp add: authToken_def buildToken_def sign_law_def authTokenSize_def SignPubKeySize_def SignatureSize_def)
  let ?tok = "authToken P n opPut (HashOf P d) ts"
  assume "admits P cfg c opPut (HashOf P d) ?tok (ed_public P k) s"
    and "snd (AddOwner (cfg_opts cfg) (HashOf P d) (ed_public P k) (int (length d)) (conn_now c) l) = Inr b"
  from admitted_put [OF assms(1,2,6,8) len this] obtain s' where
    "serve P ops cfg c s (1 # put_bytes d ?tok) = (s', Inr (statusOK # HashOf P d))" by blast
  then have put: "net_Put P n ts (serve P ops cfg c) s d = (s', Inr (HashOf P d))"
    using net_Put_frame [OF assms(8), of P n ts "serve P ops cfg c" s] len assms(9) by simp
  note ack = put_acknowledged [OF assms(3,4,8) put]
  obtain st r where st: "op_Put ops (srv_store s) d = (st, r)" by fastforce
  note W = content_store.put_law [OF assms(1,2) st]
  have inv': "I (srv_store s')" and abs': "A (srv_store s') = (if A (srv_store s) (HashOf P d) = None then (A (srv_store s))(HashOf P d \<mapsto> d) else A (srv_store s))"
    using ack st W by simp_all
  have small: "\<forall>x b. A (srv_store s') x = Some b \<longrightarrow> length b \<le> MaxShardSize"
    using abs' assms(8,10) by (simp split: if_splits)
  obtain bs where bs: "A (srv_store s') (HashOf P d) = Some bs" using abs' by (cases "A (srv_store s) (HashOf P d)") auto
  have "snd (net_Get P (serve P ops cfg c') s' (HashOf P d)) = Inr bs" if "reached c' s'" for c'
    using remote_get [OF assms(1) inv' small assms(9), of cfg c'] that content_store.get_law [OF assms(1) inv'] bs by auto
  moreover have "HashOf P bs = HashOf P d" using content_store.addressed [OF assms(1) inv' bs] .
  ultimately show "\<exists>s' l'. net_Put P n ts (serve P ops cfg c) s d = (s', Inr (HashOf P d))
       \<and> srv_ledger s' = Some l' \<and> holds l' (ed_public P k) (HashOf P d)
       \<and> (\<forall>c'. reached c' s' \<longrightarrow> (\<exists>bs. snd (net_Get P (serve P ops cfg c') s' (HashOf P d)) = Inr bs \<and> HashOf P bs = HashOf P d))"
    using put ack assms(5,6) by auto
next
  let ?tok = "authToken P n opDelete sid ts"
  have len: "length ?tok = authTokenSize"
    using assms(3,5) by (simp add: authToken_def buildToken_def sign_law_def authTokenSize_def SignPubKeySize_def SignatureSize_def)
  assume "admits P cfg c opDelete sid ?tok (ed_public P k) s" and "snd (RemoveOwner sid (ed_public P k) l) = Inr m"
  from admitted_delete [OF assms(1,2,6,7) len this] obtain s' where
    "serve P ops cfg c s (4 # sid @ be_put 4 (length ?tok) @ ?tok) = (s', Inr [statusOK])" by blast
  then show "\<exists>s'. net_Delete P n ts (serve P ops cfg c) s sid = (s', Inr ())"
    using net_Delete_frame [of P n sid ts "serve P ops cfg c" s] len by simp
qed

theorem admitted_client_served_witness:
  "\<exists>s'. net_Put demo_prims demo_client 0 (serve demo_prims (mem_ops demo_prims) demo_cfg demo_conn) demo_node [5] = (s', Inr demo_sid)"
proof -
  have inv: "mem_inv demo_prims (srv_store demo_node)" using demo_node_inv by (simp add: node_inv_def node_view_def)
  have self: "cfg_self demo_cfg = ns_peer demo_client" by (simp add: demo_cfg_def demo_client_def)
  have signer: "ns_signer demo_client = Some [9]" by (simp add: demo_client_def)
  have small: "\<forall>x b. mem_abs (srv_store demo_node) x = Some b \<longrightarrow> length b \<le> MaxShardSize"
    by (auto simp: mem_abs_def demo_node_parts MaxShardSize_def split: if_splits)
  obtain l where l: "srv_ledger demo_node = Some l" "map_of (tbl_owners l) (demo_sid, demo_owner) \<noteq> None" by (simp add: demo_node_parts)
  have sid: "HashOf demo_prims [5] = demo_sid" and own: "ed_public demo_prims [9] = demo_owner" by (simp_all add: demo_sid_def demo_owner_def)
  let ?tok = "authToken demo_prims demo_client opPut demo_sid 0"
  have "verifyToken demo_prims ?tok opPut demo_sid [1] 0 = Inr demo_owner"
    using verifyToken_buildToken_eq [OF demo_sign_law, of "[9]" opPut demo_sid "[1]" 0 0]
    by (simp add: authToken_def demo_client_def tokenSkew_def demo_owner_def)
  then have adm: "admits demo_prims demo_cfg demo_conn opPut demo_sid ?tok demo_owner demo_node"
    by (simp add: admits_def reached_def subnet_Allow_def demo_node_parts demo_cfg_def demo_conn_def enforcePoW_def owner_Allow_def
        demo_node_def NewServer_def seen_def authCache_gc_def newAuthCache_def)
  have "snd (AddOwner (cfg_opts demo_cfg) demo_sid demo_owner (int (length [5 :: byte])) (conn_now demo_conn) l) = Inr False"
    using l(2) by (simp add: AddOwner_def Let_def)
  moreover have "length [5 :: byte] \<le> MaxShardSize" by (simp add: MaxShardSize_def)
  ultimately show ?thesis
    using admitted_client_served [OF mem.content_store_axioms inv demo_sign_law self signer l(1) demo_sid_length, of "[5]" demo_conn 0 False 0]
      adm small demo_sid_length unfolding sid own by blast
qed

end
