(* ===== verification/Manifest.thy ===== *)
theory Manifest
  imports Pipeline Auth "HOL-Library.Countable"
begin

text \<open>
  \<^verbatim>\<open>src/internal/manifest\<close>: capabilities, file manifests and directories as encrypted blobs
  (\<^verbatim>\<open>manifest.go\<close>, \<^verbatim>\<open>file.go\<close>, \<^verbatim>\<open>dir.go\<close>). Blobs go through the two pipeline calls of \<open>blob_io\<close>;
  \<open>pipeline_io\<close> is the pipeline itself, its state the store and the entropy left.

  \<^verbatim>\<open>encoding/json\<close> is a parameter: for each struct the code marshals, the bytes and the parse, and
  which strings are valid UTF-8 (others do not survive). The structs are records with the fields
  the code gives \<^verbatim>\<open>json.Marshal\<close>; hexadecimal and limits are the code's and are written out.
\<close>

section \<open>Capabilities\<close>

definition KindFile :: byte where "KindFile = 0"
definition KindDir :: byte where "KindDir = 1"

record read_cap =
  rc_Kind :: byte
  rc_Key :: bytes
  rc_Compressed :: bool
  rc_K :: int
  rc_M :: int
  rc_Shards :: "shard_id list"

record verify_cap =
  vc_Kind :: byte
  vc_Compressed :: bool
  vc_K :: int
  vc_M :: int
  vc_Shards :: "shard_id list"

definition zero_key :: bytes where
  "zero_key = replicate KeySize 0"

definition zero_cap :: read_cap where
  "zero_cap = \<lparr>rc_Kind = 0, rc_Key = zero_key, rc_Compressed = False, rc_K = 0, rc_M = 0, rc_Shards = []\<rparr>"

definition VerifyCap :: "read_cap \<Rightarrow> verify_cap" where
  "VerifyCap c = \<lparr>vc_Kind = rc_Kind c, vc_Compressed = rc_Compressed c, vc_K = rc_K c, vc_M = rc_M c, vc_Shards = rc_Shards c\<rparr>"

definition vc_ReadCap :: "verify_cap \<Rightarrow> read_cap" where
  "vc_ReadCap v = \<lparr>rc_Kind = vc_Kind v, rc_Key = zero_key, rc_Compressed = vc_Compressed v, rc_K = vc_K v, rc_M = vc_M v,
     rc_Shards = vc_Shards v\<rparr>"

definition rc_Params :: "read_cap \<Rightarrow> params" where
  "rc_Params c = \<lparr>param_K = rc_K c, param_M = rc_M c\<rparr>"

definition chunkRef :: "read_cap \<Rightarrow> chunk_ref" where
  "chunkRef c = \<lparr>ref_Key = rc_Key c, ref_Compressed = rc_Compressed c, ref_Shards = rc_Shards c\<rparr>"

definition capFromRef :: "byte \<Rightarrow> chunk_ref \<Rightarrow> params \<Rightarrow> read_cap" where
  "capFromRef kind ref p = \<lparr>rc_Kind = kind, rc_Key = ref_Key ref, rc_Compressed = ref_Compressed ref,
     rc_K = param_K p, rc_M = param_M p, rc_Shards = ref_Shards ref\<rparr>"

section \<open>Blobs\<close>

record 's blob_io =
  io_Store :: "'s \<Rightarrow> config \<Rightarrow> bytes \<Rightarrow> 's \<times> chunk_ref res"
  io_Load :: "'s \<Rightarrow> params \<Rightarrow> chunk_ref \<Rightarrow> bytes res"
  io_Reencrypt :: "'s \<Rightarrow> file_manifest \<Rightarrow> 's \<times> file_manifest res"

definition pipeline_io :: "prims \<Rightarrow> rs_new \<Rightarrow> 's store_ops \<Rightarrow> ('s \<Rightarrow> bytes \<Rightarrow> descriptor \<Rightarrow> 's \<times> shard_id res) option
    \<Rightarrow> ('s \<times> bytes) blob_io" where
  "pipeline_io P new ops sp = \<lparr>
     io_Store = (\<lambda>(s, rnd) cfg data. StoreBlob P new ops sp cfg data s rnd),
     io_Load = (\<lambda>(s, rnd) p ref. LoadBlob P new ops p ref s),
     io_Reencrypt = (\<lambda>(s, rnd) m. ReencryptFile P new ops sp m s rnd)\<rparr>"

definition putBlob :: "'s blob_io \<Rightarrow> config \<Rightarrow> byte \<Rightarrow> bytes \<Rightarrow> 's \<Rightarrow> 's \<times> read_cap res" where
  "putBlob io cfg kind data s = (case io_Store io s cfg data of
     (s', Inl e) \<Rightarrow> (s', Inl e) | (s', Inr ref) \<Rightarrow> (s', Inr (capFromRef kind ref (cfg_Params cfg))))"

definition getBlob :: "'s blob_io \<Rightarrow> read_cap \<Rightarrow> byte \<Rightarrow> 's \<Rightarrow> bytes res" where
  "getBlob io c want s = (if rc_Kind c \<noteq> want then Inl ErrKind else io_Load io s (rc_Params c) (chunkRef c))"

text \<open>\<open>VerifyBlob\<close> fetches every shard; lost and damaged ones only count against \<open>K\<close>.\<close>

fun count_present :: "'s store_ops \<Rightarrow> 's \<Rightarrow> shard_id list \<Rightarrow> nat res" where
  "count_present ops s [] = Inr 0"
| "count_present ops s (sid # sids) = (case op_Get ops s sid of
     Inr _ \<Rightarrow> bindR (count_present ops s sids) (\<lambda>n. Inr (n + 1))
   | Inl e \<Rightarrow> if e = ErrNotFound \<or> e = ErrCorrupt then count_present ops s sids else Inl e)"

definition VerifyBlob :: "'s store_ops \<Rightarrow> verify_cap \<Rightarrow> 's \<Rightarrow> unit res" where
  "VerifyBlob ops v s = (if vc_K v \<le> 0 then Inl ErrParams
     else bindR (count_present ops s (vc_Shards v)) (\<lambda>n. if int n < vc_K v then Inl ErrTooFewShards else Inr ()))"

section \<open>Serialized forms\<close>

record cap_json =
  cj_kind :: byte
  cj_key :: string
  cj_compressed :: bool
  cj_k :: int
  cj_m :: int
  cj_shards :: "string list"

record stat_cache =
  st_Kind :: byte
  st_Size :: int
  st_Mode :: "32 word"
  st_ModTimeNS :: "64 word"
  st_ContentVersion :: bytes
  st_MetaVersion :: bytes

record entry =
  en_Name :: string
  en_Cap :: read_cap
  en_Stat :: stat_cache

record entry_json =
  ej_name :: string
  ej_cap :: cap_json
  ej_stat :: stat_cache

record dir_manifest =
  dm_Meta :: metadata
  dm_Entries :: "entry list"

record dir_json =
  dj_version :: int
  dj_meta :: metadata
  dj_entries :: "entry_json list"

record chunk_json =
  kj_key :: string
  kj_compressed :: bool
  kj_shards :: "string list"

record file_json =
  fj_version :: int
  fj_name :: string
  fj_chunk_size :: int
  fj_k :: int
  fj_m :: int
  fj_compress :: bool
  fj_size :: int
  fj_meta :: metadata
  fj_chunks :: "chunk_json list"

record json_codec =
  js_cap :: "cap_json \<Rightarrow> bytes"
  js_cap_parse :: "bytes \<Rightarrow> cap_json option"
  js_dir :: "dir_json \<Rightarrow> bytes"
  js_dir_parse :: "bytes \<Rightarrow> dir_json option"
  js_file :: "file_json \<Rightarrow> bytes"
  js_file_parse :: "bytes \<Rightarrow> file_json option"
  js_utf8 :: "string \<Rightarrow> bool"

definition maxManifestChunks :: nat where "maxManifestChunks = 2 ^ 20"
definition maxManifestShardsPerChunk :: nat where "maxManifestShardsPerChunk = 256"
definition fileManifestVersion :: int where "fileManifestVersion = 4"
definition dirManifestVersion :: int where "dirManifestVersion = 1"

definition decode_fixed :: "nat \<Rightarrow> string \<Rightarrow> bytes res" where
  "decode_fixed n s = (case hex_decode s of None \<Rightarrow> Inl ErrCodec
     | Some raw \<Rightarrow> if length raw \<noteq> n then Inl ErrCodec else Inr raw)"

definition decodeKey :: "string \<Rightarrow> bytes res" where
  "decodeKey s = decode_fixed KeySize s"

definition decodeShardID :: "string \<Rightarrow> shard_id res" where
  "decodeShardID s = decode_fixed idSize s"

fun mapR :: "('a \<Rightarrow> 'b res) \<Rightarrow> 'a list \<Rightarrow> 'b list res" where
  "mapR f [] = Inr []"
| "mapR f (x # xs) = bindR (f x) (\<lambda>y. bindR (mapR f xs) (\<lambda>ys. Inr (y # ys)))"

definition cap_MarshalJSON :: "read_cap \<Rightarrow> cap_json" where
  "cap_MarshalJSON c = \<lparr>cj_kind = rc_Kind c, cj_key = hex_encode (rc_Key c), cj_compressed = rc_Compressed c, cj_k = rc_K c,
     cj_m = rc_M c, cj_shards = map ShardID_String (rc_Shards c)\<rparr>"

definition cap_UnmarshalJSON :: "cap_json \<Rightarrow> read_cap res" where
  "cap_UnmarshalJSON jc = bindR (decodeKey (cj_key jc)) (\<lambda>key.
     if maxManifestShardsPerChunk < length (cj_shards jc) then Inl ErrTooLarge
     else bindR (mapR decodeShardID (cj_shards jc)) (\<lambda>shards.
       Inr \<lparr>rc_Kind = cj_kind jc, rc_Key = key, rc_Compressed = cj_compressed jc, rc_K = cj_k jc, rc_M = cj_m jc, rc_Shards = shards\<rparr>))"

definition cap_MarshalBinary :: "json_codec \<Rightarrow> read_cap \<Rightarrow> bytes" where
  "cap_MarshalBinary J c = js_cap J (cap_MarshalJSON c)"

definition cap_UnmarshalBinary :: "json_codec \<Rightarrow> bytes \<Rightarrow> read_cap res" where
  "cap_UnmarshalBinary J b = (case js_cap_parse J b of None \<Rightarrow> Inl ErrCodec | Some jc \<Rightarrow> cap_UnmarshalJSON jc)"

definition WrapCap :: "prims \<Rightarrow> json_codec \<Rightarrow> bytes \<Rightarrow> read_cap \<Rightarrow> bytes \<Rightarrow> (bytes \<times> bytes) res" where
  "WrapCap P J recipient c rnd = Wrap P recipient (cap_MarshalBinary J c) rnd"

definition UnwrapCap :: "prims \<Rightarrow> json_codec \<Rightarrow> bytes \<Rightarrow> bytes \<Rightarrow> read_cap res" where
  "UnwrapCap P J priv sealed = bindR (Unwrap P priv sealed) (cap_UnmarshalBinary J)"

section \<open>File manifests\<close>

definition EncodeFileManifest :: "json_codec \<Rightarrow> file_manifest \<Rightarrow> bytes" where
  "EncodeFileManifest J m = js_file J
     \<lparr>fj_version = fileManifestVersion, fj_name = fm_Name m, fj_chunk_size = cfg_ChunkSize (fm_Params m),
      fj_k = param_K (cfg_Params (fm_Params m)), fj_m = param_M (cfg_Params (fm_Params m)),
      fj_compress = cfg_Compress (fm_Params m), fj_size = fm_Size m, fj_meta = fm_Meta m,
      fj_chunks = map (\<lambda>ch. \<lparr>kj_key = hex_encode (ref_Key ch), kj_compressed = ref_Compressed ch,
                              kj_shards = map ShardID_String (ref_Shards ch)\<rparr>) (fm_Chunks m)\<rparr>"

definition decode_chunk :: "chunk_json \<Rightarrow> chunk_ref res" where
  "decode_chunk jc = (if maxManifestShardsPerChunk < length (kj_shards jc) then Inl ErrTooLarge
     else bindR (decodeKey (kj_key jc)) (\<lambda>key. bindR (mapR decodeShardID (kj_shards jc)) (\<lambda>shards.
       Inr \<lparr>ref_Key = key, ref_Compressed = kj_compressed jc, ref_Shards = shards\<rparr>)))"

definition DecodeFileManifest :: "json_codec \<Rightarrow> bytes \<Rightarrow> file_manifest res" where
  "DecodeFileManifest J data = (case js_file_parse J data of
     None \<Rightarrow> Inl ErrCodec
   | Some jm \<Rightarrow>
       if fj_version jm < 1 \<or> fileManifestVersion < fj_version jm then Inl ErrVersion
       else if maxManifestChunks < length (fj_chunks jm) then Inl ErrTooLarge
       else if fj_size jm < 0 then Inl ErrInvalid
       else bindR (mapR decode_chunk (fj_chunks jm)) (\<lambda>chunks.
         Inr \<lparr>fm_Name = fj_name jm,
              fm_Params = \<lparr>cfg_ChunkSize = fj_chunk_size jm, cfg_Params = \<lparr>param_K = fj_k jm, param_M = fj_m jm\<rparr>,
                           cfg_Compress = fj_compress jm\<rparr>,
              fm_Size = fj_size jm, fm_Meta = fj_meta jm, fm_Chunks = chunks\<rparr>))"

definition StoreFileManifest :: "json_codec \<Rightarrow> 's blob_io \<Rightarrow> config \<Rightarrow> file_manifest \<Rightarrow> 's \<Rightarrow> 's \<times> read_cap res" where
  "StoreFileManifest J io cfg m s = putBlob io cfg KindFile (EncodeFileManifest J m) s"

definition LoadFileManifest :: "json_codec \<Rightarrow> 's blob_io \<Rightarrow> read_cap \<Rightarrow> 's \<Rightarrow> file_manifest res" where
  "LoadFileManifest J io c s = bindR (getBlob io c KindFile s) (DecodeFileManifest J)"

section \<open>Directories\<close>

definition NewDir :: "metadata \<Rightarrow> dir_manifest" where
  "NewDir meta = \<lparr>dm_Meta = meta, dm_Entries = []\<rparr>"

text \<open>\<^verbatim>\<open>sort.Search\<close>: the least index at which \<open>f\<close> holds, by bisection.\<close>

function search_loop :: "nat \<Rightarrow> nat \<Rightarrow> (nat \<Rightarrow> bool) \<Rightarrow> nat" where
  "search_loop i j f = (if i < j then let h = (i + j) div 2 in
      if \<not> f h then search_loop (h + 1) j f else search_loop i h f
    else i)"
  by pat_completeness auto
termination by (relation "measure (\<lambda>(i, j, _). j - i)") (auto simp: Let_def)

declare search_loop.simps [simp del]

definition Lookup :: "dir_manifest \<Rightarrow> string \<Rightarrow> entry option" where
  "Lookup d name = (let es = dm_Entries d; i = search_loop 0 (length es) (\<lambda>i. name \<le> en_Name (es ! i)) in
     if i < length es \<and> en_Name (es ! i) = name then Some (es ! i) else None)"

definition Upsert :: "entry \<Rightarrow> dir_manifest \<Rightarrow> dir_manifest" where
  "Upsert e d = (if \<exists>cur \<in> set (dm_Entries d). en_Name cur = en_Name e
     then d\<lparr>dm_Entries := map (\<lambda>cur. if en_Name cur = en_Name e then e else cur) (dm_Entries d)\<rparr>
     else d\<lparr>dm_Entries := sort_key en_Name (dm_Entries d @ [e])\<rparr>)"

definition Remove :: "string \<Rightarrow> dir_manifest \<Rightarrow> dir_manifest \<times> bool" where
  "Remove name d = (d\<lparr>dm_Entries := filter (\<lambda>cur. en_Name cur \<noteq> name) (dm_Entries d)\<rparr>,
     \<exists>cur \<in> set (dm_Entries d). en_Name cur = name)"

definition entry_to_json :: "entry \<Rightarrow> entry_json" where
  "entry_to_json e = \<lparr>ej_name = en_Name e, ej_cap = cap_MarshalJSON (en_Cap e), ej_stat = en_Stat e\<rparr>"

definition entry_of_json :: "entry_json \<Rightarrow> entry res" where
  "entry_of_json j = bindR (cap_UnmarshalJSON (ej_cap j)) (\<lambda>c. Inr \<lparr>en_Name = ej_name j, en_Cap = c, en_Stat = ej_stat j\<rparr>)"

definition EncodeDir :: "json_codec \<Rightarrow> dir_manifest \<Rightarrow> bytes" where
  "EncodeDir J d = js_dir J \<lparr>dj_version = dirManifestVersion, dj_meta = dm_Meta d,
     dj_entries = map entry_to_json (sort_key en_Name (dm_Entries d))\<rparr>"

definition DecodeDir :: "json_codec \<Rightarrow> bytes \<Rightarrow> dir_manifest res" where
  "DecodeDir J data = (case js_dir_parse J data of
     None \<Rightarrow> Inl ErrCodec
   | Some jm \<Rightarrow> bindR (mapR entry_of_json (dj_entries jm)) (\<lambda>entries.
       if dj_version jm < 1 \<or> dirManifestVersion < dj_version jm then Inl ErrVersion
       else Inr \<lparr>dm_Meta = dj_meta jm, dm_Entries = sort_key en_Name entries\<rparr>))"

definition StoreDir :: "json_codec \<Rightarrow> 's blob_io \<Rightarrow> config \<Rightarrow> dir_manifest \<Rightarrow> 's \<Rightarrow> 's \<times> read_cap res" where
  "StoreDir J io cfg d s = putBlob io cfg KindDir (EncodeDir J d) s"

definition LoadDir :: "json_codec \<Rightarrow> 's blob_io \<Rightarrow> read_cap \<Rightarrow> 's \<Rightarrow> dir_manifest res" where
  "LoadDir J io c s = bindR (getBlob io c KindDir s) (DecodeDir J)"

section \<open>Paths\<close>

text \<open>
  \<^verbatim>\<open>path.Clean\<close> of a rooted path, as its components: empty and \<^verbatim>\<open>.\<close> components vanish, \<^verbatim>\<open>..\<close> takes the
  component before it away, and nothing at the root.
\<close>

fun split_slash :: "string \<Rightarrow> string list" where
  "split_slash [] = [[]]"
| "split_slash (c # cs) = (if c = CHR ''/'' then [] # split_slash cs
     else (case split_slash cs of [] \<Rightarrow> [[c]] | w # ws \<Rightarrow> (c # w) # ws))"

fun clean_parts :: "string list \<Rightarrow> string list \<Rightarrow> string list" where
  "clean_parts acc [] = rev acc"
| "clean_parts acc (w # ws) =
     (if w = [] \<or> w = ''.'' then clean_parts acc ws
      else if w = ''..'' then clean_parts (tl acc) ws
      else clean_parts (w # acc) ws)"

definition splitPath :: "string \<Rightarrow> string list res" where
  "splitPath p = (let parts = clean_parts [] (split_slash p) in
     if ''..'' \<in> set parts then Inl ErrPath else Inr parts)"

fun resolve_parts :: "json_codec \<Rightarrow> 's blob_io \<Rightarrow> 's \<Rightarrow> read_cap \<Rightarrow> string list \<Rightarrow> read_cap res" where
  "resolve_parts J io s cur [] = Inr cur"
| "resolve_parts J io s cur (name # names) =
     (if rc_Kind cur \<noteq> KindDir then Inl ErrPath
      else bindR (LoadDir J io cur s) (\<lambda>d. case Lookup d name of
        None \<Rightarrow> Inl ErrPath | Some e \<Rightarrow> resolve_parts J io s (en_Cap e) names))"

definition Resolve :: "json_codec \<Rightarrow> 's blob_io \<Rightarrow> 's \<Rightarrow> read_cap \<Rightarrow> string \<Rightarrow> read_cap res" where
  "Resolve J io s root p = bindR (splitPath p) (resolve_parts J io s root)"

definition zero_stat :: stat_cache where
  "zero_stat = \<lparr>st_Kind = 0, st_Size = 0, st_Mode = 0, st_ModTimeNS = 0, st_ContentVersion = [], st_MetaVersion = []\<rparr>"

definition dir_stat :: stat_cache where
  "dir_stat = zero_stat\<lparr>st_Kind := KindDir\<rparr>"

fun resolve_entry_parts :: "json_codec \<Rightarrow> 's blob_io \<Rightarrow> 's \<Rightarrow> read_cap \<Rightarrow> string list \<Rightarrow> entry res" where
  "resolve_entry_parts J io s cur [] = Inr \<lparr>en_Name = [], en_Cap = cur, en_Stat = dir_stat\<rparr>"
| "resolve_entry_parts J io s cur (name # names) =
     (if rc_Kind cur \<noteq> KindDir then Inl ErrPath
      else bindR (LoadDir J io cur s) (\<lambda>d. case Lookup d name of
        None \<Rightarrow> Inl ErrPath
      | Some e \<Rightarrow> if names = [] then Inr e else resolve_entry_parts J io s (en_Cap e) names))"

definition ResolveEntry :: "json_codec \<Rightarrow> 's blob_io \<Rightarrow> 's \<Rightarrow> read_cap \<Rightarrow> string \<Rightarrow> entry res" where
  "ResolveEntry J io s root p = bindR (splitPath p) (resolve_entry_parts J io s root)"

section \<open>Copy-on-write updates\<close>

fun graft :: "json_codec \<Rightarrow> 's blob_io \<Rightarrow> config \<Rightarrow> read_cap \<Rightarrow> string list \<Rightarrow> read_cap \<Rightarrow> stat_cache \<Rightarrow> 's \<Rightarrow> 's \<times> read_cap res" where
  "graft J io cfg dirCap [] child stat s = (s, Inl ErrPath)"
| "graft J io cfg dirCap [name] child stat s = (case LoadDir J io dirCap s of
     Inl e \<Rightarrow> (s, Inl e)
   | Inr d \<Rightarrow> StoreDir J io cfg (Upsert \<lparr>en_Name = name, en_Cap = child, en_Stat = stat\<lparr>st_Kind := rc_Kind child\<rparr>\<rparr> d) s)"
| "graft J io cfg dirCap (name # n2 # names) child stat s = (case LoadDir J io dirCap s of
     Inl e \<Rightarrow> (s, Inl e)
   | Inr d \<Rightarrow> (case (case Lookup d name of
          Some e \<Rightarrow> if rc_Kind (en_Cap e) \<noteq> KindDir then (s, Inl ErrPath) else (s, Inr (en_Cap e))
        | None \<Rightarrow> StoreDir J io cfg (NewDir zero_metadata) s) of
       (s1, Inl e) \<Rightarrow> (s1, Inl e)
     | (s1, Inr subCap) \<Rightarrow> (case graft J io cfg subCap (n2 # names) child stat s1 of
         (s2, Inl e) \<Rightarrow> (s2, Inl e)
       | (s2, Inr newSub) \<Rightarrow> StoreDir J io cfg (Upsert \<lparr>en_Name = name, en_Cap = newSub, en_Stat = dir_stat\<rparr> d) s2)))"

definition Graft :: "json_codec \<Rightarrow> 's blob_io \<Rightarrow> config \<Rightarrow> read_cap \<Rightarrow> string \<Rightarrow> read_cap \<Rightarrow> stat_cache \<Rightarrow> 's \<Rightarrow> 's \<times> read_cap res" where
  "Graft J io cfg root p child stat s = (case splitPath p of
     Inl e \<Rightarrow> (s, Inl e)
   | Inr parts \<Rightarrow> if parts = [] then (s, Inl ErrPath) else graft J io cfg root parts child stat s)"

fun graftRemove :: "json_codec \<Rightarrow> 's blob_io \<Rightarrow> config \<Rightarrow> read_cap \<Rightarrow> string list \<Rightarrow> 's \<Rightarrow> 's \<times> read_cap res" where
  "graftRemove J io cfg dirCap [] s = (s, Inl ErrPath)"
| "graftRemove J io cfg dirCap [name] s = (case LoadDir J io dirCap s of
     Inl e \<Rightarrow> (s, Inl e)
   | Inr d \<Rightarrow> (case Remove name d of (out, removed) \<Rightarrow>
       if \<not> removed then (s, Inl ErrPath) else StoreDir J io cfg out s))"
| "graftRemove J io cfg dirCap (name # n2 # names) s = (case LoadDir J io dirCap s of
     Inl e \<Rightarrow> (s, Inl e)
   | Inr d \<Rightarrow> (case Lookup d name of
       None \<Rightarrow> (s, Inl ErrPath)
     | Some e \<Rightarrow> if rc_Kind (en_Cap e) \<noteq> KindDir then (s, Inl ErrPath)
         else (case graftRemove J io cfg (en_Cap e) (n2 # names) s of
           (s1, Inl err) \<Rightarrow> (s1, Inl err)
         | (s1, Inr newSub) \<Rightarrow> StoreDir J io cfg (Upsert \<lparr>en_Name = name, en_Cap = newSub, en_Stat = dir_stat\<rparr> d) s1)))"

definition GraftRemove :: "json_codec \<Rightarrow> 's blob_io \<Rightarrow> config \<Rightarrow> read_cap \<Rightarrow> string \<Rightarrow> 's \<Rightarrow> 's \<times> read_cap res" where
  "GraftRemove J io cfg root p s = (case splitPath p of
     Inl e \<Rightarrow> (s, Inl e)
   | Inr parts \<Rightarrow> if parts = [] then (s, Inl ErrPath) else graftRemove J io cfg root parts s)"

end
