(* ===== verification/Namespace.thy ===== *)
theory Namespace
  imports Manifest "HOL-Library.Sublist"
begin

text \<open>
  The namespace as a whole: what is written under a path is what is resolved there, and nothing
  else moves. The serialized forms round-trip; the directory operations implement a finite map;
  the locale \<open>blob_store\<close> is what the directory layer needs of the blob layer, provided by the
  pipeline over any lawful store.
\<close>

section \<open>Serialized forms round-trip\<close>

definition cap_ok :: "read_cap \<Rightarrow> bool" where
  "cap_ok c \<longleftrightarrow> length (rc_Key c) = KeySize \<and> rc_Shards c \<noteq> [] \<and> length (rc_Shards c) \<le> maxManifestShardsPerChunk
     \<and> list_all (\<lambda>sid. length sid = idSize) (rc_Shards c)"

definition cap_utf8 :: "json_codec \<Rightarrow> cap_json \<Rightarrow> bool" where
  "cap_utf8 J jc \<longleftrightarrow> js_utf8 J (cj_key jc) \<and> list_all (js_utf8 J) (cj_shards jc)"

definition meta_utf8 :: "json_codec \<Rightarrow> metadata \<Rightarrow> bool" where
  "meta_utf8 J m \<longleftrightarrow> js_utf8 J (md_ContentType m) \<and> js_utf8 J (md_SymlinkTarget m)
     \<and> list_all (js_utf8 J) (map fst (md_Xattr m)) \<and> sorted_wrt (<) (map fst (md_Xattr m))"

definition dir_utf8 :: "json_codec \<Rightarrow> dir_json \<Rightarrow> bool" where
  "dir_utf8 J jd \<longleftrightarrow> meta_utf8 J (dj_meta jd) \<and> list_all (\<lambda>e. js_utf8 J (ej_name e) \<and> cap_utf8 J (ej_cap e)) (dj_entries jd)"

definition file_utf8 :: "json_codec \<Rightarrow> file_json \<Rightarrow> bool" where
  "file_utf8 J jf \<longleftrightarrow> js_utf8 J (fj_name jf) \<and> meta_utf8 J (fj_meta jf)
     \<and> list_all (\<lambda>c. js_utf8 J (kj_key c) \<and> list_all (js_utf8 J) (kj_shards c)) (fj_chunks jf)"

text \<open>
  What is relied on of \<^verbatim>\<open>encoding/json\<close>: values whose strings are valid UTF-8 round-trip (a map's keys
  come back sorted), a parsed value has such strings, and hexadecimal digits are valid UTF-8.
\<close>

definition json_law :: "json_codec \<Rightarrow> bool" where
  "json_law J \<longleftrightarrow> (\<forall>j. cap_utf8 J j \<longrightarrow> js_cap_parse J (js_cap J j) = Some j)
     \<and> (\<forall>j. dir_utf8 J j \<longrightarrow> js_dir_parse J (js_dir J j) = Some j)
     \<and> (\<forall>j. file_utf8 J j \<longrightarrow> js_file_parse J (js_file J j) = Some j)
     \<and> (\<forall>b j. js_dir_parse J b = Some j \<longrightarrow> dir_utf8 J j)
     \<and> (\<forall>bs. js_utf8 J (hex_encode bs)) \<and> js_utf8 J []"

lemma decode_fixed_hex [simp]: "length b = n \<Longrightarrow> decode_fixed n (hex_encode b) = Inr b"
  by (simp add: decode_fixed_def)

lemma mapR_map: "(\<And>x. x \<in> set xs \<Longrightarrow> f (g x) = Inr (h x)) \<Longrightarrow> mapR f (map g xs) = Inr (map h xs)"
  by (induction xs) auto

lemma mapR_decode_ids: "list_all (\<lambda>sid. length sid = idSize) ids \<Longrightarrow> mapR decodeShardID (map ShardID_String ids) = Inr ids"
  using mapR_map [of ids decodeShardID ShardID_String "\<lambda>x. x"]
  by (simp add: list_all_iff decodeShardID_def ShardID_String_def)

lemma cap_roundtrip: "cap_ok c \<Longrightarrow> cap_UnmarshalJSON (cap_MarshalJSON c) = Inr c"
  by (simp add: cap_ok_def cap_UnmarshalJSON_def cap_MarshalJSON_def decodeKey_def mapR_decode_ids)

lemma cap_utf8_Marshal [simp]: "json_law J \<Longrightarrow> cap_utf8 J (cap_MarshalJSON c)"
  by (simp add: cap_utf8_def cap_MarshalJSON_def json_law_def list_all_iff ShardID_String_def)

lemma cap_binary_roundtrip: "json_law J \<Longrightarrow> cap_ok c \<Longrightarrow> cap_UnmarshalBinary J (cap_MarshalBinary J c) = Inr c"
  using cap_utf8_Marshal [of J c] cap_roundtrip
  by (simp add: cap_UnmarshalBinary_def cap_MarshalBinary_def json_law_def)

lemma sort_key_sorted: "sorted (map f xs) \<Longrightarrow> sort_key f xs = xs"
  by (rule sort_key_id_if_sorted) 

text \<open>A directory as the code builds it: names valid, sorted, without duplicates, capabilities well-formed.\<close>

definition dir_ok :: "json_codec \<Rightarrow> dir_manifest \<Rightarrow> bool" where
  "dir_ok J d \<longleftrightarrow> meta_utf8 J (dm_Meta d) \<and> list_all (\<lambda>e. js_utf8 J (en_Name e) \<and> cap_ok (en_Cap e)) (dm_Entries d)
     \<and> sorted_wrt (<) (map en_Name (dm_Entries d))"

lemma dir_ok_sorted: "dir_ok J d \<Longrightarrow> sorted (map en_Name (dm_Entries d)) \<and> distinct (map en_Name (dm_Entries d))"
  by (simp add: dir_ok_def strict_sorted_iff)

lemma DecodeDir_EncodeDir:
  assumes "json_law J" and "dir_ok J d"
  shows "DecodeDir J (EncodeDir J d) = Inr d"
proof -
  have s: "sort_key en_Name (dm_Entries d) = dm_Entries d" using sort_key_sorted dir_ok_sorted [OF assms(2)] by blast
  let ?j = "\<lparr>dj_version = dirManifestVersion, dj_meta = dm_Meta d, dj_entries = map entry_to_json (dm_Entries d)\<rparr>"
  have "dir_utf8 J ?j" using assms cap_utf8_Marshal [OF assms(1)]
    by (auto simp: dir_utf8_def dir_ok_def list_all_iff entry_to_json_def)
  then have p: "js_dir_parse J (js_dir J ?j) = Some ?j" using assms(1) by (simp add: json_law_def)
  have "mapR entry_of_json (map entry_to_json (dm_Entries d)) = Inr (map (\<lambda>e. e) (dm_Entries d))"
    using assms(2) by (intro mapR_map) (auto simp: dir_ok_def list_all_iff entry_of_json_def entry_to_json_def cap_roundtrip)
  then show ?thesis unfolding DecodeDir_def EncodeDir_def s p by (simp add: s) (simp add: dirManifestVersion_def)
qed

definition file_ok_json :: "json_codec \<Rightarrow> file_manifest \<Rightarrow> bool" where
  "file_ok_json J m \<longleftrightarrow> js_utf8 J (fm_Name m) \<and> meta_utf8 J (fm_Meta m) \<and> 0 \<le> fm_Size m
     \<and> length (fm_Chunks m) \<le> maxManifestChunks
     \<and> list_all (\<lambda>ch. length (ref_Key ch) = KeySize \<and> length (ref_Shards ch) \<le> maxManifestShardsPerChunk
          \<and> list_all (\<lambda>sid. length sid = idSize) (ref_Shards ch)) (fm_Chunks m)"

lemma DecodeFileManifest_Encode:
  assumes "json_law J" and "file_ok_json J m"
  shows "DecodeFileManifest J (EncodeFileManifest J m) = Inr m"
proof -
  let ?cj = "\<lambda>ch. \<lparr>kj_key = hex_encode (ref_Key ch), kj_compressed = ref_Compressed ch, kj_shards = map ShardID_String (ref_Shards ch)\<rparr>"
  let ?j = "\<lparr>fj_version = fileManifestVersion, fj_name = fm_Name m, fj_chunk_size = cfg_ChunkSize (fm_Params m),
      fj_k = param_K (cfg_Params (fm_Params m)), fj_m = param_M (cfg_Params (fm_Params m)),
      fj_compress = cfg_Compress (fm_Params m), fj_size = fm_Size m, fj_meta = fm_Meta m, fj_chunks = map ?cj (fm_Chunks m)\<rparr>"
  have "file_utf8 J ?j" using assms
    by (auto simp: file_utf8_def file_ok_json_def list_all_iff json_law_def ShardID_String_def)
  then have p: "js_file_parse J (js_file J ?j) = Some ?j" using assms(1) by (simp add: json_law_def)
  have "mapR decode_chunk (map ?cj (fm_Chunks m)) = Inr (map (\<lambda>ch. ch) (fm_Chunks m))"
    using assms(2) by (intro mapR_map)
      (auto simp: decode_chunk_def file_ok_json_def list_all_iff decodeKey_def mapR_decode_ids [unfolded list_all_iff])
  then show ?thesis using p assms(2)
    by (simp add: DecodeFileManifest_def EncodeFileManifest_def fileManifestVersion_def file_ok_json_def)
qed

section \<open>Directories are finite maps\<close>

definition dir_map :: "dir_manifest \<Rightarrow> string \<Rightarrow> entry option" where
  "dir_map d = map_of (map (\<lambda>e. (en_Name e, e)) (dm_Entries d))"

lemma search_loop_bounds:
  assumes "i \<le> j" and "\<And>a b. a \<le> b \<Longrightarrow> f a \<Longrightarrow> b < j \<Longrightarrow> f b"
  shows "i \<le> search_loop i j f \<and> search_loop i j f \<le> j \<and> (\<forall>a. i \<le> a \<longrightarrow> a < search_loop i j f \<longrightarrow> \<not> f a)
    \<and> (search_loop i j f < j \<longrightarrow> f (search_loop i j f))"
  using assms
proof (induction i j f rule: search_loop.induct)
  case (1 i j f)
  show ?case
  proof (cases "i < j")
    case True
    let ?h = "(i + j) div 2"
    have h: "i \<le> ?h" "?h < j" using True by auto
    show ?thesis
    proof (cases "f ?h")
      case f: True
      have IH: "i \<le> search_loop i ?h f \<and> search_loop i ?h f \<le> ?h \<and> (\<forall>a. i \<le> a \<longrightarrow> a < search_loop i ?h f \<longrightarrow> \<not> f a)
          \<and> (search_loop i ?h f < ?h \<longrightarrow> f (search_loop i ?h f))"
        proof (rule "1.IH"(2) [OF True refl])
        show "\<not> \<not> f ?h" "i \<le> ?h" using f h by auto
      qed (use "1.prems"(2) h in \<open>meson less_trans\<close>)
      have "search_loop i j f = search_loop i ?h f" using True f by (subst search_loop.simps) (simp add: Let_def)
      then show ?thesis using IH f h by (auto simp: le_less)
    next
      case f: False
      have IH: "?h + 1 \<le> search_loop (?h + 1) j f \<and> search_loop (?h + 1) j f \<le> j
          \<and> (\<forall>a. ?h + 1 \<le> a \<longrightarrow> a < search_loop (?h + 1) j f \<longrightarrow> \<not> f a)
          \<and> (search_loop (?h + 1) j f < j \<longrightarrow> f (search_loop (?h + 1) j f))"
        proof (rule "1.IH"(1) [OF True refl f])
        show "?h + 1 \<le> j" using h by simp
      qed (use "1.prems"(2) in blast)
      have "\<not> f a" if "i \<le> a" "a \<le> ?h" for a using "1.prems"(2) [of a ?h] f h that by auto
      then have "\<not> f a" if "i \<le> a" "a < search_loop (?h + 1) j f" for a using IH that by (cases "a \<le> ?h") auto
      moreover have "search_loop i j f = search_loop (?h + 1) j f" using True f by (subst search_loop.simps) (simp add: Let_def)
      ultimately show ?thesis using IH h by auto
    qed
  next
    case False
    then have "search_loop i j f = i" by (subst search_loop.simps) simp
    then show ?thesis using "1.prems"(1) False by simp
  qed
qed

lemma map_of_nth_entries:
  assumes "distinct (map en_Name es)" and "i < length es"
  shows "map_of (map (\<lambda>e. (en_Name e, e)) es) (en_Name (es ! i)) = Some (es ! i)"
  using assms by (intro map_of_is_SomeI) (auto simp: comp_def)

lemma Lookup_dir_map:
  assumes "sorted (map en_Name (dm_Entries d))" and "distinct (map en_Name (dm_Entries d))"
  shows "Lookup d name = dir_map d name"
proof -
  let ?es = "dm_Entries d" and ?f = "\<lambda>i. name \<le> en_Name (dm_Entries d ! i)"
  let ?i = "search_loop 0 (length ?es) ?f"
  have mono: "?f b" if "a \<le> b" "?f a" "b < length ?es" for a b
    using that assms(1) sorted_nth_mono [of "map en_Name ?es" a b] by auto
  have B: "0 \<le> ?i \<and> ?i \<le> length ?es \<and> (\<forall>a. 0 \<le> a \<longrightarrow> a < ?i \<longrightarrow> \<not> ?f a) \<and> (?i < length ?es \<longrightarrow> ?f ?i)"
    by (rule search_loop_bounds) (simp, rule mono)
  then have S: "?i \<le> length ?es" "\<And>a. a < ?i \<Longrightarrow> \<not> ?f a" "?i < length ?es \<Longrightarrow> ?f ?i" by blast+
  have Lk: "Lookup d name = (if ?i < length ?es \<and> en_Name (?es ! ?i) = name then Some (?es ! ?i) else None)"
    by (simp add: Lookup_def Let_def)
  show ?thesis
  proof (cases "dir_map d name")
    case None
    then have "name \<notin> en_Name ` set ?es" by (auto simp: dir_map_def map_of_eq_None_iff image_iff)
    then have "\<not> (?i < length ?es \<and> en_Name (?es ! ?i) = name)" by (metis image_eqI nth_mem)
    then show ?thesis using None Lk by simp
  next
    case (Some e)
    then have "e \<in> set ?es" "en_Name e = name" by (auto simp: dir_map_def dest!: map_of_SomeD)
    then obtain k where k: "k < length ?es" "?es ! k = e" "en_Name (?es ! k) = name" by (auto simp: in_set_conv_nth)
    have i: "?i \<le> k"
    proof (rule ccontr)
      assume "\<not> ?thesis"
      then show False using S(2) [of k] k(3) by simp
    qed
    then have il: "?i < length ?es" using k by simp
    then have "?f ?i" by (rule S(3))
    moreover have "en_Name (?es ! ?i) \<le> en_Name (?es ! k)" using assms(1) i k sorted_nth_mono [of "map en_Name ?es" ?i k] by auto
    ultimately have n: "en_Name (?es ! ?i) = name" using k by simp
    then have "dir_map d name = Some (?es ! ?i)" using map_of_nth_entries [OF assms(2) il] by (simp add: dir_map_def)
    then show ?thesis using il n Lk by simp
  qed
qed

lemma map_en_Name_Upsert: "map en_Name (map (\<lambda>cur. if en_Name cur = en_Name e then e else cur) es) = map en_Name es"
  by simp

lemma Upsert_sorted:
  assumes "sorted_wrt (<) (map en_Name (dm_Entries d))"
  shows "sorted_wrt (<) (map en_Name (dm_Entries (Upsert e d)))"
proof (cases "\<exists>cur \<in> set (dm_Entries d). en_Name cur = en_Name e")
  case True
  then show ?thesis using assms by (simp add: Upsert_def comp_def if_distrib cong: if_cong)
next
  case False
  then have "distinct (map en_Name (sort_key en_Name (dm_Entries d @ [e])))"
    using assms by (auto simp: distinct_map strict_sorted_iff inj_on_def)
  then show ?thesis using False by (simp add: Upsert_def strict_sorted_iff)
qed

lemma set_Upsert: "set (dm_Entries (Upsert e d)) = insert e {x \<in> set (dm_Entries d). en_Name x \<noteq> en_Name e}"
  by (auto simp: Upsert_def)

lemma map_of_entries_iff:
  assumes "distinct (map en_Name es)"
  shows "map_of (map (\<lambda>e. (en_Name e, e)) es) n = Some x \<longleftrightarrow> x \<in> set es \<and> en_Name x = n"
  using assms by (auto simp: comp_def dest!: map_of_SomeD intro: map_of_is_SomeI)

lemma dir_map_Upsert:
  assumes "sorted_wrt (<) (map en_Name (dm_Entries d))"
  shows "dir_map (Upsert e d) = (dir_map d)(en_Name e \<mapsto> e)"
proof
  fix n
  have d1: "distinct (map en_Name (dm_Entries (Upsert e d)))" and d2: "distinct (map en_Name (dm_Entries d))"
    using Upsert_sorted [OF assms] assms by (simp_all add: strict_sorted_iff)
  have "dir_map (Upsert e d) n = Some x \<longleftrightarrow> ((dir_map d)(en_Name e \<mapsto> e)) n = Some x" for x
    unfolding dir_map_def map_of_entries_iff [OF d1] set_Upsert using map_of_entries_iff [OF d2] by auto
  then show "dir_map (Upsert e d) n = ((dir_map d)(en_Name e \<mapsto> e)) n" by (metis option.exhaust)
qed

lemma dir_map_Remove:
  assumes "sorted_wrt (<) (map en_Name (dm_Entries d))" and "Remove name d = (d', b)"
  shows "dir_map d' = (dir_map d)(name := None)" and "b \<longleftrightarrow> dir_map d name \<noteq> None"
    and "sorted_wrt (<) (map en_Name (dm_Entries d'))"
proof -
  have d: "distinct (map en_Name (dm_Entries d))" using assms by (simp add: strict_sorted_iff)
  have d': "dm_Entries d' = filter (\<lambda>cur. en_Name cur \<noteq> name) (dm_Entries d)" using assms(2) by (auto simp: Remove_def)
  show s: "sorted_wrt (<) (map en_Name (dm_Entries d'))" using assms(1) by (simp add: d' sorted_wrt_filter sorted_wrt_map)
  have d2: "distinct (map en_Name (dm_Entries d'))" using s by (simp add: strict_sorted_iff)
  show "dir_map d' = (dir_map d)(name := None)"
  proof
    fix n
    have "dir_map d' n = Some x \<longleftrightarrow> ((dir_map d)(name := None)) n = Some x" for x
      unfolding dir_map_def map_of_entries_iff [OF d2] using map_of_entries_iff [OF d] by (auto simp: d')
    then show "dir_map d' n = ((dir_map d)(name := None)) n" by (metis option.exhaust)
  qed
  show "b \<longleftrightarrow> dir_map d name \<noteq> None" using assms(2)
    by (auto simp: Remove_def dir_map_def map_of_eq_None_iff image_iff)
qed

text \<open>Two paths that diverge.\<close>

definition apart :: "string list \<Rightarrow> string list \<Rightarrow> bool" where
  "apart ps qs \<longleftrightarrow> \<not> prefix ps qs \<and> \<not> prefix qs ps"

lemma apart_Cons: "apart (n # ns) qs \<longleftrightarrow> (\<exists>m ms. qs = m # ms \<and> (m = n \<longrightarrow> apart ns ms))"
  by (cases qs) (auto simp: apart_def)

lemma apart_Nil: "\<not> apart [] qs" "\<not> apart qs []"
  by (simp_all add: apart_def)

section \<open>What the directory layer needs of the blob layer\<close>

text \<open>
  \<open>stored s c x\<close>: the blob of capability \<open>c\<close> is \<open>x\<close> and will read back. A namespace is intact below a
  capability when every directory under it is stored and well-formed.
\<close>

inductive intact :: "json_codec \<Rightarrow> (read_cap \<Rightarrow> bytes \<Rightarrow> bool) \<Rightarrow> read_cap \<Rightarrow> bool" for J st where
  leaf: "rc_Kind c \<noteq> KindDir \<Longrightarrow> intact J st c"
| dir: "rc_Kind c = KindDir \<Longrightarrow> st c (EncodeDir J d) \<Longrightarrow> dir_ok J d \<Longrightarrow> (\<forall>e \<in> set (dm_Entries d). intact J st (en_Cap e)) \<Longrightarrow> intact J st c"

lemma intact_mono:
  assumes "intact J st c" and "\<forall>c x. st c x \<longrightarrow> st' c x"
  shows "intact J st' c"
  using assms(1)
proof (induction rule: intact.induct)
  case (leaf c)
  then show ?case by (rule intact.leaf)
next
  case (dir c d)
  show ?case by (rule intact.dir [of c st' J d]) (use dir assms(2) in auto)
qed

text \<open>
  \<open>fine s\<close> says that nothing went wrong up to \<open>s\<close> that the code cannot see, a collision of
  addresses: it can only be lost. What was stored on the way to a fine state reads back.
\<close>

locale blob_store =
  fixes J :: json_codec and io :: "'s blob_io" and cfg :: config
    and stored :: "'s \<Rightarrow> read_cap \<Rightarrow> bytes \<Rightarrow> bool" and inv :: "'s \<Rightarrow> bool" and fine :: "'s \<Rightarrow> bool"
  assumes json: "json_law J"
    and load: "inv s \<Longrightarrow> stored s c x \<Longrightarrow> io_Load io s (rc_Params c) (chunkRef c) = Inr x"
    and store: "inv s \<Longrightarrow> io_Store io s cfg x = (s', r) \<Longrightarrow>
      inv s' \<and> (fine s' \<longrightarrow> fine s) \<and> (\<forall>c y. stored s c y \<longrightarrow> stored s' c y)"
    and stored_new: "inv s \<Longrightarrow> io_Store io s cfg x = (s', Inr ref) \<Longrightarrow> fine s' \<Longrightarrow>
      stored s' (capFromRef kind ref (cfg_Params cfg)) x \<and> cap_ok (capFromRef kind ref (cfg_Params cfg))"
begin

definition later :: "'s \<Rightarrow> 's \<Rightarrow> bool" where
  "later s s' \<longleftrightarrow> inv s' \<and> (fine s' \<longrightarrow> fine s) \<and> (\<forall>c x. stored s c x \<longrightarrow> stored s' c x)"

lemma later_refl: "inv s \<Longrightarrow> later s s"
  by (simp add: later_def)

lemma later_trans: "later s t \<Longrightarrow> later t u \<Longrightarrow> later s u"
  by (simp add: later_def)

lemma StoreDir_later: "inv s \<Longrightarrow> StoreDir J io cfg d s = (s', r) \<Longrightarrow> later s s'"
  using store by (auto simp: StoreDir_def putBlob_def later_def split: prod.splits sum.splits)

lemma LoadDir_stored: "inv s \<Longrightarrow> stored s c (EncodeDir J d) \<Longrightarrow> dir_ok J d \<Longrightarrow> rc_Kind c = KindDir \<Longrightarrow> LoadDir J io c s = Inr d"
  using load DecodeDir_EncodeDir [OF json] by (simp add: LoadDir_def getBlob_def)

lemma intact_LoadDir:
  assumes "inv s" and "intact J (stored s) c" and "rc_Kind c = KindDir"
  shows "\<exists>d. LoadDir J io c s = Inr d \<and> dir_ok J d \<and> stored s c (EncodeDir J d) \<and> (\<forall>e \<in> set (dm_Entries d). intact J (stored s) (en_Cap e))"
  using assms(2)
proof cases
  case leaf
  then show ?thesis using assms(3) by simp
next
  case (dir d)
  then show ?thesis using LoadDir_stored [OF assms(1)] by blast
qed

lemma intact_later: "intact J (stored s) c \<Longrightarrow> later s s' \<Longrightarrow> intact J (stored s') c"
  by (rule intact_mono) (auto simp: later_def)

lemma Lookup_intact:
  assumes "dir_ok J d" and "Lookup d name = Some e"
  shows "e \<in> set (dm_Entries d)" and "en_Name e = name"
  using assms Lookup_dir_map [of d name] dir_ok_sorted [OF assms(1)]
  by (auto simp: dir_map_def dest!: map_of_SomeD)

lemma resolve_later:
  assumes "inv s" and "later s s'" and "intact J (stored s) c"
  shows "resolve_parts J io s' c ps = resolve_parts J io s c ps"
  using assms(3)
proof (induction ps arbitrary: c)
  case (Cons name names)
  show ?case
  proof (cases "rc_Kind c = KindDir")
    case True
    obtain d where d: "LoadDir J io c s = Inr d" "dir_ok J d" "stored s c (EncodeDir J d)" "\<forall>e \<in> set (dm_Entries d). intact J (stored s) (en_Cap e)"
      using intact_LoadDir [OF assms(1) Cons.prems True] by blast
    have "LoadDir J io c s' = Inr d" using LoadDir_stored [of s' c d] d assms(2) True by (auto simp: later_def)
    then show ?thesis using d Cons.IH Lookup_intact [OF d(2), of name] True by (auto split: option.splits)
  qed simp
qed simp

lemma StoreDir_new:
  assumes "inv s" and "StoreDir J io cfg d s = (s', Inr c)" and "fine s'" and "dir_ok J d"
    and "\<forall>e \<in> set (dm_Entries d). intact J (stored s) (en_Cap e)"
  shows "rc_Kind c = KindDir \<and> cap_ok c \<and> intact J (stored s') c \<and> LoadDir J io c s' = Inr d"
proof -
  obtain ref where st: "io_Store io s cfg (EncodeDir J d) = (s', Inr ref)" and c: "c = capFromRef KindDir ref (cfg_Params cfg)"
    using assms(2) by (auto simp: StoreDir_def putBlob_def split: prod.splits sum.splits)
  have N: "stored s' c (EncodeDir J d)" "cap_ok c" using stored_new [OF assms(1) st assms(3)] c by simp_all
  have k: "rc_Kind c = KindDir" using c by (simp add: capFromRef_def)
  have L: "later s s'" by (rule StoreDir_later [OF assms(1,2)])
  have "intact J (stored s') c" using intact.dir [of c "stored s'" J d, OF k N(1) assms(4)] assms(5) intact_later [OF _ L] by blast
  moreover have "LoadDir J io c s' = Inr d" using LoadDir_stored [of s' c d] N(1) k assms(4) L by (simp add: later_def)
  ultimately show ?thesis using k N by blast
qed

lemma dir_ok_Upsert:
  assumes "dir_ok J d" and "js_utf8 J (en_Name e)" and "cap_ok (en_Cap e)"
  shows "dir_ok J (Upsert e d)"
  using assms Upsert_sorted [of d e] set_Upsert [of e d]
  by (auto simp: dir_ok_def list_all_iff Upsert_def split: if_splits)

lemma resolve_dir:
  assumes "LoadDir J io c s = Inr d" and "dir_ok J d" and "rc_Kind c = KindDir"
  shows "resolve_parts J io s c (name # names) =
    (case dir_map d name of None \<Rightarrow> Inl ErrPath | Some e \<Rightarrow> resolve_parts J io s (en_Cap e) names)"
  using assms Lookup_dir_map [of d name] dir_ok_sorted [OF assms(2)] by simp

lemma graft_cases:
  assumes "graft J io cfg c (name # n2 # names) child stat s = (s', r)"
  obtains (early) "s' = s" "isl r"
  | (mkdir) d s1 e where "LoadDir J io c s = Inr d" "Lookup d name = None" "StoreDir J io cfg (NewDir zero_metadata) s = (s1, Inl e)" "s' = s1" "isl r"
  | (sub) d s1 sub s2 err where "LoadDir J io c s = Inr d" "s1 = s \<and> (\<exists>e. Lookup d name = Some e \<and> sub = en_Cap e \<and> rc_Kind sub = KindDir)
        \<or> Lookup d name = None \<and> StoreDir J io cfg (NewDir zero_metadata) s = (s1, Inr sub)"
      "graft J io cfg sub (n2 # names) child stat s1 = (s2, Inl err)" "s' = s2" "isl r"
  | (all) d s1 sub s2 new where "LoadDir J io c s = Inr d" "s1 = s \<and> (\<exists>e. Lookup d name = Some e \<and> sub = en_Cap e \<and> rc_Kind sub = KindDir)
        \<or> Lookup d name = None \<and> StoreDir J io cfg (NewDir zero_metadata) s = (s1, Inr sub)"
      "graft J io cfg sub (n2 # names) child stat s1 = (s2, Inr new)"
      "StoreDir J io cfg (Upsert \<lparr>en_Name = name, en_Cap = new, en_Stat = dir_stat\<rparr> d) s2 = (s', r)"
proof (cases "LoadDir J io c s")
  case (Inl e)
  then show ?thesis using assms early by auto
next
  case (Inr d)
  show ?thesis
  proof (cases "Lookup d name")
    case (Some e)
    show ?thesis
    proof (cases "rc_Kind (en_Cap e) = KindDir")
      case True
      then show ?thesis using assms Inr Some sub [of d s "en_Cap e"] all [of d s "en_Cap e"]
        by (auto split: prod.splits sum.splits)
    qed (use assms Inr Some early in auto)
  next
    case None
    obtain s1 m where m: "StoreDir J io cfg (NewDir zero_metadata) s = (s1, m)" by fastforce
    show ?thesis
    proof (cases m)
      case (Inl e)
      then show ?thesis using assms Inr None m mkdir by auto
    next
      case (Inr sub)
      then show ?thesis using assms \<open>LoadDir J io c s = Inr d\<close> None m that(3) [of d s1 sub] that(4) [of d s1 sub]
        by (auto split: prod.splits sum.splits)
    qed
  qed
qed

lemma graft_later: "inv s \<Longrightarrow> graft J io cfg c ps child stat s = (s', r) \<Longrightarrow> later s s'"
proof (induction ps arbitrary: c s s' r)
  case Nil
  then show ?case using later_refl by simp
next
  case (Cons name names)
  show ?case
  proof (cases names)
    case Nil
    then show ?thesis using Cons.prems later_refl StoreDir_later by (auto split: sum.splits)
  next
    case (Cons n2 rest)
    from Cons.prems(2) [unfolded Cons] show ?thesis
    proof (cases rule: graft_cases)
      case early
      then show ?thesis using later_refl Cons.prems(1) by simp
    next
      case mkdir
      then show ?thesis using StoreDir_later Cons.prems(1) by blast
    next
      case (sub d s1 sub s2 err)
      have 1: "later s s1" using sub(2) later_refl [OF Cons.prems(1)] StoreDir_later [OF Cons.prems(1)] by blast
      then have "later s1 s2" using Cons.IH [of s1 sub s2] sub(3) Cons by (simp add: later_def)
      then show ?thesis using 1 later_trans sub(4) by blast
    next
      case (all d s1 sub s2 new)
      have 1: "later s s1" using all(2) later_refl [OF Cons.prems(1)] StoreDir_later [OF Cons.prems(1)] by blast
      then have 2: "later s1 s2" using Cons.IH [of s1 sub s2] all(3) Cons by (simp add: later_def)
      have "later s2 s'" using StoreDir_later [OF _ all(4)] 2 by (simp add: later_def)
      then show ?thesis using 1 2 later_trans by blast
    qed
  qed
qed

lemma NewDir_ok: "dir_ok J (NewDir zero_metadata)"
  using json by (simp add: dir_ok_def NewDir_def meta_utf8_def zero_metadata_def json_law_def)

text \<open>One level of copy-on-write: a directory rewritten with one entry replaced.\<close>

lemma rebuild:
  assumes "inv s" and "later s s2" and "LoadDir J io c s = Inr d" and "dir_ok J d" and "rc_Kind c = KindDir"
    and "\<forall>e \<in> set (dm_Entries d). intact J (stored s) (en_Cap e)"
    and "js_utf8 J (en_Name e)" and "cap_ok (en_Cap e)" and "intact J (stored s2) (en_Cap e)"
    and "StoreDir J io cfg (Upsert e d) s2 = (s', Inr root)" and "fine s'"
  shows "rc_Kind root = KindDir" and "cap_ok root" and "intact J (stored s') root"
    and "resolve_parts J io s' root (en_Name e # ns) = resolve_parts J io s2 (en_Cap e) ns"
    and "n \<noteq> en_Name e \<Longrightarrow> resolve_parts J io s' root (n # ns) = resolve_parts J io s c (n # ns)"
proof -
  have inv2: "inv s2" using assms(2) by (simp add: later_def)
  have L: "later s2 s'" by (rule StoreDir_later [OF inv2 assms(10)])
  have ok: "dir_ok J (Upsert e d)" by (rule dir_ok_Upsert [OF assms(4,7,8)])
  have "\<forall>x \<in> set (dm_Entries (Upsert e d)). intact J (stored s2) (en_Cap x)"
    using assms(6,9) intact_later [OF _ assms(2)] by (auto simp: set_Upsert)
  note N = StoreDir_new [OF inv2 assms(10,11) ok this]
  then show "rc_Kind root = KindDir" "cap_ok root" "intact J (stored s') root" by blast+
  have R: "resolve_parts J io s' root (n # ns) = (case ((dir_map d)(en_Name e \<mapsto> e)) n of None \<Rightarrow> Inl ErrPath
      | Some e \<Rightarrow> resolve_parts J io s' (en_Cap e) ns)" for n
    using resolve_dir [of root s' "Upsert e d"] N ok dir_map_Upsert [of d e] assms(4) by (simp add: dir_ok_def)
  show "resolve_parts J io s' root (en_Name e # ns) = resolve_parts J io s2 (en_Cap e) ns"
    using R resolve_later [OF inv2 L assms(9)] by simp
  show "resolve_parts J io s' root (n # ns) = resolve_parts J io s c (n # ns)" if "n \<noteq> en_Name e"
  proof -
    have "resolve_parts J io s' (en_Cap x) ns = resolve_parts J io s (en_Cap x) ns" if "dir_map d n = Some x" for x
    proof -
      have "x \<in> set (dm_Entries d)" using that by (auto simp: dir_map_def dest: map_of_SomeD)
      then show ?thesis using resolve_later [OF assms(1) later_trans [OF assms(2) L]] assms(6) by blast
    qed
    then show ?thesis using R that resolve_dir [OF assms(3,4,5)] by (auto split: option.splits)
  qed
qed

lemma dir_entries:
  assumes "inv s" and "intact J (stored s) c" and "LoadDir J io c s = Inr d"
  shows "rc_Kind c = KindDir" and "dir_ok J d" and "\<forall>e \<in> set (dm_Entries d). intact J (stored s) (en_Cap e)" and "Lookup d n = dir_map d n"
proof -
  show k: "rc_Kind c = KindDir" using assms(3) by (simp add: LoadDir_def getBlob_def split: if_splits)
  then show d: "dir_ok J d" and "\<forall>e \<in> set (dm_Entries d). intact J (stored s) (en_Cap e)"
    using intact_LoadDir [OF assms(1,2)] assms(3) by auto
  show "Lookup d n = dir_map d n" using Lookup_dir_map dir_ok_sorted [OF d] by blast
qed

lemma graft_sub:
  assumes "inv s" and "intact J (stored s) c" and "LoadDir J io c s = Inr d" and "fine s1"
    and "s1 = s \<and> (\<exists>e. Lookup d name = Some e \<and> sub = en_Cap e \<and> rc_Kind sub = KindDir)
        \<or> Lookup d name = None \<and> StoreDir J io cfg (NewDir zero_metadata) s = (s1, Inr sub)"
  shows "later s s1" and "intact J (stored s1) sub"
    and "ns \<noteq> [] \<Longrightarrow> resolve_parts J io s c (name # ns) = resolve_parts J io s1 sub ns"
proof -
  note D = dir_entries [OF assms(1,2,3)]
  show "later s s1" using assms(5) later_refl [OF assms(1)] StoreDir_later [OF assms(1)] by blast
  have "intact J (stored s1) sub \<and> (ns \<noteq> [] \<longrightarrow> resolve_parts J io s c (name # ns) = resolve_parts J io s1 sub ns)"
    using assms(5)
  proof (elim disjE conjE exE)
    fix e assume "s1 = s" "Lookup d name = Some e" "sub = en_Cap e"
    then show ?thesis
      using D(3,4) Lookup_intact(1) [OF D(2), of name e] resolve_dir [OF assms(3) D(2,1)] by simp
  next
    assume n: "Lookup d name = None" "StoreDir J io cfg (NewDir zero_metadata) s = (s1, Inr sub)"
    have F: "rc_Kind sub = KindDir" "intact J (stored s1) sub" "LoadDir J io sub s1 = Inr (NewDir zero_metadata)"
      using StoreDir_new [OF assms(1) n(2) assms(4) NewDir_ok] by (simp_all add: NewDir_def)
    have "resolve_parts J io s1 sub ns = Inl ErrPath" if "ns \<noteq> []"
      using that resolve_dir [OF F(3) NewDir_ok F(1)] by (cases ns) (auto simp: dir_map_def NewDir_def)
    then show ?thesis using F resolve_dir [OF assms(3) D(2,1), of name] D(4) n(1) by simp
  qed
  then show "intact J (stored s1) sub" "ns \<noteq> [] \<Longrightarrow> resolve_parts J io s c (name # ns) = resolve_parts J io s1 sub ns" by blast+
qed

lemma graft_new:
  assumes "inv s" and "intact J (stored s) c" and "intact J (stored s) child" and "cap_ok child"
    and "list_all (js_utf8 J) ps" and "graft J io cfg c ps child stat s = (s', Inr root)" and "fine s'"
  shows "rc_Kind root = KindDir \<and> cap_ok root \<and> intact J (stored s') root
    \<and> (\<forall>qs. resolve_parts J io s' root (ps @ qs) = resolve_parts J io s child qs)
    \<and> (\<forall>qs. apart ps qs \<longrightarrow> resolve_parts J io s' root qs = resolve_parts J io s c qs)"
  using assms
proof (induction ps arbitrary: c s s' root)
  case Nil
  then show ?case by simp
next
  case (Cons name names)
  have utf: "js_utf8 J name" "list_all (js_utf8 J) names" using Cons.prems(5) by auto
  obtain d where d: "LoadDir J io c s = Inr d" using Cons.prems(6) by (cases names) (auto split: sum.splits)
  note D = dir_entries [OF Cons.prems(1,2) d]
  show ?case
  proof (cases names)
    case Nil
    let ?e = "\<lparr>en_Name = name, en_Cap = child, en_Stat = stat\<lparr>st_Kind := rc_Kind child\<rparr>\<rparr>"
    have st: "StoreDir J io cfg (Upsert ?e d) s = (s', Inr root)" using Cons.prems(6) Nil d by simp
    note R = rebuild [OF Cons.prems(1) later_refl [OF Cons.prems(1)] d D(2,1,3) _ _ _ st Cons.prems(7)]
    show ?thesis using R utf Cons.prems(3,4) Nil apart_Nil by (auto simp: apart_Cons)
  next
    case (Cons n2 rest)
    from Cons.prems(6) [unfolded Cons] show ?thesis
    proof (cases rule: graft_cases)
      case (all d' s1 sub s2 new)
      let ?e = "\<lparr>en_Name = name, en_Cap = new, en_Stat = dir_stat\<rparr>"
      have L1: "later s s1" using all(2) later_refl [OF Cons.prems(1)] StoreDir_later [OF Cons.prems(1)] by blast
      have L2: "later s1 s2" using graft_later [OF _ all(3)] L1 by (simp add: later_def)
      have L3: "later s2 s'" using StoreDir_later [OF _ all(4)] L2 by (simp add: later_def)
      have fine: "fine s2" "fine s1" and inv1: "inv s1" using L1 L2 L3 Cons.prems(7) by (auto simp: later_def)
      note S = graft_sub [OF Cons.prems(1,2) all(1) fine(2) all(2)]
      note IH = Cons.IH [OF inv1 S(2) intact_later [OF Cons.prems(3) L1] Cons.prems(4) utf(2) all(3) [folded Cons] fine(1)]
      have d': "d' = d" using all(1) d by simp
      note R = rebuild [OF Cons.prems(1) later_trans [OF L1 L2] d D(2,1,3) _ _ _ all(4) [unfolded d'] Cons.prems(7), simplified]
      have "resolve_parts J io s' root ((name # names) @ qs) = resolve_parts J io s child qs" for qs
        using R(4) IH utf(1) resolve_later [OF Cons.prems(1) L1 Cons.prems(3)] by simp
      moreover have "resolve_parts J io s' root qs = resolve_parts J io s c qs" if ap: "apart (name # names) qs" for qs
      proof -
        obtain m ms where qs: "qs = m # ms" and m: "m = name \<longrightarrow> apart names ms" using ap by (auto simp: apart_Cons)
        show ?thesis
        proof (cases "m = name")
          case True
          then have "ms \<noteq> []" using m apart_Nil by auto
          then show ?thesis using True qs m R(4) IH S(3) utf(1) by simp
        next
          case False
          then show ?thesis using qs R(5) IH utf(1) by simp
        qed
      qed
      ultimately show ?thesis using R(1-3) IH utf(1) by blast
    qed auto
  qed
qed

lemma graftRemove_later: "inv s \<Longrightarrow> graftRemove J io cfg c ps s = (s', r) \<Longrightarrow> later s s'"
proof (induction ps arbitrary: c s s' r)
  case (Cons name names)
  show ?case
  proof (cases names)
    case Nil
    then show ?thesis using Cons.prems later_refl StoreDir_later by (auto split: sum.splits prod.splits if_splits)
  next
    case (Cons n2 rest)
    have "later s s1" if "graftRemove J io cfg e (n2 # rest) s = (s1, r1)" for e s1 r1
      using Cons.IH [OF Cons.prems(1)] that Cons by simp
    then show ?thesis using Cons.prems Cons later_refl StoreDir_later later_trans
      by (auto split: sum.splits prod.splits if_splits option.splits simp: later_def) blast+
  qed
qed (use later_refl in simp)

lemma graftRemove_new:
  assumes "inv s" and "intact J (stored s) c" and "list_all (js_utf8 J) ps"
    and "graftRemove J io cfg c ps s = (s', Inr root)" and "fine s'"
  shows "rc_Kind root = KindDir \<and> cap_ok root \<and> intact J (stored s') root
    \<and> (\<forall>qs. resolve_parts J io s' root (ps @ qs) = Inl ErrPath)
    \<and> (\<forall>qs. apart ps qs \<longrightarrow> resolve_parts J io s' root qs = resolve_parts J io s c qs)"
  using assms
proof (induction ps arbitrary: c s s' root)
  case (Cons name names)
  have utf: "js_utf8 J name" "list_all (js_utf8 J) names" using Cons.prems(3) by auto
  have L: "later s s'" by (rule graftRemove_later [OF Cons.prems(1,4)])
  obtain d where d: "LoadDir J io c s = Inr d" using Cons.prems(4) by (cases names) (auto split: sum.splits)
  note D = dir_entries [OF Cons.prems(1,2) d]
  show ?case
  proof (cases names)
    case Nil
    obtain d' where rm: "Remove name d = (d', True)" and st: "StoreDir J io cfg d' s = (s', Inr root)"
      using Cons.prems(4) Nil d by (auto split: prod.splits if_splits)
    have "sorted_wrt (<) (map en_Name (dm_Entries d))" using D(2) by (simp add: dir_ok_def)
    note M = dir_map_Remove [OF this rm]
    have d': "dm_Entries d' = filter (\<lambda>cur. en_Name cur \<noteq> name) (dm_Entries d)" "dm_Meta d' = dm_Meta d"
      using rm by (auto simp: Remove_def)
    have ok: "dir_ok J d'" using D(2) M(3) by (auto simp: dir_ok_def d' list_all_iff)
    have "\<forall>e \<in> set (dm_Entries d'). intact J (stored s) (en_Cap e)" using D(3) by (auto simp: d')
    note N = StoreDir_new [OF Cons.prems(1) st Cons.prems(5) ok this]
    have R: "resolve_parts J io s' root (n # ns) = (case ((dir_map d)(name := None)) n of None \<Rightarrow> Inl ErrPath
        | Some e \<Rightarrow> resolve_parts J io s' (en_Cap e) ns)" for n ns using resolve_dir [of root s' d'] N ok M(1) by simp
    have "resolve_parts J io s' (en_Cap x) ns = resolve_parts J io s (en_Cap x) ns" if "dir_map d n = Some x" for n x ns
    proof -
      have "x \<in> set (dm_Entries d)" using that by (auto simp: dir_map_def dest: map_of_SomeD)
      then show ?thesis using resolve_later [OF Cons.prems(1) L] D(3) by blast
    qed
    then show ?thesis using N R Nil apart_Nil resolve_dir [OF d D(2,1)] by (auto simp: apart_Cons split: option.splits)
  next
    case (Cons n2 rest)
    obtain e s1 new where e: "Lookup d name = Some e" and g: "graftRemove J io cfg (en_Cap e) names s = (s1, Inr new)"
      and st: "StoreDir J io cfg (Upsert \<lparr>en_Name = name, en_Cap = new, en_Stat = dir_stat\<rparr> d) s1 = (s', Inr root)"
      using Cons.prems(4) Cons d by (auto split: prod.splits if_splits option.splits sum.splits)
    have L1: "later s s1" by (rule graftRemove_later [OF Cons.prems(1) g])
    have "later s1 s'" using StoreDir_later [OF _ st] L1 by (simp add: later_def)
    then have f: "fine s1" using Cons.prems(5) by (simp add: later_def)
    have "intact J (stored s) (en_Cap e)" using D(3) Lookup_intact(1) [OF D(2) e] by blast
    note IH = Cons.IH [OF Cons.prems(1) this utf(2) g f]
    note R = rebuild [OF Cons.prems(1) L1 d D(2,1,3) _ _ _ st Cons.prems(5), simplified]
    have sub: "resolve_parts J io s c (name # ms) = resolve_parts J io s (en_Cap e) ms" for ms
      using resolve_dir [OF d D(2,1)] D(4) e by simp
    have "resolve_parts J io s' root qs = resolve_parts J io s c qs" if ap: "apart (name # names) qs" for qs
    proof -
      obtain m ms where qs: "qs = m # ms" and m: "m = name \<longrightarrow> apart names ms" using ap by (auto simp: apart_Cons)
      then show ?thesis using R(4,5) IH utf(1) sub by (cases "m = name") auto
    qed
    moreover have "resolve_parts J io s' root ((name # names) @ qs) = Inl ErrPath" for qs
      using R(4) IH utf(1) by simp
    ultimately show ?thesis using R(1-3) IH utf(1) by blast
  qed
qed simp

end

section \<open>The pipeline provides it\<close>

text \<open>
  The pipeline with a ghost log of the blobs it was given, each with the entropy left at that
  moment, from which the shards it wrote follow. A state is fine when no two blobs among the
  initial ones and the shards of the log share an address and no logged blob has \<open>2\<^sup>6\<^sup>2\<close> bytes.
\<close>

definition logged_io :: "('s \<times> bytes) blob_io \<Rightarrow> (('s \<times> bytes) \<times> (bytes \<times> bytes) list) blob_io" where
  "logged_io io = \<lparr>
     io_Store = (\<lambda>(st, lg) cfg x. case io_Store io st cfg x of (st', r) \<Rightarrow> ((st', (x, snd st) # lg), r)),
     io_Load = (\<lambda>(st, lg). io_Load io st),
     io_Reencrypt = (\<lambda>(st, lg) m. case io_Reencrypt io st m of (st', r) \<Rightarrow> ((st', lg), r))\<rparr>"

definition written :: "prims \<Rightarrow> rs_new \<Rightarrow> config \<Rightarrow> (bytes \<times> bytes) list \<Rightarrow> bytes set" where
  "written P new cfg lg = (\<Union>(x, rnd) \<in> set lg. case encodeChunk P new cfg x rnd of Inl _ \<Rightarrow> {} | Inr (_, shards, _) \<Rightarrow> set shards)"

definition run_fine :: "prims \<Rightarrow> rs_new \<Rightarrow> config \<Rightarrow> bytes set \<Rightarrow> (bytes \<times> bytes) list \<Rightarrow> bool" where
  "run_fine P new cfg B lg \<longleftrightarrow> inj_on (HashOf P) (B \<union> written P new cfg lg) \<and> list_all (\<lambda>(x, _). length x < 2 ^ 62) lg"

definition blob_stored :: "prims \<Rightarrow> rs_new \<Rightarrow> (shard_id \<Rightarrow> bytes option) \<Rightarrow> read_cap \<Rightarrow> bytes \<Rightarrow> bool" where
  "blob_stored P new A c x \<longleftrightarrow> (\<exists>shards. chunk_decodes P new (rc_Params c) (chunkRef c, shards) x
     \<and> (\<forall>sh \<in> set shards. A (HashOf P sh) = Some sh))"

lemma capFromRef_simps [simp]: "rc_Params (capFromRef k ref p) = p" "chunkRef (capFromRef k ref p) = ref" "rc_Kind (capFromRef k ref p) = k"
  by (simp_all add: capFromRef_def rc_Params_def chunkRef_def)

lemma encodeChunk_shape:
  assumes laws: "pipeline_laws P new (cfg_Params cfg)" and "encodeChunk P new cfg x rnd = Inr (ref, shards, rnd')"
    and "length x < 2 ^ 62"
  shows "chunk_decodes P new (cfg_Params cfg) (ref, shards) x \<and> length (ref_Key ref) = KeySize
    \<and> shards \<noteq> [] \<and> length shards \<le> 256 \<and> ref_Shards ref = map (HashOf P) shards"
proof -
  have ent: "chunkEntropy \<le> length rnd"
    using assms(2) by (auto simp: encodeChunk_def NewKey_def read_full_def chunkEntropy_def split: if_splits dest!: Seal_entropy)
  have "chunk_decodes P new (cfg_Params cfg) (ref, shards) x" "ref_Key ref = take KeySize rnd"
    using encodeChunk_ok [OF laws assms(3) ent] assms(2) by auto
  moreover obtain sealed where "Encode new (cfg_Params cfg) sealed = Inr shards" using assms(2) by (auto simp: encodeChunk_def)
  then have "length shards = nat (params_N (cfg_Params cfg))"
    using Encode_shape [of new "cfg_Params cfg" sealed] laws by (auto simp: pipeline_laws_def)
  moreover have "params_N (cfg_Params cfg) \<le> 256" using laws by (simp add: pipeline_laws_def codec_ok_def params_ok_def)
  moreover have "1 \<le> param_K (cfg_Params cfg)" using laws by (simp add: pipeline_laws_def codec_ok_def params_ok_def)
  ultimately show ?thesis using ent by (auto simp: chunk_decodes_def chunkEntropy_def split: if_splits)
qed

locale namespace_store = content_store P ops abs invar
  for P :: prims and ops :: "'s store_ops" and abs :: "'s \<Rightarrow> shard_id \<Rightarrow> bytes option" and invar :: "'s \<Rightarrow> bool" +
  fixes J :: json_codec and new :: rs_new and cfg :: config and B :: "bytes set"
  assumes json_ok: "json_law J" and laws: "pipeline_laws P new (cfg_Params cfg)" and hash32: "length (HashOf P d) = idSize"
begin

lemma blob_stored_load:
  assumes "invar s" and "blob_stored P new (abs s) c x"
  shows "loadChunk P new ops (rc_Params c) (chunkRef c) s = Inr x"
proof -
  obtain shards where dec: "chunk_decodes P new (rc_Params c) (chunkRef c, shards) x"
    and all: "\<forall>sh \<in> set shards. abs s (HashOf P sh) = Some sh" using assms(2) by (auto simp: blob_stored_def)
  have ids: "ref_Shards (chunkRef c) = map (HashOf P) shards" using dec by (simp add: chunk_decodes_def)
  have "\<forall>sh \<in> set shards. op_Get ops s (HashOf P sh) = Inr sh" using all get_law [OF assms(1)] by simp
  moreover have "avail ops s (ref_Shards (chunkRef c)) = length shards"
    using avail_all [OF assms(1), of "ref_Shards (chunkRef c)"] all ids by simp
  ultimately show ?thesis using loadChunk_degraded [OF dec, of ops s] dec by (simp add: chunk_decodes_def)
qed

lemma storeChunk_logged:
  assumes "invar s" and "storeChunk P new ops None cfg x s rnd = ((s', rnd'), r)"
  shows "invar s' \<and> abs s \<subseteq>\<^sub>m abs s' \<and> (case encodeChunk P new cfg x rnd of
      Inl e \<Rightarrow> r = Inl e \<and> s' = s
    | Inr (ref, shards, _) \<Rightarrow> r = Inr ref \<and> (ref_Shards ref = map (HashOf P) shards
        \<longrightarrow> ran (abs s') \<subseteq> ran (abs s) \<union> set shards \<and> (\<forall>sh \<in> set shards. abs s' (HashOf P sh) \<noteq> None)))"
proof (cases "encodeChunk P new cfg x rnd")
  case (Inl e)
  then show ?thesis using assms by (auto simp: storeChunk_def)
next
  case (Inr y)
  obtain ref shards rnd1 where y: "y = (ref, shards, rnd1)" by (metis prod_cases3)
  have ids: "ref_Shards ref = map (HashOf P) shards" using Inr y by (auto simp: encodeChunk_def)
  have "shard_put ops None desc = op_Put ops" for desc by (rule ext)+ (simp add: shard_put_def)
  then show ?thesis using put_shards_ok [OF assms(1), of shards] assms(2) Inr y ids by (auto simp: storeChunk_def)
qed

end

sublocale namespace_store \<subseteq> blobs: blob_store J "logged_io (pipeline_io P new ops None)" cfg
    "\<lambda>((s, rnd), lg). blob_stored P new (abs s)"
    "\<lambda>((s, rnd), lg). invar s \<and> ran (abs s) \<subseteq> B \<union> written P new cfg lg"
    "\<lambda>(st, lg). run_fine P new cfg B lg"
proof (unfold_locales, goal_cases)
  case 1
  show ?case by (rule json_ok)
next
  case (2 st c x)
  then show ?case using blob_stored_load
    by (auto simp: logged_io_def pipeline_io_def LoadBlob_def split: prod.splits)
next
  case (3 st x st' r)
  obtain s rnd lg where st: "st = ((s, rnd), lg)" by (metis prod.collapse)
  obtain s' rnd' where sc: "storeChunk P new ops None cfg x s rnd = ((s', rnd'), r)" and st': "st' = ((s', rnd'), (x, rnd) # lg)"
    using 3(2) st by (auto simp: logged_io_def pipeline_io_def StoreBlob_def split: prod.splits)
  have inv: "invar s" and rn: "ran (abs s) \<subseteq> B \<union> written P new cfg lg" using 3(1) st by auto
  note S = storeChunk_logged [OF inv sc]
  have W: "written P new cfg ((x, rnd) # lg) = written P new cfg lg \<union>
      (case encodeChunk P new cfg x rnd of Inl _ \<Rightarrow> {} | Inr (_, shards, _) \<Rightarrow> set shards)" by (auto simp: written_def)
  have "ran (abs s') \<subseteq> B \<union> written P new cfg ((x, rnd) # lg)"
  proof (cases "encodeChunk P new cfg x rnd")
    case (Inl e)
    then show ?thesis using S rn W by auto
  next
    case (Inr y)
    obtain ref shards rnd1 where y: "y = (ref, shards, rnd1)" by (metis prod_cases3)
    have "ref_Shards ref = map (HashOf P) shards" using Inr y by (auto simp: encodeChunk_def)
    then show ?thesis using S rn W Inr y by auto
  qed
  moreover have "run_fine P new cfg B ((x, rnd) # lg) \<Longrightarrow> run_fine P new cfg B lg"
    using W by (auto simp: run_fine_def intro: inj_on_subset)
  moreover have "blob_stored P new (abs s') c y" if "blob_stored P new (abs s) c y" for c y
    using that S unfolding blob_stored_def map_le_def dom_def by (metis (mono_tags, lifting) mem_Collect_eq option.distinct(1))
  ultimately show ?case using S st st' by auto
next
  case (4 st x st' ref kind)
  obtain s rnd lg where st: "st = ((s, rnd), lg)" by (metis prod.collapse)
  obtain s' rnd' where sc: "storeChunk P new ops None cfg x s rnd = ((s', rnd'), Inr ref)" and st': "st' = ((s', rnd'), (x, rnd) # lg)"
    using 4(2) st by (auto simp: logged_io_def pipeline_io_def StoreBlob_def split: prod.splits)
  have inv: "invar s" and rn: "ran (abs s) \<subseteq> B \<union> written P new cfg lg" using 4(1) st by auto
  have fine: "inj_on (HashOf P) (B \<union> written P new cfg ((x, rnd) # lg))" "length x < 2 ^ 62"
    using 4(3) st' by (auto simp: run_fine_def)
  note S = storeChunk_logged [OF inv sc]
  obtain shards rnd1 where e: "encodeChunk P new cfg x rnd = Inr (ref, shards, rnd1)"
    using S by (cases "encodeChunk P new cfg x rnd") (auto split: prod.splits)
  note E = encodeChunk_shape [OF laws e fine(2)]
  have W: "written P new cfg ((x, rnd) # lg) = written P new cfg lg \<union> set shards" using e by (auto simp: written_def)
  have all: "\<forall>sh \<in> set shards. abs s' (HashOf P sh) \<noteq> None" "ran (abs s') \<subseteq> ran (abs s) \<union> set shards" and inv': "invar s'"
    using S e E by auto
  have "abs s' (HashOf P sh) = Some sh" if sh: "sh \<in> set shards" for sh
  proof -
    have "op_Get ops s' (HashOf P sh) = Inr sh"
      by (rule get_stored [OF inv' _ _ fine(1) all(1) sh]) (use all(2) rn W in auto)
    then show ?thesis using get_law [OF inv'] by (auto split: option.splits)
  qed
  then have "blob_stored P new (abs s') (capFromRef kind ref (cfg_Params cfg)) x" using E by (auto simp: blob_stored_def)
  moreover have "cap_ok (capFromRef kind ref (cfg_Params cfg))"
    using E hash32 by (auto simp: cap_ok_def capFromRef_def maxManifestShardsPerChunk_def list_all_iff)
  ultimately show ?case using st' by simp
qed

context namespace_store
begin

abbreviation nio where
  "nio \<equiv> logged_io (pipeline_io P new ops None)"

lemma Graft_ok:
  assumes "invar s" and "ran (abs s) \<subseteq> B"
    and "intact J (blob_stored P new (abs s)) root" and "intact J (blob_stored P new (abs s)) child" and "cap_ok child"
    and "splitPath p = Inr ps" and "list_all (js_utf8 J) ps"
    and "Graft J nio cfg root p child stat ((s, rnd), []) = (((s', rnd'), lg), Inr root')" and "run_fine P new cfg B lg"
  shows "Resolve J nio ((s', rnd'), lg) root' p = Inr child
    \<and> (\<forall>q qs. splitPath q = Inr qs \<longrightarrow> apart ps qs \<longrightarrow> Resolve J nio ((s', rnd'), lg) root' q = Resolve J nio ((s, rnd), []) root q)
    \<and> (\<forall>q. Resolve J nio ((s', rnd'), lg) root q = Resolve J nio ((s, rnd), []) root q)
    \<and> invar s' \<and> intact J (blob_stored P new (abs s')) root' \<and> cap_ok root'"
proof -
  let ?st = "((s, rnd), [] :: (bytes \<times> bytes) list)" and ?st' = "((s', rnd'), lg)"
  have g: "graft J nio cfg root ps child stat ?st = (?st', Inr root')" using assms(6,8) by (auto simp: Graft_def split: if_splits)
  have inv: "invar s \<and> ran (abs s) \<subseteq> B \<union> written P new cfg []" using assms(1,2) by auto
  note G = blobs.graft_new [of ?st root child ps stat ?st' root', simplified, OF inv assms(3,4,5,7) g assms(9)]
  have L: "blobs.later ?st ?st'" by (rule blobs.graft_later [OF _ g]) (use inv in simp)
  have R: "resolve_parts J nio ?st' root qs = resolve_parts J nio ?st root qs" for qs
    by (rule blobs.resolve_later [OF _ L]) (use inv assms(3) in simp_all)
  have "resolve_parts J nio ?st' root' (ps @ []) = resolve_parts J nio ?st child []" using G by blast
  then have "resolve_parts J nio ?st' root' ps = Inr child" by simp
  moreover have "Resolve J nio ?st' root q = Resolve J nio ?st root q" for q
    using R by (cases "splitPath q") (simp_all add: Resolve_def)
  moreover have "invar s'" using L by (simp add: blobs.later_def)
  ultimately show ?thesis using G assms(6) by (auto simp: Resolve_def)
qed

lemma GraftRemove_ok:
  assumes "invar s" and "ran (abs s) \<subseteq> B" and "intact J (blob_stored P new (abs s)) root"
    and "splitPath p = Inr ps" and "list_all (js_utf8 J) ps"
    and "GraftRemove J nio cfg root p ((s, rnd), []) = (((s', rnd'), lg), Inr root')" and "run_fine P new cfg B lg"
  shows "Resolve J nio ((s', rnd'), lg) root' p = Inl ErrPath
    \<and> (\<forall>q qs. splitPath q = Inr qs \<longrightarrow> apart ps qs \<longrightarrow> Resolve J nio ((s', rnd'), lg) root' q = Resolve J nio ((s, rnd), []) root q)
    \<and> invar s' \<and> intact J (blob_stored P new (abs s')) root' \<and> cap_ok root'"
proof -
  let ?st = "((s, rnd), [] :: (bytes \<times> bytes) list)" and ?st' = "((s', rnd'), lg)"
  have g: "graftRemove J nio cfg root ps ?st = (?st', Inr root')" using assms(4,6) by (auto simp: GraftRemove_def split: if_splits)
  have inv: "invar s \<and> ran (abs s) \<subseteq> B \<union> written P new cfg []" using assms(1,2) by auto
  note G = blobs.graftRemove_new [of ?st root ps ?st' root', simplified, OF inv assms(3,5) g assms(7)]
  have L: "blobs.later ?st ?st'" by (rule blobs.graftRemove_later [OF _ g]) (use inv in simp)
  have "resolve_parts J nio ?st' root' (ps @ []) = Inl ErrPath" using G by blast
  then show ?thesis using G assms(4) L by (auto simp: Resolve_def blobs.later_def)
qed

end

lemma namespace_storeI:
  assumes "content_store P ops A I" and "json_law J" and "pipeline_laws P new (cfg_Params cfg)" and "\<forall>d. length (HashOf P d) = idSize"
  shows "namespace_store P ops A I J new cfg"
  using assms by (simp add: namespace_store_def namespace_store_axioms_def)

section \<open>An example namespace\<close>

text \<open>
  A codec that satisfies the law: three directories have one-byte encodings, every other value is
  the unary number an enumeration gives it.
\<close>

instance metadata_ext :: (countable) countable
  by (rule countable_classI [of "\<lambda>r. to_nat ((md_Mode r, md_Uid r, md_Gid r, md_ModTimeNS r, md_ChangeTimeNS r, md_AccessTimeNS r, md_BirthTimeNS r),
      (md_Flags r, md_ContentType r, md_SymlinkTarget r, md_Xattr r, md_ContentVersion r, md_MetaVersion r, metadata.more r))"]) auto

instance cap_json_ext :: (countable) countable
  by (rule countable_classI [of "\<lambda>r. to_nat (cj_kind r, cj_key r, cj_compressed r, cj_k r, cj_m r, cj_shards r, cap_json.more r)"]) auto

instance stat_cache_ext :: (countable) countable
  by (rule countable_classI [of "\<lambda>r. to_nat (st_Kind r, st_Size r, st_Mode r, st_ModTimeNS r, st_ContentVersion r, st_MetaVersion r, stat_cache.more r)"]) auto

instance entry_json_ext :: (countable) countable
  by (rule countable_classI [of "\<lambda>r. to_nat (ej_name r, ej_cap r, ej_stat r, entry_json.more r)"]) auto

instance dir_json_ext :: (countable) countable
  by (rule countable_classI [of "\<lambda>r. to_nat (dj_version r, dj_meta r, dj_entries r, dir_json.more r)"]) auto

instance chunk_json_ext :: (countable) countable
  by (rule countable_classI [of "\<lambda>r. to_nat (kj_key r, kj_compressed r, kj_shards r, chunk_json.more r)"]) auto

instance file_json_ext :: (countable) countable
  by (rule countable_classI [of "\<lambda>r. to_nat ((fj_version r, fj_name r, fj_chunk_size r, fj_k r), (fj_m r, fj_compress r, fj_size r, fj_meta r,
      fj_chunks r, file_json.more r))"]) auto

definition unary :: "'a :: countable \<Rightarrow> bytes" where
  "unary x = 0 # replicate (to_nat x) 0"

definition unary_parse :: "bytes \<Rightarrow> ('a :: countable) option" where
  "unary_parse b = Some (from_nat (length b - 1))"

lemma unary_parse_unary [simp]: "unary_parse (unary x) = Some x"
  by (simp add: unary_def unary_parse_def)

definition demo_child :: read_cap where
  "demo_child = zero_cap\<lparr>rc_Shards := [replicate 32 0]\<rparr>"

definition demo_dir :: dir_json where
  "demo_dir = \<lparr>dj_version = 1, dj_meta = zero_metadata, dj_entries = []\<rparr>"

definition demo_dir1 :: dir_json where
  "demo_dir1 = \<lparr>dj_version = 1, dj_meta = zero_metadata,
     dj_entries = [\<lparr>ej_name = ''a'', ej_cap = cap_MarshalJSON demo_child, ej_stat = zero_stat\<rparr>]\<rparr>"

text \<open>In this codec every string is valid, and parsing only yields values that round-trip.\<close>

definition demo_json :: json_codec where
  "demo_json = \<lparr>js_cap = unary, js_cap_parse = unary_parse,
     js_dir = (\<lambda>j. if j = demo_dir then [1] else if j = demo_dir1 then [2] else unary j),
     js_dir_parse = (\<lambda>b. if b = [1] then Some demo_dir else if b = [2] then Some demo_dir1
        else case unary_parse b of Some j \<Rightarrow> if sorted_wrt (<) (map fst (md_Xattr (dj_meta j))) then Some j else None | None \<Rightarrow> None),
     js_file = unary, js_file_parse = unary_parse, js_utf8 = (\<lambda>_. True)\<rparr>"

lemma demo_json_law: "json_law demo_json"
proof -
  have u: "unary x \<noteq> [1]" "unary x \<noteq> [2]" for x :: dir_json by (simp_all add: unary_def)
  have "js_dir_parse demo_json (js_dir demo_json j) = Some j" if "dir_utf8 demo_json j" for j
    using that u by (simp add: demo_json_def dir_utf8_def meta_utf8_def)
  moreover have "dir_utf8 demo_json j" if "js_dir_parse demo_json b = Some j" for b j
    using that by (auto simp: demo_json_def dir_utf8_def meta_utf8_def cap_utf8_def demo_dir_def demo_dir1_def zero_metadata_def list_all_iff
        split: if_splits option.splits)
  ultimately show ?thesis by (simp add: json_law_def) (simp add: demo_json_def)
qed

lemma demo_hash32: "\<forall>d. length (HashOf demo_prims d) = idSize"
  by (simp add: HashOf_def demo_prims_def demo_hash_def idSize_def)

interpretation demo_ns: namespace_store demo_prims "disk_ops demo_prims" "disk_abs demo_prims" "disk_inv demo_prims"
    demo_json xor_new demo_config "{b. length b \<le> 28}"
  by (rule namespace_storeI [OF disk.content_store_axioms demo_json_law demo_laws demo_hash32])

text \<open>An empty root stored on the example disk, and a file grafted into it.\<close>

abbreviation (input) demo_io :: "((disk_store \<times> bytes) \<times> (bytes \<times> bytes) list) blob_io" where
  "demo_io \<equiv> logged_io (pipeline_io demo_prims xor_new (disk_ops demo_prims) None)"

lemma demo_small: "inj_on (HashOf demo_prims) {b. length b \<le> 28}"
  using demo_hash_inj by (simp add: inj_on_def HashOf_def)

lemma demo_written_small:
  assumes "list_all (\<lambda>(x, _). length x \<le> 4) lg"
  shows "run_fine demo_prims xor_new demo_config {b. length b \<le> 28} lg"
proof -
  have "written demo_prims xor_new demo_config lg \<subseteq> {b. length b \<le> 28}"
    using assms by (auto simp: written_def list_all_iff split: sum.splits prod.splits dest!: demo_encode_small)
  then show ?thesis using assms by (auto simp: run_fine_def list_all_iff Un_absorb2 demo_small)
qed

lemma demo_StoreDir:
  assumes "disk_inv demo_prims s" and "chunkEntropy \<le> length rnd" and "EncodeDir demo_json d = [b]"
    and "ran (disk_abs demo_prims s) \<subseteq> {b. length b \<le> 28}"
  shows "\<exists>s' c. StoreDir demo_json demo_io demo_config d ((s, rnd), lg) = (((s', drop chunkEntropy rnd), ([b], rnd) # lg), Inr c)
    \<and> disk_inv demo_prims s' \<and> ran (disk_abs demo_prims s') \<subseteq> {b. length b \<le> 28}"
proof -
  obtain s' ref shards where c: "storeChunk demo_prims xor_new (disk_ops demo_prims) None demo_config [b] s rnd = ((s', drop chunkEntropy rnd), Inr ref)"
    "encodeChunk demo_prims xor_new demo_config [b] rnd = Inr (ref, shards, drop chunkEntropy rnd)" "disk_inv demo_prims s'"
    "ran (disk_abs demo_prims s') \<subseteq> ran (disk_abs demo_prims s) \<union> set shards"
    using disk.storeChunk_ok [OF assms(1) demo_laws _ assms(2), of "[b]"] by auto
  then show ?thesis using assms(3,4) demo_encode_small [OF c(2)]
    by (auto simp: StoreDir_def putBlob_def logged_io_def pipeline_io_def StoreBlob_def)
qed

lemma demo_encodings:
  "EncodeDir demo_json (NewDir zero_metadata) = [1]"
  "EncodeDir demo_json (Upsert \<lparr>en_Name = ''a'', en_Cap = demo_child, en_Stat = zero_stat\<lparr>st_Kind := rc_Kind demo_child\<rparr>\<rparr> (NewDir zero_metadata)) = [2]"
proof -
  show "EncodeDir demo_json (NewDir zero_metadata) = [1]"
    by (simp add: EncodeDir_def NewDir_def demo_json_def demo_dir_def dirManifestVersion_def)
  have "zero_stat\<lparr>st_Kind := rc_Kind demo_child\<rparr> = zero_stat" by (simp add: zero_stat_def demo_child_def zero_cap_def)
  then show "EncodeDir demo_json (Upsert \<lparr>en_Name = ''a'', en_Cap = demo_child, en_Stat = zero_stat\<lparr>st_Kind := rc_Kind demo_child\<rparr>\<rparr> (NewDir zero_metadata)) = [2]"
    by (simp add: EncodeDir_def NewDir_def Upsert_def demo_json_def demo_dir_def demo_dir1_def dirManifestVersion_def entry_to_json_def)
qed

lemma LoadDir_log: "LoadDir J (logged_io io) c (st, lg) = LoadDir J (logged_io io) c (st, lg')"
  by (simp add: LoadDir_def getBlob_def logged_io_def)

lemma demo_child_ok: "cap_ok demo_child" "intact J st demo_child"
  by (simp_all add: cap_ok_def demo_child_def zero_cap_def zero_key_def KeySize_def KindDir_def idSize_def maxManifestShardsPerChunk_def
    intact.leaf)

definition demo_full :: dir_manifest where
  "demo_full = Upsert \<lparr>en_Name = ''a'', en_Cap = demo_child, en_Stat = zero_stat\<lparr>st_Kind := rc_Kind demo_child\<rparr>\<rparr> (NewDir zero_metadata)"

lemma demo_full_ok: "dir_ok demo_json demo_full" "\<forall>e \<in> set (dm_Entries demo_full). intact demo_json st (en_Cap e)"
proof -
  show "dir_ok demo_json demo_full"
    using demo_ns.blobs.NewDir_ok demo_child_ok(1)
    by (auto simp: demo_full_def dir_ok_def Upsert_def NewDir_def demo_json_def)
  show "\<forall>e \<in> set (dm_Entries demo_full). intact demo_json st (en_Cap e)"
    by (simp add: demo_full_def Upsert_def NewDir_def demo_child_ok(2))
qed

text \<open>A directory stored on the example disk reads back, and what was there stays.\<close>

lemma demo_store_step:
  assumes "EncodeDir demo_json d = [b]" and "dir_ok demo_json d"
    and "\<And>st. \<forall>e \<in> set (dm_Entries d). intact demo_json st (en_Cap e)"
    and "disk_inv demo_prims s" and "ran (disk_abs demo_prims s) \<subseteq> {b. length b \<le> 28}" and "chunkEntropy \<le> length rnd"
  obtains s' root where "StoreDir demo_json demo_io demo_config d ((s, rnd), []) = (((s', drop chunkEntropy rnd), [([b], rnd)]), Inr root)"
    and "disk_inv demo_prims s'" and "ran (disk_abs demo_prims s') \<subseteq> {b. length b \<le> 28}"
    and "rc_Kind root = KindDir" and "cap_ok root" and "intact demo_json (blob_stored demo_prims xor_new (disk_abs demo_prims s')) root"
    and "\<And>r lg. LoadDir demo_json demo_io root ((s', r), lg) = Inr d"
    and "\<And>c. intact demo_json (blob_stored demo_prims xor_new (disk_abs demo_prims s)) c \<Longrightarrow>
      intact demo_json (blob_stored demo_prims xor_new (disk_abs demo_prims s')) c"
    and "\<And>c d r lg. intact demo_json (blob_stored demo_prims xor_new (disk_abs demo_prims s)) c \<Longrightarrow> rc_Kind c = KindDir \<Longrightarrow>
      LoadDir demo_json demo_io c ((s, rnd), []) = Inr d \<Longrightarrow> LoadDir demo_json demo_io c ((s', r), lg) = Inr d"
proof -
  let ?S = "{b :: bytes. length b \<le> 28}" and ?st = "((s, rnd), [] :: (bytes \<times> bytes) list)"
  obtain s' root where s: "StoreDir demo_json demo_io demo_config d ?st = (((s', drop chunkEntropy rnd), [([b], rnd)]), Inr root)"
      "disk_inv demo_prims s'" "ran (disk_abs demo_prims s') \<subseteq> ?S"
    using demo_StoreDir [OF assms(4,6,1,5), of "[]"] by blast
  let ?st' = "((s', drop chunkEntropy rnd), [([b], rnd)])"
  have f: "run_fine demo_prims xor_new demo_config ?S [([b], rnd)]" by (rule demo_written_small) simp
  have inv: "disk_inv demo_prims s \<and> ran (disk_abs demo_prims s) \<subseteq> ?S \<union> written demo_prims xor_new demo_config []"
    using assms(4,5) by auto
  note N = demo_ns.blobs.StoreDir_new [OF _ s(1) _ assms(2), simplified, OF inv f assms(3)]
  have any: "LoadDir demo_json demo_io c ((t, r), lg) = LoadDir demo_json demo_io c ((t, r'), lg')" for c t r r' lg lg'
    by (simp add: LoadDir_def getBlob_def logged_io_def pipeline_io_def)
  have L: "demo_ns.blobs.later ?st ?st'" by (rule demo_ns.blobs.StoreDir_later [OF _ s(1)]) (use inv in simp)
  have old: "LoadDir demo_json demo_io c ?st' = Inr x"
    if "intact demo_json (blob_stored demo_prims xor_new (disk_abs demo_prims s)) c" "rc_Kind c = KindDir"
      "LoadDir demo_json demo_io c ?st = Inr x" for c x
    using demo_ns.blobs.intact_LoadDir [of ?st c] demo_ns.blobs.LoadDir_stored [of ?st' c x] that inv L
    by (auto simp: demo_ns.blobs.later_def)
  show thesis
  proof (rule that [OF s])
    show "LoadDir demo_json demo_io root ((s', r), lg) = Inr d" for r lg using N any by metis
    show "intact demo_json (blob_stored demo_prims xor_new (disk_abs demo_prims s')) c"
      if "intact demo_json (blob_stored demo_prims xor_new (disk_abs demo_prims s)) c" for c
      using demo_ns.blobs.intact_later [OF _ L, of c] that by simp
    show "LoadDir demo_json demo_io c ((s', r), lg) = Inr d"
      if "intact demo_json (blob_stored demo_prims xor_new (disk_abs demo_prims s)) c" "rc_Kind c = KindDir"
        "LoadDir demo_json demo_io c ?st = Inr d" for c d r lg using old [OF that] any by metis
  qed (use N in auto)
qed

lemma demo_start: "ran (disk_abs demo_prims demo_disk) \<subseteq> {b. length b \<le> 28}"
  by (auto simp: ran_def disk_abs_def demo_disk_def)

lemma demo_stored_dir:
  assumes "EncodeDir demo_json d = [b]" and "dir_ok demo_json d"
    and "\<And>st. \<forall>e \<in> set (dm_Entries d). intact demo_json st (en_Cap e)"
  obtains s rnd root where "disk_inv demo_prims s" and "ran (disk_abs demo_prims s) \<subseteq> {b. length b \<le> 28}"
    and "intact demo_json (blob_stored demo_prims xor_new (disk_abs demo_prims s)) root"
    and "LoadDir demo_json demo_io root ((s, rnd), []) = Inr d" and "chunkEntropy \<le> length rnd"
proof -
  let ?rnd = "replicate 88 (5 :: byte)"
  have e0: "chunkEntropy \<le> length ?rnd" "chunkEntropy \<le> length (drop chunkEntropy ?rnd)"
    by (simp_all add: chunkEntropy_def KeySize_def nonceSize_def)
  from demo_store_step [OF assms demo_disk_inv demo_start e0(1)] show thesis using that e0(2) by metis
qed

lemma demo_rewritten:
  assumes "EncodeDir demo_json d = [b]" and "disk_inv demo_prims s" and "ran (disk_abs demo_prims s) \<subseteq> {b. length b \<le> 28}"
    and "chunkEntropy \<le> length rnd"
  obtains st lg root' where "StoreDir demo_json demo_io demo_config d ((s, rnd), []) = ((st, lg), Inr root')"
    and "run_fine demo_prims xor_new demo_config {b. length b \<le> 28} lg"
proof -
  obtain s' c where s': "StoreDir demo_json demo_io demo_config d ((s, rnd), []) = (((s', drop chunkEntropy rnd), [([b], rnd)]), Inr c)"
    using demo_StoreDir [OF assms(2,4,1,3), of "[]"] by blast
  have "run_fine demo_prims xor_new demo_config {b. length b \<le> 28} [([b], rnd)]" by (rule demo_written_small) simp
  then show thesis using that s' by blast
qed

lemma demo_path: "splitPath ''a'' = Inr [''a'']" "list_all (js_utf8 demo_json) [''a'']"
  by (simp_all add: splitPath_def demo_json_def)

section \<open>Properties\<close>

text \<open>
  C4: writing a path changes that path and nothing else. On a sound disk store, with primitives, codec and
  serializer that behave as documented, for an intact namespace and a run that met no collision of
  addresses: when \<open>Graft\<close> succeeds, the path resolves to the grafted capability in the new root, every
  path that diverges from it resolves as before, the old root still resolves everything as before
  (the update is copy-on-write), and the new namespace is intact.
\<close>

theorem Graft_Resolve:
  fixes new :: rs_new
  defines "io \<equiv> \<lambda>P. logged_io (pipeline_io P new (disk_ops P) None)"
  assumes "disk_inv P s" and "ran (disk_abs P s) \<subseteq> B" and "json_law J" and "pipeline_laws P new (cfg_Params cfg)"
    and "\<forall>d. length (HashOf P d) = idSize"
    and "intact J (blob_stored P new (disk_abs P s)) root" and "intact J (blob_stored P new (disk_abs P s)) child" and "cap_ok child"
    and "splitPath p = Inr ps" and "list_all (js_utf8 J) ps"
    and "Graft J (io P) cfg root p child stat ((s, rnd), []) = (((s', rnd'), lg), Inr root')" and "run_fine P new cfg B lg"
  shows "Resolve J (io P) ((s', rnd'), lg) root' p = Inr child
    \<and> (\<forall>q qs. splitPath q = Inr qs \<longrightarrow> apart ps qs \<longrightarrow>
        Resolve J (io P) ((s', rnd'), lg) root' q = Resolve J (io P) ((s, rnd), []) root q)
    \<and> (\<forall>q. Resolve J (io P) ((s', rnd'), lg) root q = Resolve J (io P) ((s, rnd), []) root q)
    \<and> disk_inv P s' \<and> intact J (blob_stored P new (disk_abs P s')) root' \<and> cap_ok root'"
  unfolding io_def
  by (rule namespace_store.Graft_ok [OF namespace_storeI [OF disk.content_store_axioms assms(4,5,6)] assms(2,3,7-12) [unfolded io_def] assms(13)])

theorem Graft_Resolve_witness:
  "\<exists>st root'. Resolve demo_json (logged_io (pipeline_io demo_prims xor_new (disk_ops demo_prims) None)) st root' ''a'' = Inr demo_child"
proof -
  obtain s rnd root where r: "disk_inv demo_prims s" "ran (disk_abs demo_prims s) \<subseteq> {b. length b \<le> 28}"
    "intact demo_json (blob_stored demo_prims xor_new (disk_abs demo_prims s)) root"
    "LoadDir demo_json demo_io root ((s, rnd), []) = Inr (NewDir zero_metadata)" "chunkEntropy \<le> length rnd"
    by (rule demo_stored_dir [OF demo_encodings(1) demo_ns.blobs.NewDir_ok]) (auto simp: NewDir_def)
  obtain s' rnd' lg root' where g: "StoreDir demo_json demo_io demo_config demo_full ((s, rnd), []) = (((s', rnd'), lg), Inr root')"
    "run_fine demo_prims xor_new demo_config {b. length b \<le> 28} lg"
    using demo_rewritten [OF demo_encodings(2) [folded demo_full_def] r(1,2,5)] by (metis surj_pair)
  have "Graft demo_json demo_io demo_config root ''a'' demo_child zero_stat ((s, rnd), []) = (((s', rnd'), lg), Inr root')"
    using g(1) r(4) by (simp add: Graft_def demo_path demo_full_def)
  from Graft_Resolve [OF r(1,2) demo_json_law demo_laws demo_hash32 r(3) demo_child_ok(2,1) demo_path this g(2)] show ?thesis by blast
qed

text \<open>
  removing a path removes that path and nothing else: under the same conditions, when \<open>GraftRemove\<close>
  succeeds the path no longer resolves in the new root, every diverging path resolves as before, and
  the new namespace is intact.
\<close>

lemma GraftRemove_Resolve:
  fixes new :: rs_new
  defines "io \<equiv> \<lambda>P. logged_io (pipeline_io P new (disk_ops P) None)"
  assumes "disk_inv P s" and "ran (disk_abs P s) \<subseteq> B" and "json_law J" and "pipeline_laws P new (cfg_Params cfg)"
    and "\<forall>d. length (HashOf P d) = idSize"
    and "intact J (blob_stored P new (disk_abs P s)) root" and "splitPath p = Inr ps" and "list_all (js_utf8 J) ps"
    and "GraftRemove J (io P) cfg root p ((s, rnd), []) = (((s', rnd'), lg), Inr root')" and "run_fine P new cfg B lg"
  shows "Resolve J (io P) ((s', rnd'), lg) root' p = Inl ErrPath
    \<and> (\<forall>q qs. splitPath q = Inr qs \<longrightarrow> apart ps qs \<longrightarrow>
        Resolve J (io P) ((s', rnd'), lg) root' q = Resolve J (io P) ((s, rnd), []) root q)
    \<and> disk_inv P s' \<and> intact J (blob_stored P new (disk_abs P s')) root' \<and> cap_ok root'"
  unfolding io_def
  by (rule namespace_store.GraftRemove_ok [OF namespace_storeI [OF disk.content_store_axioms assms(4,5,6)] assms(2,3,7-10) [unfolded io_def] assms(11)])

lemma GraftRemove_Resolve_witness:
  "\<exists>st root'. Resolve demo_json (logged_io (pipeline_io demo_prims xor_new (disk_ops demo_prims) None)) st root' ''a'' = Inl ErrPath"
proof -
  obtain s rnd root where r: "disk_inv demo_prims s" "ran (disk_abs demo_prims s) \<subseteq> {b. length b \<le> 28}"
    "intact demo_json (blob_stored demo_prims xor_new (disk_abs demo_prims s)) root"
    "LoadDir demo_json demo_io root ((s, rnd), []) = Inr demo_full" "chunkEntropy \<le> length rnd"
    by (rule demo_stored_dir [OF demo_encodings(2) [folded demo_full_def] demo_full_ok])
  obtain s' rnd' lg root' where g: "StoreDir demo_json demo_io demo_config (NewDir zero_metadata) ((s, rnd), []) = (((s', rnd'), lg), Inr root')"
    "run_fine demo_prims xor_new demo_config {b. length b \<le> 28} lg"
    using demo_rewritten [OF demo_encodings(1) r(1,2,5)] by (metis surj_pair)
  have "Remove ''a'' demo_full = (NewDir zero_metadata, True)" by (simp add: demo_full_def Remove_def Upsert_def NewDir_def)
  then have "GraftRemove demo_json demo_io demo_config root ''a'' ((s, rnd), []) = (((s', rnd'), lg), Inr root')"
    using g(1) r(4) by (simp add: GraftRemove_def demo_path)
  from GraftRemove_Resolve [OF r(1,2) demo_json_law demo_laws demo_hash32 r(3) demo_path this g(2)] show ?thesis by blast
qed

end
