(* ===== verification/Roots.thy ===== *)
theory Roots
  imports Namespace Wire
begin

text \<open>
  The one mutable record per user: \<^verbatim>\<open>src/internal/manifest/root.go\<close> and \<^verbatim>\<open>fullroot.go\<close> (signed root
  pointers and their sealed companions), the codecs and root stores of \<^verbatim>\<open>src/internal/provider\<close>
  (\<^verbatim>\<open>file_rootstore.go\<close>, \<^verbatim>\<open>fullroot.go\<close>, \<^verbatim>\<open>rootstore.go\<close>), their publication in \<^verbatim>\<open>src/internal/net/root.go\<close>
  and \<^verbatim>\<open>root_proto.go\<close>, and the file encryption of \<^verbatim>\<open>src/internal/atrest\<close>.
\<close>

section \<open>Base64\<close>

text \<open>\<^verbatim>\<open>encoding/base64.StdEncoding\<close>: padded, line breaks ignored when decoding, trailing bits not checked.\<close>

definition b64_digit :: "nat \<Rightarrow> char" where
  "b64_digit n = char_of (if n < 26 then 65 + n else if n < 52 then 71 + n else if n < 62 then n - 4 else if n = 62 then 43 else 47)"

definition b64_val :: "char \<Rightarrow> nat option" where
  "b64_val c = (let n = of_char c :: nat in
     if 65 \<le> n \<and> n \<le> 90 then Some (n - 65) else if 97 \<le> n \<and> n \<le> 122 then Some (n - 71)
     else if 48 \<le> n \<and> n \<le> 57 then Some (n + 4) else if n = 43 then Some 62 else if n = 47 then Some 63 else None)"

fun b64_encode :: "bytes \<Rightarrow> string" where
  "b64_encode [] = []"
| "b64_encode [a] = [b64_digit (unat a div 4), b64_digit (unat a mod 4 * 16), CHR ''='', CHR ''='']"
| "b64_encode [a, b] = [b64_digit (unat a div 4), b64_digit (unat a mod 4 * 16 + unat b div 16), b64_digit (unat b mod 16 * 4), CHR ''='']"
| "b64_encode (a # b # c # r) = b64_digit (unat a div 4) # b64_digit (unat a mod 4 * 16 + unat b div 16)
     # b64_digit (unat b mod 16 * 4 + unat c div 64) # b64_digit (unat c mod 64) # b64_encode r"

fun b64_quads :: "string \<Rightarrow> bytes option" where
  "b64_quads [] = Some []"
| "b64_quads (p # q # r # s # cs) = (case (b64_val p, b64_val q) of
     (Some w, Some x) \<Rightarrow>
       if r = CHR ''='' \<and> s = CHR ''='' \<and> cs = [] then Some [word_of_nat (w * 4 + x div 16)]
       else (case (b64_val r, b64_val s) of
           (Some y, Some z) \<Rightarrow> (case b64_quads cs of
              None \<Rightarrow> None
            | Some bs \<Rightarrow> Some (word_of_nat (w * 4 + x div 16) # word_of_nat (x mod 16 * 16 + y div 4) # word_of_nat (y mod 4 * 64 + z) # bs))
         | (Some y, None) \<Rightarrow> if s = CHR ''='' \<and> cs = [] then Some [word_of_nat (w * 4 + x div 16), word_of_nat (x mod 16 * 16 + y div 4)] else None
         | _ \<Rightarrow> None)
   | _ \<Rightarrow> None)"
| "b64_quads _ = None"

definition b64_decode :: "string \<Rightarrow> bytes option" where
  "b64_decode s = b64_quads (filter (\<lambda>c. c \<noteq> CHR 0x0A \<and> c \<noteq> CHR 0x0D) s)"

lemma b64_digit_val [simp]:
  assumes "n < 64"
  shows "b64_val (b64_digit n) = Some n" and "b64_digit n \<noteq> CHR ''=''" and "b64_digit n \<noteq> CHR 0x0A" and "b64_digit n \<noteq> CHR 0x0D"
proof -
  show v: "b64_val (b64_digit n) = Some n" using assms by (auto simp: b64_val_def b64_digit_def Let_def)
  have "b64_val (CHR ''='') = None" "b64_val (CHR 0x0A) = None" "b64_val (CHR 0x0D) = None" by (simp_all add: b64_val_def)
  then show "b64_digit n \<noteq> CHR ''=''" "b64_digit n \<noteq> CHR 0x0A" "b64_digit n \<noteq> CHR 0x0D" using v by auto
qed

lemma b64_bits:
  assumes "x < 256" and "y < (256 :: nat)"
  shows "x div 4 < 64" and "x mod 4 * 16 + y div 16 < 64" and "y mod 16 * 4 + x div 64 < 64"
    and "x div 4 * 4 + (x mod 4 * 16 + y div 16) div 16 = x" and "(x mod 4 * 16 + y div 16) mod 16 = y div 16"
    and "y mod 16 * 4 < 64" and "x mod 4 * 16 < 64"
proof -
  have y: "y div 16 < 16" "x div 64 < 4" using assms by auto
  show "x div 4 < 64" "x mod 4 * 16 + y div 16 < 64" "y mod 16 * 4 + x div 64 < 64" "y mod 16 * 4 < 64" "x mod 4 * 16 < 64" using assms y by auto
  show "x div 4 * 4 + (x mod 4 * 16 + y div 16) div 16 = x" using y by simp
  show "(x mod 4 * 16 + y div 16) mod 16 = y div 16" using y by simp
qed

lemma b64_byte3: "y < 256 \<Longrightarrow> z < 256 \<Longrightarrow> y div 16 * 16 + (y mod 16 * 4 + z div 64) div 4 = (y :: nat) \<and> (y mod 16 * 4 + z div 64) mod 4 * 64 + z mod 64 = z"
proof -
  assume "y < 256" "z < 256"
  then have "z div 64 < 4" by auto
  then have "(y mod 16 * 4 + z div 64) div 4 = y mod 16" "(y mod 16 * 4 + z div 64) mod 4 = z div 64" by auto
  then show ?thesis by simp
qed

lemma b64_quads_encode: "b64_quads (b64_encode bs) = Some bs"
proof (induction bs rule: b64_encode.induct)
  case (2 a)
  then show ?case using b64_bits [of "unat a" 0] byte_less_256 [of a] by simp
next
  case (3 a b)
  have v: "b64_val (CHR ''='') = None" by (simp add: b64_val_def)
  show ?case using b64_bits [of "unat a" "unat b"] byte_less_256 [of a] byte_less_256 [of b] v by simp
next
  case (4 a b c r)
  then show ?case using b64_bits [of "unat a" "unat b"] b64_bits [of "unat c" "unat b"] b64_byte3 [of "unat b" "unat c"]
      byte_less_256 [of a] byte_less_256 [of b] byte_less_256 [of c] by simp
qed simp

lemma b64_encode_chars: "filter (\<lambda>c. c \<noteq> CHR 0x0A \<and> c \<noteq> CHR 0x0D) (b64_encode bs) = b64_encode bs"
proof (induction bs rule: b64_encode.induct)
  case (2 a)
  then show ?case using b64_bits [of "unat a" 0] byte_less_256 [of a] by simp
next
  case (3 a b)
  show ?case using b64_bits [of "unat a" "unat b"] byte_less_256 [of a] byte_less_256 [of b] by simp
next
  case (4 a b c r)
  then show ?case using b64_bits [of "unat a" "unat b"] b64_bits [of "unat c" "unat b"]
      byte_less_256 [of a] byte_less_256 [of b] byte_less_256 [of c] by simp
qed simp

lemma b64_decode_encode [simp]: "b64_decode (b64_encode bs) = Some bs"
  by (simp add: b64_decode_def b64_encode_chars b64_quads_encode)

section \<open>Root pointers\<close>

definition ascii :: "string \<Rightarrow> bytes" where
  "ascii s = map (\<lambda>c. word_of_nat (of_char c)) s"

record root_pointer =
  rp_Owner :: bytes
  rp_Root :: read_cap
  rp_Seq :: "64 word"
  rp_TimeNS :: "64 word"
  rp_Sig :: bytes

definition root_signingPayload :: "json_codec \<Rightarrow> root_pointer \<Rightarrow> bytes" where
  "root_signingPayload J r = ascii ''revika/root/1.0.0'' @ [0] @ rp_Owner r @ be_put 8 (unat (rp_Seq r)) @ be_put 8 (unat (rp_TimeNS r))
     @ cap_MarshalBinary J (vc_ReadCap (VerifyCap (rp_Root r)))"

definition SignRoot :: "prims \<Rightarrow> json_codec \<Rightarrow> bytes \<Rightarrow> read_cap \<Rightarrow> 64 word \<Rightarrow> 64 word \<Rightarrow> root_pointer" where
  "SignRoot P J k root sq timeNS = (let r = \<lparr>rp_Owner = ed_public P k, rp_Root = root, rp_Seq = sq, rp_TimeNS = timeNS, rp_Sig = []\<rparr> in
     r\<lparr>rp_Sig := ed_sign P k (root_signingPayload J r)\<rparr>)"

definition root_Verify :: "prims \<Rightarrow> json_codec \<Rightarrow> root_pointer \<Rightarrow> bool" where
  "root_Verify P J r = ed_verify P (rp_Owner r) (root_signingPayload J r) (rp_Sig r)"

section \<open>Sealed companions\<close>

record full_root =
  fr_Owner :: bytes
  fr_Seq :: "64 word"
  fr_Sealed :: bytes
  fr_Seals :: "bytes list"
  fr_Sig :: bytes

definition seals_frame :: "bytes list \<Rightarrow> bytes" where
  "seals_frame seals = (if seals = [] then [] else be_put 8 (length seals) @ concat (map (\<lambda>s. be_put 8 (length s) @ s) seals))"

definition full_signingPayload :: "full_root \<Rightarrow> bytes" where
  "full_signingPayload r = ascii ''revika/fullroot/1.0.0'' @ [0] @ fr_Owner r @ be_put 8 (unat (fr_Seq r)) @ fr_Sealed r @ seals_frame (fr_Seals r)"

definition sign_full :: "prims \<Rightarrow> bytes \<Rightarrow> full_root \<Rightarrow> full_root" where
  "sign_full P signer r = r\<lparr>fr_Sig := ed_sign P signer (full_signingPayload r)\<rparr>"

definition SealFullRoot :: "prims \<Rightarrow> json_codec \<Rightarrow> bytes \<Rightarrow> bytes \<Rightarrow> read_cap \<Rightarrow> 64 word \<Rightarrow> bytes \<Rightarrow> (full_root \<times> bytes) res" where
  "SealFullRoot P J signer recipient root sq rnd = bindR (WrapCap P J recipient root rnd) (\<lambda>(sealed, rnd').
     Inr (sign_full P signer \<lparr>fr_Owner = ed_public P signer, fr_Seq = sq, fr_Sealed = sealed, fr_Seals = [], fr_Sig = []\<rparr>, rnd'))"

fun wrap_all :: "prims \<Rightarrow> json_codec \<Rightarrow> read_cap \<Rightarrow> bytes list \<Rightarrow> bytes \<Rightarrow> (bytes list \<times> bytes) res" where
  "wrap_all P J root [] rnd = Inr ([], rnd)"
| "wrap_all P J root (r # rs) rnd = bindR (WrapCap P J r root rnd) (\<lambda>(s, rnd1). bindR (wrap_all P J root rs rnd1) (\<lambda>(ss, rnd2). Inr (s # ss, rnd2)))"

definition SealFullRootFor :: "prims \<Rightarrow> json_codec \<Rightarrow> bytes \<Rightarrow> bytes list \<Rightarrow> read_cap \<Rightarrow> 64 word \<Rightarrow> bytes \<Rightarrow> (full_root \<times> bytes) res" where
  "SealFullRootFor P J signer recipients root sq rnd = (if recipients = [] then Inl ErrInvalid
     else bindR (wrap_all P J root recipients rnd) (\<lambda>(seals, rnd').
       Inr (sign_full P signer \<lparr>fr_Owner = ed_public P signer, fr_Seq = sq, fr_Sealed = [], fr_Seals = seals, fr_Sig = []\<rparr>, rnd')))"

definition full_Verify :: "prims \<Rightarrow> full_root \<Rightarrow> bool" where
  "full_Verify P r = (if fr_Sig r = [] \<or> fr_Sealed r = [] \<and> fr_Seals r = [] then False
     else ed_verify P (fr_Owner r) (full_signingPayload r) (fr_Sig r))"

fun open_seals :: "prims \<Rightarrow> json_codec \<Rightarrow> bytes \<Rightarrow> bytes list \<Rightarrow> read_cap res" where
  "open_seals P J priv [] = Inl ErrUnwrap"
| "open_seals P J priv (s # ss) = (case UnwrapCap P J priv s of Inr c \<Rightarrow> Inr c | Inl _ \<Rightarrow> open_seals P J priv ss)"

text \<open>\<open>ErrUnwrap\<close> of \<open>full_Open\<close> is \<^verbatim>\<open>ErrNoSealForKey\<close>.\<close>

definition full_Open :: "prims \<Rightarrow> json_codec \<Rightarrow> bytes \<Rightarrow> full_root \<Rightarrow> read_cap res" where
  "full_Open P J priv r = (if \<not> full_Verify P r then Inl ErrSignature
     else (case (if fr_Sealed r \<noteq> [] then UnwrapCap P J priv (fr_Sealed r) else Inl ErrUnwrap) of
        Inr c \<Rightarrow> Inr c
      | Inl _ \<Rightarrow> open_seals P J priv (fr_Seals r)))"

section \<open>Codecs\<close>

record rp_json =
  rj_owner :: string
  rj_root :: cap_json
  rj_seq :: "64 word"
  rj_time_ns :: "64 word"
  rj_sig :: string

record fr_json =
  fj_owner :: string
  fj_seq :: "64 word"
  fj_sealed :: string
  fj_seals :: "string list"
  fj_sig :: string

text \<open>\<^verbatim>\<open>encoding/json\<close> on the two structs.\<close>

record root_codec =
  js_rp :: "rp_json \<Rightarrow> bytes"
  js_rp_parse :: "bytes \<Rightarrow> rp_json option"
  js_fr :: "fr_json \<Rightarrow> bytes"
  js_fr_parse :: "bytes \<Rightarrow> fr_json option"

definition EncodeRootPointer :: "root_codec \<Rightarrow> root_pointer \<Rightarrow> bytes" where
  "EncodeRootPointer C rp = js_rp C \<lparr>rj_owner = b64_encode (rp_Owner rp), rj_root = cap_MarshalJSON (rp_Root rp), rj_seq = rp_Seq rp,
     rj_time_ns = rp_TimeNS rp, rj_sig = b64_encode (rp_Sig rp)\<rparr>"

definition DecodeRootPointer :: "root_codec \<Rightarrow> bytes \<Rightarrow> root_pointer res" where
  "DecodeRootPointer C data = (case js_rp_parse C data of None \<Rightarrow> Inl ErrCodec | Some j \<Rightarrow>
     bindR (cap_UnmarshalJSON (rj_root j)) (\<lambda>root.
       case b64_decode (rj_owner j) of None \<Rightarrow> Inl ErrCodec | Some owner \<Rightarrow>
         if length owner \<noteq> SignPubKeySize then Inl ErrCodec
         else (case b64_decode (rj_sig j) of None \<Rightarrow> Inl ErrCodec | Some sg \<Rightarrow>
           Inr \<lparr>rp_Owner = owner, rp_Root = root, rp_Seq = rj_seq j, rp_TimeNS = rj_time_ns j, rp_Sig = sg\<rparr>)))"

definition EncodeFullRoot :: "root_codec \<Rightarrow> full_root \<Rightarrow> bytes" where
  "EncodeFullRoot C r = js_fr C \<lparr>fj_owner = b64_encode (fr_Owner r), fj_seq = fr_Seq r,
     fj_sealed = (if fr_Sealed r \<noteq> [] then b64_encode (fr_Sealed r) else []), fj_seals = map b64_encode (fr_Seals r), fj_sig = b64_encode (fr_Sig r)\<rparr>"

fun decode_seals :: "string list \<Rightarrow> bytes list res" where
  "decode_seals [] = Inr []"
| "decode_seals (s # ss) = (case b64_decode s of None \<Rightarrow> Inl ErrCodec | Some raw \<Rightarrow> bindR (decode_seals ss) (\<lambda>rs. Inr (raw # rs)))"

definition DecodeFullRoot :: "root_codec \<Rightarrow> bytes \<Rightarrow> full_root res" where
  "DecodeFullRoot C data = (case js_fr_parse C data of None \<Rightarrow> Inl ErrCodec | Some j \<Rightarrow>
     (case b64_decode (fj_owner j) of None \<Rightarrow> Inl ErrCodec | Some owner \<Rightarrow>
       if length owner \<noteq> SignPubKeySize then Inl ErrCodec
       else (case (if fj_sealed j \<noteq> [] then b64_decode (fj_sealed j) else Some []) of None \<Rightarrow> Inl ErrCodec | Some sealed \<Rightarrow>
         bindR (decode_seals (fj_seals j)) (\<lambda>seals.
           case b64_decode (fj_sig j) of None \<Rightarrow> Inl ErrCodec | Some sg \<Rightarrow>
             Inr \<lparr>fr_Owner = owner, fr_Seq = fj_seq j, fr_Sealed = sealed, fr_Seals = seals, fr_Sig = sg\<rparr>))))"

section \<open>Publication\<close>

text \<open>
  The DHT is a parameter: put and get of a value under a key; \<^verbatim>\<open>routing.ErrNotFound\<close> is \<open>ErrNotFound\<close>.
  \<^verbatim>\<open>record.SplitKey\<close> of \<^verbatim>\<open>go-libp2p-record\<close> is the parameter \<open>split\<close>.
\<close>

record 'd dht =
  dht_PutValue :: "'d \<Rightarrow> bytes \<Rightarrow> bytes \<Rightarrow> 'd \<times> unit res"
  dht_GetValue :: "'d \<Rightarrow> bytes \<Rightarrow> bytes res"

definition RootNamespace :: bytes where "RootNamespace = ascii ''revika''"
definition FullRootNamespace :: bytes where "FullRootNamespace = ascii ''revika-fullcap''"

definition record_key :: "bytes \<Rightarrow> bytes \<Rightarrow> bytes" where
  "record_key ns owner = ascii ''/'' @ ns @ ascii ''/'' @ owner"

definition rootKey :: "bytes \<Rightarrow> bytes" where "rootKey owner = record_key RootNamespace owner"
definition fullRootKey :: "bytes \<Rightarrow> bytes" where "fullRootKey owner = record_key FullRootNamespace owner"

definition root_Validate :: "prims \<Rightarrow> json_codec \<Rightarrow> root_codec \<Rightarrow> (bytes \<Rightarrow> (bytes \<times> bytes) res) \<Rightarrow> bytes \<Rightarrow> bytes \<Rightarrow> unit res" where
  "root_Validate P J C split key v = bindR (split key) (\<lambda>(ns, path).
     if ns \<noteq> RootNamespace then Inl ErrInvalid
     else if length path \<noteq> SignPubKeySize then Inl ErrInvalid
     else bindR (DecodeRootPointer C v) (\<lambda>rp.
       if rp_Owner rp \<noteq> path then Inl ErrMismatch else if \<not> root_Verify P J rp then Inl ErrSignature else Inr ()))"

definition full_Validate :: "prims \<Rightarrow> root_codec \<Rightarrow> (bytes \<Rightarrow> (bytes \<times> bytes) res) \<Rightarrow> bytes \<Rightarrow> bytes \<Rightarrow> unit res" where
  "full_Validate P C split key v = bindR (split key) (\<lambda>(ns, path).
     if ns \<noteq> FullRootNamespace then Inl ErrInvalid
     else if length path \<noteq> SignPubKeySize then Inl ErrInvalid
     else bindR (DecodeFullRoot C v) (\<lambda>r.
       if fr_Owner r \<noteq> path then Inl ErrMismatch else if \<not> full_Verify P r then Inl ErrSignature else Inr ()))"

text \<open>
  The loop of \<^verbatim>\<open>Select\<close>: the index, sequence number and bytes of the best record so far. \<open>seqOf\<close> is
  the sequence number of a record that decodes and verifies.
\<close>

fun select_loop :: "(bytes \<Rightarrow> 64 word option) \<Rightarrow> bytes list \<Rightarrow> nat \<Rightarrow> (nat \<times> 64 word \<times> bytes) option \<Rightarrow> (nat \<times> 64 word \<times> bytes) option" where
  "select_loop seqOf [] i best = best"
| "select_loop seqOf (v # vs) i best = select_loop seqOf vs (i + 1) (case seqOf v of
     None \<Rightarrow> best
   | Some q \<Rightarrow> (case best of
       None \<Rightarrow> Some (i, q, v)
     | Some (b, bestSeq, bv) \<Rightarrow> if bestSeq < q then Some (i, q, v) else if q = bestSeq \<and> v < bv then Some (i, bestSeq, v) else best))"

definition Select :: "(bytes \<Rightarrow> 64 word option) \<Rightarrow> bytes list \<Rightarrow> nat res" where
  "Select seqOf vs = (case select_loop seqOf vs 0 None of None \<Rightarrow> Inl ErrInvalid | Some (b, _, _) \<Rightarrow> Inr b)"

definition root_Select :: "prims \<Rightarrow> json_codec \<Rightarrow> root_codec \<Rightarrow> bytes list \<Rightarrow> nat res" where
  "root_Select P J C = Select (\<lambda>v. case DecodeRootPointer C v of Inl _ \<Rightarrow> None | Inr rp \<Rightarrow> if root_Verify P J rp then Some (rp_Seq rp) else None)"

definition full_Select :: "prims \<Rightarrow> root_codec \<Rightarrow> bytes list \<Rightarrow> nat res" where
  "full_Select P C = Select (\<lambda>v. case DecodeFullRoot C v of Inl _ \<Rightarrow> None | Inr r \<Rightarrow> if full_Verify P r then Some (fr_Seq r) else None)"

definition PutRoot :: "root_codec \<Rightarrow> 'd dht \<Rightarrow> 'd \<Rightarrow> root_pointer \<Rightarrow> 'd \<times> unit res" where
  "PutRoot C D d rp = (let rp' = rp\<lparr>rp_Root := vc_ReadCap (VerifyCap (rp_Root rp))\<rparr> in
     dht_PutValue D d (rootKey (rp_Owner rp')) (EncodeRootPointer C rp'))"

definition GetRoot :: "prims \<Rightarrow> json_codec \<Rightarrow> root_codec \<Rightarrow> 'd dht \<Rightarrow> 'd \<Rightarrow> bytes \<Rightarrow> root_pointer option res" where
  "GetRoot P J C D d owner = (case dht_GetValue D d (rootKey owner) of
     Inl e \<Rightarrow> if e = ErrNotFound then Inr None else Inl e
   | Inr v \<Rightarrow> bindR (DecodeRootPointer C v) (\<lambda>rp.
       if rp_Owner rp \<noteq> owner \<or> \<not> root_Verify P J rp then Inl ErrSignature else Inr (Some rp)))"

definition PutFullRoot :: "root_codec \<Rightarrow> 'd dht \<Rightarrow> 'd \<Rightarrow> full_root \<Rightarrow> 'd \<times> unit res" where
  "PutFullRoot C D d r = dht_PutValue D d (fullRootKey (fr_Owner r)) (EncodeFullRoot C r)"

definition capBytesEqual :: "json_codec \<Rightarrow> read_cap \<Rightarrow> read_cap \<Rightarrow> bool" where
  "capBytesEqual J a b \<longleftrightarrow> cap_MarshalBinary J a = cap_MarshalBinary J b"

definition GetFullRoot :: "prims \<Rightarrow> json_codec \<Rightarrow> root_codec \<Rightarrow> 'd dht \<Rightarrow> 'd \<Rightarrow> bytes \<Rightarrow> bytes \<Rightarrow> read_cap \<Rightarrow> read_cap option res" where
  "GetFullRoot P J C D d owner priv verifyRoot = (case dht_GetValue D d (fullRootKey owner) of
     Inl e \<Rightarrow> if e = ErrNotFound then Inr None else Inl e
   | Inr v \<Rightarrow> bindR (DecodeFullRoot C v) (\<lambda>r.
       if fr_Owner r \<noteq> owner then Inl ErrMismatch
       else bindR (full_Open P J priv r) (\<lambda>full.
         if \<not> capBytesEqual J (vc_ReadCap (VerifyCap full)) (vc_ReadCap (VerifyCap verifyRoot)) then Inl ErrMismatch
         else Inr (Some full))))"

text \<open>The root protocol: a node answers from its resolver, a client checks what it gets.\<close>

definition maxRootReport :: nat where "maxRootReport = 64 * 2 ^ 10"

definition handleRoot :: "root_codec \<Rightarrow> (error \<Rightarrow> bytes) \<Rightarrow> (bytes \<Rightarrow> root_pointer option res) \<Rightarrow> bytes \<Rightarrow> bytes option" where
  "handleRoot C txt resolve req = (case ReadFull SignPubKeySize req of
     Inl _ \<Rightarrow> None
   | Inr (owner, _) \<Rightarrow> (case resolve owner of
       Inl e \<Rightarrow> Some (replyErr txt e)
     | Inr None \<Rightarrow> Some (replyErr txt ErrNotFound)
     | Inr (Some rp) \<Rightarrow> Some (statusOK # (case writeBlob (EncodeRootPointer C rp) of Inl _ \<Rightarrow> [] | Inr b \<Rightarrow> b))))"

definition QueryRoot :: "prims \<Rightarrow> json_codec \<Rightarrow> root_codec \<Rightarrow> (bytes \<Rightarrow> bytes res) \<Rightarrow> bytes \<Rightarrow> root_pointer option res" where
  "QueryRoot P J C node owner = bindR (node owner) (\<lambda>resp. case readResp resp of
     Inl e \<Rightarrow> if e = ErrNotFound then Inr None else Inl e
   | Inr (_, s1) \<Rightarrow> bindR (readBlob maxRootReport s1) (\<lambda>(body, _). bindR (DecodeRootPointer C body) (\<lambda>rp.
       if rp_Owner rp \<noteq> owner \<or> \<not> root_Verify P J rp then Inl ErrSignature else Inr (Some rp))))"

section \<open>Signed records in the DHT\<close>

text \<open>
  What the validators share: a record that decodes has an owner, a sequence number and a check
  that implies the owner's signature; the DHT keeps what \<open>Validate\<close> accepts and resolves replicas
  with \<open>Select\<close>.
\<close>

lemma select_loop_None:
  "select_loop seqOf vs i best = None \<longleftrightarrow> best = None \<and> (\<forall>v \<in> set vs. seqOf v = None)"
  by (induction vs arbitrary: i best) (auto split: option.splits)

definition beats :: "64 word \<times> bytes \<Rightarrow> 64 word \<times> bytes \<Rightarrow> bool" where
  "beats a b \<longleftrightarrow> fst b < fst a \<or> fst a = fst b \<and> snd a \<le> snd b"

lemma beats_trans: "beats a b \<Longrightarrow> beats b c \<Longrightarrow> beats a c"
  by (auto simp: beats_def)

lemma select_loop_best:
  assumes "select_loop seqOf vs i best = Some (b, q, v)"
  shows "(best = Some (b, q, v) \<or> (\<exists>k < length vs. b = i + k \<and> vs ! k = v \<and> seqOf v = Some q))
    \<and> (\<forall>b' q' v'. best = Some (b', q', v') \<longrightarrow> beats (q, v) (q', v'))
    \<and> (\<forall>v' \<in> set vs. \<forall>q'. seqOf v' = Some q' \<longrightarrow> beats (q, v) (q', v'))"
  using assms
proof (induction vs arbitrary: i best)
  case Nil
  then show ?case by (auto simp: beats_def)
next
  case (Cons x xs)
  define best1 where "best1 = (case seqOf x of None \<Rightarrow> best | Some q \<Rightarrow> (case best of None \<Rightarrow> Some (i, q, x)
     | Some (b, bestSeq, bv) \<Rightarrow> if bestSeq < q then Some (i, q, x) else if q = bestSeq \<and> x < bv then Some (i, bestSeq, x) else best))"
  have b1: "select_loop seqOf xs (i + 1) best1 = Some (b, q, v)" using Cons.prems by (simp add: best1_def)
  have st: "best1 = best \<and> (seqOf x = None \<or> (\<exists>qx b' q' v'. seqOf x = Some qx \<and> best = Some (b', q', v') \<and> beats (q', v') (qx, x)))
      \<or> (\<exists>qx. seqOf x = Some qx \<and> best1 = Some (i, qx, x) \<and> (\<forall>b' q' v'. best = Some (b', q', v') \<longrightarrow> beats (qx, x) (q', v')))"
  proof (cases "seqOf x")
    case (Some qx)
    show ?thesis
    proof (cases best)
      case (Some t)
      obtain b' q' v' where t: "t = (b', q', v')" by (metis prod_cases3)
      consider "q' < qx" | "qx = q'" "x < v'" | "\<not> q' < qx" "\<not> (qx = q' \<and> x < v')" by blast
      then show ?thesis
      proof cases
        case 3
        then have "beats (q', v') (qx, x)" by (auto simp: beats_def not_less)
        moreover have "best1 = best" using 3 \<open>seqOf x = Some qx\<close> Some t by (auto simp: best1_def)
        ultimately show ?thesis using \<open>seqOf x = Some qx\<close> Some t by blast
      qed (use \<open>seqOf x = Some qx\<close> Some t in \<open>auto simp: best1_def beats_def\<close>)
    qed (use Some in \<open>simp add: best1_def\<close>)
  qed (simp add: best1_def)
  note IH = Cons.IH [OF b1]
  have old: "best1 = Some (b, q, v) \<or> (\<exists>k < length (x # xs). b = i + k \<and> (x # xs) ! k = v \<and> seqOf v = Some q)"
    using IH by (metis Suc_less_eq add.assoc add.commute length_Cons nth_Cons_Suc plus_1_eq_Suc)
  have 1: "best = Some (b, q, v) \<or> (\<exists>k < length (x # xs). b = i + k \<and> (x # xs) ! k = v \<and> seqOf v = Some q)"
    using old st by (elim disjE exE conjE) (auto intro: exI [of _ 0])
  have I: "beats (q, v) (q', v')" if "best1 = Some (b', q', v')" for b' q' v' using IH that by blast
  have 2: "beats (q, v) (q', v')" if bs: "best = Some (b', q', v')" for b' q' v'
    using st
  proof (elim disjE exE conjE)
    fix qx assume "best1 = Some (i, qx, x)" "\<forall>b' q' v'. best = Some (b', q', v') \<longrightarrow> beats (qx, x) (q', v')"
    then show ?thesis using I bs beats_trans by blast
  qed (use I bs in blast)+
  have 3: "beats (q, v) (q', x)" if qx: "seqOf x = Some q'" for q'
    using st
  proof (elim disjE exE conjE)
    fix qx b1 q1 v1 assume "best1 = best" "seqOf x = Some qx" "best = Some (b1, q1, v1)" "beats (q1, v1) (qx, x)"
    then show ?thesis using I [of b1 q1 v1] qx beats_trans by simp
  next
    fix qx assume "seqOf x = Some qx" "best1 = Some (i, qx, x)"
    then show ?thesis using I qx by simp
  qed (use qx in simp)
  show ?case using 1 2 3 IH by auto
qed

lemma Select_best:
  assumes "Select seqOf vs = Inr b"
  shows "b < length vs" and "\<exists>q. seqOf (vs ! b) = Some q \<and> (\<forall>v' \<in> set vs. \<forall>q'. seqOf v' = Some q' \<longrightarrow> beats (q, vs ! b) (q', v'))"
proof -
  obtain q v where "select_loop seqOf vs 0 None = Some (b, q, v)" using assms by (auto simp: Select_def split: option.splits)
  from select_loop_best [OF this] show "b < length vs"
    "\<exists>q. seqOf (vs ! b) = Some q \<and> (\<forall>v' \<in> set vs. \<forall>q'. seqOf v' = Some q' \<longrightarrow> beats (q, vs ! b) (q', v'))" by auto
qed

lemma Select_agree:
  assumes "set vs = set ws" and "Select seqOf vs = Inr b"
  shows "\<exists>c. Select seqOf ws = Inr c \<and> ws ! c = vs ! b"
proof -
  obtain q where q: "b < length vs" "seqOf (vs ! b) = Some q" "\<forall>v' \<in> set vs. \<forall>q'. seqOf v' = Some q' \<longrightarrow> beats (q, vs ! b) (q', v')"
    using Select_best [OF assms(2)] by blast
  have "vs ! b \<in> set ws" using q(1) assms(1) nth_mem by blast
  then obtain c where c: "Select seqOf ws = Inr c"
    using q(2) select_loop_None [of seqOf ws 0 None] by (cases "select_loop seqOf ws 0 None") (auto simp: Select_def)
  obtain p where p: "c < length ws" "seqOf (ws ! c) = Some p" "\<forall>v' \<in> set ws. \<forall>q'. seqOf v' = Some q' \<longrightarrow> beats (p, ws ! c) (q', v')"
    using Select_best [OF c] by blast
  have "beats (q, vs ! b) (p, ws ! c)" "beats (p, ws ! c) (q, vs ! b)" using q p assms(1) nth_mem by blast+
  then have "ws ! c = vs ! b" by (auto simp: beats_def)
  then show ?thesis using c by blast
qed

locale signed_record =
  fixes P :: prims and decode :: "bytes \<Rightarrow> 'r res" and valid :: "'r \<Rightarrow> bool" and owner :: "'r \<Rightarrow> bytes" and sq :: "'r \<Rightarrow> 64 word"
    and signed :: "'r \<Rightarrow> bytes" and sg :: "'r \<Rightarrow> bytes"
    and validate :: "(bytes \<Rightarrow> (bytes \<times> bytes) res) \<Rightarrow> bytes \<Rightarrow> bytes \<Rightarrow> unit res" and sel :: "bytes list \<Rightarrow> nat res" and ns :: bytes
  assumes valid_signed: "valid r \<Longrightarrow> ed_verify P (owner r) (signed r) (sg r)"
    and validate_law: "split (record_key ns path) = Inr (ns, path) \<Longrightarrow> validate split (record_key ns path) v = Inr () \<longleftrightarrow>
      length path = SignPubKeySize \<and> (\<exists>r. decode v = Inr r \<and> owner r = path \<and> valid r)"
    and sel_law: "sel = Select (\<lambda>v. case decode v of Inl _ \<Rightarrow> None | Inr r \<Rightarrow> if valid r then Some (sq r) else None)"
begin

lemma accepted_signed:
  assumes "split (record_key ns path) = Inr (ns, path)" and "validate split (record_key ns path) v = Inr ()"
  shows "\<exists>r. decode v = Inr r \<and> ed_verify P path (signed r) (sg r)"
  using assms validate_law valid_signed by blast

lemma replicas_agree:
  assumes "set vs = set ws" and "sel vs = Inr b"
  shows "\<exists>c. sel ws = Inr c \<and> ws ! c = vs ! b"
  using Select_agree [OF assms(1)] assms(2) unfolding sel_law by blast

lemma newest_wins:
  assumes "sel vs = Inr b" and "v \<in> set vs" and "decode v = Inr r" and "valid r"
  shows "\<exists>best. b < length vs \<and> decode (vs ! b) = Inr best \<and> valid best \<and> sq r \<le> sq best"
  using Select_best [OF assms(1) [unfolded sel_law]] assms(2-4)
  by (fastforce simp: beats_def split: sum.splits if_splits)

end

interpretation root_record: signed_record P "DecodeRootPointer C" "root_Verify P J" rp_Owner rp_Seq "root_signingPayload J" rp_Sig
    "root_Validate P J C" "root_Select P J C" RootNamespace
  by unfold_locales (auto simp: root_Verify_def root_Validate_def root_Select_def)

interpretation full_record: signed_record P "DecodeFullRoot C" "full_Verify P" fr_Owner fr_Seq full_signingPayload fr_Sig
    "full_Validate P C" "full_Select P C" FullRootNamespace
  by unfold_locales (auto simp: full_Verify_def full_Validate_def full_Select_def split: if_splits)

section \<open>Encryption at rest\<close>

text \<open>\<^verbatim>\<open>argon2.IDKey\<close> and AES-256-GCM with additional data are parameters.\<close>

record at_prims =
  at_kdf :: "bytes \<Rightarrow> bytes \<Rightarrow> bytes"
  at_seal :: "bytes \<Rightarrow> bytes \<Rightarrow> bytes \<Rightarrow> bytes \<Rightarrow> bytes"
  at_open :: "bytes \<Rightarrow> bytes \<Rightarrow> bytes \<Rightarrow> bytes \<Rightarrow> bytes option"

definition at_law :: "at_prims \<Rightarrow> bool" where
  "at_law A \<longleftrightarrow> (\<forall>k n pt aad. at_open A k n (at_seal A k n pt aad) aad = Some pt \<and> length (at_seal A k n pt aad) = length pt + 16)"

definition at_magic :: bytes where
  "at_magic = ascii ''rvk-enc'' @ [1]"

definition overhead :: nat where
  "overhead = 8 + 16 + 12 + 16"

definition IsEncrypted :: "bytes \<Rightarrow> bool" where
  "IsEncrypted b \<longleftrightarrow> prefix at_magic b"

definition at_Encrypt :: "at_prims \<Rightarrow> bytes \<Rightarrow> bytes \<Rightarrow> bytes \<Rightarrow> (bytes \<times> bytes) res" where
  "at_Encrypt A plain pass rnd = bindR (read_full 16 rnd) (\<lambda>(salt, r1). bindR (read_full 12 r1) (\<lambda>(nonce, r2).
     Inr (at_magic @ salt @ nonce @ at_seal A (at_kdf A pass salt) nonce plain at_magic, r2)))"

definition at_Decrypt :: "at_prims \<Rightarrow> bytes \<Rightarrow> bytes \<Rightarrow> bytes res" where
  "at_Decrypt A ct pass = (if \<not> IsEncrypted ct then Inr ct
     else if length ct < overhead then Inl ErrCodec
     else let salt = take 16 (drop 8 ct); nonce = take 12 (drop 24 ct) in
       (case at_open A (at_kdf A pass salt) nonce (drop 36 ct) at_magic of None \<Rightarrow> Inl ErrDecrypt | Some plain \<Rightarrow> Inr plain))"

lemma length_at_magic [simp]: "length at_magic = 8"
  by (simp add: at_magic_def ascii_def)

lemma at_Decrypt_Encrypt:
  assumes "at_law A" and "at_Encrypt A plain pass rnd = Inr (ct, rnd')"
  shows "IsEncrypted ct \<and> at_Decrypt A ct pass = Inr plain"
proof -
  have l: "16 \<le> length rnd" "12 \<le> length (drop 16 rnd)"
    and ct: "ct = at_magic @ take 16 rnd @ take 12 (drop 16 rnd) @ at_seal A (at_kdf A pass (take 16 rnd)) (take 12 (drop 16 rnd)) plain at_magic"
    using assms(2) by (auto simp: at_Encrypt_def read_full_def split: if_splits)
  have n: "length (take 16 rnd) = 16" "length (take 12 (drop 16 rnd)) = 12" using l by simp_all
  define a where "a = take 16 rnd"
  define b where "b = take 12 (drop 16 rnd)"
  define c where "c = at_seal A (at_kdf A pass a) b plain at_magic"
  have ab: "length a = 16" "length b = 12" "length c = length plain + 16" using n assms(1) by (simp_all add: a_def b_def c_def at_law_def)
  have ct': "ct = at_magic @ a @ b @ c" using ct by (simp add: a_def b_def c_def)
  have "take 16 (drop 8 ct) = a" "take 12 (drop 24 ct) = b" "drop 36 ct = c" "overhead \<le> length ct" "prefix at_magic ct"
    using ab by (simp_all add: ct' overhead_def)
  moreover have "at_open A (at_kdf A pass a) b c at_magic = Some plain" using assms(1) by (simp add: at_law_def c_def)
  ultimately show ?thesis by (simp add: at_Decrypt_def IsEncrypted_def)
qed

section \<open>Root stores\<close>

definition mem_root_Load :: "root_pointer option \<Rightarrow> root_pointer option res" where
  "mem_root_Load m = Inr m"

definition mem_root_Save :: "root_pointer option \<Rightarrow> root_pointer \<Rightarrow> root_pointer option \<times> unit res" where
  "mem_root_Save m rp = (case m of Some cur \<Rightarrow> if rp_Seq rp \<le> rp_Seq cur then (m, Inl ErrStale) else (Some rp, Inr ())
     | None \<Rightarrow> (Some rp, Inr ()))"

text \<open>
  The file store: its state is the content of the file, if there is one. Of a call the environment
  decides the entropy and which of \<^verbatim>\<open>ReadFile\<close>, \<^verbatim>\<open>MkdirAll\<close>, \<^verbatim>\<open>WriteFile\<close> and \<^verbatim>\<open>Rename\<close> fails; the
  temporary file is never read. \<open>unreadable\<close> says that reading fails for a reason other than the
  file's absence.
\<close>

record save_env =
  env_rnd :: bytes
  env_read :: bool
  env_mkdir :: bool
  env_write :: bool
  env_rename :: bool

definition root_encrypt :: "at_prims \<Rightarrow> bytes option \<Rightarrow> bytes \<Rightarrow> bytes \<Rightarrow> bytes res" where
  "root_encrypt A pass data rnd = (case pass of None \<Rightarrow> Inr data | Some pw \<Rightarrow> bindR (at_Encrypt A data pw rnd) (\<lambda>(ct, _). Inr ct))"

definition root_decrypt :: "at_prims \<Rightarrow> bytes option \<Rightarrow> bytes \<Rightarrow> bytes res" where
  "root_decrypt A pass data = (if \<not> IsEncrypted data then Inr data else (case pass of None \<Rightarrow> Inl ErrInvalid | Some pw \<Rightarrow> at_Decrypt A data pw))"

definition file_Load :: "prims \<Rightarrow> json_codec \<Rightarrow> root_codec \<Rightarrow> at_prims \<Rightarrow> bytes option \<Rightarrow> bool \<Rightarrow> bytes option \<Rightarrow> root_pointer option res" where
  "file_Load P J C A pass unreadable f = (if unreadable then Inl ErrIO else case f of None \<Rightarrow> Inr None
     | Some raw \<Rightarrow> bindR (root_decrypt A pass raw) (\<lambda>data. bindR (DecodeRootPointer C data) (\<lambda>rp.
         if \<not> root_Verify P J rp then Inl ErrSignature else Inr (Some rp))))"

definition file_Save :: "prims \<Rightarrow> json_codec \<Rightarrow> root_codec \<Rightarrow> at_prims \<Rightarrow> bytes option \<Rightarrow> save_env \<Rightarrow> bytes option \<Rightarrow> root_pointer
    \<Rightarrow> bytes option \<times> unit res" where
  "file_Save P J C A pass env f rp =
     (if \<not> root_Verify P J rp then (f, Inl ErrSignature)
      else (case file_Load P J C A pass (env_read env) f of
          Inl e \<Rightarrow> (f, Inl e)
        | Inr cur \<Rightarrow>
            if (case cur of None \<Rightarrow> False | Some c \<Rightarrow> rp_Owner c \<noteq> rp_Owner rp) then (f, Inl ErrMismatch)
            else if (case cur of None \<Rightarrow> False | Some c \<Rightarrow> rp_Seq rp \<le> rp_Seq c) then (f, Inl ErrStale)
            else (case root_encrypt A pass (EncodeRootPointer C rp @ [10]) (env_rnd env) of
                Inl e \<Rightarrow> (f, Inl e)
              | Inr data \<Rightarrow> if env_mkdir env \<or> env_write env \<or> env_rename env then (f, Inl ErrIO) else (Some data, Inr ()))))"

text \<open>The DHT store over a publisher, and the composition of a primary with mirrors.\<close>

definition dht_root_Load :: "('d \<Rightarrow> bytes \<Rightarrow> root_pointer option res) \<Rightarrow> bytes \<Rightarrow> 'd \<Rightarrow> root_pointer option res" where
  "dht_root_Load get owner d = get d owner"

definition dht_root_Save :: "prims \<Rightarrow> json_codec \<Rightarrow> ('d \<Rightarrow> bytes \<Rightarrow> root_pointer option res) \<Rightarrow> ('d \<Rightarrow> root_pointer \<Rightarrow> 'd \<times> unit res) \<Rightarrow> bytes
    \<Rightarrow> 'd \<Rightarrow> root_pointer \<Rightarrow> 'd \<times> unit res" where
  "dht_root_Save P J get put owner d rp =
     (if \<not> root_Verify P J rp then (d, Inl ErrSignature)
      else if rp_Owner rp \<noteq> owner then (d, Inl ErrMismatch)
      else (case get d owner of
          Inr (Some cur) \<Rightarrow> if rp_Seq rp \<le> rp_Seq cur then (d, Inl ErrStale) else put d rp
        | _ \<Rightarrow> put d rp))"

fun save_mirrors :: "('m \<Rightarrow> root_pointer \<Rightarrow> 'm \<times> unit res) list \<Rightarrow> 'm \<Rightarrow> root_pointer \<Rightarrow> 'm" where
  "save_mirrors [] m rp = m"
| "save_mirrors (sv # svs) m rp = save_mirrors svs (fst (sv m rp)) rp"

definition multi_Load :: "('s \<Rightarrow> root_pointer option res) \<Rightarrow> 's \<times> 'm \<Rightarrow> root_pointer option res" where
  "multi_Load load s = load (fst s)"

definition multi_Save :: "('e \<Rightarrow> 's \<Rightarrow> root_pointer \<Rightarrow> 's \<times> unit res) \<Rightarrow> ('m \<Rightarrow> root_pointer \<Rightarrow> 'm \<times> unit res) list \<Rightarrow> 'e
    \<Rightarrow> 's \<times> 'm \<Rightarrow> root_pointer \<Rightarrow> ('s \<times> 'm) \<times> unit res" where
  "multi_Save save mirrors env s rp = (case save env (fst s) rp of
     (p, Inl e) \<Rightarrow> ((p, snd s), Inl e)
   | (p, Inr _) \<Rightarrow> ((p, save_mirrors mirrors (snd s) rp), Inr ()))"

section \<open>No root store goes back\<close>

fun save_run :: "('e \<Rightarrow> 's \<Rightarrow> root_pointer \<Rightarrow> 's \<times> unit res) \<Rightarrow> ('e \<times> root_pointer) list \<Rightarrow> 's \<Rightarrow> 's" where
  "save_run save [] s = s"
| "save_run save ((env, rp) # ops) s = save_run save ops (fst (save env s rp))"

text \<open>
  The interface: a save either replaces the pointer by one with a higher sequence number or
  changes nothing that can be loaded. \<open>wf\<close> says which pointers the store's format can hold.
\<close>

locale root_store =
  fixes load :: "'s \<Rightarrow> root_pointer option res" and save :: "'e \<Rightarrow> 's \<Rightarrow> root_pointer \<Rightarrow> 's \<times> unit res" and wf :: "root_pointer \<Rightarrow> bool"
  assumes saved: "save env s rp = (s', Inr ()) \<Longrightarrow> wf rp \<Longrightarrow> load s' = Inr (Some rp)"
    and advances: "save env s rp = (s', Inr ()) \<Longrightarrow> load s = Inr (Some cur) \<Longrightarrow> rp_Seq cur < rp_Seq rp"
    and refused: "save env s rp = (s', Inl e) \<Longrightarrow> load s' = load s"
begin

lemma never_back:
  assumes "load s = Inr (Some cur)" and "\<forall>(_, rp) \<in> set ops. wf rp"
  shows "\<exists>new. load (save_run save ops s) = Inr (Some new) \<and> (new = cur \<or> rp_Seq cur < rp_Seq new \<and> new \<in> snd ` set ops)"
  using assms
proof (induction ops arbitrary: s cur)
  case (Cons x ops)
  obtain env rp where x: "x = (env, rp)" by fastforce
  obtain s' r where sv: "save env s rp = (s', r)" by fastforce
  show ?case
  proof (cases r)
    case (Inl e)
    then have "load s' = Inr (Some cur)" using refused sv Cons.prems(1) by simp
    then show ?thesis using Cons.IH Cons.prems(2) x sv by fastforce
  next
    case (Inr u)
    then have l: "load s' = Inr (Some rp)" "rp_Seq cur < rp_Seq rp" using saved advances sv Cons.prems x by auto
    obtain new where "load (save_run save ops s') = Inr (Some new)" "new = rp \<or> rp_Seq rp < rp_Seq new \<and> new \<in> snd ` set ops"
      using Cons.IH [OF l(1)] Cons.prems(2) by auto
    then show ?thesis using l(2) x sv by force
  qed
qed simp

end

interpretation mem_root: root_store mem_root_Load "\<lambda>_ :: unit. mem_root_Save" "\<lambda>_. True"
  by unfold_locales (auto simp: mem_root_Load_def mem_root_Save_def split: option.splits if_splits)

text \<open>A primary that satisfies the interface does so behind any mirrors.\<close>

locale mirrored_store = root_store load save wf
  for load :: "'s \<Rightarrow> root_pointer option res" and save :: "'e \<Rightarrow> 's \<Rightarrow> root_pointer \<Rightarrow> 's \<times> unit res" and wf +
  fixes mirrors :: "('m \<Rightarrow> root_pointer \<Rightarrow> 'm \<times> unit res) list"

sublocale mirrored_store \<subseteq> multi: root_store "multi_Load load" "multi_Save save mirrors" wf
proof unfold_locales
  show "multi_Load load s' = Inr (Some rp)" if "multi_Save save mirrors env s rp = (s', Inr ())" "wf rp" for env s rp s'
    using that saved by (auto simp: multi_Load_def multi_Save_def split: prod.splits sum.splits)
  show "rp_Seq cur < rp_Seq rp" if "multi_Save save mirrors env s rp = (s', Inr ())" "multi_Load load s = Inr (Some cur)" for env s rp s' cur
    using that advances by (fastforce simp: multi_Load_def multi_Save_def split: prod.splits sum.splits)
  show "multi_Load load s' = multi_Load load s" if "multi_Save save mirrors env s rp = (s', Inl e)" for env s rp s' e
    using that refused by (auto simp: multi_Load_def multi_Save_def split: prod.splits sum.splits)
qed

context mirrored_store
begin

lemma multi_store: "root_store (multi_Load load) (multi_Save save mirrors) wf"
  by (rule multi.root_store_axioms)

lemma multi_never_back:
  assumes "multi_Load load s = Inr (Some cur)" and "\<forall>(_, rp) \<in> set ops. wf rp"
  shows "\<exists>new. multi_Load load (save_run (multi_Save save mirrors) ops s) = Inr (Some new) \<and> (new = cur \<or> rp_Seq cur < rp_Seq new \<and> new \<in> snd ` set ops)"
  by (rule multi.never_back [OF assms])

end

text \<open>The file store behind it, for codecs that behave as documented.\<close>

definition is_ascii :: "string \<Rightarrow> bool" where
  "is_ascii s \<longleftrightarrow> (\<forall>c \<in> set s. of_char c < (128 :: nat))"

definition root_codec_law :: "root_codec \<Rightarrow> bool" where
  "root_codec_law C \<longleftrightarrow>
     (\<forall>j. is_ascii (rj_owner j) \<and> is_ascii (rj_sig j) \<and> is_ascii (cj_key (rj_root j)) \<and> list_all is_ascii (cj_shards (rj_root j)) \<longrightarrow>
        js_rp_parse C (js_rp C j) = Some j \<and> js_rp_parse C (js_rp C j @ [10]) = Some j \<and> (\<exists>r. js_rp C j = 123 # r))
     \<and> (\<forall>j. is_ascii (fj_owner j) \<and> is_ascii (fj_sealed j) \<and> is_ascii (fj_sig j) \<and> list_all is_ascii (fj_seals j) \<longrightarrow>
        js_fr_parse C (js_fr C j) = Some j)"

lemma is_ascii_Cons: "is_ascii [] \<longleftrightarrow> True" "is_ascii (c # cs) \<longleftrightarrow> of_char c < (128 :: nat) \<and> is_ascii cs"
  by (simp_all add: is_ascii_def)

lemma b64_digit_ascii: "n < 64 \<Longrightarrow> of_char (b64_digit n) < (128 :: nat)"
  by (auto simp: b64_digit_def)

lemma b64_ascii: "is_ascii (b64_encode bs)"
proof (induction bs rule: b64_encode.induct)
  case (4 a b c r)
  have "unat c mod 64 < 64" by simp
  then show ?case using 4 b64_bits [of "unat a" "unat b"] b64_bits [of "unat c" "unat b"] byte_less_256 [of a] byte_less_256 [of b] byte_less_256 [of c]
    unfolding b64_encode.simps is_ascii_Cons by (blast intro: b64_digit_ascii)
next
  case (2 a)
  then show ?case using b64_bits [of "unat a" 0] byte_less_256 [of a] by (simp add: is_ascii_Cons b64_digit_ascii)
next
  case (3 a b)
  show ?case using b64_bits [of "unat a" "unat b"] byte_less_256 [of a] byte_less_256 [of b] by (simp add: is_ascii_Cons b64_digit_ascii)
qed (simp add: is_ascii_Cons)

lemma hex_ascii: "is_ascii (hex_encode bs)"
proof (induction bs)
  case (Cons b bs)
  have "of_char (hex_digit n) < (128 :: nat)" if "n < 16" for n using that by (auto simp: hex_digit_def)
  moreover have "unat b div 16 < 16" "unat b mod 16 < 16" using byte_less_256 [of b] by auto
  ultimately show ?case using Cons by (simp add: is_ascii_def)
qed (simp add: is_ascii_def)

definition rp_wf :: "root_pointer \<Rightarrow> bool" where
  "rp_wf rp \<longleftrightarrow> length (rp_Owner rp) = SignPubKeySize \<and> cap_ok (rp_Root rp)"

lemma DecodeRootPointer_Encode:
  assumes "root_codec_law C" and "rp_wf rp"
  shows "DecodeRootPointer C (EncodeRootPointer C rp) = Inr rp" and "DecodeRootPointer C (EncodeRootPointer C rp @ [10]) = Inr rp"
    and "\<exists>r. EncodeRootPointer C rp = 123 # r"
proof -
  let ?j = "\<lparr>rj_owner = b64_encode (rp_Owner rp), rj_root = cap_MarshalJSON (rp_Root rp), rj_seq = rp_Seq rp, rj_time_ns = rp_TimeNS rp,
    rj_sig = b64_encode (rp_Sig rp)\<rparr>"
  have "is_ascii (cj_key (rj_root ?j)) \<and> list_all is_ascii (cj_shards (rj_root ?j))"
    using hex_ascii by (simp add: cap_MarshalJSON_def ShardID_String_def list_all_iff)
  then have p: "js_rp_parse C (js_rp C ?j) = Some ?j" "js_rp_parse C (js_rp C ?j @ [10]) = Some ?j" "\<exists>r. js_rp C ?j = 123 # r"
    using assms(1) b64_ascii unfolding root_codec_law_def by simp_all
  then show "DecodeRootPointer C (EncodeRootPointer C rp) = Inr rp" "DecodeRootPointer C (EncodeRootPointer C rp @ [10]) = Inr rp"
    "\<exists>r. EncodeRootPointer C rp = 123 # r"
    using assms(2) cap_roundtrip [of "rp_Root rp"] by (simp_all add: EncodeRootPointer_def DecodeRootPointer_def rp_wf_def)
qed

lemma file_Load_unreadable: "file_Load P J C A pass True f = Inl ErrIO"
  by (simp add: file_Load_def)

locale file_root =
  fixes P :: prims and J :: json_codec and C :: root_codec and A :: at_prims and pass :: "bytes option"
  assumes codec: "root_codec_law C" and at: "at_law A"
begin

lemma decrypt_encrypt:
  assumes "root_encrypt A pass (123 # r) rnd = Inr data"
  shows "root_decrypt A pass data = Inr (123 # r)"
proof (cases pass)
  case None
  then have "data = 123 # r" using assms by (simp add: root_encrypt_def)
  moreover have "\<not> prefix at_magic (123 # r)" by (simp add: at_magic_def ascii_def)
  ultimately show ?thesis by (simp add: root_decrypt_def IsEncrypted_def)
next
  case (Some pw)
  then show ?thesis using assms at_Decrypt_Encrypt [OF at, of "123 # r" pw rnd]
    by (auto simp: root_encrypt_def root_decrypt_def split: prod.splits)
qed

end

sublocale file_root \<subseteq> root_store "file_Load P J C A pass False" "file_Save P J C A pass" rp_wf
proof unfold_locales
  show "file_Load P J C A pass False s' = Inr (Some rp)" if sv: "file_Save P J C A pass env s rp = (s', Inr ())" and wf: "rp_wf rp" for env s rp s'
  proof -
    obtain data where v: "root_Verify P J rp" and e: "root_encrypt A pass (EncodeRootPointer C rp @ [10]) (env_rnd env) = Inr data"
      and s': "s' = Some data" using sv by (auto simp: file_Save_def split: if_splits sum.splits)
    obtain r where r: "EncodeRootPointer C rp @ [10] = 123 # r" using DecodeRootPointer_Encode(3) [OF codec wf] by auto
    show ?thesis using decrypt_encrypt [OF e [unfolded r]] DecodeRootPointer_Encode(2) [OF codec wf] v s' r by (simp add: file_Load_def)
  qed
  show "rp_Seq cur < rp_Seq rp" if "file_Save P J C A pass env s rp = (s', Inr ())" "file_Load P J C A pass False s = Inr (Some cur)" for env s rp s' cur
    using that by (cases "env_read env") (auto simp: file_Save_def file_Load_unreadable split: if_splits sum.splits)
  show "file_Load P J C A pass False s' = file_Load P J C A pass False s" if "file_Save P J C A pass env s rp = (s', Inl e)" for env s rp s' e
    using that by (auto simp: file_Save_def split: if_splits sum.splits)
qed

context file_root
begin

lemma multi_root_store:
  "root_store (multi_Load (file_Load P J C A pass False)) (multi_Save (file_Save P J C A pass) mirrors) rp_wf"
proof -
  have "mirrored_store (file_Load P J C A pass False) (file_Save P J C A pass) rp_wf" unfolding mirrored_store_def by (rule root_store_axioms)
  then show ?thesis by (rule mirrored_store.multi_store)
qed

lemma never_back_mirrored:
  assumes "file_Load P J C A pass False f = Inr (Some cur)" and "\<forall>(_, rp) \<in> set ops. rp_wf rp"
  shows "\<exists>new. file_Load P J C A pass False (fst (save_run (multi_Save (file_Save P J C A pass) mirrors) ops (f, m))) = Inr (Some new)
    \<and> (new = cur \<or> rp_Seq cur < rp_Seq new \<and> new \<in> snd ` set ops)"
proof -
  have "mirrored_store (file_Load P J C A pass False) (file_Save P J C A pass) rp_wf" unfolding mirrored_store_def by (rule root_store_axioms)
  from mirrored_store.multi_never_back [OF this, of "(f, m)" cur ops mirrors] assms show ?thesis by (simp add: multi_Load_def)
qed

end

section \<open>Signatures and keys\<close>

lemma project_project [simp]: "VerifyCap (vc_ReadCap v) = v" "VerifyCap (c\<lparr>rc_Key := k\<rparr>) = VerifyCap c"
  by (simp_all add: VerifyCap_def vc_ReadCap_def)

lemma root_signingPayload_stripped: "root_signingPayload J (r\<lparr>rp_Root := vc_ReadCap (VerifyCap (rp_Root r))\<rparr>) = root_signingPayload J r"
  by (simp add: root_signingPayload_def)

lemma root_Verify_SignRoot: "sign_law P \<Longrightarrow> root_Verify P J (SignRoot P J k root sq t)"
  by (simp add: root_Verify_def SignRoot_def Let_def sign_law_def root_signingPayload_def)

lemma cap_MarshalJSON_inj: "cap_MarshalJSON a = cap_MarshalJSON b \<longleftrightarrow> a = b"
proof
  assume e: "cap_MarshalJSON a = cap_MarshalJSON b"
  have "inj ShardID_String" by (simp add: inj_def ShardID_String_def hex_encode_inj)
  then have "rc_Shards a = rc_Shards b" using e by (simp add: cap_MarshalJSON_def inj_map_eq_map)
  then show "a = b" using e by (simp add: cap_MarshalJSON_def hex_encode_inj)
qed simp

lemma cap_MarshalBinary_inj: "json_law J \<Longrightarrow> cap_MarshalBinary J a = cap_MarshalBinary J b \<longleftrightarrow> a = b"
  using cap_utf8_Marshal [of J a] cap_utf8_Marshal [of J b]
  by (metis cap_MarshalBinary_def cap_MarshalJSON_inj json_law_def option.inject)

lemma append_eq_length2: "length a = length c \<Longrightarrow> a @ b = c @ d \<longleftrightarrow> a = c \<and> b = d"
  by simp

lemma be_put8_inj: "be_put 8 (unat (a :: 64 word)) = be_put 8 (unat b) \<longleftrightarrow> a = b"
proof
  assume "be_put 8 (unat a) = be_put 8 (unat b)"
  from be_put_inj [OF this] have "unat a = unat b" using unsigned_less [of a, where 'a = nat] unsigned_less [of b, where 'a = nat] by simp
  then show "a = b" by (simp add: word_unat_eq_iff)
qed simp

lemma root_signingPayload_inj:
  assumes "json_law J" and "length (rp_Owner a) = length (rp_Owner b)" and "root_signingPayload J a = root_signingPayload J b"
  shows "rp_Owner a = rp_Owner b \<and> rp_Seq a = rp_Seq b \<and> rp_TimeNS a = rp_TimeNS b \<and> VerifyCap (rp_Root a) = VerifyCap (rp_Root b)"
proof -
  have "rp_Owner a = rp_Owner b" "rp_Seq a = rp_Seq b" "rp_TimeNS a = rp_TimeNS b"
    "cap_MarshalBinary J (vc_ReadCap (VerifyCap (rp_Root a))) = cap_MarshalBinary J (vc_ReadCap (VerifyCap (rp_Root b)))"
    using assms(2,3) by (simp_all add: root_signingPayload_def be_put8_inj)
  then show ?thesis using cap_MarshalBinary_inj [OF assms(1)] project_project(1) by metis
qed

text \<open>
  The payload of a companion does not separate \<open>Sealed\<close> from \<open>Seals\<close>: the frame of a device list can be
  moved into \<open>Sealed\<close> under the same signature, and no device can open the result.
\<close>

lemma fullroot_resplit:
  assumes "fr_Seals r \<noteq> []"
  shows "full_signingPayload (r\<lparr>fr_Sealed := fr_Sealed r @ seals_frame (fr_Seals r), fr_Seals := []\<rparr>) = full_signingPayload r"
    and "full_Verify P r \<Longrightarrow> full_Verify P (r\<lparr>fr_Sealed := fr_Sealed r @ seals_frame (fr_Seals r), fr_Seals := []\<rparr>)"
proof -
  show *: "full_signingPayload (r\<lparr>fr_Sealed := fr_Sealed r @ seals_frame (fr_Seals r), fr_Seals := []\<rparr>) = full_signingPayload r"
    by (simp add: full_signingPayload_def seals_frame_def)
  have "be_put 8 n \<noteq> []" for n by (metis length_be_put list.size(3) zero_neq_numeral)
  then have "seals_frame (fr_Seals r) \<noteq> []" using assms by (simp add: seals_frame_def del: be_put.simps)
  then show "full_Verify P (r\<lparr>fr_Sealed := fr_Sealed r @ seals_frame (fr_Seals r), fr_Seals := []\<rparr>)" if "full_Verify P r"
    using that * by (auto simp: full_Verify_def split: if_splits)
qed

section \<open>Example codecs\<close>

instance rp_json_ext :: (countable) countable
  by (rule countable_classI [of "\<lambda>r. to_nat (rj_owner r, rj_root r, rj_seq r, rj_time_ns r, rj_sig r, rp_json.more r)"]) auto

instance fr_json_ext :: (countable) countable
  by (rule countable_classI [of "\<lambda>r. to_nat (fj_owner r, fj_seq r, fj_sealed r, fj_seals r, fj_sig r, fr_json.more r)"]) auto

definition count_parse :: "bytes \<Rightarrow> ('a :: countable) option" where
  "count_parse b = Some (from_nat (length (filter (\<lambda>x. x = 0) b)))"

definition demo_rc :: root_codec where
  "demo_rc = \<lparr>js_rp = (\<lambda>j. 123 # replicate (to_nat j) 0), js_rp_parse = count_parse,
     js_fr = (\<lambda>j. 123 # replicate (to_nat j) 0), js_fr_parse = count_parse\<rparr>"

lemma demo_rc_law: "root_codec_law demo_rc"
  by (simp add: root_codec_law_def demo_rc_def count_parse_def)

definition demo_at :: at_prims where
  "demo_at = \<lparr>at_kdf = (\<lambda>p s. p @ s), at_seal = (\<lambda>k n pt aad. pt @ replicate 16 0), at_open = (\<lambda>k n ct aad. Some (take (length ct - 16) ct))\<rparr>"

lemma demo_at_law: "at_law demo_at"
  by (simp add: at_law_def demo_at_def)

interpretation demo_file_root: file_root demo_prims demo_json demo_rc demo_at "Some [1]"
  by unfold_locales (rule demo_rc_law demo_at_law)+

definition demo_root :: "64 word \<Rightarrow> root_pointer" where
  "demo_root n = SignRoot demo_prims demo_json [7] demo_child n 0"

lemma demo_root_ok: "rp_wf (demo_root n)" "root_Verify demo_prims demo_json (demo_root n)"
proof -
  have "length (ed_public demo_prims [7]) = SignPubKeySize" using demo_sign_law by (simp add: sign_law_def SignPubKeySize_def)
  then show "rp_wf (demo_root n)" using demo_child_ok(1) by (simp add: rp_wf_def demo_root_def SignRoot_def Let_def)
  show "root_Verify demo_prims demo_json (demo_root n)" unfolding demo_root_def by (rule root_Verify_SignRoot [OF demo_sign_law])
qed

lemma demo_root_file: "file_Load demo_prims demo_json demo_rc demo_at None False (Some (EncodeRootPointer demo_rc (demo_root n) @ [10])) = Inr (Some (demo_root n))"
proof -
  obtain r where "EncodeRootPointer demo_rc (demo_root n) = 123 # r" using DecodeRootPointer_Encode(3) [OF demo_rc_law demo_root_ok(1)] by blast
  then have "\<not> IsEncrypted (EncodeRootPointer demo_rc (demo_root n) @ [10])" by (simp add: IsEncrypted_def at_magic_def ascii_def)
  then show ?thesis using DecodeRootPointer_Encode(2) [OF demo_rc_law demo_root_ok(1)] demo_root_ok(2) by (simp add: file_Load_def root_decrypt_def)
qed

section \<open>Properties\<close>

text \<open>
  C7: the user's root never goes back. Whatever saves are tried on a root file, in whatever order,
  with whatever failures of the environment and mirrors behind it: the file always loads, and what it loads
  is the pointer it held or one of the saved ones with a higher sequence number.
\<close>

theorem root_never_rolls_back:
  assumes "root_codec_law C" and "at_law A" and "file_Load P J C A pass False f = Inr (Some cur)" and "\<forall>(_, rp) \<in> set ops. rp_wf rp"
  shows "\<exists>new. file_Load P J C A pass False (fst (save_run (multi_Save (file_Save P J C A pass) mirrors) ops (f, m))) = Inr (Some new)
    \<and> (new = cur \<or> rp_Seq cur < rp_Seq new \<and> new \<in> snd ` set ops)"
  by (rule file_root.never_back_mirrored [OF _ assms(3,4)]) (simp add: file_root_def assms(1,2))

theorem root_never_rolls_back_witness:
  "\<exists>new. file_Load demo_prims demo_json demo_rc demo_at None False (fst (save_run (multi_Save (file_Save demo_prims demo_json demo_rc demo_at None) [mem_root_Save])
      [(\<lparr>env_rnd = [], env_read = False, env_mkdir = False, env_write = False, env_rename = False\<rparr>, demo_root 6), (\<lparr>env_rnd = [], env_read = False, env_mkdir = False, env_write = False, env_rename = True\<rparr>, demo_root 7)]
      (Some (EncodeRootPointer demo_rc (demo_root 5) @ [10]), None))) = Inr (Some new)
    \<and> (new = demo_root 5 \<or> rp_Seq (demo_root 5) < rp_Seq new \<and> new \<in> {demo_root 6, demo_root 7})"
  using root_never_rolls_back [OF demo_rc_law demo_at_law demo_root_file [of 5],
      of "[(\<lparr>env_rnd = [], env_read = False, env_mkdir = False, env_write = False, env_rename = False\<rparr>, demo_root 6), (\<lparr>env_rnd = [], env_read = False, env_mkdir = False, env_write = False, env_rename = True\<rparr>, demo_root 7)]"
        "[mem_root_Save]" None]
  by (simp add: demo_root_ok(1) del: save_run.simps)

text \<open>
  publishing a root reveals nothing of its key. The record put into the DHT is the same for every
  key of the root capability, and the signature made over the full capability verifies for the
  published one, and only for the same owner, sequence number, time and blob.
\<close>

lemma published_root_keyless:
  "PutRoot C D d (rp\<lparr>rp_Root := (rp_Root rp)\<lparr>rc_Key := k\<rparr>\<rparr>) = PutRoot C D d rp
   \<and> root_Verify P J (rp\<lparr>rp_Root := vc_ReadCap (VerifyCap (rp_Root rp))\<rparr>) = root_Verify P J rp
   \<and> (json_law J \<longrightarrow> length (rp_Owner a) = length (rp_Owner b) \<longrightarrow> root_signingPayload J a = root_signingPayload J b \<longrightarrow>
       rp_Owner a = rp_Owner b \<and> rp_Seq a = rp_Seq b \<and> rp_TimeNS a = rp_TimeNS b \<and> VerifyCap (rp_Root a) = VerifyCap (rp_Root b))"
  using root_signingPayload_inj [of J a b] root_signingPayload_stripped [of J rp] by (auto simp: PutRoot_def root_Verify_def Let_def)

lemma published_root_keyless_witness:
  "PutRoot demo_rc \<lparr>dht_PutValue = (\<lambda>d k v. ((k, v) # d, Inr ())), dht_GetValue = (\<lambda>d k. Inl ErrNotFound)\<rparr> []
       (demo_root 1\<lparr>rp_Root := (rp_Root (demo_root 1))\<lparr>rc_Key := [1]\<rparr>\<rparr>) =
     PutRoot demo_rc \<lparr>dht_PutValue = (\<lambda>d k v. ((k, v) # d, Inr ())), dht_GetValue = (\<lambda>d k. Inl ErrNotFound)\<rparr> [] (demo_root 1)
   \<and> VerifyCap (rp_Root (demo_root 1)) = VerifyCap (rp_Root (demo_root 1))"
  using published_root_keyless [of demo_rc "\<lparr>dht_PutValue = (\<lambda>d k v. ((k, v) # d, Inr ())), dht_GetValue = (\<lambda>d k. Inl ErrNotFound)\<rparr>" "[]" "[1]" "demo_root 1"
      demo_prims demo_json "demo_root 1" "demo_root 1"] demo_json_law by blast

text \<open>
  C23: replicas agree on the root. Two readers that hold the same records, in any order and with any
  repetitions, select the same bytes; they verify, and no verified record has a higher sequence
  number.
\<close>

theorem root_replicas_agree:
  assumes "set vs = set ws" and "root_Select P J C vs = Inr b"
  shows "\<exists>c best. root_Select P J C ws = Inr c \<and> ws ! c = vs ! b \<and> b < length vs \<and> DecodeRootPointer C (vs ! b) = Inr best \<and> root_Verify P J best
    \<and> (\<forall>v \<in> set vs. \<forall>r. DecodeRootPointer C v = Inr r \<longrightarrow> root_Verify P J r \<longrightarrow> rp_Seq r \<le> rp_Seq best)"
proof -
  obtain c where c: "root_Select P J C ws = Inr c" "ws ! c = vs ! b" using root_record.replicas_agree [OF assms] by blast
  have s: "Select (\<lambda>v. case DecodeRootPointer C v of Inl _ \<Rightarrow> None | Inr rp \<Rightarrow> if root_Verify P J rp then Some (rp_Seq rp) else None) vs = Inr b"
    using assms(2) by (simp add: root_Select_def)
  obtain best where best: "b < length vs" "DecodeRootPointer C (vs ! b) = Inr best" "root_Verify P J best"
    using Select_best [OF s] by (auto split: sum.splits if_splits)
  have "rp_Seq r \<le> rp_Seq best" if "v \<in> set vs" "DecodeRootPointer C v = Inr r" "root_Verify P J r" for v r
    using root_record.newest_wins [OF assms(2) that] best by auto
  then show ?thesis using c best by blast
qed

theorem root_replicas_agree_witness:
  "\<exists>c. root_Select demo_prims demo_json demo_rc [EncodeRootPointer demo_rc (demo_root 2), EncodeRootPointer demo_rc (demo_root 1)] = Inr c
     \<and> [EncodeRootPointer demo_rc (demo_root 2), EncodeRootPointer demo_rc (demo_root 1)] ! c = EncodeRootPointer demo_rc (demo_root 2)"
proof -
  have "rp_Seq (demo_root n) = n" for n by (simp add: demo_root_def SignRoot_def Let_def)
  then have "root_Select demo_prims demo_json demo_rc [EncodeRootPointer demo_rc (demo_root 1), EncodeRootPointer demo_rc (demo_root 2)] = Inr 1"
    using DecodeRootPointer_Encode(1) [OF demo_rc_law demo_root_ok(1)] demo_root_ok(2) by (simp add: root_Select_def Select_def)
  from root_replicas_agree [OF _ this, of "[EncodeRootPointer demo_rc (demo_root 2), EncodeRootPointer demo_rc (demo_root 1)]"]
  show ?thesis by auto
qed

text \<open>
  C24: what a reader accepts. Whatever the DHT or a node answers, a root that is returned is signed by
  the owner asked for, and a full root that is returned addresses exactly the blob of the verified
  root it was asked for.
\<close>

theorem accepted_roots_authentic:
  assumes "json_law J"
  shows "(GetRoot P J C D d owner = Inr (Some rp) \<longrightarrow> rp_Owner rp = owner \<and> ed_verify P owner (root_signingPayload J rp) (rp_Sig rp))
    \<and> (QueryRoot P J C node owner = Inr (Some rp) \<longrightarrow> rp_Owner rp = owner \<and> ed_verify P owner (root_signingPayload J rp) (rp_Sig rp))
    \<and> (GetFullRoot P J C D d owner priv verifyRoot = Inr (Some full) \<longrightarrow> VerifyCap full = VerifyCap verifyRoot)"
proof -
  have "VerifyCap full = VerifyCap verifyRoot" if "GetFullRoot P J C D d owner priv verifyRoot = Inr (Some full)"
  proof -
    have "cap_MarshalBinary J (vc_ReadCap (VerifyCap full)) = cap_MarshalBinary J (vc_ReadCap (VerifyCap verifyRoot))"
      using that by (auto simp: GetFullRoot_def capBytesEqual_def split: sum.splits if_splits)
    then show ?thesis using cap_MarshalBinary_inj [OF assms] project_project(1) by metis
  qed
  moreover have "rp_Owner rp = owner \<and> root_Verify P J rp" if "GetRoot P J C D d owner = Inr (Some rp)"
    using that by (auto simp: GetRoot_def split: sum.splits if_splits)
  moreover have "rp_Owner rp = owner \<and> root_Verify P J rp" if q: "QueryRoot P J C node owner = Inr (Some rp)"
  proof -
    obtain resp where "node owner = Inr resp" using q by (auto simp: QueryRoot_def)
    then show ?thesis using q by (cases "readResp resp") (auto simp: QueryRoot_def split: if_splits)
  qed
  ultimately show ?thesis unfolding root_Verify_def by blast
qed

theorem accepted_roots_authentic_witness:
  "GetRoot demo_prims demo_json demo_rc \<lparr>dht_PutValue = (\<lambda>d k v. (d, Inr ())), dht_GetValue = (\<lambda>d k. Inr d)\<rparr> (EncodeRootPointer demo_rc (demo_root 1))
      (rp_Owner (demo_root 1)) = Inr (Some (demo_root 1))
   \<and> ed_verify demo_prims (rp_Owner (demo_root 1)) (root_signingPayload demo_json (demo_root 1)) (rp_Sig (demo_root 1))"
proof -
  have g: "GetRoot demo_prims demo_json demo_rc \<lparr>dht_PutValue = (\<lambda>d k v. (d, Inr ())), dht_GetValue = (\<lambda>d k. Inr d)\<rparr> (EncodeRootPointer demo_rc (demo_root 1))
      (rp_Owner (demo_root 1)) = Inr (Some (demo_root 1))"
    using DecodeRootPointer_Encode(1) [OF demo_rc_law demo_root_ok(1)] demo_root_ok(2) by (simp add: GetRoot_def)
  with accepted_roots_authentic [OF demo_json_law, of demo_prims demo_rc "\<lparr>dht_PutValue = (\<lambda>d k v. (d, Inr ())), dht_GetValue = (\<lambda>d k. Inr d)\<rparr>"
      "EncodeRootPointer demo_rc (demo_root 1)" "rp_Owner (demo_root 1)" "demo_root 1" "\<lambda>_. Inl ErrIO" "[]" demo_child demo_child]
  show ?thesis by blast
qed

end
