(* ===== verification/Devices.thy ===== *)
theory Devices
  imports Roots "HOL-Library.Multiset"
begin

text \<open>
  A user's devices: \<^verbatim>\<open>src/internal/device/device.go\<close> (the signed list of authorized devices), its codec
  \<^verbatim>\<open>src/internal/provider/deviceauth.go\<close> and its publication \<^verbatim>\<open>src/internal/net/deviceauth.go\<close>. Revoking a
  device means signing a list without it and sealing the root to the others, and to the device that does so
  (\<^verbatim>\<open>companionRecipients\<close> of \<^verbatim>\<open>src/cmd/revika-ctl/commands.go\<close>).
\<close>

section \<open>Model\<close>

definition PublicKeySize :: nat where "PublicKeySize = 1184"

record member =
  mb_ID :: bytes
  mb_Pub :: bytes
  mb_Label :: string
  mb_Added :: "64 word"

record dev_auth =
  au_Owner :: bytes
  au_Seq :: "64 word"
  au_Members :: "member list"
  au_Sig :: bytes

definition NewID :: "prims \<Rightarrow> bytes \<Rightarrow> bytes" where
  "NewID P pub = sha256 P pub"

definition sortMembers :: "member list \<Rightarrow> member list" where
  "sortMembers ms = sort_key mb_ID ms"

definition member_payload :: "member \<Rightarrow> bytes" where
  "member_payload m = mb_ID m @ mb_Pub m @ be_put 8 (length (mb_Label m)) @ ascii (mb_Label m) @ be_put 8 (unat (mb_Added m))"

definition auth_signingPayload :: "dev_auth \<Rightarrow> bytes" where
  "auth_signingPayload a = (let ms = sortMembers (au_Members a) in
     ascii ''revika/deviceauth/1.0.0'' @ [0] @ au_Owner a @ be_put 8 (unat (au_Seq a)) @ be_put 8 (length ms) @ concat (map member_payload ms))"

definition auth_Sign :: "prims \<Rightarrow> bytes \<Rightarrow> dev_auth \<Rightarrow> dev_auth" where
  "auth_Sign P signer a = (let a1 = a\<lparr>au_Owner := ed_public P signer\<rparr> in a1\<lparr>au_Sig := ed_sign P signer (auth_signingPayload a1)\<rparr>)"

definition auth_Verify :: "prims \<Rightarrow> dev_auth \<Rightarrow> bool" where
  "auth_Verify P a = (if au_Sig a = [] then False
     else if \<exists>m \<in> set (au_Members a). mb_ID m \<noteq> NewID P (mb_Pub m) then False
     else ed_verify P (au_Owner a) (auth_signingPayload a) (au_Sig a))"

definition Authorized :: "dev_auth \<Rightarrow> bytes \<Rightarrow> bool" where
  "Authorized a did \<longleftrightarrow> (\<exists>m \<in> set (au_Members a). mb_ID m = did)"

definition PubOf :: "dev_auth \<Rightarrow> bytes \<Rightarrow> bytes option" where
  "PubOf a did = map_option mb_Pub (find (\<lambda>m. mb_ID m = did) (au_Members a))"

definition Recipients :: "dev_auth \<Rightarrow> bytes list" where
  "Recipients a = map mb_Pub (au_Members a)"

text \<open>
  To whom the command line seals the root; the empty list asks for the seal of a single owner. \<open>auth\<close> is what
  \<^verbatim>\<open>loadDeviceAuth\<close> returns.
\<close>

definition companionRecipients :: "bytes \<Rightarrow> bytes \<Rightarrow> bool \<Rightarrow> dev_auth option res \<Rightarrow> bytes list res" where
  "companionRecipients signerPub selfPub mlkemOK auth = (if \<not> mlkemOK then Inr []
     else bindR auth (\<lambda>x. case x of
         None \<Rightarrow> Inr []
       | Some a \<Rightarrow> if au_Members a = [] \<or> au_Owner a \<noteq> signerPub then Inr []
           else let recipients = Recipients a in
             Inr (if selfPub \<notin> set recipients then recipients @ [selfPub] else recipients)))"


definition Without :: "dev_auth \<Rightarrow> bytes \<Rightarrow> dev_auth res" where
  "Without a did = (if \<not> Authorized a did then Inl ErrInvalid
     else Inr (a\<lparr>au_Seq := au_Seq a + 1, au_Sig := [], au_Members := filter (\<lambda>m. mb_ID m \<noteq> did) (au_Members a)\<rparr>))"

fun normalizeHandle :: "string \<Rightarrow> string" where
  "normalizeHandle [] = []"
| "normalizeHandle (c # cs) = (let n = of_char c :: nat in
     if 65 \<le> n \<and> n \<le> 70 then char_of (n + 32) # normalizeHandle cs
     else if 48 \<le> n \<and> n \<le> 57 \<or> 97 \<le> n \<and> n \<le> 102 then c # normalizeHandle cs
     else normalizeHandle cs)"

fun resolve_loop :: "string \<Rightarrow> member list \<Rightarrow> member option \<Rightarrow> member res" where
  "resolve_loop h [] match = (case match of None \<Rightarrow> Inl ErrNotFound | Some m \<Rightarrow> Inr m)"
| "resolve_loop h (m # ms) match = (if prefix h (hex_encode (mb_ID m))
     then (case match of Some _ \<Rightarrow> Inl ErrConflict | None \<Rightarrow> resolve_loop h ms (Some m))
     else resolve_loop h ms match)"

definition dev_Resolve :: "dev_auth \<Rightarrow> string \<Rightarrow> member res" where
  "dev_Resolve a handle = (let h = normalizeHandle handle in if h = [] then Inl ErrInvalid else resolve_loop h (au_Members a) None)"

text \<open>The codec; \<^verbatim>\<open>encoding/json\<close> on the struct is again a parameter.\<close>

record member_json =
  mj_id :: string
  mj_pub :: string
  mj_label :: string
  mj_added :: "64 word"

record auth_json =
  aj_owner :: string
  aj_seq :: "64 word"
  aj_members :: "member_json list"
  aj_sig :: string

record dev_codec =
  js_dev :: "auth_json \<Rightarrow> bytes"
  js_dev_parse :: "bytes \<Rightarrow> auth_json option"

definition EncodeDeviceAuth :: "dev_codec \<Rightarrow> dev_auth \<Rightarrow> bytes" where
  "EncodeDeviceAuth C a = js_dev C \<lparr>aj_owner = b64_encode (au_Owner a), aj_seq = au_Seq a,
     aj_members = map (\<lambda>m. \<lparr>mj_id = hex_encode (mb_ID m), mj_pub = b64_encode (mb_Pub m), mj_label = mb_Label m, mj_added = mb_Added m\<rparr>) (au_Members a),
     aj_sig = b64_encode (au_Sig a)\<rparr>"

definition parseKey :: "nat \<Rightarrow> string \<Rightarrow> bytes res" where
  "parseKey n s = (case b64_decode s of None \<Rightarrow> Inl ErrCodec | Some raw \<Rightarrow> if length raw \<noteq> n then Inl ErrCodec else Inr raw)"

definition decode_member :: "prims \<Rightarrow> member_json \<Rightarrow> member res" where
  "decode_member P j = bindR (parseKey PublicKeySize (mj_pub j)) (\<lambda>pub.
     Inr \<lparr>mb_ID = NewID P pub, mb_Pub = pub, mb_Label = mj_label j, mb_Added = mj_added j\<rparr>)"

definition DecodeDeviceAuth :: "prims \<Rightarrow> dev_codec \<Rightarrow> bytes \<Rightarrow> dev_auth res" where
  "DecodeDeviceAuth P C data = (case js_dev_parse C data of None \<Rightarrow> Inl ErrCodec | Some j \<Rightarrow>
     (case b64_decode (aj_owner j) of None \<Rightarrow> Inl ErrCodec | Some owner \<Rightarrow>
       if length owner \<noteq> SignPubKeySize then Inl ErrCodec
       else (case b64_decode (aj_sig j) of None \<Rightarrow> Inl ErrCodec | Some sg \<Rightarrow>
         bindR (mapR (decode_member P) (aj_members j)) (\<lambda>ms. Inr \<lparr>au_Owner = owner, au_Seq = aj_seq j, au_Members = ms, au_Sig = sg\<rparr>))))"

definition DeviceAuthNamespace :: bytes where "DeviceAuthNamespace = ascii ''revika-devices''"
definition deviceAuthKey :: "bytes \<Rightarrow> bytes" where "deviceAuthKey owner = record_key DeviceAuthNamespace owner"

definition dev_Validate :: "prims \<Rightarrow> dev_codec \<Rightarrow> (bytes \<Rightarrow> (bytes \<times> bytes) res) \<Rightarrow> bytes \<Rightarrow> bytes \<Rightarrow> unit res" where
  "dev_Validate P C split key v = bindR (split key) (\<lambda>(ns, path).
     if ns \<noteq> DeviceAuthNamespace then Inl ErrInvalid
     else if length path \<noteq> SignPubKeySize then Inl ErrInvalid
     else bindR (DecodeDeviceAuth P C v) (\<lambda>a.
       if au_Owner a \<noteq> path then Inl ErrMismatch else if \<not> auth_Verify P a then Inl ErrSignature else Inr ()))"

definition dev_Select :: "prims \<Rightarrow> dev_codec \<Rightarrow> bytes list \<Rightarrow> nat res" where
  "dev_Select P C = Select (\<lambda>v. case DecodeDeviceAuth P C v of Inl _ \<Rightarrow> None | Inr a \<Rightarrow> if auth_Verify P a then Some (au_Seq a) else None)"

definition PutDeviceAuth :: "dev_codec \<Rightarrow> 'd dht \<Rightarrow> 'd \<Rightarrow> dev_auth \<Rightarrow> 'd \<times> unit res" where
  "PutDeviceAuth C D d a = dht_PutValue D d (deviceAuthKey (au_Owner a)) (EncodeDeviceAuth C a)"

definition GetDeviceAuth :: "prims \<Rightarrow> dev_codec \<Rightarrow> 'd dht \<Rightarrow> 'd \<Rightarrow> bytes \<Rightarrow> dev_auth option res" where
  "GetDeviceAuth P C D d owner = (case dht_GetValue D d (deviceAuthKey owner) of
     Inl e \<Rightarrow> if e = ErrNotFound then Inr None else Inl e
   | Inr v \<Rightarrow> bindR (DecodeDeviceAuth P C v) (\<lambda>a.
       if au_Owner a \<noteq> owner \<or> \<not> auth_Verify P a then Inl ErrSignature else Inr (Some a)))"

interpretation dev_record: signed_record P "DecodeDeviceAuth P C" "auth_Verify P" au_Owner au_Seq auth_signingPayload au_Sig
    "dev_Validate P C" "dev_Select P C" DeviceAuthNamespace
  by unfold_locales (auto simp: auth_Verify_def dev_Validate_def dev_Select_def split: if_splits)

section \<open>The list of devices\<close>

definition devices_ok :: "prims \<Rightarrow> dev_auth \<Rightarrow> bool" where
  "devices_ok P a \<longleftrightarrow> sorted_wrt (<) (map mb_ID (au_Members a))
     \<and> list_all (\<lambda>m. mb_ID m = NewID P (mb_Pub m) \<and> length (mb_Pub m) = PublicKeySize) (au_Members a)"


lemma devices_ok_Without:
  assumes "devices_ok P a" and "Without a did = Inr b"
  shows "devices_ok P b \<and> au_Owner b = au_Owner a \<and> au_Seq b = au_Seq a + 1 \<and> \<not> Authorized b did
    \<and> (\<forall>m. m \<in> set (au_Members b) \<longleftrightarrow> m \<in> set (au_Members a) \<and> mb_ID m \<noteq> did)"
  using assms by (auto simp: Without_def devices_ok_def Authorized_def list_all_iff sorted_wrt_map sorted_wrt_filter split: if_splits)

lemma Without_reaches_others:
  assumes "devices_ok P a" and "Without a did = Inr b" and "Authorized a did'" and "did' \<noteq> did"
  shows "Authorized b did' \<and> PubOf b did' = PubOf a did'"
proof -
  have f: "find (\<lambda>m. mb_ID m = did') (filter (\<lambda>m. mb_ID m \<noteq> did) ms) = find (\<lambda>m. mb_ID m = did') ms" for ms
    using assms(4) by (induction ms) auto
  have m: "au_Members b = filter (\<lambda>m. mb_ID m \<noteq> did) (au_Members a)" using assms(2) by (auto simp: Without_def split: if_splits)
  then have "PubOf b did' = PubOf a did'" by (simp only: PubOf_def f)
  then show ?thesis using m assms(3,4) by (auto simp: Authorized_def)
qed

text \<open>\<open>dev_Resolve\<close> names the one device whose identifier starts with the hexadecimal digits of the handle.\<close>

lemma resolve_loop_spec:
  "resolve_loop h ms match = (case filter (\<lambda>m. prefix h (hex_encode (mb_ID m))) ms @ (case match of None \<Rightarrow> [] | Some m \<Rightarrow> [m]) of
     [] \<Rightarrow> Inl ErrNotFound | [m] \<Rightarrow> Inr m | _ \<Rightarrow> Inl ErrConflict)"
  by (induction ms arbitrary: match) (auto split: option.splits list.splits)

lemma handle_ignores_other_characters: "\<forall>c \<in> set h. 103 \<le> (of_char c :: nat) \<Longrightarrow> normalizeHandle (h @ k) = normalizeHandle k"
  by (induction h) (auto simp: Let_def)

section \<open>What the signature covers\<close>

lemma ascii_inj: "ascii a = ascii b \<Longrightarrow> a = b"
proof -
  have "inj (\<lambda>c. word_of_nat (of_char c) :: byte)"
  proof (rule injI)
    fix c d :: char assume "(word_of_nat (of_char c) :: byte) = word_of_nat (of_char d)"
    then have "(of_char c :: nat) mod 256 = of_char d mod 256" by (metis unat_word_of_nat_byte)
    then show "c = d" by (simp add: of_char_mod_256)
  qed
  then show "ascii a = ascii b \<Longrightarrow> a = b" by (simp add: ascii_def inj_map_eq_map)
qed

lemma member_payload_inj:
  assumes "member_payload m @ r = member_payload m' @ r'" and "length (mb_ID m) = length (mb_ID m')" and "length (mb_Pub m) = length (mb_Pub m')"
    and "length (mb_Label m) < 2 ^ 64" and "length (mb_Label m') < 2 ^ 64"
  shows "m = m' \<and> r = r'"
proof -
  have 1: "mb_ID m = mb_ID m'" "mb_Pub m = mb_Pub m'" and l: "be_put 8 (length (mb_Label m)) = be_put 8 (length (mb_Label m'))"
    and t: "ascii (mb_Label m) @ be_put 8 (unat (mb_Added m)) @ r = ascii (mb_Label m') @ be_put 8 (unat (mb_Added m')) @ r'"
    using assms(1-3) by (simp_all add: member_payload_def)
  have "length (mb_Label m) = length (mb_Label m')" using be_put_inj [OF l] assms(4,5) by simp
  then have "ascii (mb_Label m) = ascii (mb_Label m')" "be_put 8 (unat (mb_Added m)) = be_put 8 (unat (mb_Added m'))" "r = r'"
    using t by (simp_all add: ascii_def)
  then show ?thesis using 1 ascii_inj be_put8_inj by simp
qed

lemma members_payload_inj:
  assumes "concat (map member_payload ms) = concat (map member_payload ms')" and "length ms = length ms'"
    and "\<forall>m \<in> set ms \<union> set ms'. length (mb_ID m) = n \<and> length (mb_Pub m) = PublicKeySize \<and> length (mb_Label m) < 2 ^ 64"
  shows "ms = ms'"
  using assms
proof (induction ms arbitrary: ms')
  case (Cons m ms)
  obtain m' ms1 where ms': "ms' = m' # ms1" using Cons.prems(2) by (cases ms') auto
  have "m = m' \<and> concat (map member_payload ms) = concat (map member_payload ms1)"
    by (rule member_payload_inj) (use Cons.prems ms' in auto)
  then show ?case using Cons.IH [of ms1] Cons.prems ms' by auto
qed simp

lemma sortMembers_id: "devices_ok P a \<Longrightarrow> sortMembers (au_Members a) = au_Members a"
  unfolding sortMembers_def devices_ok_def strict_sorted_iff by (intro sort_key_id_if_sorted) blast

lemma auth_signingPayload_inj:
  assumes "devices_ok P a" and "devices_ok P b" and "\<forall>d. length (sha256 P d) = 32" and "length (au_Owner a) = length (au_Owner b)"
    and "\<forall>m \<in> set (au_Members a) \<union> set (au_Members b). length (mb_Label m) < 2 ^ 64"
    and "length (au_Members a) < 2 ^ 64" and "length (au_Members b) < 2 ^ 64"
    and "auth_signingPayload a = auth_signingPayload b"
  shows "au_Owner a = au_Owner b \<and> au_Seq a = au_Seq b \<and> au_Members a = au_Members b"
proof -
  have "au_Owner a = au_Owner b" "au_Seq a = au_Seq b" and l: "be_put 8 (length (au_Members a)) = be_put 8 (length (au_Members b))"
    and c: "concat (map member_payload (au_Members a)) = concat (map member_payload (au_Members b))"
    using assms(4,8) by (simp_all add: auth_signingPayload_def sortMembers_id [OF assms(1)] sortMembers_id [OF assms(2)] Let_def be_put8_inj)
  moreover have "length (au_Members a) = length (au_Members b)" using be_put_inj [OF l] assms(6,7) by simp
  moreover have "\<forall>m \<in> set (au_Members a) \<union> set (au_Members b). length (mb_ID m) = 32 \<and> length (mb_Pub m) = PublicKeySize \<and> length (mb_Label m) < 2 ^ 64"
    using assms(1-3,5) by (auto simp: devices_ok_def list_all_iff NewID_def)
  ultimately show ?thesis using members_payload_inj by blast
qed

section \<open>Sealing to a list of devices\<close>








section \<open>A concrete key encapsulation\<close>






section \<open>Properties\<close>




text \<open>
  A device can revoke itself and stay a recipient: the device that runs the command is always among the recipients.
\<close>

lemma self_revoked_device_still_sealed:
  assumes "devices_ok P a" and "Without a (NewID P self) = Inr b" and "au_Members b \<noteq> []"
  shows "\<exists>rs. companionRecipients (ed_public P signer) self True (Inr (Some (auth_Sign P signer b))) = Inr rs \<and> self \<in> set rs \<and> self \<notin> set (Recipients b)"
proof -
  have "self \<notin> set (Recipients b)" using devices_ok_Without [OF assms(1,2)] assms(1) by (force simp: Recipients_def devices_ok_def list_all_iff)
  then show ?thesis using assms(3) by (simp add: companionRecipients_def auth_Sign_def Recipients_def Let_def)
qed

end
