(* ===== verification/Merge.thy ===== *)
theory Merge
  imports Namespace "HOL-Library.AList"
begin

text \<open>
  \<^verbatim>\<open>src/internal/manifest/merge.go\<close>: the three-way merge of two divergent namespaces over their last
  common root. The recursion descends the directories both sides changed; its depth is bounded by
  fuel (\<open>None\<close> is running out), and enough fuel exists for every intact namespace.
\<close>

section \<open>Model\<close>

text \<open>\<^verbatim>\<open>path.Ext\<close>: the suffix from the last dot of the last path element.\<close>

fun ext_rev :: "string \<Rightarrow> string \<Rightarrow> string" where
  "ext_rev acc [] = []"
| "ext_rev acc (c # cs) = (if c = CHR ''/'' then [] else if c = CHR ''.'' then c # acc else ext_rev (c # acc) cs)"

definition DefaultLabeler :: "string \<Rightarrow> string" where
  "DefaultLabeler name = (let ext = ext_rev [] (rev name) in take (length name - length ext) name @ '' (conflict)'' @ ext)"

definition capEqual :: "read_cap \<Rightarrow> read_cap \<Rightarrow> bool" where
  "capEqual a b \<longleftrightarrow> rc_Kind a = rc_Kind b \<and> rc_Compressed a = rc_Compressed b \<and> rc_K a = rc_K b \<and> rc_M a = rc_M b
     \<and> rc_Key a = rc_Key b \<and> rc_Shards a = rc_Shards b"

definition capPresent :: "read_cap \<Rightarrow> bool" where
  "capPresent c \<longleftrightarrow> rc_Shards c \<noteq> []"

definition loadDirOpt :: "json_codec \<Rightarrow> 's blob_io \<Rightarrow> read_cap \<Rightarrow> 's \<Rightarrow> dir_manifest res" where
  "loadDirOpt J io c s = (if \<not> capPresent c \<or> rc_Kind c \<noteq> KindDir then Inr (NewDir zero_metadata) else LoadDir J io c s)"

definition entryMap :: "dir_manifest \<Rightarrow> (string \<times> entry) list" where
  "entryMap d = fold (\<lambda>e. AList.update (en_Name e) e) (dm_Entries d) []"

definition unionNames :: "(string \<times> entry) list \<Rightarrow> (string \<times> entry) list \<Rightarrow> string list" where
  "unionNames a b = sort (remdups (map fst a @ map fst b))"

definition cap_of :: "entry option \<Rightarrow> read_cap" where
  "cap_of e = (case e of None \<Rightarrow> zero_cap | Some e \<Rightarrow> en_Cap e)"

text \<open>
  One name: the entries the loop body upserts, in order, and the conflicts it appends. \<open>rec\<close> merges
  a subdirectory.
\<close>

definition merge_name :: "(string \<Rightarrow> read_cap \<Rightarrow> read_cap \<Rightarrow> read_cap \<Rightarrow> 's \<Rightarrow> ('s \<times> (read_cap \<times> string list) res) option)
    \<Rightarrow> (string \<Rightarrow> string) \<Rightarrow> string \<Rightarrow> string \<Rightarrow> entry option \<Rightarrow> entry option \<Rightarrow> entry option
    \<Rightarrow> 's \<Rightarrow> ('s \<times> (entry list \<times> string list) res) option" where
  "merge_name rec label pre name be le re s = (let bc = cap_of be; lc = cap_of le; rc = cap_of re;
       take_e = (\<lambda>e. case e of None \<Rightarrow> [] | Some e \<Rightarrow> [e]) in
     if capEqual lc rc then Some (s, Inr (take_e le, []))
     else if capEqual bc lc then Some (s, Inr (take_e re, []))
     else if capEqual bc rc then Some (s, Inr (take_e le, []))
     else (case (le, re) of
       (None, _) \<Rightarrow> Some (s, Inr (take_e re, [pre @ name]))
     | (Some _, None) \<Rightarrow> Some (s, Inr (take_e le, [pre @ name]))
     | (Some l, Some r) \<Rightarrow>
         if rc_Kind lc = KindDir \<and> rc_Kind rc = KindDir
         then (case rec (pre @ name @ ''/'') bc lc rc s of
            None \<Rightarrow> None
          | Some (s', Inl e) \<Rightarrow> Some (s', Inl e)
          | Some (s', Inr (sub, conf)) \<Rightarrow> Some (s', Inr ([\<lparr>en_Name = name, en_Cap = sub, en_Stat = dir_stat\<rparr>], conf)))
         else Some (s, Inr ([l, \<lparr>en_Name = label name, en_Cap = en_Cap r, en_Stat = en_Stat r\<rparr>], [pre @ name]))))"

fun merge_names :: "(string \<Rightarrow> read_cap \<Rightarrow> read_cap \<Rightarrow> read_cap \<Rightarrow> 's \<Rightarrow> ('s \<times> (read_cap \<times> string list) res) option)
    \<Rightarrow> (string \<Rightarrow> string) \<Rightarrow> string \<Rightarrow> (string \<rightharpoonup> entry) \<Rightarrow> (string \<rightharpoonup> entry) \<Rightarrow> (string \<rightharpoonup> entry) \<Rightarrow> string list
    \<Rightarrow> dir_manifest \<Rightarrow> string list \<Rightarrow> 's \<Rightarrow> ('s \<times> (dir_manifest \<times> string list) res) option" where
  "merge_names rec label pre bE lE rE [] out conflicts s = Some (s, Inr (out, conflicts))"
| "merge_names rec label pre bE lE rE (name # names) out conflicts s =
     (case merge_name rec label pre name (bE name) (lE name) (rE name) s of
        None \<Rightarrow> None
      | Some (s', Inl e) \<Rightarrow> Some (s', Inl e)
      | Some (s', Inr (es, conf)) \<Rightarrow> merge_names rec label pre bE lE rE names (fold Upsert es out) (conflicts @ conf) s')"

fun mergeDir :: "nat \<Rightarrow> json_codec \<Rightarrow> 's blob_io \<Rightarrow> config \<Rightarrow> (string \<Rightarrow> string) \<Rightarrow> string \<Rightarrow> read_cap \<Rightarrow> read_cap \<Rightarrow> read_cap \<Rightarrow> 's
    \<Rightarrow> ('s \<times> (read_cap \<times> string list) res) option" where
  "mergeDir 0 J io cfg label pre base loc rem s = None"
| "mergeDir (Suc n) J io cfg label pre base loc rem s =
     (if capEqual loc rem then Some (s, Inr (loc, []))
      else if capEqual base loc then Some (s, Inr (rem, []))
      else if capEqual base rem then Some (s, Inr (loc, []))
      else (case loadDirOpt J io base s of Inl e \<Rightarrow> Some (s, Inl e) | Inr bD \<Rightarrow>
        (case loadDirOpt J io loc s of Inl e \<Rightarrow> Some (s, Inl e) | Inr lD \<Rightarrow>
        (case loadDirOpt J io rem s of Inl e \<Rightarrow> Some (s, Inl e) | Inr rD \<Rightarrow>
          let lE = entryMap lD; rE = entryMap rD in
          (case merge_names (mergeDir n J io cfg label) label pre (map_of (entryMap bD)) (map_of lE) (map_of rE)
              (unionNames lE rE) (NewDir (dm_Meta lD)) [] s of
             None \<Rightarrow> None
           | Some (s', Inl e) \<Rightarrow> Some (s', Inl e)
           | Some (s', Inr (out, conflicts)) \<Rightarrow> (case StoreDir J io cfg out s' of
               (s'', Inl e) \<Rightarrow> Some (s'', Inl e)
             | (s'', Inr merged) \<Rightarrow> Some (s'', Inr (merged, conflicts))))))))"

definition Merge3 :: "nat \<Rightarrow> json_codec \<Rightarrow> 's blob_io \<Rightarrow> config \<Rightarrow> read_cap \<Rightarrow> read_cap \<Rightarrow> read_cap \<Rightarrow> (string \<Rightarrow> string) option \<Rightarrow> 's
    \<Rightarrow> ('s \<times> (read_cap \<times> string list) res) option" where
  "Merge3 n J io cfg base loc rem label s =
     mergeDir n J io cfg (case label of None \<Rightarrow> DefaultLabeler | Some l \<Rightarrow> l) [] base loc rem s"

section \<open>Basic facts\<close>

lemma capEqual_iff [simp]: "capEqual a b \<longleftrightarrow> a = b"
  by (cases a; cases b) (auto simp: capEqual_def)

lemma entryMap_dir_map:
  assumes "sorted_wrt (<) (map en_Name (dm_Entries d))"
  shows "map_of (entryMap d) = dir_map d"
proof -
  have "map_of (fold (\<lambda>e. AList.update (en_Name e) e) es m) = map_of m ++ map_of (map (\<lambda>e. (en_Name e, e)) es)"
    if "distinct (map en_Name es)" for es m
    using that
  proof (induction es arbitrary: m)
    case (Cons e es)
    then have "map_of (map (\<lambda>e. (en_Name e, e)) es) (en_Name e) = None"
      by (auto simp: map_of_eq_None_iff image_iff)
    with Cons show ?case by (auto simp: update_conv' fun_eq_iff map_add_def split: option.splits)
  qed simp
  from this [of "dm_Entries d" "[]"] show ?thesis using assms by (simp add: entryMap_def dir_map_def strict_sorted_iff)
qed

lemma set_unionNames: "set (unionNames a b) = dom (map_of a) \<union> dom (map_of b)"
  by (auto simp: unionNames_def dom_map_of_conv_image_fst)

lemma distinct_unionNames: "distinct (unionNames a b)"
  by (simp add: unionNames_def)

lemma merge_name_None:
  "merge_name rec label pre n be le re s = None \<Longrightarrow> \<exists>l p b r. le = Some l \<and> rec p b (en_Cap l) r s = None"
  by (auto simp: merge_name_def Let_def cap_of_def split: if_splits option.splits prod.splits sum.splits)

lemma mergeDir_None:
  "mergeDir (Suc n) J io cfg label pre b l r s = None \<Longrightarrow> \<exists>D bE rE names out. loadDirOpt J io l s = Inr D
     \<and> merge_names (mergeDir n J io cfg label) label pre bE (map_of (entryMap D)) rE names out [] s = None"
  by (auto simp: Let_def split: if_splits option.splits prod.splits sum.splits)

section \<open>What a merge keeps\<close>

context blob_store
begin

lemma merge_name_later:
  assumes "\<And>pre b l r s s' x. inv s \<Longrightarrow> rec pre b l r s = Some (s', x) \<Longrightarrow> later s s'"
    and "inv s" and "merge_name rec label pre name be le re s = Some (s', x)"
  shows "later s s'"
  using assms(3) assms(1) [of s] assms(2) later_refl [OF assms(2)]
  by (auto simp: merge_name_def Let_def split: if_splits option.splits prod.splits sum.splits)

lemma merge_names_later:
  assumes "\<And>pre b l r s s' x. inv s \<Longrightarrow> rec pre b l r s = Some (s', x) \<Longrightarrow> later s s'"
    and "inv s" and "merge_names rec label pre bE lE rE names out conf s = Some (s', x)"
  shows "later s s'"
  using assms(2,3)
proof (induction names arbitrary: s out conf)
  case Nil
  then show ?case using later_refl by simp
next
  case (Cons n names)
  obtain s1 y where m: "merge_name rec label pre n (bE n) (lE n) (rE n) s = Some (s1, y)"
    using Cons.prems(2) by (auto split: option.splits)
  have 1: "later s s1" by (rule merge_name_later [OF assms(1) Cons.prems(1) m])
  show ?case
  proof (cases y)
    case (Inl e)
    then show ?thesis using Cons.prems(2) m 1 by simp
  next
    case (Inr z)
    then show ?thesis using Cons.prems(2) m 1 Cons.IH [of s1] later_trans [OF 1]
      by (auto simp: later_def split: prod.splits)
  qed
qed

lemma mergeDir_later:
  assumes "inv s" and "mergeDir n J io cfg label pre base loc rem s = Some (s', r)"
  shows "later s s'"
  using assms
proof (induction n arbitrary: pre base loc rem s s' r)
  case (Suc n)
  show ?case
  proof (cases "s' = s")
    case False
    then obtain bE lE rE names out s1 y where m: "merge_names (mergeDir n J io cfg label) label pre bE lE rE names out [] s = Some (s1, y)"
      and y: "(case y of Inl e \<Rightarrow> s' = s1 | Inr (out, _) \<Rightarrow> \<exists>x. StoreDir J io cfg out s1 = (s', x))"
      using Suc.prems(2) by (simp add: Let_def split: if_splits sum.splits option.splits prod.splits) (blast+)?
    have 1: "later s s1" by (rule merge_names_later [OF Suc.IH Suc.prems(1) m])
    show ?thesis
    proof (cases y)
      case (Inl e)
      then show ?thesis using 1 y by simp
    next
      case (Inr z)
      then obtain x where "StoreDir J io cfg (fst z) s1 = (s', x)" using y by (auto split: prod.splits)
      then have "later s1 s'" using StoreDir_later 1 by (auto simp: later_def)
      then show ?thesis using 1 later_trans by blast
    qed
  qed (use later_refl Suc.prems in simp)
qed simp

text \<open>An absent entry or a capability that is no directory has no paths below it.\<close>

definition ropt :: "'s \<Rightarrow> entry option \<Rightarrow> string list \<Rightarrow> read_cap res" where
  "ropt s eo ps = (case eo of None \<Rightarrow> Inl ErrPath | Some e \<Rightarrow> resolve_parts J io s (en_Cap e) ps)"

lemma loadDirOpt_intact:
  assumes "inv s" and "intact J (stored s) c" and "c = zero_cap \<or> cap_ok c"
  obtains d where "loadDirOpt J io c s = Inr d" and "dir_ok J d" and "\<forall>e \<in> set (dm_Entries d). intact J (stored s) (en_Cap e)"
    and "\<And>n ns. resolve_parts J io s c (n # ns) = ropt s (dir_map d n) ns"
proof (cases "rc_Kind c = KindDir")
  case True
  then have "capPresent c" using assms(3) by (auto simp: cap_ok_def capPresent_def zero_cap_def KindDir_def)
  moreover obtain d where "LoadDir J io c s = Inr d" "dir_ok J d" "\<forall>e \<in> set (dm_Entries d). intact J (stored s) (en_Cap e)"
    using intact_LoadDir [OF assms(1,2) True] by blast
  ultimately show thesis using that [of d] resolve_dir [of c s d] True by (simp add: loadDirOpt_def ropt_def)
next
  case False
  then show thesis using that [of "NewDir zero_metadata"] NewDir_ok
    by (simp add: loadDirOpt_def ropt_def dir_map_def NewDir_def)
qed

text \<open>
  Path by path, for the paths that name a file. Every edit of the local side is kept in place;
  every edit of the remote side is kept in place or below a conflict copy; a merge without
  conflicts takes nothing that one side had and the other deleted.
\<close>

definition merge_spec :: "'s \<Rightarrow> (string \<Rightarrow> string) \<Rightarrow> read_cap \<Rightarrow> read_cap \<Rightarrow> read_cap \<Rightarrow> read_cap \<Rightarrow> string list \<Rightarrow> bool" where
  "merge_spec t label b l r c conf \<longleftrightarrow> rc_Kind c = KindDir \<and> cap_ok c \<and> intact J (stored t) c
   \<and> (\<forall>ps f. rc_Kind f \<noteq> KindDir \<longrightarrow> resolve_parts J io t l ps = Inr f \<longrightarrow> resolve_parts J io t b ps \<noteq> Inr f
        \<longrightarrow> resolve_parts J io t c ps = Inr f)
   \<and> (\<forall>ps f. rc_Kind f \<noteq> KindDir \<longrightarrow> resolve_parts J io t r ps = Inr f \<longrightarrow> resolve_parts J io t b ps \<noteq> Inr f
        \<longrightarrow> resolve_parts J io t c ps = Inr f
          \<or> conf \<noteq> [] \<and> (\<exists>pre n suf. ps = pre @ n # suf \<and> resolve_parts J io t c (pre @ label n # suf) = Inr f))
   \<and> (conf = [] \<longrightarrow> (\<forall>ps f. rc_Kind f \<noteq> KindDir \<longrightarrow> resolve_parts J io t c ps = Inr f \<longrightarrow>
        resolve_parts J io t l ps = Inr f \<and> (resolve_parts J io t b ps \<noteq> Inr f \<or> resolve_parts J io t r ps = Inr f)
        \<or> resolve_parts J io t r ps = Inr f \<and> resolve_parts J io t b ps \<noteq> Inr f))"

text \<open>The same of one name: the entry kept under it and the conflict copy.\<close>

definition entry_fine :: "'s \<Rightarrow> string \<Rightarrow> entry option \<Rightarrow> bool" where
  "entry_fine t n eo \<longleftrightarrow> (\<forall>e. eo = Some e \<longrightarrow> en_Name e = n \<and> js_utf8 J n \<and> cap_ok (en_Cap e) \<and> intact J (stored t) (en_Cap e))"

definition name_spec :: "'s \<Rightarrow> (string \<Rightarrow> string) \<Rightarrow> string \<Rightarrow> entry option \<Rightarrow> entry option \<Rightarrow> entry option
    \<Rightarrow> entry option \<Rightarrow> entry option \<Rightarrow> string list \<Rightarrow> bool" where
  "name_spec t label n be le re kept dup conf \<longleftrightarrow> entry_fine t n kept \<and> entry_fine t (label n) dup \<and> (dup \<noteq> None \<longrightarrow> conf \<noteq> [])
   \<and> (\<forall>ps f. rc_Kind f \<noteq> KindDir \<longrightarrow> ropt t le ps = Inr f \<longrightarrow> ropt t be ps \<noteq> Inr f \<longrightarrow> ropt t kept ps = Inr f)
   \<and> (\<forall>ps f. rc_Kind f \<noteq> KindDir \<longrightarrow> ropt t re ps = Inr f \<longrightarrow> ropt t be ps \<noteq> Inr f
        \<longrightarrow> ropt t kept ps = Inr f \<or> ropt t dup ps = Inr f
          \<or> conf \<noteq> [] \<and> (\<exists>pre m suf. ps = pre @ m # suf \<and> ropt t kept (pre @ label m # suf) = Inr f))
   \<and> (conf = [] \<longrightarrow> (\<forall>ps f. rc_Kind f \<noteq> KindDir \<longrightarrow> ropt t kept ps = Inr f \<longrightarrow>
        ropt t le ps = Inr f \<and> (ropt t be ps \<noteq> Inr f \<or> ropt t re ps = Inr f) \<or> ropt t re ps = Inr f \<and> ropt t be ps \<noteq> Inr f))"

lemma ropt_later: "inv t \<Longrightarrow> later t u \<Longrightarrow> entry_fine t n eo \<Longrightarrow> ropt u eo ps = ropt t eo ps"
  using resolve_later by (auto simp: ropt_def entry_fine_def split: option.splits)

lemma entry_fine_later: "later t u \<Longrightarrow> entry_fine t n eo \<Longrightarrow> entry_fine u n eo"
  using intact_later by (auto simp: entry_fine_def)

lemma name_spec_later:
  assumes "inv t" and "later t u" and "name_spec t label n be le re kept dup conf"
    and "entry_fine t n be" and "entry_fine t n le" and "entry_fine t n re"
  shows "name_spec u label n be le re kept dup conf"
proof -
  have "entry_fine t n kept" "entry_fine t (label n) dup" using assms(3) by (simp_all add: name_spec_def)
  then have "ropt u eo = ropt t eo" if "eo \<in> {be, le, re, kept, dup}" for eo
    using that ropt_later [OF assms(1,2)] assms(4-6) by (auto simp: fun_eq_iff)
  then show ?thesis using assms(3) entry_fine_later [OF assms(2)] by (simp add: name_spec_def)
qed

definition unlabelled :: "'s \<Rightarrow> (string \<Rightarrow> string) \<Rightarrow> read_cap \<Rightarrow> bool" where
  "unlabelled s label c \<longleftrightarrow> (\<forall>ps n x. resolve_parts J io s c (ps @ [label n]) \<noteq> Inr x)"

text \<open>What a subdirectory merge must do, as the hypothesis of the loop.\<close>

definition rec_ok :: "(string \<Rightarrow> string) \<Rightarrow> (string \<Rightarrow> read_cap \<Rightarrow> read_cap \<Rightarrow> read_cap \<Rightarrow> 's \<Rightarrow> ('s \<times> (read_cap \<times> string list) res) option) \<Rightarrow> bool" where
  "rec_ok label rec \<longleftrightarrow> (\<forall>pre b l r s s' c conf. inv s \<longrightarrow> intact J (stored s) b \<longrightarrow> intact J (stored s) l \<longrightarrow> intact J (stored s) r
     \<longrightarrow> b = zero_cap \<or> cap_ok b \<longrightarrow> cap_ok l \<longrightarrow> cap_ok r \<longrightarrow> rc_Kind l = KindDir \<longrightarrow> rc_Kind r = KindDir
     \<longrightarrow> unlabelled s label l \<longrightarrow> unlabelled s label r
     \<longrightarrow> rec pre b l r s = Some (s', Inr (c, conf)) \<longrightarrow> fine s' \<longrightarrow> merge_spec s' label b l r c conf)"

lemma rec_okD:
  assumes "rec_ok label rec" and "rec pre b l r s = Some (s', Inr (c, conf))" and "inv s" and "fine s'"
    and "intact J (stored s) b" "intact J (stored s) l" "intact J (stored s) r"
    and "b = zero_cap \<or> cap_ok b" "cap_ok l" "cap_ok r" "rc_Kind l = KindDir" "rc_Kind r = KindDir"
    and "unlabelled s label l" "unlabelled s label r"
  shows "merge_spec s' label b l r c conf"
  using assms unfolding rec_ok_def by blast

lemma ropt_cap:
  assumes "entry_fine t n a" and "entry_fine u n b" and "cap_of a = cap_of b"
  shows "ropt v a = ropt v b"
  using assms by (auto simp: fun_eq_iff ropt_def entry_fine_def cap_of_def cap_ok_def zero_cap_def split: option.splits)

lemma ropt_below: "ps \<noteq> [] \<Longrightarrow> ropt t eo ps = Inr f \<longleftrightarrow> resolve_parts J io t (cap_of eo) ps = Inr f"
  by (cases ps) (auto simp: ropt_def cap_of_def zero_cap_def KindDir_def split: option.splits)

lemma dir_path: "rc_Kind c = KindDir \<Longrightarrow> rc_Kind f \<noteq> KindDir \<Longrightarrow> resolve_parts J io t c ps = Inr f \<Longrightarrow> ps \<noteq> []"
  by (cases ps) auto

lemma name_spec_sub:
  assumes "merge_spec t label (cap_of be) (cap_of le) (cap_of re) sub conf"
    and "rc_Kind (cap_of le) = KindDir" and "rc_Kind (cap_of re) = KindDir" and "js_utf8 J n"
  shows "name_spec t label n be le re (Some \<lparr>en_Name = n, en_Cap = sub, en_Stat = dir_stat\<rparr>) None conf"
proof -
  have dir: "le \<noteq> None" "re \<noteq> None" using assms(2,3) by (auto simp: cap_of_def zero_cap_def KindDir_def split: option.splits)
  then have r: "ropt t le ps = resolve_parts J io t (cap_of le) ps" "ropt t re ps = resolve_parts J io t (cap_of re) ps" for ps
    by (auto simp: ropt_def cap_of_def)
  have ne: "ps \<noteq> []" if "rc_Kind f \<noteq> KindDir" "resolve_parts J io t c ps = Inr f" "c \<in> {cap_of le, cap_of re, sub}" for c ps f
    using dir_path [of c f t ps] that assms(1-3) by (auto simp: merge_spec_def)
  have s: "ropt t (Some \<lparr>en_Name = n, en_Cap = sub, en_Stat = dir_stat\<rparr>) ps = resolve_parts J io t sub ps" for ps
    by (simp add: ropt_def)
  have n: "ropt t None ps \<noteq> Inr f" for ps f by (simp add: ropt_def)
  show ?thesis unfolding name_spec_def r s
  proof (intro conjI allI impI)
    show "entry_fine t n (Some \<lparr>en_Name = n, en_Cap = sub, en_Stat = dir_stat\<rparr>)" "entry_fine t (label n) None"
      using assms(1,4) by (simp_all add: entry_fine_def merge_spec_def)
  next
    fix ps f assume f: "rc_Kind f \<noteq> KindDir" "resolve_parts J io t (cap_of le) ps = Inr f" "ropt t be ps \<noteq> Inr f"
    then have "resolve_parts J io t (cap_of be) ps \<noteq> Inr f" using ropt_below [OF ne [OF f(1,2)]] by simp
    then show "resolve_parts J io t sub ps = Inr f" using assms(1) f by (simp add: merge_spec_def)
  next
    fix ps f assume f: "rc_Kind f \<noteq> KindDir" "resolve_parts J io t (cap_of re) ps = Inr f" "ropt t be ps \<noteq> Inr f"
    then have "resolve_parts J io t (cap_of be) ps \<noteq> Inr f" using ropt_below [OF ne [OF f(1,2)]] by simp
    then show "resolve_parts J io t sub ps = Inr f \<or> ropt t None ps = Inr f \<or> conf \<noteq> []
        \<and> (\<exists>pre m suf. ps = pre @ m # suf \<and> resolve_parts J io t sub (pre @ label m # suf) = Inr f)"
      using assms(1) f unfolding merge_spec_def by blast
  next
    fix ps f assume c: "conf = []" "rc_Kind f \<noteq> KindDir" "resolve_parts J io t sub ps = Inr f"
    show "resolve_parts J io t (cap_of le) ps = Inr f \<and> (ropt t be ps \<noteq> Inr f \<or> resolve_parts J io t (cap_of re) ps = Inr f)
        \<or> resolve_parts J io t (cap_of re) ps = Inr f \<and> ropt t be ps \<noteq> Inr f"
      using assms(1) c ropt_below [OF ne [OF c(2,3)], of t be f] by (simp add: merge_spec_def)
  qed simp
qed

abbreviation (input) opt_list :: "'x option \<Rightarrow> 'x list" where
  "opt_list e \<equiv> (case e of None \<Rightarrow> [] | Some e \<Rightarrow> [e])"

lemma merge_name_spec:
  assumes "inv s" and "fine s'" and "rec_ok label rec"
    and "entry_fine s n be" and "entry_fine s n le" and "entry_fine s n re"
    and "\<And>e. le = Some e \<Longrightarrow> unlabelled s label (en_Cap e)" and "\<And>e. re = Some e \<Longrightarrow> unlabelled s label (en_Cap e)"
    and "\<And>k. js_utf8 J k \<Longrightarrow> js_utf8 J (label k)"
    and "merge_name rec label pre n be le re s = Some (s', Inr (es, conf))"
  shows "\<exists>kept dup. es = opt_list kept @ opt_list dup \<and> name_spec s' label n be le re kept dup conf"
proof -
  have n: "ropt t None ps \<noteq> Inr f" for t ps f by (simp add: ropt_def)
  have e0: "entry_fine t k None" for t k by (simp add: entry_fine_def)
  note cap = ropt_cap [OF assms(4) assms(5)] ropt_cap [OF assms(4) assms(6)] ropt_cap [OF assms(5) assms(6)]
  consider (same) "cap_of le = cap_of re" | (theirs) "cap_of be = cap_of le" | (ours) "cap_of le \<noteq> cap_of re" "cap_of be = cap_of re"
    | (gone) "cap_of le \<noteq> cap_of re" "cap_of be \<noteq> cap_of le" "cap_of be \<noteq> cap_of re" "le = None \<or> re = None"
    | (both) l r where "cap_of le \<noteq> cap_of re" "cap_of be \<noteq> cap_of le" "cap_of be \<noteq> cap_of re" "le = Some l" "re = Some r"
    by (metis option.exhaust)
  then show ?thesis
  proof cases
    case same
    then have "s' = s" "es = opt_list le @ opt_list None" "conf = []" using assms(10) by (auto simp: merge_name_def Let_def)
    moreover have "name_spec s label n be le re le None []" using cap(3) [OF same] assms(5) n e0 by (simp add: name_spec_def)
    ultimately show ?thesis by blast
  next
    case theirs
    show ?thesis
    proof (cases "cap_of le = cap_of re")
      case True
      then have "s' = s" "es = opt_list le @ opt_list None" "conf = []" using assms(10) by (auto simp: merge_name_def Let_def)
      moreover have "name_spec s label n be le re le None []" using cap(3) [OF True] assms(5) n e0 by (simp add: name_spec_def)
      ultimately show ?thesis by blast
    next
      case False
      then have "s' = s" "es = opt_list re @ opt_list None" "conf = []" using assms(10) theirs by (auto simp: merge_name_def Let_def)
      moreover have "name_spec s label n be le re re None []" using cap(1) [OF theirs] assms(6) n e0 by (auto simp: name_spec_def)
      ultimately show ?thesis by blast
    qed
  next
    case ours
    then have "s' = s" "es = opt_list le @ opt_list None" "conf = []"
      using assms(10) by (auto simp: merge_name_def Let_def split: if_splits)
    moreover have "name_spec s label n be le re le None []" using cap(2) [OF ours(2)] assms(5) n e0 by (auto simp: name_spec_def)
    ultimately show ?thesis by blast
  next
    case gone
    then have "s' = s" "es = opt_list (if le = None then re else le) @ opt_list None" "conf \<noteq> []"
      using assms(10) by (auto simp: merge_name_def Let_def split: if_splits option.splits)
    moreover have "name_spec s label n be le re (if le = None then re else le) None conf" if "conf \<noteq> []"
      using gone(4) assms(5,6) n e0 that by (auto simp: name_spec_def)
    ultimately show ?thesis by blast
  next
    case (both l r)
    have c: "cap_of le = en_Cap l" "cap_of re = en_Cap r" using both by (simp_all add: cap_of_def)
    show ?thesis
    proof (cases "rc_Kind (en_Cap l) = KindDir \<and> rc_Kind (en_Cap r) = KindDir")
      case True
      obtain sub where sub: "rec (pre @ n @ ''/'') (cap_of be) (cap_of le) (cap_of re) s = Some (s', Inr (sub, conf))"
        "es = [\<lparr>en_Name = n, en_Cap = sub, en_Stat = dir_stat\<rparr>]"
        using assms(10) both True c by (auto simp: merge_name_def Let_def split: option.splits prod.splits sum.splits)
      have be: "cap_of be = zero_cap \<or> cap_ok (cap_of be)" "intact J (stored s) (cap_of be)"
        using assms(4) intact.leaf [of zero_cap J "stored s"] by (auto simp: cap_of_def entry_fine_def zero_cap_def KindDir_def split: option.splits)
      have "merge_spec s' label (cap_of be) (cap_of le) (cap_of re) sub conf"
        using assms(3) [unfolded rec_ok_def] assms(1,2) be assms(5-8) both(4,5) c True sub(1)
        by (auto simp: entry_fine_def)
      then have "name_spec s' label n be le re (Some \<lparr>en_Name = n, en_Cap = sub, en_Stat = dir_stat\<rparr>) None conf"
        by (rule name_spec_sub) (use True c assms(5) both(4) in \<open>auto simp: entry_fine_def\<close>)
      then show ?thesis using sub(2) by (intro exI [of _ "Some \<lparr>en_Name = n, en_Cap = sub, en_Stat = dir_stat\<rparr>"] exI [of _ None]) simp
    next
      case False
      let ?d = "\<lparr>en_Name = label n, en_Cap = en_Cap r, en_Stat = en_Stat r\<rparr>"
      have x: "s' = s" "es = opt_list (Some l) @ opt_list (Some ?d)" "conf \<noteq> []"
        using assms(10) both False c by (auto simp: merge_name_def Let_def)
      have "ropt s (Some ?d) = ropt s re" using both by (simp add: ropt_def fun_eq_iff)
      then have "name_spec s label n be le re (Some l) (Some ?d) conf"
        using x(3) both assms(5,6,9) by (auto simp: name_spec_def entry_fine_def)
      then show ?thesis using x by blast
    qed
  qed
qed

lemma fold_Upsert_pair:
  assumes "sorted_wrt (<) (map en_Name (dm_Entries out))"
  shows "dir_map (fold Upsert (opt_list a @ opt_list b) out) =
      (let m = (case a of None \<Rightarrow> dir_map out | Some e \<Rightarrow> (dir_map out)(en_Name e \<mapsto> e)) in
        case b of None \<Rightarrow> m | Some e \<Rightarrow> m(en_Name e \<mapsto> e))"
    and "set (dm_Entries (fold Upsert (opt_list a @ opt_list b) out)) \<subseteq> set (dm_Entries out) \<union> set_option a \<union> set_option b"
  using assms Upsert_sorted [OF assms] by (auto simp: dir_map_Upsert set_Upsert split: option.splits)

lemma fold_Upsert_ok:
  "dir_ok J out \<Longrightarrow> \<forall>e \<in> set es. js_utf8 J (en_Name e) \<and> cap_ok (en_Cap e) \<Longrightarrow> dir_ok J (fold Upsert es out)"
  by (induction es arbitrary: out) (simp_all add: dir_ok_Upsert)

lemma merge_names_spec:
  assumes later: "\<forall>pre b l r s s' x. inv s \<longrightarrow> rec pre b l r s = Some (s', x) \<longrightarrow> later s s'" and "rec_ok label rec"
    and "\<And>k. js_utf8 J k \<Longrightarrow> js_utf8 J (label k)" and "inj label"
    and "inv s" and "fine s'" and "merge_names rec label pre bE lE rE names out conf0 s = Some (s', Inr (out', conf))"
    and "distinct names" and "set names \<inter> range label = {}"
    and "\<And>n. entry_fine s n (bE n) \<and> entry_fine s n (lE n) \<and> entry_fine s n (rE n)"
    and "\<forall>n e. lE n = Some e \<or> rE n = Some e \<longrightarrow> unlabelled s label (en_Cap e)"
    and "dir_ok J out" and "\<forall>e \<in> set (dm_Entries out). intact J (stored s) (en_Cap e)"
  shows "\<exists>kept dup cf. dir_ok J out' \<and> (\<forall>e \<in> set (dm_Entries out'). intact J (stored s') (en_Cap e))
    \<and> conf = conf0 @ concat (map cf names)
    \<and> (\<forall>n \<in> set names. name_spec s' label n (bE n) (lE n) (rE n) (kept n) (dup n) (cf n))
    \<and> (\<forall>k. dir_map out' k = (if k \<in> set names \<and> kept k \<noteq> None then kept k
         else if \<exists>n \<in> set names. k = label n \<and> dup n \<noteq> None then dup (inv_into UNIV label k) else dir_map out k))"
  using assms(5-13)
proof (induction names arbitrary: s out conf0)
  case Nil
  then show ?case by auto
next
  case (Cons n names)
  obtain s1 es cf1 where m: "merge_name rec label pre n (bE n) (lE n) (rE n) s = Some (s1, Inr (es, cf1))"
    and ms: "merge_names rec label pre bE lE rE names (fold Upsert es out) (conf0 @ cf1) s1 = Some (s', Inr (out', conf))"
    using Cons.prems(3) by (auto split: option.splits prod.splits sum.splits)
  have L1: "later s s1" by (rule merge_name_later [OF later [rule_format] Cons.prems(1) m])
  then have inv1: "inv s1" by (simp add: later_def)
  have L2: "later s1 s'" by (rule merge_names_later [OF later [rule_format] inv1 ms])
  then have f1: "fine s1" using Cons.prems(2) by (simp add: later_def)
  have ef: "entry_fine s n (bE n)" "entry_fine s n (lE n)" "entry_fine s n (rE n)" using Cons.prems(6) by blast+
  obtain k1 d1 where es: "es = opt_list k1 @ opt_list d1" and N: "name_spec s1 label n (bE n) (lE n) (rE n) k1 d1 cf1"
    using merge_name_spec [OF Cons.prems(1) f1 assms(2) ef _ _ assms(3) m] Cons.prems(7) by blast
  have KD: "entry_fine s1 n k1" "entry_fine s1 (label n) d1" using N by (simp_all add: name_spec_def)
  let ?o = "fold Upsert es out"
  have srt: "sorted_wrt (<) (map en_Name (dm_Entries out))" using Cons.prems(8) by (simp add: dir_ok_def)
  have ok1: "dir_ok J ?o" 
    by (rule fold_Upsert_ok [OF Cons.prems(8)]) (use KD in \<open>auto simp: es entry_fine_def split: option.splits\<close>)
  have in1: "\<forall>e \<in> set (dm_Entries ?o). intact J (stored s1) (en_Cap e)"
    using fold_Upsert_pair(2) [OF srt, of k1 d1] Cons.prems(9) KD intact_later [OF _ L1] unfolding es entry_fine_def by fastforce
  have ef1: "entry_fine s1 m (bE m) \<and> entry_fine s1 m (lE m) \<and> entry_fine s1 m (rE m)" for m
    using Cons.prems(6) entry_fine_later [OF L1] by blast
  have "unlabelled s1 label (en_Cap e)" if "lE m = Some e \<or> rE m = Some e" for m e
    using that Cons.prems(6) [of m] Cons.prems(7) resolve_later [OF Cons.prems(1) L1]
    by (auto simp: unlabelled_def entry_fine_def)
  then have un1: "\<forall>m e. lE m = Some e \<or> rE m = Some e \<longrightarrow> unlabelled s1 label (en_Cap e)" by blast
  have "distinct names" "set names \<inter> range label = {}" using Cons.prems(4,5) by auto
  from Cons.IH [OF inv1 Cons.prems(2) ms this ef1 un1 ok1 in1] obtain kept dup cf where
    IH: "dir_ok J out'" "\<forall>e \<in> set (dm_Entries out'). intact J (stored s') (en_Cap e)" "conf = (conf0 @ cf1) @ concat (map cf names)"
      "\<forall>n \<in> set names. name_spec s' label n (bE n) (lE n) (rE n) (kept n) (dup n) (cf n)"
      "\<And>k. dir_map out' k = (if k \<in> set names \<and> kept k \<noteq> None then kept k
         else if \<exists>n \<in> set names. k = label n \<and> dup n \<noteq> None then dup (inv_into UNIV label k) else dir_map ?o k)" by blast
  let ?kept = "kept(n := k1)" and ?dup = "dup(n := d1)" and ?cf = "cf(n := cf1)"
  have n: "n \<notin> set names" "n \<noteq> label k" "m \<in> set names \<Longrightarrow> m \<noteq> label k" for m k using Cons.prems(4,5) by auto
  have i: "inv_into UNIV label (label k) = k" for k using assms(4) by simp
  have o: "dir_map ?o k = (if k = n \<and> k1 \<noteq> None then k1 else if k = label n \<and> d1 \<noteq> None then d1 else dir_map out k)" for k
    unfolding es fold_Upsert_pair(1) [OF srt] Let_def using KD n(2) by (cases k1; cases d1) (auto simp: entry_fine_def)
  have "dir_map out' k = (if k \<in> set (n # names) \<and> ?kept k \<noteq> None then ?kept k
      else if \<exists>m \<in> set (n # names). k = label m \<and> ?dup m \<noteq> None then ?dup (inv_into UNIV label k) else dir_map out k)" for k
  proof (cases "k \<in> range label")
    case True
    then obtain j where "k = label j" by blast
    moreover have "label i \<noteq> n" for i using n(2) by metis
    ultimately show ?thesis using n i inj_eq [OF assms(4)] unfolding IH(5) o by auto
  next
    case False
    then show ?thesis using n unfolding IH(5) o by auto
  qed
  moreover have "name_spec s' label n (bE n) (lE n) (rE n) k1 d1 cf1"
    by (rule name_spec_later [OF inv1 L2 N]) (use ef1 in blast)+
  then have "\<forall>m \<in> set (n # names). name_spec s' label m (bE m) (lE m) (rE m) (?kept m) (?dup m) (?cf m)" using IH(4) by auto
  moreover have "conf = conf0 @ concat (map ?cf (n # names))"
  proof -
    have "map ?cf names = map cf names" using n(1) by auto
    then show ?thesis unfolding IH(3) by (simp only: list.map fun_upd_same concat.simps append_assoc)
  qed
  ultimately show ?case using IH(1,2) by blast
qed

lemma dir_entry_fine:
  assumes "dir_ok J d" and "\<forall>e \<in> set (dm_Entries d). intact J (stored s) (en_Cap e)"
  shows "entry_fine s n (dir_map d n)"
  using assms by (auto simp: entry_fine_def dir_map_def dir_ok_def list_all_iff dest!: map_of_SomeD)

lemma unlabelled_entry:
  assumes "\<And>n ns. resolve_parts J io s c (n # ns) = ropt s (dir_map d n) ns" and "unlabelled s label c"
  shows "dir_map d n = Some e \<Longrightarrow> unlabelled s label (en_Cap e)" and "dir_map d (label n) = None"
proof -
  show "unlabelled s label (en_Cap e)" if "dir_map d n = Some e"
    unfolding unlabelled_def
  proof (intro allI)
    fix ps k x
    show "resolve_parts J io s (en_Cap e) (ps @ [label k]) \<noteq> Inr x"
      using assms(1) [of n "ps @ [label k]"] assms(2) [unfolded unlabelled_def, rule_format, of "n # ps" k x] that by (simp add: ropt_def)
  qed
  show "dir_map d (label n) = None"
    using assms(1) [of "label n" "[]"] assms(2) [unfolded unlabelled_def, rule_format, of "[]" n] by (auto simp: ropt_def split: option.splits)
qed

text \<open>A directory assembled from the per-name decisions satisfies the specification.\<close>

lemma merge_spec_assemble:
  assumes c: "rc_Kind c = KindDir" "cap_ok c" "intact J (stored t) c"
    and dirs: "rc_Kind l = KindDir" "rc_Kind r = KindDir"
    and below: "\<And>n ns. resolve_parts J io t b (n # ns) = ropt t (bE n) ns" "\<And>n ns. resolve_parts J io t l (n # ns) = ropt t (lE n) ns"
      "\<And>n ns. resolve_parts J io t r (n # ns) = ropt t (rE n) ns" "\<And>n ns. resolve_parts J io t c (n # ns) = ropt t (m n) ns"
    and spec: "\<And>n. n \<in> N \<Longrightarrow> name_spec t label n (bE n) (lE n) (rE n) (kept n) (dup n) (cf n)"
    and N: "\<And>n. n \<notin> N \<Longrightarrow> lE n = None \<and> rE n = None"
    and m: "\<And>n. n \<in> N \<Longrightarrow> m n = kept n" "\<And>n. n \<in> N \<Longrightarrow> dup n \<noteq> None \<Longrightarrow> m (label n) = dup n"
      "\<And>n. n \<notin> N \<Longrightarrow> m n \<noteq> None \<Longrightarrow> conf \<noteq> []"
    and conf: "\<And>n. n \<in> N \<Longrightarrow> cf n \<noteq> [] \<Longrightarrow> conf \<noteq> []"
  shows "merge_spec t label b l r c conf"
  unfolding merge_spec_def
proof (intro conjI allI impI)
  have none: "ropt t None ps \<noteq> Inr f" for ps f by (simp add: ropt_def)
  {
    fix ps f assume f: "rc_Kind f \<noteq> KindDir" "resolve_parts J io t l ps = Inr f" "resolve_parts J io t b ps \<noteq> Inr f"
    then obtain n ns where ps: "ps = n # ns" using dir_path dirs(1) by (metis list.exhaust)
    then have "n \<in> N" using f(2) below(2) N none by metis
    then show "resolve_parts J io t c ps = Inr f" using spec [of n] m(1) f ps below by (simp add: name_spec_def)
  next
    fix ps f assume f: "rc_Kind f \<noteq> KindDir" "resolve_parts J io t r ps = Inr f" "resolve_parts J io t b ps \<noteq> Inr f"
    then obtain n ns where ps: "ps = n # ns" using dir_path dirs(2) by (metis list.exhaust)
    then have n: "n \<in> N" using f(2) below(3) N none by metis
    have "ropt t (rE n) ns = Inr f" "ropt t (bE n) ns \<noteq> Inr f" using f ps below by simp_all
    then have "ropt t (kept n) ns = Inr f \<or> ropt t (dup n) ns = Inr f
        \<or> cf n \<noteq> [] \<and> (\<exists>pre j suf. ns = pre @ j # suf \<and> ropt t (kept n) (pre @ label j # suf) = Inr f)"
      using spec [OF n] f(1) unfolding name_spec_def by blast
    then show "resolve_parts J io t c ps = Inr f
        \<or> conf \<noteq> [] \<and> (\<exists>pre n suf. ps = pre @ n # suf \<and> resolve_parts J io t c (pre @ label n # suf) = Inr f)"
    proof (elim disjE conjE exE)
      assume "ropt t (kept n) ns = Inr f"
      then show ?thesis using ps below(4) m(1) [OF n] by simp
    next
      assume d: "ropt t (dup n) ns = Inr f"
      then have "dup n \<noteq> None" using none by metis
      then have "resolve_parts J io t c ([] @ label n # ns) = Inr f" "conf \<noteq> []"
        using d below(4) m(2) [OF n] spec [OF n] conf [OF n] by (simp_all add: name_spec_def)
      then show ?thesis using ps by blast
    next
      fix pre j suf assume "cf n \<noteq> []" "ns = pre @ j # suf" "ropt t (kept n) (pre @ label j # suf) = Inr f"
      then have "conf \<noteq> []" "ps = (n # pre) @ j # suf" "resolve_parts J io t c ((n # pre) @ label j # suf) = Inr f"
        using conf [OF n] ps below(4) m(1) [OF n] by simp_all
      then show ?thesis by blast
    qed
  next
    fix ps f assume f: "conf = []" "rc_Kind f \<noteq> KindDir" "resolve_parts J io t c ps = Inr f"
    then obtain n ns where ps: "ps = n # ns" using dir_path c(1) by (metis list.exhaust)
    then have n: "n \<in> N" using f m(3) below(4) none by metis
    then have "cf n = []" using conf f(1) by blast
    then show "resolve_parts J io t l ps = Inr f \<and> (resolve_parts J io t b ps \<noteq> Inr f \<or> resolve_parts J io t r ps = Inr f)
        \<or> resolve_parts J io t r ps = Inr f \<and> resolve_parts J io t b ps \<noteq> Inr f"
      using spec [OF n] m(1) [OF n] f ps below by (simp add: name_spec_def)
  }
qed (use c in auto)

lemma mergeDir_spec:
  assumes "\<And>k. js_utf8 J k \<Longrightarrow> js_utf8 J (label k)" and "inj label"
  shows "rec_ok label (mergeDir n J io cfg label)"
proof (induction n)
  case 0
  then show ?case by (simp add: rec_ok_def)
next
  case (Suc n)
  show ?case unfolding rec_ok_def
  proof (intro allI impI)
    fix pre b l r s s' c conf
    assume inv: "inv s" and I: "intact J (stored s) b" "intact J (stored s) l" "intact J (stored s) r"
      and B: "b = zero_cap \<or> cap_ok b" and C: "cap_ok l" "cap_ok r" and K: "rc_Kind l = KindDir" "rc_Kind r = KindDir"
      and U: "unlabelled s label l" "unlabelled s label r"
      and run: "mergeDir (Suc n) J io cfg label pre b l r s = Some (s', Inr (c, conf))" and fine: "fine s'"
    show "merge_spec s' label b l r c conf"
    proof (cases "l = r \<or> b = l \<or> b = r")
      case True
      then have "s' = s \<and> conf = [] \<and> (l = r \<and> c = l \<or> b = l \<and> c = r \<or> b = r \<and> c = l)"
        using run by (auto split: if_splits)
      then show ?thesis using I C K by (auto simp: merge_spec_def)
    next
      case False
      obtain bD where bD: "loadDirOpt J io b s = Inr bD" "dir_ok J bD" "\<forall>e \<in> set (dm_Entries bD). intact J (stored s) (en_Cap e)"
        "\<And>n ns. resolve_parts J io s b (n # ns) = ropt s (dir_map bD n) ns" using loadDirOpt_intact [OF inv I(1) B] by blast
      obtain lD where lD: "loadDirOpt J io l s = Inr lD" "dir_ok J lD" "\<forall>e \<in> set (dm_Entries lD). intact J (stored s) (en_Cap e)"
        "\<And>n ns. resolve_parts J io s l (n # ns) = ropt s (dir_map lD n) ns" using loadDirOpt_intact [OF inv I(2)] C by blast
      obtain rD where rD: "loadDirOpt J io r s = Inr rD" "dir_ok J rD" "\<forall>e \<in> set (dm_Entries rD). intact J (stored s) (en_Cap e)"
        "\<And>n ns. resolve_parts J io s r (n # ns) = ropt s (dir_map rD n) ns" using loadDirOpt_intact [OF inv I(3)] C by blast
      have maps: "map_of (entryMap bD) = dir_map bD" "map_of (entryMap lD) = dir_map lD" "map_of (entryMap rD) = dir_map rD"
        using bD(2) lD(2) rD(2) by (simp_all add: dir_ok_def entryMap_dir_map)
      let ?N = "unionNames (entryMap lD) (entryMap rD)"
      have setN: "set ?N = dom (dir_map lD) \<union> dom (dir_map rD)" by (simp add: set_unionNames maps)
      obtain s1 out where m: "merge_names (mergeDir n J io cfg label) label pre (dir_map bD) (dir_map lD) (dir_map rD) ?N
            (NewDir (dm_Meta lD)) [] s = Some (s1, Inr (out, conf))" and st: "StoreDir J io cfg out s1 = (s', Inr c)"
        using run False bD(1) lD(1) rD(1) by (auto simp: Let_def maps split: option.splits prod.splits sum.splits)
      have L1: "later s s1" by (rule merge_names_later [OF mergeDir_later inv m])
      then have inv1: "inv s1" by (simp add: later_def)
      have L2: "later s1 s'" by (rule StoreDir_later [OF inv1 st])
      then have f1: "fine s1" using fine by (simp add: later_def)
      have ef: "entry_fine s k (dir_map bD k) \<and> entry_fine s k (dir_map lD k) \<and> entry_fine s k (dir_map rD k)" for k
        using dir_entry_fine bD(2,3) lD(2,3) rD(2,3) by blast
      have un: "\<forall>k e. dir_map lD k = Some e \<or> dir_map rD k = Some e \<longrightarrow> unlabelled s label (en_Cap e)"
        using unlabelled_entry(1) [OF lD(4) U(1)] unlabelled_entry(1) [OF rD(4) U(2)] by blast
      have rng: "set ?N \<inter> range label = {}"
        using unlabelled_entry(2) [OF lD(4) U(1)] unlabelled_entry(2) [OF rD(4) U(2)] by (auto simp: setN)
      have ok0: "dir_ok J (NewDir (dm_Meta lD))" using lD(2) by (simp add: dir_ok_def NewDir_def)
      have rl: "\<forall>pre b l r s s' x. inv s \<longrightarrow> mergeDir n J io cfg label pre b l r s = Some (s', x) \<longrightarrow> later s s'"
        using mergeDir_later by blast
      have emp: "dir_map (NewDir (dm_Meta lD)) k = None" for k by (simp add: dir_map_def NewDir_def)
      obtain kept dup cf where out: "dir_ok J out" "\<forall>e \<in> set (dm_Entries out). intact J (stored s1) (en_Cap e)"
        "conf = [] @ concat (map cf ?N)"
        "\<forall>n \<in> set ?N. name_spec s1 label n (dir_map bD n) (dir_map lD n) (dir_map rD n) (kept n) (dup n) (cf n)"
        "\<forall>k. dir_map out k = (if k \<in> set ?N \<and> kept k \<noteq> None then kept k
           else if \<exists>n \<in> set ?N. k = label n \<and> dup n \<noteq> None then dup (inv_into UNIV label k) else dir_map (NewDir (dm_Meta lD)) k)"
        using merge_names_spec [OF rl Suc.IH assms inv f1 m distinct_unionNames rng ef un ok0]
        by (auto simp add: NewDir_def simp del: append_Nil)
      note N = StoreDir_new [OF inv1 st fine out(1,2)]
      have L: "later s s'" by (rule later_trans [OF L1 L2])
      have inj: "inv_into UNIV label (label k) = k" for k using assms(2) by simp
      have cfN: "cf k \<noteq> [] \<Longrightarrow> conf \<noteq> []" if "k \<in> set ?N" for k using that out(3) by auto
      show ?thesis
      proof (rule merge_spec_assemble [where N = "set ?N" and kept = kept and dup = dup and cf = cf and m = "dir_map out"
            and bE = "dir_map bD" and lE = "dir_map lD" and rE = "dir_map rD"])
        show "resolve_parts J io s' b (k # ks) = ropt s' (dir_map bD k) ks" for k ks
          using resolve_later [OF inv L I(1)] ropt_later [OF inv L] ef bD(4) by metis
        show "resolve_parts J io s' l (k # ks) = ropt s' (dir_map lD k) ks" for k ks
          using resolve_later [OF inv L I(2)] ropt_later [OF inv L] ef lD(4) by metis
        show "resolve_parts J io s' r (k # ks) = ropt s' (dir_map rD k) ks" for k ks
          using resolve_later [OF inv L I(3)] ropt_later [OF inv L] ef rD(4) by metis
        show "resolve_parts J io s' c (k # ks) = ropt s' (dir_map out k) ks" for k ks
          using resolve_dir [of c s' out] N out(1) by (simp add: ropt_def)
        show "name_spec s' label k (dir_map bD k) (dir_map lD k) (dir_map rD k) (kept k) (dup k) (cf k)" if "k \<in> set ?N" for k
          using out(4) that name_spec_later [OF inv1 L2] ef entry_fine_later [OF L1] by blast
        show "dir_map lD k = None \<and> dir_map rD k = None" if "k \<notin> set ?N" for k using that setN by auto
        show "dir_map out k = kept k" if "k \<in> set ?N" for k
          using that out(5) emp rng by auto
        show "dir_map out (label k) = dup k" if "k \<in> set ?N" "dup k \<noteq> None" for k
          using that out(5) rng inj by auto
        show "conf \<noteq> []" if k: "k \<notin> set ?N" "dir_map out k \<noteq> None" for k
        proof -
          obtain j where j: "j \<in> set ?N" "dup j \<noteq> None" using k out(5) emp by (auto split: if_splits)
          then have "cf j \<noteq> []" using out(4) by (auto simp: name_spec_def)
          then show ?thesis using cfN j(1) by blast
        qed
      qed (use N K cfN in auto)
    qed
  qed
qed

text \<open>The recursion descends the local side, so an intact local side bounds its depth.\<close>

lemma merge_names_total:
  assumes "\<forall>n e pre b r s. lE n = Some e \<longrightarrow> later s0 s \<longrightarrow> rec pre b (en_Cap e) r s \<noteq> None"
    and "\<forall>pre b l r s s' x. inv s \<longrightarrow> rec pre b l r s = Some (s', x) \<longrightarrow> later s s'" and "later s0 s"
  shows "merge_names rec label pre bE lE rE names out conf s \<noteq> None"
  using assms(3)
proof (induction names arbitrary: s out conf)
  case (Cons n names)
  have "merge_name rec label pre n (bE n) (lE n) (rE n) s \<noteq> None"
    using merge_name_None [of rec label pre n "bE n" "lE n" "rE n" s] assms(1) Cons.prems by blast
  then obtain s1 y where m: "merge_name rec label pre n (bE n) (lE n) (rE n) s = Some (s1, y)" by auto
  have i: "inv s" using Cons.prems by (simp add: later_def)
  have "later s s1" by (rule merge_name_later [OF assms(2) [rule_format] i m])
  then have "later s0 s1" by (rule later_trans [OF Cons.prems])
  then show ?case using Cons.IH m by (auto split: sum.splits)
qed simp

lemma loadDirOpt_later:
  assumes "later s0 s" and "rc_Kind c = KindDir" and "stored s0 c (EncodeDir J d)" and "dir_ok J d"
  shows "loadDirOpt J io c s = Inr d \<or> loadDirOpt J io c s = Inr (NewDir zero_metadata)"
  using LoadDir_stored [of s c d] assms by (simp add: loadDirOpt_def later_def)

lemma mergeDir_total:
  assumes "intact J (stored s0) l"
  shows "\<exists>N. \<forall>n \<ge> N. \<forall>pre b r s. later s0 s \<longrightarrow> mergeDir n J io cfg label pre b l r s \<noteq> None"
  using assms
proof (induction rule: intact.induct)
  case (leaf c)
  have "mergeDir (Suc n) J io cfg label pre b c r s \<noteq> None" if "later s0 s" for n pre b r s
  proof
    assume "mergeDir (Suc n) J io cfg label pre b c r s = None"
    from mergeDir_None [OF this] obtain D bE rE names out where D: "loadDirOpt J io c s = Inr D"
      "merge_names (mergeDir n J io cfg label) label pre bE (map_of (entryMap D)) rE names out [] s = None"
      by blast
    have "map_of (entryMap D) = Map.empty" using D(1) leaf by (auto simp: loadDirOpt_def entryMap_def NewDir_def)
    then show False using D(2) merge_names_total [of Map.empty s0 "mergeDir n J io cfg label" s] mergeDir_later that by auto
  qed
  then show ?case by (intro exI [of _ 1]) (metis One_nat_def Suc_le_D)
next
  case (dir c d)
  then have "\<forall>e \<in> set (dm_Entries d). \<exists>N. \<forall>n \<ge> N. \<forall>pre b r s. later s0 s \<longrightarrow> mergeDir n J io cfg label pre b (en_Cap e) r s \<noteq> None"
    by blast
  then obtain N where N: "\<forall>e \<in> set (dm_Entries d). \<forall>n \<ge> N e. \<forall>pre b r s. later s0 s \<longrightarrow> mergeDir n J io cfg label pre b (en_Cap e) r s \<noteq> None"
    by (rule bchoice [elim_format]) blast
  have "mergeDir (Suc n) J io cfg label pre b c r s \<noteq> None" if n: "sum_list (map N (dm_Entries d)) \<le> n" and s: "later s0 s" for n pre b r s
  proof -
    have sub: "mergeDir n J io cfg label pre b (en_Cap e) r s \<noteq> None" if "e \<in> set (dm_Entries d)" "later s0 s" for e pre b r s
    proof -
      have "N e \<le> sum_list (map N (dm_Entries d))" using that(1) by (intro member_le_sum_list) auto
      then have "N e \<le> n" using n by simp
      then show ?thesis using N that by blast
    qed
    have mem: "e \<in> set (dm_Entries d)" if "D = d \<or> D = NewDir zero_metadata" "map_of (entryMap D) k = Some e" for D k e
    proof -
      have "map_of (entryMap D) = dir_map D" using that(1) dir(3) entryMap_dir_map [of D] by (auto simp: dir_ok_def NewDir_def)
      then show ?thesis using that by (auto simp: dir_map_def NewDir_def dest!: map_of_SomeD)
    qed
    have "merge_names (mergeDir n J io cfg label) label pre bE (map_of (entryMap D)) rE names out conf s \<noteq> None"
      if D: "D = d \<or> D = NewDir zero_metadata" for D pre bE rE names out conf
    proof (rule merge_names_total [OF _ _ s])
      show "\<forall>k e pre b r s. map_of (entryMap D) k = Some e \<longrightarrow> later s0 s \<longrightarrow> mergeDir n J io cfg label pre b (en_Cap e) r s \<noteq> None"
        using sub mem [OF D] by blast
      show "\<forall>pre b l r s s' x. inv s \<longrightarrow> mergeDir n J io cfg label pre b l r s = Some (s', x) \<longrightarrow> later s s'"
        using mergeDir_later by blast
    qed
    then show ?thesis using loadDirOpt_later [OF s dir(1-3)] mergeDir_None [of n J io cfg label pre b c r s] by (metis Inr_inject)
  qed
  then show ?case by (intro exI [of _ "Suc (sum_list (map N (dm_Entries d)))"]) (metis Suc_le_D Suc_le_mono)
qed

end

text \<open>More fuel does not change the result.\<close>

lemma merge_names_mono:
  assumes "\<And>pre b l r s x. rec pre b l r s = Some x \<Longrightarrow> rec' pre b l r s = Some x"
    and "merge_names rec label pre bE lE rE names out conf s = Some y"
  shows "merge_names rec' label pre bE lE rE names out conf s = Some y"
  using assms(2)
proof (induction names arbitrary: out conf s)
  case (Cons n names)
  obtain z where z: "merge_name rec label pre n (bE n) (lE n) (rE n) s = Some z" using Cons.prems by (auto split: option.splits)
  then have "merge_name rec' label pre n (bE n) (lE n) (rE n) s = Some z"
    using assms(1) by (auto simp: merge_name_def Let_def split: if_splits option.splits)
  then show ?case using Cons z by (auto split: prod.splits sum.splits)
qed simp

lemma mergeDir_mono:
  "mergeDir n J io cfg label pre b l r s = Some x \<Longrightarrow> n \<le> k \<Longrightarrow> mergeDir k J io cfg label pre b l r s = Some x"
proof (induction n arbitrary: k pre b l r s x)
  case (Suc n)
  obtain k' where k: "k = Suc k'" "n \<le> k'" using Suc.prems(2) by (cases k) auto
  have m: "merge_names (mergeDir k' J io cfg label) label pre bE lE rE names out conf s = Some y"
    if "merge_names (mergeDir n J io cfg label) label pre bE lE rE names out conf s = Some y" for bE lE rE names out conf y
    by (rule merge_names_mono [OF _ that]) (use Suc.IH k(2) in blast)
  show ?case unfolding k(1) using Suc.prems(1) by (auto simp: Let_def dest!: m split: if_splits sum.splits option.splits)
qed simp

text \<open>
  Without that condition on the labeler an edit can vanish: when both sides changed \<^verbatim>\<open>a\<close> and both
  still have an older conflict copy of it, the new copy is filed first and the older one, visited
  next, takes its place.
\<close>

lemma conflict_copy_lost:
  assumes "en_Name l = ''a''" and "en_Name r = ''a''" and "en_Name o1 = ''a (conflict)''" and "en_Cap l \<noteq> en_Cap r"
    and "capPresent (en_Cap l)" and "capPresent (en_Cap r)" and "rc_Kind (en_Cap l) = KindFile"
  shows "merge_names rec DefaultLabeler [] Map.empty [''a'' \<mapsto> l, ''a (conflict)'' \<mapsto> o1] [''a'' \<mapsto> r, ''a (conflict)'' \<mapsto> o1]
      [''a'', ''a (conflict)''] (NewDir meta) [] s =
    Some (s, Inr (\<lparr>dm_Meta = meta, dm_Entries = [l, o1]\<rparr>, [''a'']))"
proof -
  have z: "zero_cap \<noteq> en_Cap l" "zero_cap \<noteq> en_Cap r" 
    using assms(5,6) by (metis capPresent_def read_cap.select_convs(6) zero_cap_def)+
  have "merge_name rec DefaultLabeler [] ''a'' None (Some l) (Some r) s =
      Some (s, Inr ([l, \<lparr>en_Name = ''a (conflict)'', en_Cap = en_Cap r, en_Stat = en_Stat r\<rparr>], [''a'']))"
    using assms z by (simp add: merge_name_def cap_of_def KindFile_def KindDir_def DefaultLabeler_def)
  moreover have "merge_name rec DefaultLabeler [] ''a (conflict)'' None (Some o1) (Some o1) s = Some (s, Inr ([o1], []))"
    by (simp add: merge_name_def cap_of_def)
  ultimately show ?thesis using assms(1-3) by (simp add: Upsert_def NewDir_def)
qed

section \<open>On the pipeline\<close>

context namespace_store
begin

lemma Merge3_ok:
  assumes "invar s" and "ran (abs s) \<subseteq> B" and "\<forall>c \<in> {base, loc, rem}. intact J (blob_stored P new (abs s)) c"
    and "base = zero_cap \<or> cap_ok base" and "\<forall>c \<in> {loc, rem}. cap_ok c \<and> rc_Kind c = KindDir"
    and "inj label" and "\<forall>k. js_utf8 J k \<longrightarrow> js_utf8 J (label k)"
    and "\<forall>c \<in> {loc, rem}. \<forall>ps n x. resolve_parts J nio ((s, rnd), []) c (ps @ [label n]) \<noteq> Inr x"
    and "Merge3 n J nio cfg base loc rem (Some label) ((s, rnd), []) = Some (((s', rnd'), lg), Inr (c, conf))" and "run_fine P new cfg B lg"
  defines "old \<equiv> resolve_parts J nio ((s, rnd), [])" and "merged \<equiv> resolve_parts J nio ((s', rnd'), lg) c"
  shows "(\<forall>ps f. rc_Kind f \<noteq> KindDir \<longrightarrow> old loc ps = Inr f \<longrightarrow> old base ps \<noteq> Inr f \<longrightarrow> merged ps = Inr f)
    \<and> (\<forall>ps f. rc_Kind f \<noteq> KindDir \<longrightarrow> old rem ps = Inr f \<longrightarrow> old base ps \<noteq> Inr f \<longrightarrow> merged ps = Inr f
         \<or> conf \<noteq> [] \<and> (\<exists>pre n suf. ps = pre @ n # suf \<and> merged (pre @ label n # suf) = Inr f))
    \<and> (conf = [] \<longrightarrow> (\<forall>ps f. rc_Kind f \<noteq> KindDir \<longrightarrow> merged ps = Inr f \<longrightarrow>
         old loc ps = Inr f \<and> (old base ps \<noteq> Inr f \<or> old rem ps = Inr f) \<or> old rem ps = Inr f \<and> old base ps \<noteq> Inr f))
    \<and> invar s' \<and> intact J (blob_stored P new (abs s')) c \<and> cap_ok c"
proof -
  let ?st = "((s, rnd), [] :: (bytes \<times> bytes) list)" and ?st' = "((s', rnd'), lg)"
  have m: "mergeDir n J nio cfg label [] base loc rem ?st = Some (?st', Inr (c, conf))" using assms(9) by (simp add: Merge3_def)
  have inv: "invar s \<and> ran (abs s) \<subseteq> B \<union> written P new cfg []" using assms(1,2) by auto
  have L: "blobs.later ?st ?st'" by (rule blobs.mergeDir_later [OF _ m]) (use inv in simp)
  have r: "blobs.rec_ok label (mergeDir n J nio cfg label)" using blobs.mergeDir_spec assms(6,7) by blast
  have U: "blobs.unlabelled ?st label loc" "blobs.unlabelled ?st label rem" using assms(8) unfolding blobs.unlabelled_def by blast+
  have I: "intact J (blob_stored P new (abs s)) base" "intact J (blob_stored P new (abs s)) loc" "intact J (blob_stored P new (abs s)) rem"
    and C: "cap_ok loc" "cap_ok rem" "rc_Kind loc = KindDir" "rc_Kind rem = KindDir" using assms(3,5) by blast+
  have M: "blobs.merge_spec ?st' label base loc rem c conf"
  proof (rule blobs.rec_okD [OF r m _ _ _ _ _ assms(4) _ _ _ _ U])
    show "case ?st of (x, lg) \<Rightarrow> (case x of (s, rnd) \<Rightarrow> \<lambda>lg. invar s \<and> ran (abs s) \<subseteq> B \<union> written P new cfg lg) lg" using inv by simp
    show "case ?st' of (st, lg) \<Rightarrow> run_fine P new cfg B lg" using assms(10) by simp
  qed (simp_all only: prod.case I C)
  have R: "resolve_parts J nio ?st' x ps = old x ps" if "x \<in> {base, loc, rem}" for x ps
    unfolding old_def by (rule blobs.resolve_later [OF _ L]) (use inv assms(3) that in auto)
  have "invar s'" using L by (simp add: blobs.later_def)
  then show ?thesis using M unfolding blobs.merge_spec_def merged_def [symmetric] by (simp add: R)
qed

lemma Merge3_terminates:
  assumes "invar s" and "ran (abs s) \<subseteq> B" and "intact J (blob_stored P new (abs s)) loc"
  shows "\<exists>N res. \<forall>n \<ge> N. Merge3 n J nio cfg base loc rem label ((s, rnd), []) = Some res"
proof -
  let ?st = "((s, rnd), [] :: (bytes \<times> bytes) list)" and ?l = "case label of None \<Rightarrow> DefaultLabeler | Some l \<Rightarrow> l"
  have "blobs.later ?st ?st" by (rule blobs.later_refl) (use assms in auto)
  then obtain N where "\<forall>n \<ge> N. mergeDir n J nio cfg ?l [] base loc rem ?st \<noteq> None"
    using blobs.mergeDir_total [of ?st loc ?l] assms(3) by fastforce
  then obtain res where "mergeDir N J nio cfg ?l [] base loc rem ?st = Some res" by blast
  from mergeDir_mono [OF this] show ?thesis unfolding Merge3_def by (intro exI allI impI)
qed

end

section \<open>An example\<close>

text \<open>The local root is empty, the remote one has a file, and they share no ancestor.\<close>

definition demo_label :: "string \<Rightarrow> string" where
  "demo_label n = n @ ''~''"

lemma demo_full_entries: "dm_Entries demo_full = [\<lparr>en_Name = ''a'', en_Cap = demo_child, en_Stat = zero_stat\<lparr>st_Kind := rc_Kind demo_child\<rparr>\<rparr>]"
  "dm_Meta demo_full = zero_metadata"
  by (simp_all add: demo_full_def Upsert_def NewDir_def)

lemma demo_merge_names:
  "merge_names rec label pre (map_of (entryMap (NewDir m))) (map_of (entryMap (NewDir m))) (map_of (entryMap demo_full))
     (unionNames (entryMap (NewDir m)) (entryMap demo_full)) (NewDir zero_metadata) [] s = Some (s, Inr (demo_full, []))"
proof -
  let ?e = "\<lparr>en_Name = ''a'', en_Cap = demo_child, en_Stat = zero_stat\<lparr>st_Kind := rc_Kind demo_child\<rparr>\<rparr>"
  have m: "entryMap (NewDir m) = []" "entryMap demo_full = [(''a'', ?e)]" by (simp_all add: entryMap_def demo_full_entries NewDir_def)
  have "zero_cap \<noteq> demo_child" by (simp add: demo_child_def zero_cap_def)
  then have "merge_name rec label pre ''a'' None None (Some ?e) s = Some (s, Inr ([?e], []))" by (simp add: merge_name_def cap_of_def)
  then show ?thesis by (simp add: m unionNames_def) (simp add: demo_full_def)
qed

lemma demo_merge:
  obtains s rnd loc rem s' rnd' lg c where "disk_inv demo_prims s" and "ran (disk_abs demo_prims s) \<subseteq> {b. length b \<le> 28}"
    and "\<forall>x \<in> {zero_cap, loc, rem}. intact demo_json (blob_stored demo_prims xor_new (disk_abs demo_prims s)) x"
    and "\<forall>x \<in> {loc, rem}. cap_ok x \<and> rc_Kind x = KindDir"
    and "LoadDir demo_json demo_io loc ((s, rnd), []) = Inr (NewDir zero_metadata)" and "LoadDir demo_json demo_io rem ((s, rnd), []) = Inr demo_full"
    and "Merge3 1 demo_json demo_io demo_config zero_cap loc rem (Some demo_label) ((s, rnd), []) = Some (((s', rnd'), lg), Inr (c, []))"
    and "run_fine demo_prims xor_new demo_config {b. length b \<le> 28} lg"
proof -
  let ?r = "replicate 132 (5 :: byte)"
  have ent: "chunkEntropy \<le> length ?r" "chunkEntropy \<le> length (drop chunkEntropy ?r)" "chunkEntropy \<le> length (drop chunkEntropy (drop chunkEntropy ?r))"
    by (simp_all add: chunkEntropy_def KeySize_def nonceSize_def)
  have e0: "\<forall>e \<in> set (dm_Entries (NewDir zero_metadata)). intact demo_json st (en_Cap e)" for st by (simp add: NewDir_def)
  obtain s1 loc where 1: "disk_inv demo_prims s1" "ran (disk_abs demo_prims s1) \<subseteq> {b. length b \<le> 28}" "rc_Kind loc = KindDir" "cap_ok loc"
    "intact demo_json (blob_stored demo_prims xor_new (disk_abs demo_prims s1)) loc" "\<And>r lg. LoadDir demo_json demo_io loc ((s1, r), lg) = Inr (NewDir zero_metadata)"
    by (rule demo_store_step [OF demo_encodings(1) demo_ns.blobs.NewDir_ok e0 demo_disk_inv demo_start ent(1)]) blast
  obtain s2 rem where 2: "disk_inv demo_prims s2" "ran (disk_abs demo_prims s2) \<subseteq> {b. length b \<le> 28}" "rc_Kind rem = KindDir" "cap_ok rem"
    "intact demo_json (blob_stored demo_prims xor_new (disk_abs demo_prims s2)) rem" "\<And>r lg. LoadDir demo_json demo_io rem ((s2, r), lg) = Inr demo_full"
    "intact demo_json (blob_stored demo_prims xor_new (disk_abs demo_prims s2)) loc" "\<And>r lg. LoadDir demo_json demo_io loc ((s2, r), lg) = Inr (NewDir zero_metadata)"
    by (rule demo_store_step [OF demo_encodings(2) [folded demo_full_def] demo_full_ok 1(1,2) ent(2)]) (use 1 in blast)
  let ?st = "((s2, drop chunkEntropy (drop chunkEntropy ?r)), [] :: (bytes \<times> bytes) list)"
  obtain s' rnd' lg c where st: "StoreDir demo_json demo_io demo_config demo_full ?st = (((s', rnd'), lg), Inr c)"
    "run_fine demo_prims xor_new demo_config {b. length b \<le> 28} lg"
    using demo_rewritten [OF demo_encodings(2) [folded demo_full_def] 2(1,2) ent(3)] by (metis surj_pair)
  have "NewDir zero_metadata \<noteq> demo_full" using demo_full_entries(1) by (metis NewDir_def dir_manifest.select_convs(2) list.distinct(1))
  then have ne: "loc \<noteq> rem" using 2(6,8) by (metis sum.inject(2))
  have z: "zero_cap \<noteq> loc" "zero_cap \<noteq> rem" using 1(3) 2(3) by (auto simp: zero_cap_def KindDir_def)
  have ld: "loadDirOpt demo_json demo_io zero_cap ?st = Inr (NewDir zero_metadata)" "loadDirOpt demo_json demo_io loc ?st = Inr (NewDir zero_metadata)"
    "loadDirOpt demo_json demo_io rem ?st = Inr demo_full"
    using 1(3,4) 2 by (simp_all add: loadDirOpt_def capPresent_def cap_ok_def zero_cap_def)
  have M: "Merge3 1 demo_json demo_io demo_config zero_cap loc rem (Some demo_label) ?st = Some (((s', rnd'), lg), Inr (c, []))"
    using ne z ld st(1) by (simp add: Merge3_def Let_def demo_merge_names NewDir_def [THEN arg_cong [of _ _ dm_Meta]])
  have "intact demo_json (blob_stored demo_prims xor_new (disk_abs demo_prims s2)) zero_cap"
    by (rule intact.leaf) (simp add: zero_cap_def KindDir_def)
  then show thesis by (intro that [OF 2(1,2) _ _ 2(8,6) M st(2)]) (use 2(3-5,7) 1(3,4) in blast)+
qed

lemma demo_unlabelled:
  assumes "\<forall>x \<in> {loc, rem}. cap_ok x \<and> rc_Kind x = KindDir" "LoadDir demo_json io loc st = Inr (NewDir zero_metadata)" "LoadDir demo_json io rem st = Inr demo_full"
  shows "\<forall>c \<in> {loc, rem}. \<forall>ps n x. resolve_parts demo_json io st c (ps @ [demo_label n]) \<noteq> Inr x"
    and "resolve_parts demo_json io st rem [''a''] = Inr demo_child"
proof -
  have a: "demo_label n \<noteq> ''a''" for n by (cases n) (auto simp: demo_label_def)
  have leaf: "resolve_parts demo_json io st demo_child (q # qs) = Inl ErrPath" for q qs by (simp add: demo_child_def zero_cap_def KindDir_def)
  have L: "Lookup (NewDir zero_metadata) q = None" "Lookup demo_full q = (if q = ''a'' then Some (hd (dm_Entries demo_full)) else None)" for q
    by (simp_all add: Lookup_dir_map dir_map_def NewDir_def demo_full_entries)
  have loc: "resolve_parts demo_json io st loc (q # qs) = Inl ErrPath" for q qs using assms(1,2) L(1) by simp
  have rem: "resolve_parts demo_json io st rem (q # qs) = (if q = ''a'' then resolve_parts demo_json io st demo_child qs else Inl ErrPath)" for q qs
    using assms(1,3) L(2) by (simp add: demo_full_entries)
  have "resolve_parts demo_json io st loc (ps @ [demo_label n]) \<noteq> Inr x" for ps n x by (cases "ps @ [demo_label n]") (simp_all add: loc del: resolve_parts.simps)
  moreover have "resolve_parts demo_json io st rem (ps @ [demo_label n]) \<noteq> Inr x" for ps n x
  proof (cases ps)
    case Nil
    then show ?thesis using a [of n] rem by simp
  next
    case (Cons q qs)
    obtain p ps' where "qs @ [demo_label n] = p # ps'" by (cases qs) auto
    then show ?thesis using Cons rem leaf by simp
  qed
  ultimately show "\<forall>c \<in> {loc, rem}. \<forall>ps n x. resolve_parts demo_json io st c (ps @ [demo_label n]) \<noteq> Inr x" by blast
  show "resolve_parts demo_json io st rem [''a''] = Inr demo_child" using rem [of "''a''" "[]"] by simp
qed

section \<open>Properties\<close>

text \<open>
  C5: a merge loses no edit. For three intact roots on a sound disk store, an injective labeler that never
  makes a name either side uses (\<open>conflict_copy_lost\<close> shows what a taken name costs) and a run that met no collision of addresses: every file that is
  in the local root and not the same in the base is at its path in the merged root; every file that is in
  the remote root and not the same in the base is at its path, or its path has one component replaced by the conflict name and
  the merge reports a conflict; and a merge without conflicts contains no file that one side kept
  unchanged and the other deleted or replaced. The merged namespace is intact.
\<close>

theorem Merge3_keeps_edits:
  fixes new :: rs_new
  defines "io \<equiv> \<lambda>P. logged_io (pipeline_io P new (disk_ops P) None)"
  assumes "disk_inv P s" and "ran (disk_abs P s) \<subseteq> B" and "json_law J" and "pipeline_laws P new (cfg_Params cfg)"
    and "\<forall>d. length (HashOf P d) = idSize"
    and "\<forall>c \<in> {base, loc, rem}. intact J (blob_stored P new (disk_abs P s)) c"
    and "base = zero_cap \<or> cap_ok base" and "\<forall>c \<in> {loc, rem}. cap_ok c \<and> rc_Kind c = KindDir"
    and "inj label" and "\<forall>k. js_utf8 J k \<longrightarrow> js_utf8 J (label k)"
    and "\<forall>c \<in> {loc, rem}. \<forall>ps n x. resolve_parts J (io P) ((s, rnd), []) c (ps @ [label n]) \<noteq> Inr x"
    and "Merge3 n J (io P) cfg base loc rem (Some label) ((s, rnd), []) = Some (((s', rnd'), lg), Inr (c, conf))" and "run_fine P new cfg B lg"
  defines "old \<equiv> resolve_parts J (io P) ((s, rnd), [])" and "merged \<equiv> resolve_parts J (io P) ((s', rnd'), lg) c"
  shows "(\<forall>ps f. rc_Kind f \<noteq> KindDir \<longrightarrow> old loc ps = Inr f \<longrightarrow> old base ps \<noteq> Inr f \<longrightarrow> merged ps = Inr f)
    \<and> (\<forall>ps f. rc_Kind f \<noteq> KindDir \<longrightarrow> old rem ps = Inr f \<longrightarrow> old base ps \<noteq> Inr f \<longrightarrow> merged ps = Inr f
         \<or> conf \<noteq> [] \<and> (\<exists>pre n suf. ps = pre @ n # suf \<and> merged (pre @ label n # suf) = Inr f))
    \<and> (conf = [] \<longrightarrow> (\<forall>ps f. rc_Kind f \<noteq> KindDir \<longrightarrow> merged ps = Inr f \<longrightarrow>
         old loc ps = Inr f \<and> (old base ps \<noteq> Inr f \<or> old rem ps = Inr f) \<or> old rem ps = Inr f \<and> old base ps \<noteq> Inr f))
    \<and> disk_inv P s' \<and> intact J (blob_stored P new (disk_abs P s')) c \<and> cap_ok c"
  unfolding old_def merged_def io_def
  by (rule namespace_store.Merge3_ok [OF namespace_storeI [OF disk.content_store_axioms assms(4,5,6)] assms(2,3,7-11) assms(12-13) [unfolded io_def] assms(14)])

theorem Merge3_keeps_edits_witness:
  "\<exists>st c. resolve_parts demo_json (logged_io (pipeline_io demo_prims xor_new (disk_ops demo_prims) None)) st c [''a''] = Inr demo_child"
proof -
  obtain s rnd loc rem s' rnd' lg c where m: "disk_inv demo_prims s" "ran (disk_abs demo_prims s) \<subseteq> {b. length b \<le> 28}"
    "\<forall>x \<in> {zero_cap, loc, rem}. intact demo_json (blob_stored demo_prims xor_new (disk_abs demo_prims s)) x"
    "\<forall>x \<in> {loc, rem}. cap_ok x \<and> rc_Kind x = KindDir"
    "LoadDir demo_json demo_io loc ((s, rnd), []) = Inr (NewDir zero_metadata)" "LoadDir demo_json demo_io rem ((s, rnd), []) = Inr demo_full"
    "Merge3 1 demo_json demo_io demo_config zero_cap loc rem (Some demo_label) ((s, rnd), []) = Some (((s', rnd'), lg), Inr (c, []))"
    "run_fine demo_prims xor_new demo_config {b. length b \<le> 28} lg" by (rule demo_merge)
  have l: "inj demo_label" "\<forall>k. js_utf8 demo_json k \<longrightarrow> js_utf8 demo_json (demo_label k)"
    by (auto simp: inj_def demo_label_def demo_json_def)
  note T = Merge3_keeps_edits [OF m(1,2) demo_json_law demo_laws demo_hash32 m(3) _ m(4) l demo_unlabelled(1) [OF m(4-6)] m(7,8)]
  have "rc_Kind demo_child \<noteq> KindDir" "resolve_parts demo_json demo_io ((s, rnd), []) zero_cap [''a''] \<noteq> Inr demo_child"
    by (simp_all add: demo_child_def zero_cap_def KindDir_def)
  then show ?thesis using T demo_unlabelled(2) [OF m(4-6)] by blast
qed

text \<open>
  C6: the merge always returns: with an intact local root there is a recursion depth from which on the
  result is one and the same value, whatever the base and the remote root are.
\<close>

theorem Merge3_total:
  fixes new :: rs_new
  assumes "disk_inv P s" and "json_law J" and "pipeline_laws P new (cfg_Params cfg)" and "\<forall>d. length (HashOf P d) = idSize"
    and "intact J (blob_stored P new (disk_abs P s)) loc"
  shows "\<exists>N res. \<forall>n \<ge> N. Merge3 n J (logged_io (pipeline_io P new (disk_ops P) None)) cfg base loc rem label ((s, rnd), []) = Some res"
  by (rule namespace_store.Merge3_terminates [OF namespace_storeI [OF disk.content_store_axioms assms(2-4)] assms(1) subset_refl assms(5)])

theorem Merge3_total_witness:
  "\<exists>N res. \<forall>n \<ge> N. Merge3 n demo_json (logged_io (pipeline_io demo_prims xor_new (disk_ops demo_prims) None)) demo_config zero_cap demo_child zero_cap None
     ((demo_disk, []), []) = Some res"
  by (rule Merge3_total [OF demo_disk_inv demo_json_law demo_laws demo_hash32 demo_child_ok(2)])

end
