(* ===== verification/Provider.thy ===== *)
theory Provider
  imports Roots Merge
begin

text \<open>
  The filesystem provider: \<^verbatim>\<open>src/internal/provider/manifest.go\<close>, \<^verbatim>\<open>identity.go\<close>, \<^verbatim>\<open>diff.go\<close> and the interface of
  \<^verbatim>\<open>provider.go\<close>, with the version tokens of \<^verbatim>\<open>src/internal/pipeline/metadata.go\<close>. Calls are steps on one
  state: the store behind the namespace, the root store, the identifiers, the current root and its sequence
  number. The code looks the identifier of a call up before it takes the lock under which it does the rest;
  here a call is one step, so a rename between the two is not represented.
\<close>

unbundle bit_operations_syntax

section \<open>Version tokens\<close>

definition ModeDir :: "32 word" where "ModeDir = push_bit 31 1"
definition ModeSymlink :: "32 word" where "ModeSymlink = push_bit 27 1"
definition ModePerm :: "32 word" where "ModePerm = 511"

definition IsSymlink :: "metadata \<Rightarrow> bool" where
  "IsSymlink m \<longleftrightarrow> md_SymlinkTarget m \<noteq> [] \<or> md_Mode m AND ModeSymlink \<noteq> 0"

definition le_put :: "nat \<Rightarrow> nat \<Rightarrow> bytes" where
  "le_put n x = rev (be_put n x)"

definition sortedKeys :: "(string \<times> bytes) list \<Rightarrow> string list" where
  "sortedKeys m = sort (map fst m)"

definition contentToken :: "file_manifest \<Rightarrow> bytes" where
  "contentToken m = concat (map (\<lambda>c. concat (ref_Shards c)) (fm_Chunks m))"

definition metaToken :: "metadata \<Rightarrow> bytes" where
  "metaToken m = le_put 4 (unat (md_Mode m)) @ le_put 4 (unat (md_Uid m)) @ le_put 4 (unat (md_Gid m))
     @ le_put 8 (unat (md_ModTimeNS m)) @ le_put 8 (unat (md_ChangeTimeNS m)) @ le_put 8 (unat (md_AccessTimeNS m)) @ le_put 8 (unat (md_BirthTimeNS m))
     @ le_put 4 (unat (md_Flags m)) @ ascii (md_ContentType m) @ [0] @ ascii (md_SymlinkTarget m) @ [0]
     @ concat (map (\<lambda>k. ascii k @ [0] @ (case map_of (md_Xattr m) k of None \<Rightarrow> [] | Some v \<Rightarrow> v)) (sortedKeys (md_Xattr m)))"

definition DeriveVersions :: "prims \<Rightarrow> file_manifest \<Rightarrow> file_manifest" where
  "DeriveVersions P m = m\<lparr>fm_Meta := (fm_Meta m)\<lparr>md_ContentVersion := take 16 (sha256 P (contentToken m)),
     md_MetaVersion := take 16 (sha256 P (metaToken (fm_Meta m)))\<rparr>\<rparr>"

section \<open>Identifiers\<close>

text \<open>
  The two Go maps are association lists, iterated in their order. \<open>idn_next\<close> is a natural number: the
  counter of the code has 64 bits and would wrap after \<open>2\<^sup>6\<^sup>4\<close> identifiers.
\<close>

type_synonym item_id = string

definition RootID :: item_id where "RootID = ''root''"

fun FormatUint :: "nat \<Rightarrow> string" where
  "FormatUint n = (if n < 10 then [char_of (48 + n)] else FormatUint (n div 10) @ [char_of (48 + n mod 10)])"

declare FormatUint.simps [simp del]

record identity =
  idn_byID :: "(item_id \<times> string) list"
  idn_byPath :: "(string \<times> item_id) list"
  idn_next :: nat

definition newIdentity :: identity where
  "newIdentity = \<lparr>idn_byID = [(RootID, [])], idn_byPath = [([], RootID)], idn_next = 0\<rparr>"

definition idFor :: "string \<Rightarrow> identity \<Rightarrow> identity \<times> item_id" where
  "idFor path i = (case map_of (idn_byPath i) path of
     Some did \<Rightarrow> (i, did)
   | None \<Rightarrow> let n = idn_next i + 1; did = CHR ''i'' # FormatUint n in
       (i\<lparr>idn_next := n, idn_byPath := AList.update path did (idn_byPath i), idn_byID := AList.update did path (idn_byID i)\<rparr>, did))"

definition pathFor_id :: "identity \<Rightarrow> item_id \<Rightarrow> string option" where
  "pathFor_id i did = map_of (idn_byID i) did"

definition collectSubtree :: "(string \<times> item_id) list \<Rightarrow> string \<Rightarrow> (string \<times> item_id) list" where
  "collectSubtree byPath pre = filter (\<lambda>(p, _). p = pre \<or> prefix (pre @ ''/'') p) byPath"

definition id_move :: "string \<Rightarrow> string \<Rightarrow> string \<times> item_id \<Rightarrow> identity \<Rightarrow> identity" where
  "id_move oldPath newPath x i = (let (p, did) = x; np = newPath @ drop (length oldPath) p in
     i\<lparr>idn_byPath := AList.update np did (AList.delete p (idn_byPath i)), idn_byID := AList.update did np (idn_byID i)\<rparr>)"

definition id_rename :: "string \<Rightarrow> string \<Rightarrow> identity \<Rightarrow> identity" where
  "id_rename oldPath newPath i = fold (id_move oldPath newPath) (collectSubtree (idn_byPath i) oldPath) i"

definition id_drop :: "string \<times> item_id \<Rightarrow> identity \<Rightarrow> identity" where
  "id_drop x i = i\<lparr>idn_byPath := AList.delete (fst x) (idn_byPath i), idn_byID := AList.delete (snd x) (idn_byID i)\<rparr>"

definition id_remove :: "string \<Rightarrow> identity \<Rightarrow> identity" where
  "id_remove path i = fold id_drop (collectSubtree (idn_byPath i) path) i"

section \<open>Items\<close>

definition CapRead :: "32 word" where "CapRead = 1"
definition CapWrite :: "32 word" where "CapWrite = 2"
definition CapRename :: "32 word" where "CapRename = 4"
definition CapReparent :: "32 word" where "CapReparent = 8"
definition CapDelete :: "32 word" where "CapDelete = 16"
definition CapAddSubItems :: "32 word" where "CapAddSubItems = 32"
definition CapEnumerate :: "32 word" where "CapEnumerate = 64"

definition capsFor :: "bool \<Rightarrow> 32 word \<Rightarrow> 32 word" where
  "capsFor isDir mode = (let caps = CapRead OR CapRename OR CapReparent OR CapDelete in
     if isDir then caps OR CapWrite OR CapAddSubItems OR CapEnumerate
     else if mode = 0 \<or> mode AND ModePerm AND 128 \<noteq> 0 then caps OR CapWrite else caps)"

record item_version =
  ver_Content :: bytes
  ver_Meta :: bytes

record item =
  it_ID :: item_id
  it_Parent :: item_id
  it_Name :: string
  it_IsDir :: bool
  it_IsLink :: bool
  it_Size :: int
  it_Version :: item_version
  it_Meta :: metadata
  it_Caps :: "32 word"
  it_Cap :: read_cap

record create_request =
  cr_Name :: string
  cr_IsDir :: bool
  cr_Meta :: metadata
  cr_Contents :: "reader option"

record modify_request =
  mr_Contents :: "reader option"
  mr_Meta :: "metadata option"

definition join_path :: "string \<Rightarrow> string \<Rightarrow> string" where
  "join_path parentPath name = (if parentPath = [] then name else parentPath @ ''/'' @ name)"

text \<open>The two halves around the last slash; \<open>last_slash\<close> is \<^verbatim>\<open>strings.LastIndex\<close>, \<open>None\<close> for \<open>- 1\<close>.\<close>

fun last_slash :: "string \<Rightarrow> nat option" where
  "last_slash [] = None"
| "last_slash (c # cs) = (case last_slash cs of Some i \<Rightarrow> Some (Suc i) | None \<Rightarrow> if c = CHR ''/'' then Some 0 else None)"

definition parentAndBase :: "string \<Rightarrow> string \<times> string" where
  "parentAndBase path = (case last_slash path of None \<Rightarrow> ([], path) | Some i \<Rightarrow> (take i path, drop (i + 1) path))"

definition hashCap :: "prims \<Rightarrow> json_codec \<Rightarrow> read_cap \<Rightarrow> bytes" where
  "hashCap P J c = take 16 (sha256 P (cap_MarshalBinary J c))"

definition prov_capEqual :: "json_codec \<Rightarrow> read_cap \<Rightarrow> read_cap \<Rightarrow> bool" where
  "prov_capEqual J a b \<longleftrightarrow> cap_MarshalBinary J a = cap_MarshalBinary J b"

definition dirMode :: "32 word" where
  "dirMode = ModeDir OR 493"

definition statFromManifest :: "file_manifest \<Rightarrow> stat_cache" where
  "statFromManifest m = \<lparr>st_Kind = KindFile, st_Size = fm_Size m, st_Mode = md_Mode (fm_Meta m), st_ModTimeNS = md_ModTimeNS (fm_Meta m),
     st_ContentVersion = md_ContentVersion (fm_Meta m), st_MetaVersion = md_MetaVersion (fm_Meta m)\<rparr>"

definition itemFromEntry :: "prims \<Rightarrow> json_codec \<Rightarrow> string \<Rightarrow> entry \<Rightarrow> identity \<Rightarrow> identity \<times> item" where
  "itemFromEntry P J parentPath e i =
     (let childPath = join_path parentPath (en_Name e); isDir = (rc_Kind (en_Cap e) = KindDir); st = en_Stat e;
          content = (if st_ContentVersion st = [] then hashCap P J (en_Cap e) else st_ContentVersion st);
          (i1, did) = idFor childPath i; (i2, pid) = idFor parentPath i1 in
      (i2, \<lparr>it_ID = did, it_Parent = pid, it_Name = en_Name e, it_IsDir = isDir, it_IsLink = (st_Mode st AND ModeSymlink \<noteq> 0),
        it_Size = st_Size st, it_Version = \<lparr>ver_Content = content, ver_Meta = st_MetaVersion st\<rparr>,
        it_Meta = zero_metadata\<lparr>md_Mode := st_Mode st, md_ModTimeNS := st_ModTimeNS st\<rparr>,
        it_Caps = capsFor isDir (st_Mode st), it_Cap = en_Cap e\<rparr>))"

fun itemsFromEntries :: "prims \<Rightarrow> json_codec \<Rightarrow> string \<Rightarrow> entry list \<Rightarrow> identity \<Rightarrow> identity \<times> item list" where
  "itemsFromEntries P J dirPath [] i = (i, [])"
| "itemsFromEntries P J dirPath (e # es) i = (let (i1, it) = itemFromEntry P J dirPath e i; (i2, its) = itemsFromEntries P J dirPath es i1 in (i2, it # its))"

section \<open>The provider\<close>

text \<open>
  \<^verbatim>\<open>StoreFile\<close> and \<^verbatim>\<open>LoadFile\<close> as loops over the blob calls of the pipeline: both handle a chunk as a blob.
\<close>

fun store_items_io :: "'s blob_io \<Rightarrow> config \<Rightarrow> bytes res list \<Rightarrow> 's \<Rightarrow> file_manifest \<Rightarrow> 's \<times> file_manifest res" where
  "store_items_io io cfg [] s m = (s, Inr m)"
| "store_items_io io cfg (Inl e # items) s m = (s, Inl e)"
| "store_items_io io cfg (Inr plain # items) s m = (case io_Store io s cfg plain of
     (s', Inl e) \<Rightarrow> (s', Inl e)
   | (s', Inr ref) \<Rightarrow> store_items_io io cfg items s' (m\<lparr>fm_Chunks := fm_Chunks m @ [ref], fm_Size := fm_Size m + int (length plain)\<rparr>))"

definition empty_manifest :: "config \<Rightarrow> file_manifest" where
  "empty_manifest cfg = \<lparr>fm_Name = [], fm_Params = cfg, fm_Size = 0, fm_Meta = zero_metadata, fm_Chunks = []\<rparr>"

definition StoreFile_io :: "'s blob_io \<Rightarrow> config \<Rightarrow> reader \<Rightarrow> 's \<Rightarrow> 's \<times> file_manifest res" where
  "StoreFile_io io cfg r s = store_items_io io cfg (Fixed r (cfg_ChunkSize cfg)) s (empty_manifest cfg)"

fun load_chunks_io :: "'s blob_io \<Rightarrow> params \<Rightarrow> chunk_ref list \<Rightarrow> 's \<Rightarrow> bytes \<Rightarrow> bytes \<times> unit res" where
  "load_chunks_io io p [] s w = (w, Inr ())"
| "load_chunks_io io p (ref # refs) s w = (case io_Load io s p ref of Inl e \<Rightarrow> (w, Inl e) | Inr plain \<Rightarrow> load_chunks_io io p refs s (w @ plain))"

definition LoadFile_io :: "'s blob_io \<Rightarrow> file_manifest \<Rightarrow> 's \<Rightarrow> bytes \<times> unit res" where
  "LoadFile_io io m s = load_chunks_io io (cfg_Params (fm_Params m)) (fm_Chunks m) s []"

record ('s, 'r) prov_env =
  ev_P :: prims
  ev_J :: json_codec
  ev_io :: "'s blob_io"
  ev_cfg :: config
  ev_signer :: bytes
  ev_load :: "'r \<Rightarrow> root_pointer option res"
  ev_save :: "'r \<Rightarrow> root_pointer \<Rightarrow> 'r \<times> unit res"
  ev_clock :: "64 word"

record ('s, 'r) prov =
  pv_store :: 's
  pv_roots :: 'r
  pv_ids :: identity
  pv_root :: read_cap
  pv_seq :: "64 word"

definition prov_commit :: "('s, 'r) prov_env \<Rightarrow> read_cap \<Rightarrow> ('s, 'r) prov \<Rightarrow> ('s, 'r) prov \<times> unit res" where
  "prov_commit E newRoot p =
     (let sq = pv_seq p + 1; rp = SignRoot (ev_P E) (ev_J E) (ev_signer E) newRoot sq (ev_clock E) in
      (case ev_save E (pv_roots p) rp of
        (r, Inl e) \<Rightarrow> (p\<lparr>pv_roots := r\<rparr>, Inl e)
      | (r, Inr _) \<Rightarrow> (p\<lparr>pv_roots := r, pv_seq := sq, pv_root := newRoot\<rparr>, Inr ())))"

definition prov_New :: "('s, 'r) prov_env \<Rightarrow> 's \<Rightarrow> 'r \<Rightarrow> ('s, 'r) prov \<times> unit res" where
  "prov_New E s r = (let p = \<lparr>pv_store = s, pv_roots = r, pv_ids = newIdentity, pv_root = zero_cap, pv_seq = 0\<rparr> in
     (case ev_load E r of
       Inl e \<Rightarrow> (p, Inl e)
     | Inr (Some rp) \<Rightarrow>
         if \<not> root_Verify (ev_P E) (ev_J E) rp then (p, Inl ErrSignature)
         else if rp_Owner rp \<noteq> ed_public (ev_P E) (ev_signer E) then (p, Inl ErrMismatch)
         else (p\<lparr>pv_root := rp_Root rp, pv_seq := rp_Seq rp\<rparr>, Inr ())
     | Inr None \<Rightarrow> (case StoreDir (ev_J E) (ev_io E) (ev_cfg E) (NewDir (zero_metadata\<lparr>md_Mode := dirMode\<rparr>)) s of
         (s', Inl e) \<Rightarrow> (p\<lparr>pv_store := s'\<rparr>, Inl e)
       | (s', Inr c) \<Rightarrow> prov_commit E c (p\<lparr>pv_store := s'\<rparr>))))"

definition entryOf :: "('s, 'r) prov_env \<Rightarrow> 's \<Rightarrow> read_cap \<Rightarrow> string \<Rightarrow> entry res" where
  "entryOf E s root path = (if path = [] then Inl ErrInvalid
     else let (parent, base) = parentAndBase path in
       bindR (Resolve (ev_J E) (ev_io E) s root parent) (\<lambda>parentCap.
         if rc_Kind parentCap \<noteq> KindDir then Inl ErrKind
         else bindR (LoadDir (ev_J E) (ev_io E) parentCap s) (\<lambda>d.
           case Lookup d base of None \<Rightarrow> Inl ErrNoItem | Some e \<Rightarrow> Inr e)))"

text \<open>The item of an entry, with the identifiers it mints.\<close>

definition prov_item :: "('s, 'r) prov_env \<Rightarrow> string \<Rightarrow> entry \<Rightarrow> ('s, 'r) prov \<Rightarrow> ('s, 'r) prov \<times> item" where
  "prov_item E parentPath e p = (let (i, it) = itemFromEntry (ev_P E) (ev_J E) parentPath e (pv_ids p) in (p\<lparr>pv_ids := i\<rparr>, it))"

definition enrich :: "('s, 'r) prov_env \<Rightarrow> 's \<Rightarrow> entry \<Rightarrow> item \<Rightarrow> item res" where
  "enrich E s e it = (if rc_Kind (en_Cap e) = KindFile
     then bindR (LoadFileManifest (ev_J E) (ev_io E) (en_Cap e) s) (\<lambda>fm.
       let it1 = it\<lparr>it_Meta := fm_Meta fm, it_Size := fm_Size fm\<rparr> in
       Inr (if md_ContentVersion (fm_Meta fm) \<noteq> []
         then it1\<lparr>it_Version := \<lparr>ver_Content = md_ContentVersion (fm_Meta fm), ver_Meta = md_MetaVersion (fm_Meta fm)\<rparr>\<rparr> else it1))
     else if rc_Kind (en_Cap e) = KindDir
     then bindR (LoadDir (ev_J E) (ev_io E) (en_Cap e) s) (\<lambda>d. Inr (it\<lparr>it_Meta := dm_Meta d\<rparr>))
     else Inr it)"

definition prov_Stat :: "('s, 'r) prov_env \<Rightarrow> item_id \<Rightarrow> ('s, 'r) prov \<Rightarrow> ('s, 'r) prov \<times> item res" where
  "prov_Stat E did p = (case pathFor_id (pv_ids p) did of
     None \<Rightarrow> (p, Inl ErrNoItem)
   | Some path \<Rightarrow> if path = []
       then (p, bindR (LoadDir (ev_J E) (ev_io E) (pv_root p) (pv_store p)) (\<lambda>d.
         Inr \<lparr>it_ID = RootID, it_Parent = RootID, it_Name = [], it_IsDir = True, it_IsLink = False, it_Size = 0,
              it_Version = \<lparr>ver_Content = hashCap (ev_P E) (ev_J E) (pv_root p), ver_Meta = []\<rparr>, it_Meta = dm_Meta d,
              it_Caps = capsFor True (md_Mode (dm_Meta d)), it_Cap = pv_root p\<rparr>))
       else (case entryOf E (pv_store p) (pv_root p) path of
         Inl e \<Rightarrow> (p, Inl e)
       | Inr e \<Rightarrow> let (p1, it) = prov_item E (fst (parentAndBase path)) e p in (p1, enrich E (pv_store p) e it)))"

definition prov_dir :: "('s, 'r) prov_env \<Rightarrow> string \<Rightarrow> ('s, 'r) prov \<Rightarrow> dir_manifest res" where
  "prov_dir E path p = bindR (Resolve (ev_J E) (ev_io E) (pv_store p) (pv_root p) path) (\<lambda>c.
     if rc_Kind c \<noteq> KindDir then Inl ErrKind else LoadDir (ev_J E) (ev_io E) c (pv_store p))"

definition prov_Lookup :: "('s, 'r) prov_env \<Rightarrow> item_id \<Rightarrow> string \<Rightarrow> ('s, 'r) prov \<Rightarrow> ('s, 'r) prov \<times> item res" where
  "prov_Lookup E parent name p = (case pathFor_id (pv_ids p) parent of
     None \<Rightarrow> (p, Inl ErrNoItem)
   | Some parentPath \<Rightarrow> (case prov_dir E parentPath p of
       Inl e \<Rightarrow> (p, Inl e)
     | Inr d \<Rightarrow> (case Lookup d name of
         None \<Rightarrow> (p, Inl ErrNoItem)
       | Some e \<Rightarrow> let (p1, it) = prov_item E parentPath e p in (p1, Inr it))))"

definition prov_Enumerate :: "('s, 'r) prov_env \<Rightarrow> item_id \<Rightarrow> ('s, 'r) prov \<Rightarrow> ('s, 'r) prov \<times> item list res" where
  "prov_Enumerate E did p = (case pathFor_id (pv_ids p) did of
     None \<Rightarrow> (p, Inl ErrNoItem)
   | Some dirPath \<Rightarrow> (case prov_dir E dirPath p of
       Inl e \<Rightarrow> (p, Inl e)
     | Inr d \<Rightarrow> let (i, its) = itemsFromEntries (ev_P E) (ev_J E) dirPath (dm_Entries d) (pv_ids p) in (p\<lparr>pv_ids := i\<rparr>, Inr its)))"

text \<open>What was written to the writer, and the version served.\<close>

definition prov_FetchContents :: "('s, 'r) prov_env \<Rightarrow> item_id \<Rightarrow> ('s, 'r) prov \<Rightarrow> bytes \<times> item_version res" where
  "prov_FetchContents E did p = (case pathFor_id (pv_ids p) did of
     None \<Rightarrow> ([], Inl ErrNoItem)
   | Some path \<Rightarrow> (case bindR (Resolve (ev_J E) (ev_io E) (pv_store p) (pv_root p) path) (\<lambda>c.
         if rc_Kind c \<noteq> KindFile then Inl ErrKind else LoadFileManifest (ev_J E) (ev_io E) c (pv_store p)) of
       Inl e \<Rightarrow> ([], Inl e)
     | Inr fm \<Rightarrow> (case (if IsSymlink (fm_Meta fm) then ([], Inr ()) else LoadFile_io (ev_io E) fm (pv_store p)) of
         (w, Inl e) \<Rightarrow> (w, Inl e)
       | (w, Inr _) \<Rightarrow> (w, Inr \<lparr>ver_Content = md_ContentVersion (fm_Meta fm), ver_Meta = md_MetaVersion (fm_Meta fm)\<rparr>))))"

definition prov_Evict :: "item_id \<Rightarrow> ('s, 'r) prov \<Rightarrow> unit res" where
  "prov_Evict did p = (if pathFor_id (pv_ids p) did = None then Inl ErrNoItem else Inr ())"

definition buildChild :: "('s, 'r) prov_env \<Rightarrow> string \<Rightarrow> bool \<Rightarrow> metadata \<Rightarrow> reader option \<Rightarrow> 's \<Rightarrow> 's \<times> (read_cap \<times> stat_cache) res" where
  "buildChild E name isDir meta contents s = (if isDir
     then (case StoreDir (ev_J E) (ev_io E) (ev_cfg E) (NewDir meta) s of
        (s', Inl e) \<Rightarrow> (s', Inl e)
      | (s', Inr c) \<Rightarrow> (s', Inr (c, \<lparr>st_Kind = KindDir, st_Size = 0, st_Mode = md_Mode meta, st_ModTimeNS = md_ModTimeNS meta,
          st_ContentVersion = [], st_MetaVersion = []\<rparr>)))
     else (case (case contents of
          None \<Rightarrow> (s, Inr (empty_manifest (ev_cfg E)))
        | Some r \<Rightarrow> if IsSymlink meta then (s, Inr (empty_manifest (ev_cfg E))) else StoreFile_io (ev_io E) (ev_cfg E) r s) of
        (s', Inl e) \<Rightarrow> (s', Inl e)
      | (s', Inr fm) \<Rightarrow> let fm' = DeriveVersions (ev_P E) (fm\<lparr>fm_Name := name, fm_Meta := meta\<rparr>) in
          (case StoreFileManifest (ev_J E) (ev_io E) (ev_cfg E) fm' s' of
            (s'', Inl e) \<Rightarrow> (s'', Inl e)
          | (s'', Inr c) \<Rightarrow> (s'', Inr (c, statFromManifest fm')))))"

text \<open>The end of every mutation: graft, commit.\<close>

definition graft_commit :: "('s, 'r) prov_env \<Rightarrow> string \<Rightarrow> read_cap \<Rightarrow> stat_cache \<Rightarrow> ('s, 'r) prov \<Rightarrow> ('s, 'r) prov \<times> unit res" where
  "graft_commit E path c stat p = (case Graft (ev_J E) (ev_io E) (ev_cfg E) (pv_root p) path c stat (pv_store p) of
     (s, Inl e) \<Rightarrow> (p\<lparr>pv_store := s\<rparr>, Inl e)
   | (s, Inr newRoot) \<Rightarrow> prov_commit E newRoot (p\<lparr>pv_store := s\<rparr>))"

definition prov_CreateItem :: "('s, 'r) prov_env \<Rightarrow> item_id \<Rightarrow> create_request \<Rightarrow> ('s, 'r) prov \<Rightarrow> ('s, 'r) prov \<times> item res" where
  "prov_CreateItem E parent req p = (if cr_Name req = [] then (p, Inl ErrInvalid)
     else (case pathFor_id (pv_ids p) parent of
       None \<Rightarrow> (p, Inl ErrNoItem)
     | Some parentPath \<Rightarrow>
         (case buildChild E (cr_Name req) (cr_IsDir req) (cr_Meta req) (cr_Contents req) (pv_store p) of
           (s, Inl e) \<Rightarrow> (p\<lparr>pv_store := s\<rparr>, Inl e)
         | (s, Inr (childCap, stat)) \<Rightarrow>
             (case graft_commit E (join_path parentPath (cr_Name req)) childCap stat (p\<lparr>pv_store := s\<rparr>) of
               (p1, Inl e) \<Rightarrow> (p1, Inl e)
             | (p1, Inr _) \<Rightarrow> let (p2, it) = prov_item E parentPath \<lparr>en_Name = cr_Name req, en_Cap = childCap, en_Stat = stat\<rparr> p1 in (p2, Inr it)))))"

definition modified_child :: "('s, 'r) prov_env \<Rightarrow> entry \<Rightarrow> modify_request \<Rightarrow> 's \<Rightarrow> 's \<times> (read_cap \<times> stat_cache) res" where
  "modified_child E e req s = (if rc_Kind (en_Cap e) = KindDir
     then (case LoadDir (ev_J E) (ev_io E) (en_Cap e) s of
        Inl err \<Rightarrow> (s, Inl err)
      | Inr d \<Rightarrow> let d' = (case mr_Meta req of None \<Rightarrow> d | Some m \<Rightarrow> d\<lparr>dm_Meta := m\<rparr>) in
          (case StoreDir (ev_J E) (ev_io E) (ev_cfg E) d' s of
            (s', Inl err) \<Rightarrow> (s', Inl err)
          | (s', Inr c) \<Rightarrow> (s', Inr (c, \<lparr>st_Kind = KindDir, st_Size = 0, st_Mode = md_Mode (dm_Meta d'), st_ModTimeNS = md_ModTimeNS (dm_Meta d'),
              st_ContentVersion = [], st_MetaVersion = []\<rparr>))))
     else if rc_Kind (en_Cap e) = KindFile
     then (case LoadFileManifest (ev_J E) (ev_io E) (en_Cap e) s of
        Inl err \<Rightarrow> (s, Inl err)
      | Inr fm \<Rightarrow> let meta = (case mr_Meta req of None \<Rightarrow> fm_Meta fm | Some m \<Rightarrow> m) in
          (case (case mr_Contents req of
              Some r \<Rightarrow> (case StoreFile_io (ev_io E) (ev_cfg E) r s of
                (s', Inl err) \<Rightarrow> (s', Inl err) | (s', Inr nfm) \<Rightarrow> (s', Inr (nfm\<lparr>fm_Name := fm_Name fm, fm_Meta := meta\<rparr>)))
            | None \<Rightarrow> (s, Inr (fm\<lparr>fm_Meta := meta\<rparr>))) of
            (s', Inl err) \<Rightarrow> (s', Inl err)
          | (s', Inr fm1) \<Rightarrow> let fm2 = DeriveVersions (ev_P E) fm1 in
              (case StoreFileManifest (ev_J E) (ev_io E) (ev_cfg E) fm2 s' of
                (s'', Inl err) \<Rightarrow> (s'', Inl err)
              | (s'', Inr c) \<Rightarrow> (s'', Inr (c, statFromManifest fm2)))))
     else (s, Inr (zero_cap, zero_stat)))"

definition prov_ModifyItem :: "('s, 'r) prov_env \<Rightarrow> item_id \<Rightarrow> modify_request \<Rightarrow> ('s, 'r) prov \<Rightarrow> ('s, 'r) prov \<times> item res" where
  "prov_ModifyItem E did req p = (case pathFor_id (pv_ids p) did of
     None \<Rightarrow> (p, Inl ErrNoItem)
   | Some path \<Rightarrow> if path = [] then (p, Inl ErrInvalid)
       else if mr_Contents req = None \<and> mr_Meta req = None then prov_Stat E did p
       else (case entryOf E (pv_store p) (pv_root p) path of
         Inl e \<Rightarrow> (p, Inl e)
       | Inr e \<Rightarrow> (case modified_child E e req (pv_store p) of
           (s, Inl err) \<Rightarrow> (p\<lparr>pv_store := s\<rparr>, Inl err)
         | (s, Inr (newCap, stat)) \<Rightarrow> (case graft_commit E path newCap stat (p\<lparr>pv_store := s\<rparr>) of
             (p1, Inl err) \<Rightarrow> (p1, Inl err)
           | (p1, Inr _) \<Rightarrow> let (parent, name) = parentAndBase path;
                (p2, it) = prov_item E parent \<lparr>en_Name = name, en_Cap = newCap, en_Stat = stat\<rparr> p1 in (p2, Inr it)))))"

definition prov_DeleteItem :: "('s, 'r) prov_env \<Rightarrow> item_id \<Rightarrow> ('s, 'r) prov \<Rightarrow> ('s, 'r) prov \<times> unit res" where
  "prov_DeleteItem E did p = (case pathFor_id (pv_ids p) did of
     None \<Rightarrow> (p, Inl ErrNoItem)
   | Some path \<Rightarrow> if path = [] then (p, Inl ErrInvalid)
       else (case GraftRemove (ev_J E) (ev_io E) (ev_cfg E) (pv_root p) path (pv_store p) of
         (s, Inl e) \<Rightarrow> (p\<lparr>pv_store := s\<rparr>, Inl e)
       | (s, Inr newRoot) \<Rightarrow> (case prov_commit E newRoot (p\<lparr>pv_store := s\<rparr>) of
           (p1, Inl e) \<Rightarrow> (p1, Inl e)
         | (p1, Inr _) \<Rightarrow> (p1\<lparr>pv_ids := id_remove path (pv_ids p1)\<rparr>, Inr ()))))"

definition prov_Rename :: "('s, 'r) prov_env \<Rightarrow> item_id \<Rightarrow> item_id \<Rightarrow> string \<Rightarrow> ('s, 'r) prov \<Rightarrow> ('s, 'r) prov \<times> item res" where
  "prov_Rename E did newParent newName p = (case pathFor_id (pv_ids p) did of
     None \<Rightarrow> (p, Inl ErrNoItem)
   | Some oldPath \<Rightarrow> if oldPath = [] then (p, Inl ErrInvalid)
       else if newName = [] then (p, Inl ErrInvalid)
       else (case pathFor_id (pv_ids p) newParent of
         None \<Rightarrow> (p, Inl ErrNoItem)
       | Some newParentPath \<Rightarrow> let newPath = join_path newParentPath newName in
           if newPath = oldPath then prov_Stat E did p
           else (case entryOf E (pv_store p) (pv_root p) oldPath of
             Inl e \<Rightarrow> (p, Inl e)
           | Inr e \<Rightarrow> (case Graft (ev_J E) (ev_io E) (ev_cfg E) (pv_root p) newPath (en_Cap e) (en_Stat e) (pv_store p) of
               (s, Inl err) \<Rightarrow> (p\<lparr>pv_store := s\<rparr>, Inl err)
             | (s, Inr grafted) \<Rightarrow> (case GraftRemove (ev_J E) (ev_io E) (ev_cfg E) grafted oldPath s of
                 (s', Inl err) \<Rightarrow> (p\<lparr>pv_store := s'\<rparr>, Inl err)
               | (s', Inr newRoot) \<Rightarrow> (case prov_commit E newRoot (p\<lparr>pv_store := s'\<rparr>) of
                   (p1, Inl err) \<Rightarrow> (p1, Inl err)
                 | (p1, Inr _) \<Rightarrow>
                     let (p2, it) = prov_item E newParentPath \<lparr>en_Name = newName, en_Cap = en_Cap e, en_Stat = en_Stat e\<rparr>
                           (p1\<lparr>pv_ids := id_rename oldPath newPath (pv_ids p1)\<rparr>) in
                     (p2, Inr it)))))))"

section \<open>The interface\<close>

text \<open>
  \<^verbatim>\<open>provider.Provider\<close> as its clients see it (the calls the synchroniser makes, and \<^verbatim>\<open>Rename\<close>), and the manifest
  provider as one.
\<close>

record 'p provider_ops =
  po_Root :: item_id
  po_Stat :: "item_id \<Rightarrow> 'p \<Rightarrow> 'p \<times> item res"
  po_Lookup :: "item_id \<Rightarrow> string \<Rightarrow> 'p \<Rightarrow> 'p \<times> item res"
  po_Enumerate :: "item_id \<Rightarrow> 'p \<Rightarrow> 'p \<times> item list res"
  po_FetchContents :: "item_id \<Rightarrow> 'p \<Rightarrow> bytes \<times> item_version res"
  po_CreateItem :: "item_id \<Rightarrow> create_request \<Rightarrow> 'p \<Rightarrow> 'p \<times> item res"
  po_ModifyItem :: "item_id \<Rightarrow> modify_request \<Rightarrow> 'p \<Rightarrow> 'p \<times> item res"
  po_DeleteItem :: "item_id \<Rightarrow> 'p \<Rightarrow> 'p \<times> unit res"
  po_Rename :: "item_id \<Rightarrow> item_id \<Rightarrow> string \<Rightarrow> 'p \<Rightarrow> 'p \<times> item res"

definition manifest_provider :: "('s, 'r) prov_env \<Rightarrow> ('s, 'r) prov provider_ops" where
  "manifest_provider E = \<lparr>po_Root = RootID, po_Stat = prov_Stat E, po_Lookup = prov_Lookup E, po_Enumerate = prov_Enumerate E,
     po_FetchContents = prov_FetchContents E, po_CreateItem = prov_CreateItem E, po_ModifyItem = prov_ModifyItem E,
     po_DeleteItem = prov_DeleteItem E, po_Rename = prov_Rename E\<rparr>"

datatype prov_call =
    CStat item_id
  | CLookup item_id string
  | CEnumerate item_id
  | CCreate item_id create_request
  | CModify item_id modify_request
  | CDelete item_id
  | CRename item_id item_id string

fun prov_exec :: "('s, 'r) prov_env \<Rightarrow> prov_call \<Rightarrow> ('s, 'r) prov \<Rightarrow> ('s, 'r) prov" where
  "prov_exec E (CStat did) p = fst (prov_Stat E did p)"
| "prov_exec E (CLookup did n) p = fst (prov_Lookup E did n p)"
| "prov_exec E (CEnumerate did) p = fst (prov_Enumerate E did p)"
| "prov_exec E (CCreate did req) p = fst (prov_CreateItem E did req p)"
| "prov_exec E (CModify did req) p = fst (prov_ModifyItem E did req p)"
| "prov_exec E (CDelete did) p = fst (prov_DeleteItem E did p)"
| "prov_exec E (CRename did par n) p = fst (prov_Rename E did par n p)"

text \<open>A run: every call at its own time, and in its own environment of the root store, which decides what of its save fails.\<close>

fun prov_run :: "('e \<Rightarrow> 'r \<Rightarrow> root_pointer \<Rightarrow> 'r \<times> unit res) \<Rightarrow> ('s, 'r) prov_env \<Rightarrow> (64 word \<times> 'e \<times> prov_call) list
    \<Rightarrow> ('s, 'r) prov \<Rightarrow> ('s, 'r) prov" where
  "prov_run save E [] p = p"
| "prov_run save E ((clk, env, c) # cs) p = prov_run save E cs (prov_exec (E\<lparr>ev_clock := clk, ev_save := save env\<rparr>) c p)"

section \<open>Identifiers stay consistent\<close>

definition dec_val :: "string \<Rightarrow> nat" where
  "dec_val s = foldl (\<lambda>a c. a * 10 + (of_char c - 48)) 0 s"

lemma dec_val_FormatUint: "dec_val (FormatUint n) = n"
proof (induction n rule: FormatUint.induct)
  case (1 n)
  have c: "(of_char (char_of (48 + d) :: char) :: nat) - 48 = d" if "d < 10" for d :: nat using that by simp
  show ?case
  proof (cases "n < 10")
    case True
    then show ?thesis using c [of n] by (simp add: FormatUint.simps [of n] dec_val_def)
  next
    case False
    then have "dec_val (FormatUint n) = dec_val (FormatUint (n div 10)) * 10 + n mod 10"
      using c [of "n mod 10"] by (simp add: FormatUint.simps [of n] dec_val_def)
    then show ?thesis using 1 False by simp
  qed
qed

text \<open>Every path with an identifier is the path of that identifier, and identifiers come from the counter.\<close>

definition ids_ok :: "identity \<Rightarrow> bool" where
  "ids_ok i \<longleftrightarrow> distinct (map fst (idn_byPath i)) \<and> map_of (idn_byPath i) [] = Some RootID
     \<and> (\<forall>p did. map_of (idn_byPath i) p = Some did \<longrightarrow> map_of (idn_byID i) did = Some p)
     \<and> (\<forall>did. map_of (idn_byID i) did \<noteq> None \<longrightarrow> did = RootID \<or> (\<exists>n. 1 \<le> n \<and> n \<le> idn_next i \<and> did = CHR ''i'' # FormatUint n))"

lemma ids_ok_new: "ids_ok newIdentity"
  by (simp add: ids_ok_def newIdentity_def)

lemma idFor_spec:
  assumes "ids_ok i" and "idFor path i = (i', did)"
  shows "ids_ok i'" and "map_of (idn_byPath i') path = Some did" and "pathFor_id i' did = Some path"
    and "\<And>q d. map_of (idn_byPath i) q = Some d \<Longrightarrow> map_of (idn_byPath i') q = Some d"
    and "\<And>d q. pathFor_id i d = Some q \<Longrightarrow> pathFor_id i' d = Some q"
proof -
  let ?n = "idn_next i + 1"
  let ?did = "CHR ''i'' # FormatUint ?n"
  have fresh: "map_of (idn_byID i) ?did = None"
  proof (rule ccontr)
    assume "map_of (idn_byID i) ?did \<noteq> None"
    then obtain m where "m \<le> idn_next i" "FormatUint m = FormatUint ?n" using assms(1) by (auto simp: ids_ok_def RootID_def)
    then show False using dec_val_FormatUint [of m] dec_val_FormatUint [of ?n] by simp
  qed
  have "ids_ok i' \<and> map_of (idn_byPath i') path = Some did \<and> pathFor_id i' did = Some path
    \<and> (\<forall>q d. map_of (idn_byPath i) q = Some d \<longrightarrow> map_of (idn_byPath i') q = Some d) \<and> (\<forall>d q. pathFor_id i d = Some q \<longrightarrow> pathFor_id i' d = Some q)"
  proof (cases "map_of (idn_byPath i) path")
    case (Some d)
    then show ?thesis using assms by (auto simp: idFor_def ids_ok_def pathFor_id_def)
  next
    case None
    then have i': "i' = i\<lparr>idn_next := ?n, idn_byPath := AList.update path ?did (idn_byPath i), idn_byID := AList.update ?did path (idn_byID i)\<rparr>" "did = ?did"
      using assms(2) by (auto simp: idFor_def Let_def)
    have p: "map_of (idn_byPath i') = (map_of (idn_byPath i))(path \<mapsto> ?did)" "map_of (idn_byID i') = (map_of (idn_byID i))(?did \<mapsto> path)"
      "idn_next i' = ?n" "distinct (map fst (idn_byPath i'))"
      using assms(1) i' by (simp_all add: update_conv' distinct_update ids_ok_def)
    have "path \<noteq> []" using None assms(1) by (auto simp: ids_ok_def)
    have "ids_ok i'" unfolding ids_ok_def p
    proof (intro conjI allI impI)
      show "distinct (map fst (idn_byPath i'))" by (rule p(4))
      show "((map_of (idn_byPath i))(path \<mapsto> ?did)) [] = Some RootID" using \<open>path \<noteq> []\<close> assms(1) by (simp add: ids_ok_def)
    next
      fix q d assume q: "((map_of (idn_byPath i))(path \<mapsto> ?did)) q = Some d"
      show "((map_of (idn_byID i))(?did \<mapsto> path)) d = Some q"
      proof (cases "q = path")
        case False
        then have "map_of (idn_byID i) d = Some q" using q assms(1) by (simp add: ids_ok_def)
        then show ?thesis using fresh by (cases "d = ?did") simp_all
      qed (use q in simp)
    next
      fix d assume "((map_of (idn_byID i))(?did \<mapsto> path)) d \<noteq> None"
      then show "d = RootID \<or> (\<exists>n. 1 \<le> n \<and> n \<le> ?n \<and> d = CHR ''i'' # FormatUint n)"
      proof (cases "d = ?did")
        case False
        then have "map_of (idn_byID i) d \<noteq> None" using \<open>((map_of (idn_byID i))(?did \<mapsto> path)) d \<noteq> None\<close> by simp
        then show ?thesis using assms(1) unfolding ids_ok_def by (metis le_add1 le_trans)
      qed (blast intro: le_add2)
    qed
    then show ?thesis using p i'(2) None fresh by (auto simp: pathFor_id_def)
  qed
  then show "ids_ok i'" "map_of (idn_byPath i') path = Some did" "pathFor_id i' did = Some path"
    "\<And>q d. map_of (idn_byPath i) q = Some d \<Longrightarrow> map_of (idn_byPath i') q = Some d" "\<And>d q. pathFor_id i d = Some q \<Longrightarrow> pathFor_id i' d = Some q" by blast+
qed

text \<open>The loops over a subtree: each identifier of it is moved, or dropped, once.\<close>

definition sub_ok :: "identity \<Rightarrow> (string \<times> item_id) list \<Rightarrow> bool" where
  "sub_ok i xs \<longleftrightarrow> distinct (map snd xs) \<and> (\<forall>(p, did) \<in> set xs. map_of (idn_byID i) did = Some p \<and> p \<noteq> [])"

lemma collectSubtree_ok:
  assumes "ids_ok i" and "path \<noteq> []"
  shows "sub_ok i (collectSubtree (idn_byPath i) path)"
proof -
  have m: "map_of (idn_byPath i) p = Some did" if "(p, did) \<in> set (idn_byPath i)" for p did
    using that assms(1) by (simp add: ids_ok_def)
  then have D: "map_of (idn_byID i) did = Some p" if "(p, did) \<in> set (idn_byPath i)" for p did
    using that assms(1) by (simp add: ids_ok_def)
  have "distinct (map snd (idn_byPath i))"
  proof -
    have "inj_on snd (set (idn_byPath i))"
    proof (rule inj_onI)
      fix x y assume "x \<in> set (idn_byPath i)" "y \<in> set (idn_byPath i)" "snd x = snd y"
      then show "x = y" using D by (metis option.inject prod.collapse)
    qed
    moreover have "distinct (idn_byPath i)" using assms(1) by (simp add: ids_ok_def distinct_map)
    ultimately show ?thesis by (simp add: distinct_map)
  qed
  then show ?thesis using D assms(2) by (auto simp: sub_ok_def collectSubtree_def distinct_map_filter)
qed

lemma id_move_ok:
  assumes "ids_ok i" and "sub_ok i ((p, did) # xs)" and "newPath \<noteq> []"
  shows "ids_ok (id_move old newPath (p, did) i) \<and> sub_ok (id_move old newPath (p, did) i) xs"
proof -
  let ?np = "newPath @ drop (length old) p"
  have own: "map_of (idn_byID i) did = Some p" "p \<noteq> []" using assms(2) by (auto simp: sub_ok_def)
  have e: "map_of (idn_byPath (id_move old newPath (p, did) i)) = ((map_of (idn_byPath i))(p := None))(?np \<mapsto> did)"
    "map_of (idn_byID (id_move old newPath (p, did) i)) = (map_of (idn_byID i))(did \<mapsto> ?np)" "idn_next (id_move old newPath (p, did) i) = idn_next i"
    "distinct (map fst (idn_byPath (id_move old newPath (p, did) i)))"
    using assms(1) by (simp_all add: id_move_def Let_def update_conv' delete_conv' distinct_update distinct_delete ids_ok_def)
  have rt: "did \<noteq> RootID" using assms(1) own by (auto simp: ids_ok_def)
  have "ids_ok (id_move old newPath (p, did) i)" unfolding ids_ok_def e
  proof (intro conjI allI impI)
    fix q d assume q: "(((map_of (idn_byPath i))(p := None))(?np \<mapsto> did)) q = Some d"
    show "((map_of (idn_byID i))(did \<mapsto> ?np)) d = Some q"
    proof (cases "q = ?np")
      case False
      then have "q \<noteq> p" "map_of (idn_byID i) d = Some q" using q assms(1) by (auto simp: ids_ok_def split: if_splits)
      then show ?thesis using own by auto
    qed (use q in simp)
  next
    fix d assume d: "((map_of (idn_byID i))(did \<mapsto> ?np)) d \<noteq> None"
    then have "map_of (idn_byID i) d \<noteq> None" using own by (cases "d = did") auto
    then show "d = RootID \<or> (\<exists>n. 1 \<le> n \<and> n \<le> idn_next i \<and> d = CHR ''i'' # FormatUint n)" using assms(1) by (simp add: ids_ok_def)
  qed (use e(4) own assms(1,3) in \<open>simp_all add: ids_ok_def\<close>)
  moreover have "sub_ok (id_move old newPath (p, did) i) xs" using assms(2) by (force simp: sub_ok_def e)
  ultimately show ?thesis by blast
qed

lemma id_drop_ok:
  assumes "ids_ok i" and "sub_ok i ((p, did) # xs)"
  shows "ids_ok (id_drop (p, did) i) \<and> sub_ok (id_drop (p, did) i) xs"
proof -
  have own: "map_of (idn_byID i) did = Some p" "p \<noteq> []" using assms(2) by (auto simp: sub_ok_def)
  have e: "map_of (idn_byPath (id_drop (p, did) i)) = (map_of (idn_byPath i))(p := None)"
    "map_of (idn_byID (id_drop (p, did) i)) = (map_of (idn_byID i))(did := None)" "idn_next (id_drop (p, did) i) = idn_next i"
    "distinct (map fst (idn_byPath (id_drop (p, did) i)))"
    using assms(1) by (simp_all add: id_drop_def delete_conv' distinct_delete ids_ok_def)
  have "ids_ok (id_drop (p, did) i)" unfolding ids_ok_def e
  proof (intro conjI allI impI)
    fix q d assume q: "((map_of (idn_byPath i))(p := None)) q = Some d"
    then have "q \<noteq> p" "map_of (idn_byID i) d = Some q" using assms(1) by (auto simp: ids_ok_def split: if_splits)
    then show "((map_of (idn_byID i))(did := None)) d = Some q" using own by auto
  next
    fix d assume "((map_of (idn_byID i))(did := None)) d \<noteq> None"
    then have "map_of (idn_byID i) d \<noteq> None" by (auto split: if_splits)
    then show "d = RootID \<or> (\<exists>n. 1 \<le> n \<and> n \<le> idn_next i \<and> d = CHR ''i'' # FormatUint n)" using assms(1) by (simp add: ids_ok_def)
  qed (use e(4) own assms(1) in \<open>simp_all add: ids_ok_def\<close>)
  moreover have "sub_ok (id_drop (p, did) i) xs" using assms(2) by (force simp: sub_ok_def e)
  ultimately show ?thesis by blast
qed

lemma id_fold_ok:
  assumes "\<And>p did xs i. ids_ok i \<Longrightarrow> sub_ok i ((p, did) # xs) \<Longrightarrow> ids_ok (f (p, did) i) \<and> sub_ok (f (p, did) i) xs"
    and "ids_ok i" and "sub_ok i xs"
  shows "ids_ok (fold f xs i)"
  using assms(2,3)
proof (induction xs arbitrary: i)
  case (Cons x xs)
  then show ?case using assms(1) [of i "fst x" "snd x" xs] by auto
qed simp

lemma ids_ok_rename: "ids_ok i \<Longrightarrow> old \<noteq> [] \<Longrightarrow> newPath \<noteq> [] \<Longrightarrow> ids_ok (id_rename old newPath i)"
  unfolding id_rename_def by (rule id_fold_ok) (blast intro: id_move_ok [THEN conjunct1] id_move_ok [THEN conjunct2] collectSubtree_ok)+

lemma ids_ok_remove: "ids_ok i \<Longrightarrow> path \<noteq> [] \<Longrightarrow> ids_ok (id_remove path i)"
  unfolding id_remove_def by (rule id_fold_ok) (blast intro: id_drop_ok [THEN conjunct1] id_drop_ok [THEN conjunct2] collectSubtree_ok)+

text \<open>Identifiers survive a move: each one below the old path now stands for the moved path, every other one for what it did.\<close>

lemma pathFor_id_move_fold:
  "distinct (map snd xs) \<Longrightarrow> pathFor_id (fold (id_move old newPath) xs i) did =
     (case map_of (map (\<lambda>(p, d). (d, p)) xs) did of Some p \<Rightarrow> Some (newPath @ drop (length old) p) | None \<Rightarrow> pathFor_id i did)"
proof (induction xs arbitrary: i)
  case (Cons x xs)
  obtain p d where x: "x = (p, d)" by fastforce
  have "map_of (map (\<lambda>(p, d). (d, p)) xs) d = None" using Cons.prems x by (force simp: map_of_eq_None_iff)
  then show ?case using Cons x by (auto simp: id_move_def Let_def pathFor_id_def update_conv' split: option.splits)
qed simp

lemma pathFor_id_rename:
  assumes "ids_ok i" and "old \<noteq> []" and "map_of (idn_byPath i) p = Some did"
  shows "pathFor_id (id_rename old newPath i) did =
    (if p = old \<or> prefix (old @ ''/'') p then Some (newPath @ drop (length old) p) else Some p)"
proof -
  let ?xs = "collectSubtree (idn_byPath i) old"
  note S = collectSubtree_ok [OF assms(1,2)]
  have byID: "map_of (idn_byID i) did = Some p" using assms(1,3) by (simp add: ids_ok_def)
  have inj: "map_of (map (\<lambda>(p, d). (d, p)) ?xs) d = Some q \<longleftrightarrow> (q, d) \<in> set ?xs" for d q
  proof -
    have "map fst (map (\<lambda>(p, d). (d, p)) ?xs) = map snd ?xs" by (simp add: case_prod_beta)
    then have "distinct (map fst (map (\<lambda>(p, d). (d, p)) ?xs))" using S by (simp only: sub_ok_def)
    then have "map_of (map (\<lambda>(p, d). (d, p)) ?xs) d = Some q \<longleftrightarrow> (d, q) \<in> (\<lambda>(p, d). (d, p)) ` set ?xs" by (subst map_of_eq_Some_iff) simp_all
    then show ?thesis by force
  qed
  have "(p, did) \<in> set ?xs \<longleftrightarrow> p = old \<or> prefix (old @ ''/'') p"
    using assms(3) by (auto simp: collectSubtree_def dest: map_of_SomeD)
  moreover have "q = p" if "(q, did) \<in> set ?xs" for q using S that byID by (auto simp: sub_ok_def)
  moreover have d: "distinct (map snd ?xs)" using S by (simp add: sub_ok_def)
  ultimately show ?thesis unfolding id_rename_def pathFor_id_move_fold [OF d]
    using inj [of did] byID by (cases "map_of (map (\<lambda>(p, d). (d, p)) ?xs) did") (auto simp: pathFor_id_def)
qed

text \<open>
  A move onto an existing item leaves the replaced item's identifier behind: two identifiers then stand
  for one path, and a call with the old one acts on the item that was moved there.
\<close>

lemma replaced_identifier_survives:
  "let i = id_rename ''a'' ''b'' \<lparr>idn_byID = [(''root'', []), (''i1'', ''a''), (''i2'', ''b'')], idn_byPath = [([], ''root''), (''a'', ''i1''), (''b'', ''i2'')], idn_next = 2\<rparr>
   in pathFor_id i ''i1'' = Some ''b'' \<and> pathFor_id i ''i2'' = Some ''b''"
  by (simp add: id_rename_def collectSubtree_def id_move_def pathFor_id_def Let_def)

section \<open>The provider and its root store\<close>

text \<open>
  What a provider keeps: consistent identifiers, and a root store that holds exactly the current root,
  signed by the owner, with the current sequence number.
\<close>

definition tracked :: "('s, 'r) prov_env \<Rightarrow> ('s, 'r) prov \<Rightarrow> bool" where
  "tracked E p \<longleftrightarrow> ids_ok (pv_ids p) \<and> (\<exists>rp. ev_load E (pv_roots p) = Inr (Some rp) \<and> root_Verify (ev_P E) (ev_J E) rp
     \<and> rp_Owner rp = ed_public (ev_P E) (ev_signer E) \<and> rp_Root rp = pv_root p \<and> rp_Seq rp = pv_seq p)"

lemma itemFromEntry_ids:
  assumes "ids_ok i" and "itemFromEntry P J pp e i = (i', it)"
  shows "ids_ok i'" and "pathFor_id i' (it_ID it) = Some (join_path pp (en_Name e))" and "it_Cap it = en_Cap e" and "it_Name it = en_Name e"
    and "\<And>d q. pathFor_id i d = Some q \<Longrightarrow> pathFor_id i' d = Some q"
proof -
  obtain i1 did where 1: "idFor (join_path pp (en_Name e)) i = (i1, did)" by fastforce
  obtain i2 pid where 2: "idFor pp i1 = (i2, pid)" by fastforce
  have it: "i' = i2" "it_ID it = did" "it_Cap it = en_Cap e" "it_Name it = en_Name e" using assms(2) 1 2 by (auto simp: itemFromEntry_def Let_def)
  note A = idFor_spec [OF assms(1) 1]
  note B = idFor_spec [OF A(1) 2]
  show "ids_ok i'" "pathFor_id i' (it_ID it) = Some (join_path pp (en_Name e))" "it_Cap it = en_Cap e" "it_Name it = en_Name e"
    using it A B by simp_all
  show "\<And>d q. pathFor_id i d = Some q \<Longrightarrow> pathFor_id i' d = Some q" using it A(5) B(5) by blast
qed

lemma itemsFromEntries_ids:
  "ids_ok i \<Longrightarrow> itemsFromEntries P J pp es i = (i', its) \<Longrightarrow> ids_ok i' \<and> map it_Name its = map en_Name es \<and> map it_Cap its = map en_Cap es
     \<and> (\<forall>it \<in> set its. pathFor_id i' (it_ID it) = Some (join_path pp (it_Name it))) \<and> (\<forall>d q. pathFor_id i d = Some q \<longrightarrow> pathFor_id i' d = Some q)"
proof (induction es arbitrary: i i' its)
  case (Cons e es)
  obtain i1 it where 1: "itemFromEntry P J pp e i = (i1, it)" by fastforce
  obtain its1 where 2: "itemsFromEntries P J pp es i1 = (i', its1)" and its: "its = it # its1"
    using Cons.prems(2) 1 by (auto split: prod.splits)
  note A = itemFromEntry_ids [OF Cons.prems(1) 1]
  show ?case using Cons.IH [OF A(1) 2] A its by auto
qed auto

lemma prov_item_frame:
  assumes "prov_item E pp e p = (p', it)"
  shows "p' = p\<lparr>pv_ids := pv_ids p'\<rparr>" and "ids_ok (pv_ids p) \<Longrightarrow> ids_ok (pv_ids p')"
    and "ids_ok (pv_ids p) \<Longrightarrow> pathFor_id (pv_ids p') (it_ID it) = Some (join_path pp (en_Name e))" and "ids_ok (pv_ids p) \<Longrightarrow> it_Cap it = en_Cap e"
proof -
  obtain i where i: "itemFromEntry (ev_P E) (ev_J E) pp e (pv_ids p) = (i, it)" "p' = p\<lparr>pv_ids := i\<rparr>"
    using assms by (auto simp: prov_item_def split: prod.splits)
  then show "p' = p\<lparr>pv_ids := pv_ids p'\<rparr>" by simp
  show "ids_ok (pv_ids p')" "pathFor_id (pv_ids p') (it_ID it) = Some (join_path pp (en_Name e))" "it_Cap it = en_Cap e" if "ids_ok (pv_ids p)"
    using itemFromEntry_ids [OF that i(1)] i(2) by simp_all
qed

lemma tracked_ids: "tracked E p \<Longrightarrow> ids_ok i \<Longrightarrow> tracked E (p\<lparr>pv_ids := i\<rparr>)"
  by (simp add: tracked_def)

lemma tracked_store: "tracked E (p\<lparr>pv_store := s\<rparr>) = tracked E p"
  by (simp add: tracked_def)

lemma tracked_clock: "tracked (E\<lparr>ev_clock := clk, ev_save := sv\<rparr>) p = tracked E p"
  by (simp add: tracked_def)

lemma tracked_item: "tracked E p \<Longrightarrow> prov_item E pp e p = (p', it) \<Longrightarrow> tracked E p'"
  using prov_item_frame(1,2) [of E pp e p p' it] by (metis tracked_def tracked_ids)

text \<open>
  Every root a provider commits is a directory it just stored.
\<close>

definition stored_dir :: "('s, 'r) prov_env \<Rightarrow> read_cap \<Rightarrow> bool" where
  "stored_dir E c \<longleftrightarrow> (\<exists>s s' ref d. io_Store (ev_io E) s (ev_cfg E) d = (s', Inr ref) \<and> c = capFromRef KindDir ref (cfg_Params (ev_cfg E)))"

lemma StoreDir_stored: "StoreDir (ev_J E) (ev_io E) (ev_cfg E) d s = (s', Inr c) \<Longrightarrow> stored_dir E c"
  unfolding stored_dir_def by (auto simp: StoreDir_def putBlob_def split: prod.splits sum.splits)

lemma Graft_stored: "Graft (ev_J E) (ev_io E) (ev_cfg E) root path child st s = (s', Inr c) \<Longrightarrow> stored_dir E c"
proof -
  have "graft (ev_J E) (ev_io E) (ev_cfg E) root parts child st s = (s', Inr c) \<Longrightarrow> stored_dir E c" for parts
    by (cases parts; cases "tl parts") (auto dest: StoreDir_stored split: sum.splits prod.splits)
  then show "Graft (ev_J E) (ev_io E) (ev_cfg E) root path child st s = (s', Inr c) \<Longrightarrow> stored_dir E c"
    by (auto simp: Graft_def split: sum.splits if_splits)
qed

lemma GraftRemove_stored: "GraftRemove (ev_J E) (ev_io E) (ev_cfg E) root path s = (s', Inr c) \<Longrightarrow> stored_dir E c"
proof -
  have "graftRemove (ev_J E) (ev_io E) (ev_cfg E) root parts s = (s', Inr c) \<Longrightarrow> stored_dir E c" for parts
    by (cases parts; cases "tl parts") (auto dest: StoreDir_stored split: sum.splits prod.splits option.splits if_splits)
  then show "GraftRemove (ev_J E) (ev_io E) (ev_cfg E) root path s = (s', Inr c) \<Longrightarrow> stored_dir E c"
    by (auto simp: GraftRemove_def split: sum.splits if_splits)
qed

lemma stored_dir_env [simp]: "stored_dir (E\<lparr>ev_clock := clk, ev_save := sv\<rparr>) = stored_dir E"
  by (simp add: stored_dir_def fun_eq_iff)

text \<open>
  A root store in the sense of \<open>root_store\<close> whose format can hold the roots the provider makes keeps a
  provider tracked, whatever is called and whatever save fails.
\<close>

locale provider_roots = root_store load save wf
  for load :: "'r \<Rightarrow> root_pointer option res" and save :: "'e \<Rightarrow> 'r \<Rightarrow> root_pointer \<Rightarrow> 'r \<times> unit res" and wf :: "root_pointer \<Rightarrow> bool" +
  fixes E :: "('s, 'r) prov_env"
  assumes wired: "ev_load E = load" and signs: "sign_law (ev_P E)"
    and makes: "stored_dir E c \<Longrightarrow> wf (SignRoot (ev_P E) (ev_J E) (ev_signer E) c sq clk)"
begin

lemma commit_tracked:
  assumes "tracked E p" and "prov_commit (E\<lparr>ev_clock := clk, ev_save := save env\<rparr>) c p = (p', r)" and "stored_dir E c"
  shows "tracked E p' \<and> pv_store p' = pv_store p \<and> pv_ids p' = pv_ids p
    \<and> (case r of Inl _ \<Rightarrow> pv_root p' = pv_root p \<and> pv_seq p' = pv_seq p | Inr _ \<Rightarrow> pv_root p' = c \<and> pv_seq p' = pv_seq p + 1 \<and> pv_seq p < pv_seq p')"
proof -
  let ?rp = "SignRoot (ev_P E) (ev_J E) (ev_signer E) c (pv_seq p + 1) clk"
  obtain s1 x where sv: "save env (pv_roots p) ?rp = (s1, x)" by fastforce
  have rp: "root_Verify (ev_P E) (ev_J E) ?rp" "rp_Owner ?rp = ed_public (ev_P E) (ev_signer E)" "rp_Root ?rp = c" "rp_Seq ?rp = pv_seq p + 1"
    by (rule root_Verify_SignRoot [OF signs]) (simp_all add: SignRoot_def Let_def)
  show ?thesis
  proof (cases x)
    case (Inl e)
    then have "load s1 = load (pv_roots p)" using refused sv by blast
    then show ?thesis using assms sv Inl wired by (auto simp: prov_commit_def Let_def tracked_def)
  next
    case (Inr u)
    have l: "load s1 = Inr (Some ?rp)" using saved [OF _ makes [OF assms(3)]] sv Inr by simp
    obtain cur where "load (pv_roots p) = Inr (Some cur)" "rp_Seq cur = pv_seq p" using assms(1) wired by (auto simp: tracked_def)
    then have "pv_seq p < pv_seq p + 1" using advances [of env "pv_roots p" ?rp s1 cur] sv Inr rp(4) by simp
    then show ?thesis using assms sv Inr wired l rp by (auto simp: prov_commit_def Let_def tracked_def)
  qed
qed

text \<open>The part of it the calls below need, also through a store that has moved on.\<close>

definition keeps :: "('s, 'r) prov \<Rightarrow> ('s, 'r) prov \<Rightarrow> bool" where
  "keeps p p' \<longleftrightarrow> tracked E p' \<and> pv_seq p \<le> pv_seq p'"

lemma keeps_refl: "tracked E p \<Longrightarrow> keeps p p"
  by (simp add: keeps_def)

lemma keeps_store: "tracked E p \<Longrightarrow> keeps p (p\<lparr>pv_store := s\<rparr>)"
  by (simp add: keeps_def tracked_store)

lemma keeps_commit:
  assumes "tracked E p" and "prov_commit (E\<lparr>ev_clock := clk, ev_save := save env\<rparr>) c (p\<lparr>pv_store := s\<rparr>) = (p', r)" and "stored_dir E c"
  shows "keeps p p'"
  using commit_tracked [OF _ assms(2,3)] assms(1) by (auto simp: keeps_def tracked_store split: sum.splits)

lemma keeps_graft_commit:
  assumes "tracked E p" and "graft_commit (E\<lparr>ev_clock := clk, ev_save := save env\<rparr>) path c st (p\<lparr>pv_store := s\<rparr>) = (p', r)"
  shows "keeps p p'"
  using assms keeps_commit [OF assms(1)] keeps_store [OF assms(1)]
  by (auto simp: graft_commit_def dest!: Graft_stored [of "E\<lparr>ev_clock := clk, ev_save := save env\<rparr>", simplified] split: prod.splits sum.splits)

lemma keeps_item: "keeps p p1 \<Longrightarrow> prov_item (E\<lparr>ev_clock := clk, ev_save := save env\<rparr>) pp e p1 = (p2, it) \<Longrightarrow> keeps p p2"
  using prov_item_frame(1) [of "E\<lparr>ev_clock := clk, ev_save := save env\<rparr>" pp e p1 p2 it] tracked_item [of "E\<lparr>ev_clock := clk, ev_save := save env\<rparr>" p1 pp e p2 it]
  unfolding keeps_def tracked_clock by (metis prov.select_convs(5) prov.surjective prov.update_convs(3))

lemma keeps_ids: "keeps p p1 \<Longrightarrow> ids_ok i \<Longrightarrow> keeps p (p1\<lparr>pv_ids := i\<rparr>)"
  by (simp add: keeps_def tracked_ids)

lemma tracked_ids_ok: "tracked E p \<Longrightarrow> ids_ok (pv_ids p)"
  by (simp add: tracked_def)

lemma keeps_ids_ok: "keeps p p1 \<Longrightarrow> ids_ok (pv_ids p1)"
  by (simp add: keeps_def tracked_def)

lemma keeps_item0: "tracked E p \<Longrightarrow> prov_item (E\<lparr>ev_clock := clk, ev_save := save env\<rparr>) pp e p = (p', it) \<Longrightarrow> keeps p p'"
  using keeps_item [OF keeps_refl] by blast

lemma keeps_commit_remove:
  "tracked E p \<Longrightarrow> path \<noteq> [] \<Longrightarrow> prov_commit (E\<lparr>ev_clock := clk, ev_save := save env\<rparr>) c (p\<lparr>pv_store := s\<rparr>) = (p1, r) \<Longrightarrow> stored_dir E c
     \<Longrightarrow> keeps p (p1\<lparr>pv_ids := id_remove path (pv_ids p1)\<rparr>)"
  using keeps_commit keeps_ids ids_ok_remove keeps_ids_ok by blast

lemma keeps_commit_rename:
  assumes "tracked E p" and "path \<noteq> []" and "newName \<noteq> []" and "prov_commit (E\<lparr>ev_clock := clk, ev_save := save env\<rparr>) c (p\<lparr>pv_store := s\<rparr>) = (p1, r)" and "stored_dir E c"
    and "prov_item (E\<lparr>ev_clock := clk, ev_save := save env\<rparr>) pp e (p1\<lparr>pv_ids := id_rename path (join_path par newName) (pv_ids p1)\<rparr>) = (p2, it)"
  shows "keeps p p2"
proof -
  have "join_path par newName \<noteq> []" using assms(3) by (simp add: join_path_def)
  then show ?thesis using keeps_item [OF keeps_ids [OF keeps_commit [OF assms(1,4,5)] ids_ok_rename [OF keeps_ids_ok [OF keeps_commit [OF assms(1,4,5)]] assms(2)]] assms(6)] by blast
qed

lemma keeps_Stat: "tracked E p \<Longrightarrow> prov_Stat (E\<lparr>ev_clock := clk, ev_save := save env\<rparr>) did p = (p', r) \<Longrightarrow> keeps p p'"
  by (auto simp: prov_Stat_def keeps_refl intro: keeps_item0 split: option.splits if_splits sum.splits prod.splits)

lemma keeps_Lookup: "tracked E p \<Longrightarrow> prov_Lookup (E\<lparr>ev_clock := clk, ev_save := save env\<rparr>) did n p = (p', r) \<Longrightarrow> keeps p p'"
  by (auto simp: prov_Lookup_def keeps_refl intro: keeps_item0 split: option.splits if_splits sum.splits prod.splits)

lemma keeps_Enumerate: "tracked E p \<Longrightarrow> prov_Enumerate (E\<lparr>ev_clock := clk, ev_save := save env\<rparr>) did p = (p', r) \<Longrightarrow> keeps p p'"
  using itemsFromEntries_ids
  by (fastforce simp: prov_Enumerate_def keeps_refl tracked_ids_ok intro!: keeps_ids split: option.splits sum.splits prod.splits)

lemma keeps_Create: "tracked E p \<Longrightarrow> prov_CreateItem (E\<lparr>ev_clock := clk, ev_save := save env\<rparr>) did req p = (p', r) \<Longrightarrow> keeps p p'"
  unfolding prov_CreateItem_def Let_def
  by (simp split: option.splits if_splits sum.splits prod.splits; blast intro: keeps_refl keeps_store keeps_item keeps_graft_commit)

lemma keeps_Modify: "tracked E p \<Longrightarrow> prov_ModifyItem (E\<lparr>ev_clock := clk, ev_save := save env\<rparr>) did req p = (p', r) \<Longrightarrow> keeps p p'"
  unfolding prov_ModifyItem_def Let_def
  by (simp split: option.splits if_splits sum.splits prod.splits; blast intro: keeps_refl keeps_store keeps_item keeps_graft_commit keeps_Stat)

lemma keeps_Delete: "tracked E p \<Longrightarrow> prov_DeleteItem (E\<lparr>ev_clock := clk, ev_save := save env\<rparr>) did p = (p', r) \<Longrightarrow> keeps p p'"
  unfolding prov_DeleteItem_def
  by (simp split: option.splits if_splits sum.splits prod.splits; blast intro: keeps_refl keeps_store keeps_commit keeps_commit_remove GraftRemove_stored)

lemma keeps_Rename: "tracked E p \<Longrightarrow> prov_Rename (E\<lparr>ev_clock := clk, ev_save := save env\<rparr>) did par n p = (p', r) \<Longrightarrow> keeps p p'"
  unfolding prov_Rename_def Let_def
  by (simp split: option.splits if_splits sum.splits prod.splits; blast intro: keeps_Stat keeps_refl keeps_store keeps_commit keeps_commit_rename GraftRemove_stored)

lemma keeps_exec: "tracked E p \<Longrightarrow> keeps p (prov_exec (E\<lparr>ev_clock := clk, ev_save := save env\<rparr>) c p)"
  by (cases c) (simp_all add: keeps_Stat [OF _ surjective_pairing] keeps_Lookup [OF _ surjective_pairing] keeps_Enumerate [OF _ surjective_pairing]
      keeps_Create [OF _ surjective_pairing] keeps_Modify [OF _ surjective_pairing] keeps_Delete [OF _ surjective_pairing] keeps_Rename [OF _ surjective_pairing])

lemma keeps_run: "tracked E p \<Longrightarrow> keeps p (prov_run save E cs p)"
proof (induction cs arbitrary: p)
  case (Cons x cs)
  obtain clk env c where x: "x = (clk, env, c)" by (cases x)
  show ?case using keeps_exec [OF Cons.prems, of env clk c] Cons.IH [of "prov_exec (E\<lparr>ev_clock := clk, ev_save := save env\<rparr>) c p"] x by (auto simp: keeps_def)
qed (simp add: keeps_refl)

lemma New_tracked:
  assumes "prov_New (E\<lparr>ev_save := save env\<rparr>) s r = (p, Inr ())"
  shows "tracked E p"
proof (cases "load r")
  case (Inl e)
  then show ?thesis using assms wired by (simp add: prov_New_def Let_def)
next
  case (Inr x)
  show ?thesis
  proof (cases x)
    case (Some rp)
    then show ?thesis using assms wired Inr ids_ok_new by (auto simp: prov_New_def tracked_def Let_def split: if_splits)
  next
    case None
    let ?p0 = "\<lambda>s. \<lparr>pv_store = s, pv_roots = r, pv_ids = newIdentity, pv_root = zero_cap, pv_seq = 0\<rparr>"
    obtain s' c where c: "prov_commit (E\<lparr>ev_save := save env\<rparr>) c (?p0 s') = (p, Inr ())" and sd: "stored_dir E c"
      using assms wired Inr None by (auto simp: prov_New_def Let_def dest: StoreDir_stored split: prod.splits sum.splits)
    let ?rp = "SignRoot (ev_P E) (ev_J E) (ev_signer E) c 1 (ev_clock E)"
    obtain r' where sv: "save env r ?rp = (r', Inr ())" and p: "p = (?p0 s')\<lparr>pv_roots := r', pv_seq := 1, pv_root := c\<rparr>"
      using c wired by (auto simp: prov_commit_def Let_def split: prod.splits sum.splits)
    have "root_Verify (ev_P E) (ev_J E) ?rp" "rp_Owner ?rp = ed_public (ev_P E) (ev_signer E)" "rp_Root ?rp = c" "rp_Seq ?rp = 1"
      by (rule root_Verify_SignRoot [OF signs]) (simp_all add: SignRoot_def Let_def)
    then show ?thesis using saved [OF sv makes [OF sd]] wired p ids_ok_new by (simp add: tracked_def)
  qed
qed

lemma run_tracked: "prov_New (E\<lparr>ev_save := save env\<rparr>) s r = (p, Inr ()) \<Longrightarrow> tracked E (prov_run save E cs p) \<and> pv_seq p \<le> pv_seq (prov_run save E cs p)"
  using keeps_run [OF New_tracked] by (simp add: keeps_def)

end

text \<open>
  The file root store behind any mirrors is such a root store, for a provider over the pipeline: the
  capabilities the pipeline makes have a key of the right size and between one and 256 addresses of the right size, whatever
  the shard store does.
\<close>

lemma pipeline_stored_dir:
  assumes "ev_io E = pipeline_io P new ops sp" and "codec_ok new (cfg_Params (ev_cfg E))" and "\<forall>d. length (HashOf P d) = idSize" and "stored_dir E c"
  shows "cap_ok c"
proof -
  obtain s rnd s' ref d where st: "storeChunk P new ops sp (ev_cfg E) d s rnd = (s', Inr ref)" and c: "c = capFromRef KindDir ref (cfg_Params (ev_cfg E))"
    using assms(1,4) by (auto simp: stored_dir_def pipeline_io_def StoreBlob_def)
  obtain shards rnd' where e: "encodeChunk P new (ev_cfg E) d rnd = Inr (ref, shards, rnd')"
    using st by (auto simp: storeChunk_def Let_def split: sum.splits prod.splits)
  obtain sealed where sealed: "Encode new (cfg_Params (ev_cfg E)) sealed = Inr shards"
    and ref: "length (ref_Key ref) = KeySize" "ref_Shards ref = map (HashOf P) shards"
    using e by (auto simp: encodeChunk_def NewKey_def read_full_def split: if_splits)
  have "length shards = nat (params_N (cfg_Params (ev_cfg E)))" using Encode_shape [OF assms(2), of sealed] sealed by auto
  moreover have "0 < params_N (cfg_Params (ev_cfg E))" "params_N (cfg_Params (ev_cfg E)) \<le> 256"
    using assms(2) by (auto simp: codec_ok_def params_ok_def params_N_def)
  ultimately have "shards \<noteq> []" "length shards \<le> 256" by auto
  then show ?thesis using c ref assms(3) by (simp add: cap_ok_def capFromRef_def maxManifestShardsPerChunk_def list_all_iff)
qed

lemma file_provider_roots:
  assumes "root_codec_law C" and "at_law A" and "sign_law P" and "codec_ok new (cfg_Params (ev_cfg E))" and "\<forall>d. length (HashOf P d) = idSize"
    and "ev_P E = P" and "ev_io E = pipeline_io P new ops sp" and "ev_load E = multi_Load (file_Load P (ev_J E) C A pass False)"
  shows "provider_roots (multi_Load (file_Load P (ev_J E) C A pass False)) (multi_Save (file_Save P (ev_J E) C A pass) mirrors) rp_wf E"
proof -
  have "root_store (multi_Load (file_Load P (ev_J E) C A pass False)) (multi_Save (file_Save P (ev_J E) C A pass) mirrors) rp_wf"
    by (rule file_root.multi_root_store) (simp add: file_root_def assms(1,2))
  moreover have "rp_wf (SignRoot P (ev_J E) (ev_signer E) c sq clk)" if "stored_dir E c" for c sq clk
    using pipeline_stored_dir [OF assms(7,4,5) that] assms(3) by (simp add: rp_wf_def SignRoot_def Let_def sign_law_def SignPubKeySize_def)
  ultimately show ?thesis using assms(3,6,8) by (simp add: provider_roots_def provider_roots_axioms_def)
qed

interpretation file_provider: provider_roots "multi_Load (file_Load demo_prims demo_json demo_rc demo_at None False)"
    "multi_Save (file_Save demo_prims demo_json demo_rc demo_at None) mirrors" rp_wf
    "\<lparr>ev_P = demo_prims, ev_J = demo_json, ev_io = pipeline_io demo_prims xor_new ops sp, ev_cfg = demo_config, ev_signer = k,
      ev_load = multi_Load (file_Load demo_prims demo_json demo_rc demo_at None False), ev_save = sv, ev_clock = clk\<rparr>"
  for mirrors :: "('m \<Rightarrow> root_pointer \<Rightarrow> 'm \<times> unit res) list" and ops sp k sv clk
  using file_provider_roots [OF demo_rc_law demo_at_law demo_sign_law _ demo_hash32,
      of xor_new "\<lparr>ev_P = demo_prims, ev_J = demo_json, ev_io = pipeline_io demo_prims xor_new ops sp, ev_cfg = demo_config, ev_signer = k,
        ev_load = multi_Load (file_Load demo_prims demo_json demo_rc demo_at None False), ev_save = sv, ev_clock = clk\<rparr>" ops sp None mirrors]
    demo_laws by (simp add: pipeline_laws_def)

section \<open>Properties\<close>

text \<open>
  C10: a provider and its root file never drift apart. Take a provider over the pipeline, on any shard store, with the
  file root store, encrypted or not, behind any mirrors. From the moment it started, whatever calls follow at whatever
  times, each as one step, whether they succeed or fail at any point, whatever of reading, creating, writing or
  renaming the root file fails and whatever the mirrors do: the file, when it can be read, holds exactly the root the
  provider serves, with its sequence number and the owner's valid signature; the sequence number never decreases; and the
  identifier recorded for a path is an identifier that stands for that path.
\<close>

theorem provider_root_persisted:
  fixes mirrors :: "('m \<Rightarrow> root_pointer \<Rightarrow> 'm \<times> unit res) list" and cs :: "(64 word \<times> save_env \<times> prov_call) list"
  assumes "root_codec_law C" and "at_law A" and "sign_law P" and "codec_ok new (cfg_Params (ev_cfg E))" and "\<forall>d. length (HashOf P d) = idSize"
    and "ev_P E = P" and "ev_io E = pipeline_io P new ops sp" and "ev_load E = multi_Load (file_Load P (ev_J E) C A pass False)"
  defines "save \<equiv> multi_Save (file_Save P (ev_J E) C A pass) mirrors"
  assumes "prov_New (E\<lparr>ev_save := save env\<rparr>) s r = (p, Inr ())"
  defines "q \<equiv> prov_run save E cs p"
  shows "\<exists>rp. file_Load P (ev_J E) C A pass False (fst (pv_roots q)) = Inr (Some rp) \<and> root_Verify P (ev_J E) rp
      \<and> rp_Owner rp = ed_public P (ev_signer E) \<and> rp_Root rp = pv_root q \<and> rp_Seq rp = pv_seq q \<and> pv_seq p \<le> pv_seq q
      \<and> (\<forall>path did. map_of (idn_byPath (pv_ids q)) path = Some did \<longrightarrow> pathFor_id (pv_ids q) did = Some path)"
  using provider_roots.run_tracked [OF file_provider_roots [OF assms(1-8)] assms(10) [unfolded save_def], of cs] assms(6,8)
  unfolding q_def save_def by (auto simp: tracked_def ids_ok_def pathFor_id_def multi_Load_def)

text \<open>Three calls on a provider whose root file exists, the second of which fails to rename the new file.\<close>

theorem provider_root_persisted_witness:
  "\<exists>rp. file_Load demo_prims demo_json demo_rc demo_at None False (fst (pv_roots (prov_run (multi_Save (file_Save demo_prims demo_json demo_rc demo_at None) [mem_root_Save])
      \<lparr>ev_P = demo_prims, ev_J = demo_json, ev_io = pipeline_io demo_prims xor_new (disk_ops demo_prims) None, ev_cfg = demo_config, ev_signer = [7],
        ev_load = multi_Load (file_Load demo_prims demo_json demo_rc demo_at None False), ev_save = (\<lambda>r _. (r, Inl ErrIO)), ev_clock = 1\<rparr>
      [(5, \<lparr>env_rnd = [], env_read = False, env_mkdir = False, env_write = False, env_rename = False\<rparr>, CStat ''root''),
       (6, \<lparr>env_rnd = [], env_read = False, env_mkdir = False, env_write = False, env_rename = True\<rparr>,
          CCreate ''root'' \<lparr>cr_Name = ''x'', cr_IsDir = True, cr_Meta = zero_metadata, cr_Contents = None\<rparr>),
       (7, \<lparr>env_rnd = [], env_read = False, env_mkdir = False, env_write = False, env_rename = False\<rparr>, CDelete ''i1'')]
      \<lparr>pv_store = (demo_disk, replicate 1000 1), pv_roots = (Some (EncodeRootPointer demo_rc (demo_root 1) @ [10]), None), pv_ids = newIdentity,
        pv_root = demo_child, pv_seq = 1\<rparr>))) = Inr (Some rp) \<and> root_Verify demo_prims demo_json rp"
proof -
  let ?load = "multi_Load (file_Load demo_prims demo_json demo_rc demo_at None False)"
  let ?E = "\<lparr>ev_P = demo_prims, ev_J = demo_json, ev_io = pipeline_io demo_prims xor_new (disk_ops demo_prims) None, ev_cfg = demo_config, ev_signer = [7],
        ev_load = ?load, ev_save = (\<lambda>r _. (r, Inl ErrIO)), ev_clock = 1\<rparr> :: (disk_store \<times> bytes, bytes option \<times> root_pointer option) prov_env"
  let ?r = "(Some (EncodeRootPointer demo_rc (demo_root 1) @ [10]), None) :: bytes option \<times> root_pointer option"
  let ?p = "\<lparr>pv_store = (demo_disk, replicate 1000 1), pv_roots = ?r, pv_ids = newIdentity, pv_root = demo_child, pv_seq = 1\<rparr>"
  have "prov_New (?E\<lparr>ev_save := multi_Save (file_Save demo_prims demo_json demo_rc demo_at None) [mem_root_Save] env\<rparr>)
      (demo_disk, replicate 1000 1) ?r = (?p, Inr ())" for env
    using demo_root_ok(2) [of 1] demo_root_file [of 1] by (simp add: prov_New_def Let_def multi_Load_def demo_root_def SignRoot_def)
  then have "\<exists>rp. file_Load demo_prims demo_json demo_rc demo_at None False (fst (pv_roots (prov_run
      (multi_Save (file_Save demo_prims demo_json demo_rc demo_at None) [mem_root_Save]) ?E cs ?p))) = Inr (Some rp) \<and> root_Verify demo_prims demo_json rp" for cs
    using provider_root_persisted [OF demo_rc_law demo_at_law demo_sign_law _ demo_hash32, of xor_new ?E "disk_ops demo_prims" None None "[mem_root_Save]"]
      demo_laws by (fastforce simp: pipeline_laws_def)
  then show ?thesis by (simp del: prov_run.simps)
qed

end
