(* ===== verification/Changes.thy ===== *)
theory Changes
  imports Provider
begin

text \<open>
  \<^verbatim>\<open>src/internal/provider/diff.go\<close>: the changes between two roots of a namespace. The recursion descends
  the directories that differ; its depth is bounded by fuel (\<open>None\<close> is running out), and enough fuel
  exists for intact namespaces. Go iterates the maps of entries in an arbitrary order, the model in
  the order of the directory.
\<close>

section \<open>Model\<close>

datatype change_type = ChangeAdded | ChangeModified | ChangeDeleted

record change =
  ch_Type :: change_type
  ch_ID :: item_id
  ch_Path :: string
  ch_Item :: "item option"

definition dirEntries :: "('s, 'r) prov_env \<Rightarrow> 's \<Rightarrow> read_cap \<Rightarrow> (string \<times> entry) list res" where
  "dirEntries E s c = (if rc_Kind c \<noteq> KindDir then Inr [] else bindR (LoadDir (ev_J E) (ev_io E) c s) (\<lambda>d. Inr (entryMap d)))"

text \<open>A loop whose body appends changes and may fail or run out of fuel.\<close>

fun each_entry :: "('a \<Rightarrow> identity \<Rightarrow> (identity \<times> change list res) option) \<Rightarrow> 'a list \<Rightarrow> identity \<Rightarrow> (identity \<times> change list res) option" where
  "each_entry f [] i = Some (i, Inr [])"
| "each_entry f (x # xs) i = (case f x i of
     None \<Rightarrow> None
   | Some (i1, Inl e) \<Rightarrow> Some (i1, Inl e)
   | Some (i1, Inr cs) \<Rightarrow> (case each_entry f xs i1 of
       None \<Rightarrow> None
     | Some (i2, Inl e) \<Rightarrow> Some (i2, Inl e)
     | Some (i2, Inr ds) \<Rightarrow> Some (i2, Inr (cs @ ds))))"

definition emit_change :: "('s, 'r) prov_env \<Rightarrow> change_type \<Rightarrow> string \<Rightarrow> string \<times> entry \<Rightarrow> identity \<Rightarrow> identity \<times> change" where
  "emit_change E t parentPath x i = (let (name, e) = x; childPath = join_path parentPath name in
     if t = ChangeDeleted
     then let (i1, did) = idFor childPath i in (i1, \<lparr>ch_Type = t, ch_ID = did, ch_Path = childPath, ch_Item = None\<rparr>)
     else let (i1, it) = itemFromEntry (ev_P E) (ev_J E) parentPath e i in (i1, \<lparr>ch_Type = t, ch_ID = it_ID it, ch_Path = childPath, ch_Item = Some it\<rparr>))"

fun emitSubtree :: "nat \<Rightarrow> ('s, 'r) prov_env \<Rightarrow> 's \<Rightarrow> change_type \<Rightarrow> string \<Rightarrow> string \<times> entry \<Rightarrow> identity \<Rightarrow> (identity \<times> change list res) option" where
  "emitSubtree 0 E s t parentPath x i = None"
| "emitSubtree (Suc n) E s t parentPath x i = (case emit_change E t parentPath x i of (i1, ch) \<Rightarrow>
      if rc_Kind (en_Cap (snd x)) \<noteq> KindDir then Some (i1, Inr [ch])
      else (case dirEntries E s (en_Cap (snd x)) of
        Inl err \<Rightarrow> Some (i1, Inl err)
      | Inr es \<Rightarrow> (case each_entry (emitSubtree n E s t (join_path parentPath (fst x))) es i1 of
          None \<Rightarrow> None
        | Some (i2, Inl err) \<Rightarrow> Some (i2, Inl err)
        | Some (i2, Inr cs) \<Rightarrow> Some (i2, Inr (ch # cs)))))"

text \<open>One name of the new directory, given the recursive call on a subdirectory.\<close>

definition diff_entry :: "nat \<Rightarrow> ('s, 'r) prov_env \<Rightarrow> 's \<Rightarrow> (string \<Rightarrow> read_cap \<Rightarrow> read_cap \<Rightarrow> identity \<Rightarrow> (identity \<times> change list res) option)
    \<Rightarrow> string \<Rightarrow> (string \<rightharpoonup> entry) \<Rightarrow> string \<times> entry \<Rightarrow> identity \<Rightarrow> (identity \<times> change list res) option" where
  "diff_entry n E s rec path oldEntries x i = (let (name, ne) = x; childPath = join_path path name in
     (case oldEntries name of
       None \<Rightarrow> emitSubtree n E s ChangeAdded path x i
     | Some oe \<Rightarrow>
         if prov_capEqual (ev_J E) (en_Cap oe) (en_Cap ne) then Some (i, Inr [])
         else if rc_Kind (en_Cap oe) = KindDir \<and> rc_Kind (en_Cap ne) = KindDir then rec childPath (en_Cap oe) (en_Cap ne) i
         else let (i1, it) = itemFromEntry (ev_P E) (ev_J E) path ne i in
           Some (i1, Inr [\<lparr>ch_Type = ChangeModified, ch_ID = it_ID it, ch_Path = childPath, ch_Item = Some it\<rparr>])))"

fun diffDir :: "nat \<Rightarrow> ('s, 'r) prov_env \<Rightarrow> 's \<Rightarrow> string \<Rightarrow> read_cap \<Rightarrow> read_cap \<Rightarrow> identity \<Rightarrow> (identity \<times> change list res) option" where
  "diffDir 0 E s path oldCap newCap i = None"
| "diffDir (Suc n) E s path oldCap newCap i =
     (if prov_capEqual (ev_J E) oldCap newCap then Some (i, Inr [])
      else (case dirEntries E s oldCap of Inl e \<Rightarrow> Some (i, Inl e) | Inr oldE \<Rightarrow>
        (case dirEntries E s newCap of Inl e \<Rightarrow> Some (i, Inl e) | Inr newE \<Rightarrow>
          (case each_entry (diff_entry n E s (diffDir n E s) path (map_of oldE)) newE i of
            None \<Rightarrow> None
          | Some (i1, Inl e) \<Rightarrow> Some (i1, Inl e)
          | Some (i1, Inr cs) \<Rightarrow>
              (case each_entry (emitSubtree n E s ChangeDeleted path) (filter (\<lambda>(name, _). map_of newE name = None) oldE) i1 of
                None \<Rightarrow> None
              | Some (i2, Inl e) \<Rightarrow> Some (i2, Inl e)
              | Some (i2, Inr ds) \<Rightarrow> Some (i2, Inr (cs @ ds)))))))"

record sync_anchor =
  an_Seq :: "64 word"
  an_Root :: read_cap

definition CurrentAnchor :: "('s, 'r) prov \<Rightarrow> sync_anchor" where
  "CurrentAnchor p = \<lparr>an_Seq = pv_seq p, an_Root = pv_root p\<rparr>"

definition EnumerateChanges :: "nat \<Rightarrow> ('s, 'r) prov_env \<Rightarrow> sync_anchor \<Rightarrow> ('s, 'r) prov \<Rightarrow> (('s, 'r) prov \<times> (change list \<times> sync_anchor) res) option" where
  "EnumerateChanges n E since p = (case diffDir n E (pv_store p) [] (an_Root since) (pv_root p) (pv_ids p) of
     None \<Rightarrow> None
   | Some (i, Inl e) \<Rightarrow> Some (p\<lparr>pv_ids := i\<rparr>, Inl e)
   | Some (i, Inr cs) \<Rightarrow> Some (p\<lparr>pv_ids := i\<rparr>, Inr (cs, CurrentAnchor p)))"

section \<open>Every changed file is reported\<close>

lemma each_entry_mem:
  assumes "each_entry f xs i = Some (i', Inr cs)" and "x \<in> set xs"
  shows "\<exists>i1 i2 ds. f x i1 = Some (i2, Inr ds) \<and> set ds \<subseteq> set cs"
  using assms
proof (induction xs arbitrary: i cs)
  case (Cons y ys)
  obtain i1 cs1 i2 cs2 where 1: "f y i = Some (i1, Inr cs1)" "each_entry f ys i1 = Some (i2, Inr cs2)" "i' = i2" "cs = cs1 @ cs2"
    using Cons.prems(1) by (auto split: option.splits prod.splits sum.splits)
  show ?case
  proof (cases "x = y")
    case True
    then show ?thesis using 1(1,4) by fastforce
  next
    case False
    then show ?thesis using Cons.IH [of i1 cs2] 1 Cons.prems(2) by fastforce
  qed
qed simp

lemma emitSubtree_head:
  assumes "emitSubtree n E s t pp (name, e) i = Some (i', Inr cs)"
  shows "\<exists>ch \<in> set cs. ch_Type ch = t \<and> ch_Path ch = join_path pp name"
  using assms by (cases n) (auto simp: emit_change_def Let_def split: if_splits prod.splits sum.splits option.splits)

lemma entryMap_entries:
  assumes "dir_ok J d"
  shows "distinct (map fst (entryMap d)) \<and> (\<forall>(n, e) \<in> set (entryMap d). e \<in> set (dm_Entries d))"
proof -
  have "distinct (map fst m) \<Longrightarrow> distinct (map fst (fold (\<lambda>e. AList.update (en_Name e) e) es m))" for es m
    by (induction es arbitrary: m) (auto intro: distinct_update)
  from this [of "[]"] have dist: "distinct (map fst (entryMap d))" by (simp add: entryMap_def)
  have "e \<in> set (dm_Entries d)" if "(n, e) \<in> set (entryMap d)" for n e
  proof -
    have "dir_map d n = Some e" using that dist entryMap_dir_map [of d] assms by (metis dir_ok_def map_of_eq_Some_iff)
    then show ?thesis by (auto simp: dir_map_def dest!: map_of_SomeD)
  qed
  then show ?thesis using dist by auto
qed

context blob_store
begin

lemma dirEntries_intact:
  assumes "inv s" and "intact J (stored s) c" and "ev_J E = J" and "ev_io E = io"
  shows "\<exists>es. dirEntries E s c = Inr es \<and> distinct (map fst es) \<and> (\<forall>(n, e) \<in> set es. intact J (stored s) (en_Cap e))
    \<and> (\<forall>n ns. resolve_parts J io s c (n # ns) = (case map_of es n of None \<Rightarrow> Inl ErrPath | Some e \<Rightarrow> resolve_parts J io s (en_Cap e) ns))"
proof (cases "rc_Kind c = KindDir")
  case False
  then show ?thesis by (simp add: dirEntries_def)
next
  case True
  obtain d where d: "LoadDir J io c s = Inr d" "dir_ok J d" "\<forall>e \<in> set (dm_Entries d). intact J (stored s) (en_Cap e)"
    using intact_LoadDir [OF assms(1,2) True] by blast
  have m: "map_of (entryMap d) = dir_map d" using entryMap_dir_map d(2) by (simp add: dir_ok_def)
  have dist: "distinct (map fst (entryMap d))" and "\<forall>(n, e) \<in> set (entryMap d). intact J (stored s) (en_Cap e)"
    using entryMap_entries [OF d(2)] d(3) by auto
  then show ?thesis using d(1) True assms(3,4) dist m resolve_dir [OF d(1,2) True] by (auto simp: dirEntries_def)
qed

text \<open>A file of the new tree that is not the same file of the old one is under a path that is reported as added or modified.\<close>

lemma diffDir_reports:
  assumes "inv s" and "ev_J E = J" and "ev_io E = io"
    and "intact J (stored s) old" and "intact J (stored s) new"
    and "diffDir n E s path old new i = Some (i', Inr cs)"
    and "resolve_parts J io s new qs = Inr c" and "qs \<noteq> []" and "rc_Kind c \<noteq> KindDir" and "resolve_parts J io s old qs \<noteq> Inr c"
  shows "\<exists>k ch. 0 < k \<and> k \<le> length qs \<and> ch \<in> set cs \<and> ch_Path ch = foldl join_path path (take k qs) \<and> ch_Type ch \<noteq> ChangeDeleted"
  using assms(4-)
proof (induction n arbitrary: path old new i i' cs qs)
  case (Suc n)
  obtain q qr where qs: "qs = q # qr" using Suc.prems(5) by (cases qs) auto
  have ne: "\<not> prov_capEqual J old new"
    using Suc.prems(4,7) cap_MarshalBinary_inj [OF json] by (auto simp: prov_capEqual_def)
  obtain oldE where o: "dirEntries E s old = Inr oldE" "\<forall>(n, e) \<in> set oldE. intact J (stored s) (en_Cap e)"
    "\<forall>n ns. resolve_parts J io s old (n # ns) = (case map_of oldE n of None \<Rightarrow> Inl ErrPath | Some e \<Rightarrow> resolve_parts J io s (en_Cap e) ns)"
    using dirEntries_intact [OF assms(1) Suc.prems(1) assms(2,3)] by blast
  obtain newE where n: "dirEntries E s new = Inr newE" "\<forall>(n, e) \<in> set newE. intact J (stored s) (en_Cap e)"
    "\<forall>n ns. resolve_parts J io s new (n # ns) = (case map_of newE n of None \<Rightarrow> Inl ErrPath | Some e \<Rightarrow> resolve_parts J io s (en_Cap e) ns)"
    using dirEntries_intact [OF assms(1) Suc.prems(2) assms(2,3)] by blast
  obtain ne where e: "map_of newE q = Some ne" "resolve_parts J io s (en_Cap ne) qr = Inr c"
    using n(3) Suc.prems(4) qs by (auto split: option.splits)
  obtain cs1 i1 where each: "each_entry (diff_entry n E s (diffDir n E s) path (map_of oldE)) newE i = Some (i1, Inr cs1)" "set cs1 \<subseteq> set cs"
    using Suc.prems(3) ne assms(2) o(1) n(1) by (auto split: option.splits prod.splits sum.splits)
  obtain j1 j2 ds where de: "diff_entry n E s (diffDir n E s) path (map_of oldE) (q, ne) j1 = Some (j2, Inr ds)" "set ds \<subseteq> set cs"
    using each_entry_mem [OF each(1) map_of_SomeD [OF e(1)]] each(2) by blast
  have one: "\<exists>ch \<in> set cs. ch_Type ch \<noteq> ChangeDeleted \<and> ch_Path ch = join_path path q \<Longrightarrow> ?case"
    using qs by (intro exI [of _ 1]) auto
  show ?case
  proof (cases "map_of oldE q")
    case None
    then have "emitSubtree n E s ChangeAdded path (q, ne) j1 = Some (j2, Inr ds)" using de(1) by (simp add: diff_entry_def)
    then show ?thesis using one emitSubtree_head de(2) by (metis change_type.distinct(3) subsetD)
  next
    case (Some oe)
    have diff: "en_Cap oe \<noteq> en_Cap ne" using Suc.prems(7) o(3) Some e(2) qs by auto
    then have nc: "\<not> prov_capEqual J (en_Cap oe) (en_Cap ne)" using cap_MarshalBinary_inj [OF json] by (auto simp: prov_capEqual_def)
    show ?thesis
    proof (cases "rc_Kind (en_Cap oe) = KindDir \<and> rc_Kind (en_Cap ne) = KindDir")
      case True
      then have r: "diffDir n E s (join_path path q) (en_Cap oe) (en_Cap ne) j1 = Some (j2, Inr ds)"
        using de(1) Some nc assms(2) by (simp add: diff_entry_def)
      have "qr \<noteq> []" using e(2) True Suc.prems(6) by auto
      moreover have "resolve_parts J io s (en_Cap oe) qr \<noteq> Inr c" using Suc.prems(7) o(3) Some qs by simp
      moreover have "intact J (stored s) (en_Cap oe)" "intact J (stored s) (en_Cap ne)"
        using o(2) n(2) map_of_SomeD [OF Some] map_of_SomeD [OF e(1)] by auto
      ultimately obtain k ch where "0 < k" "k \<le> length qr" "ch \<in> set ds" "ch_Path ch = foldl join_path (join_path path q) (take k qr)" "ch_Type ch \<noteq> ChangeDeleted"
        using Suc.IH [OF _ _ r e(2) _ Suc.prems(6)] by blast
      then show ?thesis using qs de(2) by (intro exI [of _ "Suc k"]) auto
    next
      case False
      then obtain ch where "ds = [ch]" "ch_Type ch = ChangeModified" "ch_Path ch = join_path path q"
        using de(1) Some nc assms(2) by (auto simp: diff_entry_def split: prod.splits)
      then have "\<exists>ch \<in> set cs. ch_Type ch \<noteq> ChangeDeleted \<and> ch_Path ch = join_path path q" using de(2) by (intro bexI [of _ ch]) auto
      then show ?thesis by (rule one)
    qed
  qed
qed simp

text \<open>A file of the old tree that is not the same file of the new one is under a path that is reported.\<close>

lemma diffDir_reports_old:
  assumes "inv s" and "ev_J E = J" and "ev_io E = io"
    and "intact J (stored s) old" and "intact J (stored s) new"
    and "diffDir n E s path old new i = Some (i', Inr cs)"
    and "resolve_parts J io s old qs = Inr c" and "qs \<noteq> []" and "rc_Kind c \<noteq> KindDir" and "resolve_parts J io s new qs \<noteq> Inr c"
  shows "\<exists>k ch. 0 < k \<and> k \<le> length qs \<and> ch \<in> set cs \<and> ch_Path ch = foldl join_path path (take k qs) \<and> ch_Type ch \<noteq> ChangeAdded"
  using assms(4-)
proof (induction n arbitrary: path old new i i' cs qs)
  case (Suc n)
  obtain q qr where qs: "qs = q # qr" using Suc.prems(5) by (cases qs) auto
  have ne: "\<not> prov_capEqual J old new"
    using Suc.prems(4,7) cap_MarshalBinary_inj [OF json] by (auto simp: prov_capEqual_def)
  obtain oldE where o: "dirEntries E s old = Inr oldE" "\<forall>(n, e) \<in> set oldE. intact J (stored s) (en_Cap e)"
    "\<forall>n ns. resolve_parts J io s old (n # ns) = (case map_of oldE n of None \<Rightarrow> Inl ErrPath | Some e \<Rightarrow> resolve_parts J io s (en_Cap e) ns)"
    using dirEntries_intact [OF assms(1) Suc.prems(1) assms(2,3)] by blast
  obtain newE where n: "dirEntries E s new = Inr newE" "\<forall>(n, e) \<in> set newE. intact J (stored s) (en_Cap e)"
    "\<forall>n ns. resolve_parts J io s new (n # ns) = (case map_of newE n of None \<Rightarrow> Inl ErrPath | Some e \<Rightarrow> resolve_parts J io s (en_Cap e) ns)"
    using dirEntries_intact [OF assms(1) Suc.prems(2) assms(2,3)] by blast
  obtain oe where e: "map_of oldE q = Some oe" "resolve_parts J io s (en_Cap oe) qr = Inr c"
    using o(3) Suc.prems(4) qs by (auto split: option.splits)
  obtain cs1 ds1 i1 i2 where each: "each_entry (diff_entry n E s (diffDir n E s) path (map_of oldE)) newE i = Some (i1, Inr cs1)"
    "each_entry (emitSubtree n E s ChangeDeleted path) (filter (\<lambda>(name, _). map_of newE name = None) oldE) i1 = Some (i2, Inr ds1)" "cs = cs1 @ ds1"
    using Suc.prems(3) ne assms(2) o(1) n(1) by (auto split: option.splits prod.splits sum.splits)
  have one: "\<exists>ch \<in> set cs. ch_Type ch \<noteq> ChangeAdded \<and> ch_Path ch = join_path path q \<Longrightarrow> ?case"
    using qs by (intro exI [of _ 1]) auto
  show ?case
  proof (cases "map_of newE q")
    case None
    then have "(q, oe) \<in> set (filter (\<lambda>(name, _). map_of newE name = None) oldE)" using map_of_SomeD [OF e(1)] by simp
    from each_entry_mem [OF each(2) this] obtain j1 j2 ds where "emitSubtree n E s ChangeDeleted path (q, oe) j1 = Some (j2, Inr ds)" "set ds \<subseteq> set cs"
      using each(3) by auto
    then show ?thesis using one emitSubtree_head by (metis change_type.distinct(3) subsetD)
  next
    case (Some ne)
    obtain j1 j2 ds where de: "diff_entry n E s (diffDir n E s) path (map_of oldE) (q, ne) j1 = Some (j2, Inr ds)" "set ds \<subseteq> set cs"
      using each_entry_mem [OF each(1) map_of_SomeD [OF Some]] each(3) by auto
    have diff: "en_Cap oe \<noteq> en_Cap ne" using Suc.prems(7) n(3) Some e(2) qs by auto
    then have nc: "\<not> prov_capEqual J (en_Cap oe) (en_Cap ne)" using cap_MarshalBinary_inj [OF json] by (auto simp: prov_capEqual_def)
    show ?thesis
    proof (cases "rc_Kind (en_Cap oe) = KindDir \<and> rc_Kind (en_Cap ne) = KindDir")
      case True
      then have r: "diffDir n E s (join_path path q) (en_Cap oe) (en_Cap ne) j1 = Some (j2, Inr ds)"
        using de(1) e(1) nc assms(2) by (simp add: diff_entry_def)
      have "qr \<noteq> []" using e(2) True Suc.prems(6) by auto
      moreover have "resolve_parts J io s (en_Cap ne) qr \<noteq> Inr c" using Suc.prems(7) n(3) Some qs by simp
      moreover have "intact J (stored s) (en_Cap oe)" "intact J (stored s) (en_Cap ne)"
        using o(2) n(2) map_of_SomeD [OF Some] map_of_SomeD [OF e(1)] by auto
      ultimately obtain k ch where "0 < k" "k \<le> length qr" "ch \<in> set ds" "ch_Path ch = foldl join_path (join_path path q) (take k qr)" "ch_Type ch \<noteq> ChangeAdded"
        using Suc.IH [OF _ _ r e(2) _ Suc.prems(6)] by blast
      then show ?thesis using qs de(2) by (intro exI [of _ "Suc k"]) auto
    next
      case False
      then obtain ch where "ds = [ch]" "ch_Type ch = ChangeModified" "ch_Path ch = join_path path q"
        using de(1) e(1) nc assms(2) by (auto simp: diff_entry_def split: prod.splits)
      then have "\<exists>ch \<in> set cs. ch_Type ch \<noteq> ChangeAdded \<and> ch_Path ch = join_path path q" using de(2) by (intro bexI [of _ ch]) auto
      then show ?thesis by (rule one)
    qed
  qed
qed simp

end

section \<open>The diff always answers\<close>

text \<open>An answer, with enough fuel, whatever the identifiers.\<close>

definition answers :: "(nat \<Rightarrow> identity \<Rightarrow> (identity \<times> change list res) option) \<Rightarrow> bool" where
  "answers f \<longleftrightarrow> (\<exists>N. \<forall>n \<ge> N. \<forall>i. \<exists>i' cs. f n i = Some (i', Inr cs))"

lemma answers_Suc: "answers (\<lambda>n. f (Suc n)) \<Longrightarrow> answers f"
  unfolding answers_def by (metis Suc_le_D Suc_le_mono)

lemma answers_const: "(\<And>n i. \<exists>i' cs. f n i = Some (i', Inr cs)) \<Longrightarrow> answers f"
  unfolding answers_def by blast

lemma answers_each: "(\<And>x. x \<in> set xs \<Longrightarrow> answers (\<lambda>n. f n x)) \<Longrightarrow> answers (\<lambda>n. each_entry (f n) xs)"
proof (induction xs)
  case (Cons x xs)
  obtain N where N: "\<forall>n \<ge> N. \<forall>i. \<exists>i' cs. f n x i = Some (i', Inr cs)" using Cons.prems [of x] unfolding answers_def by auto
  obtain L where L: "\<forall>n \<ge> L. \<forall>i. \<exists>i' cs. each_entry (f n) xs i = Some (i', Inr cs)" using Cons unfolding answers_def by auto
  have "\<exists>i' cs. each_entry (f n) (x # xs) i = Some (i', Inr cs)" if n: "N \<le> n" "L \<le> n" for n i
  proof -
    obtain i1 cs where 1: "f n x i = Some (i1, Inr cs)" using N n by blast
    obtain i2 ds where "each_entry (f n) xs i1 = Some (i2, Inr ds)" using L n by blast
    then show ?thesis using 1 by simp
  qed
  then show ?case unfolding answers_def by (intro exI [of _ "N + L"]) auto
qed (simp add: answers_def)

lemma answers_seq:
  assumes "answers f" and "answers g" and "\<And>n i i1 cs i2 ds. f n i = Some (i1, Inr cs) \<Longrightarrow> g n i1 = Some (i2, Inr ds) \<Longrightarrow> \<exists>r. h n i = Some (i2, Inr r)"
  shows "answers h"
proof -
  obtain N where N: "\<forall>n \<ge> N. \<forall>i. \<exists>i' cs. f n i = Some (i', Inr cs)" using assms(1) unfolding answers_def by blast
  obtain L where L: "\<forall>n \<ge> L. \<forall>i. \<exists>i' cs. g n i = Some (i', Inr cs)" using assms(2) unfolding answers_def by blast
  have "\<exists>i' cs. h n i = Some (i', Inr cs)" if "N \<le> n" "L \<le> n" for n i
    using N L assms(3) that by metis
  then show ?thesis unfolding answers_def by (intro exI [of _ "N + L"]) auto
qed

context blob_store
begin

lemma dirEntries_stored:
  assumes "inv s" and "ev_J E = J" and "ev_io E = io" and "rc_Kind c = KindDir" and "stored s c (EncodeDir J d)" and "dir_ok J d"
  shows "\<exists>es. dirEntries E s c = Inr es \<and> (\<forall>(n, e) \<in> set es. e \<in> set (dm_Entries d))"
  using LoadDir_stored [OF assms(1,5,6,4)] entryMap_entries [OF assms(6)] assms(2-4) by (auto simp: dirEntries_def)

lemma emitSubtree_answers:
  assumes "inv s" and "ev_J E = J" and "ev_io E = io" and "intact J (stored s) c" and "c = en_Cap e"
  shows "answers (\<lambda>n. emitSubtree n E s t path (name, e))"
  using assms(4,5)
proof (induction arbitrary: e name path rule: intact.induct)
  case (leaf c)
  show ?case by (rule answers_Suc, rule answers_const) (use leaf in \<open>simp split: prod.splits\<close>)
next
  case (dir c d)
  obtain es where es: "dirEntries E s c = Inr es" "\<forall>(n, x) \<in> set es. x \<in> set (dm_Entries d)"
    using dirEntries_stored [OF assms(1-3) dir(1-3)] by blast
  have sub: "answers (\<lambda>n. each_entry (emitSubtree n E s t (join_path path name)) es)"
  proof (rule answers_each)
    fix x assume "x \<in> set es"
    moreover obtain k y where x: "x = (k, y)" by fastforce
    ultimately have "y \<in> set (dm_Entries d)" using es(2) by auto
    then show "answers (\<lambda>n. emitSubtree n E s t (join_path path name) x)" using dir(4) x by blast
  qed
  obtain N where N: "\<forall>n \<ge> N. \<forall>i. \<exists>i' cs. each_entry (emitSubtree n E s t (join_path path name)) es i = Some (i', Inr cs)"
    using sub unfolding answers_def by blast
  have "\<exists>i' cs. emitSubtree (Suc n) E s t path (name, e) i = Some (i', Inr cs)" if n: "N \<le> n" for n i
  proof -
    obtain i1 ch where h: "emit_change E t path (name, e) i = (i1, ch)" by fastforce
    obtain i2 cs where "each_entry (emitSubtree n E s t (join_path path name)) es i1 = Some (i2, Inr cs)" using N n by blast
    then show ?thesis using h es(1) dir(1,5) by simp
  qed
  then have "answers (\<lambda>n. emitSubtree (Suc n) E s t path (name, e))" unfolding answers_def by blast
  then show ?case by (rule answers_Suc)
qed

lemma diffDir_answers:
  assumes "inv s" and "ev_J E = J" and "ev_io E = io" and "intact J (stored s) new" and "intact J (stored s) old"
  shows "answers (\<lambda>n. diffDir n E s path old new)"
  using assms(4,5)
proof (induction arbitrary: old path rule: intact.induct)
  case (leaf c)
  obtain oldE where o: "dirEntries E s old = Inr oldE" "\<forall>(n, e) \<in> set oldE. intact J (stored s) (en_Cap e)"
    using dirEntries_intact [OF assms(1) leaf(2) assms(2,3)] by blast
  have n: "dirEntries E s c = Inr []" using leaf(1) by (simp add: dirEntries_def)
  have del: "answers (\<lambda>n. each_entry (emitSubtree n E s ChangeDeleted path) oldE)"
    by (rule answers_each) (use emitSubtree_answers [OF assms(1-3)] o(2) in \<open>auto split: prod.splits\<close>)
  have "answers (\<lambda>n. diffDir (Suc n) E s path old c)"
  proof (cases "prov_capEqual (ev_J E) old c")
    case False
    show ?thesis by (rule answers_seq [where f = "\<lambda>n i. Some (i, Inr [])", OF _ del]) (use False o(1) n in \<open>simp_all add: answers_def\<close>)
  qed (simp add: answers_def)
  then show ?case by (rule answers_Suc)
next
  case (dir c d)
  obtain oldE where o: "dirEntries E s old = Inr oldE" "\<forall>(n, e) \<in> set oldE. intact J (stored s) (en_Cap e)"
    using dirEntries_intact [OF assms(1) dir.prems assms(2,3)] by blast
  obtain newE where n: "dirEntries E s c = Inr newE" "\<forall>(n, x) \<in> set newE. x \<in> set (dm_Entries d)"
    using dirEntries_stored [OF assms(1-3) dir(1-3)] by blast
  have "answers (\<lambda>n. diff_entry n E s (diffDir n E s) path (map_of oldE) x)" if mem: "x \<in> set newE" for x
  proof -
    obtain k y where x: "x = (k, y)" "y \<in> set (dm_Entries d)" using mem n(2) by (cases x) auto
    have iy: "intact J (stored s) (en_Cap y)" using dir(4) x(2) by blast
    show ?thesis
    proof (cases "map_of oldE k")
      case None
      then show ?thesis using emitSubtree_answers [OF assms(1-3) iy refl, of ChangeAdded path k] x(1) by (simp add: diff_entry_def answers_def)
    next
      case (Some oe)
      then have "intact J (stored s) (en_Cap oe)" using o(2) by (auto dest: map_of_SomeD)
      then have "answers (\<lambda>n. diffDir n E s (join_path path k) (en_Cap oe) (en_Cap y))" using dir(4) x(2) by blast
      then obtain N where "\<forall>n \<ge> N. \<forall>i. \<exists>i' cs. diffDir n E s (join_path path k) (en_Cap oe) (en_Cap y) i = Some (i', Inr cs)"
        unfolding answers_def by blast
      then show ?thesis using Some x(1) unfolding answers_def by (intro exI [of _ N]) (simp add: diff_entry_def Let_def split: prod.splits)
    qed
  qed
  then have new: "answers (\<lambda>n. each_entry (diff_entry n E s (diffDir n E s) path (map_of oldE)) newE)" by (rule answers_each)
  have del: "answers (\<lambda>n. each_entry (emitSubtree n E s ChangeDeleted path) (filter (\<lambda>(name, _). map_of newE name = None) oldE))"
    by (rule answers_each) (use emitSubtree_answers [OF assms(1-3)] o(2) in \<open>auto split: prod.splits\<close>)
  have "answers (\<lambda>n. diffDir (Suc n) E s path old c)"
  proof (cases "prov_capEqual (ev_J E) old c")
    case False
    show ?thesis by (rule answers_seq [OF new del]) (use False o(1) n(1) in simp)
  qed (simp add: answers_def)
  then show ?case by (rule answers_Suc)
qed

end

text \<open>
  What is not reported: two directories with the same entries and different attributes have different
  capabilities, and the diff of them is empty.
\<close>

lemma directory_change_unreported:
  assumes "rc_Kind old = KindDir" and "rc_Kind new = KindDir" and "LoadDir (ev_J E) (ev_io E) old s = Inr d" and "LoadDir (ev_J E) (ev_io E) new s = Inr (d\<lparr>dm_Meta := m\<rparr>)"
    and "dir_ok J d"
  shows "diffDir (Suc n) E s path old new i = Some (i, Inr [])"
proof -
  have e: "entryMap (d\<lparr>dm_Meta := m\<rparr>) = entryMap d" by (simp add: entryMap_def)
  note D = entryMap_entries [OF assms(5)]
  have "diff_entry n E s (diffDir n E s) path (map_of (entryMap d)) x i = Some (i, Inr [])" if mem: "x \<in> set (entryMap d)" for x i
  proof -
    obtain k y where x: "x = (k, y)" by fastforce
    then have "map_of (entryMap d) k = Some y" using mem D by simp
    then show ?thesis using x by (simp add: diff_entry_def prov_capEqual_def)
  qed
  moreover have "each_entry f xs i = Some (i, Inr [])" if "\<And>x i. x \<in> set xs \<Longrightarrow> f x i = Some (i, Inr [])" for f xs i
    using that by (induction xs) auto
  ultimately have each: "each_entry (diff_entry n E s (diffDir n E s) path (map_of (entryMap d))) (entryMap d) i = Some (i, Inr [])" by blast
  have none: "filter (\<lambda>(name, _). map_of (entryMap d) name = None) (entryMap d) = []" by (auto simp: filter_empty_conv map_of_eq_None_iff image_iff)
  show ?thesis using assms(1-4) by (simp add: dirEntries_def e each none)
qed

section \<open>Properties\<close>

context namespace_store
begin

lemma EnumerateChanges_complete:
  assumes "invar s" and "ran (abs s) \<subseteq> B" and "ev_J E = J" and "ev_io E = logged_io (pipeline_io P new ops None)"
    and "pv_store p = ((s, rnd), [])" and "intact J (blob_stored P new (abs s)) (an_Root since)" and "intact J (blob_stored P new (abs s)) (pv_root p)"
  shows "\<exists>N. \<forall>n \<ge> N. \<exists>p' cs. EnumerateChanges n E since p = Some (p', Inr (cs, CurrentAnchor p))
    \<and> (\<forall>qs c. qs \<noteq> [] \<longrightarrow> rc_Kind c \<noteq> KindDir \<longrightarrow> resolve_parts J (ev_io E) (pv_store p) (pv_root p) qs = Inr c \<longrightarrow>
        resolve_parts J (ev_io E) (pv_store p) (an_Root since) qs \<noteq> Inr c \<longrightarrow>
        (\<exists>k ch. 0 < k \<and> k \<le> length qs \<and> ch \<in> set cs \<and> ch_Path ch = foldl join_path [] (take k qs) \<and> ch_Type ch \<noteq> ChangeDeleted))
    \<and> (\<forall>qs c. qs \<noteq> [] \<longrightarrow> rc_Kind c \<noteq> KindDir \<longrightarrow> resolve_parts J (ev_io E) (pv_store p) (an_Root since) qs = Inr c \<longrightarrow>
        resolve_parts J (ev_io E) (pv_store p) (pv_root p) qs \<noteq> Inr c \<longrightarrow>
        (\<exists>k ch. 0 < k \<and> k \<le> length qs \<and> ch \<in> set cs \<and> ch_Path ch = foldl join_path [] (take k qs) \<and> ch_Type ch \<noteq> ChangeAdded))"
proof -
  let ?st = "((s, rnd), [] :: (bytes \<times> bytes) list)"
  have inv: "(\<lambda>((s, rnd), lg). invar s \<and> ran (abs s) \<subseteq> B \<union> written P new cfg lg) ?st" using assms(1,2) by auto
  have I: "intact J ((\<lambda>((s, rnd), lg). blob_stored P new (abs s)) ?st) (an_Root since)" "intact J ((\<lambda>((s, rnd), lg). blob_stored P new (abs s)) ?st) (pv_root p)"
    using assms(6,7) by simp_all
  obtain N where N: "\<forall>n \<ge> N. \<forall>i. \<exists>i' cs. diffDir n E ?st [] (an_Root since) (pv_root p) i = Some (i', Inr cs)"
    using blobs.diffDir_answers [OF inv assms(3,4) I(2,1), of "[]"] unfolding answers_def by blast
  show ?thesis
  proof (intro exI [of _ N] allI impI)
    fix n assume "N \<le> n"
    then obtain i cs where d: "diffDir n E ?st [] (an_Root since) (pv_root p) (pv_ids p) = Some (i, Inr cs)" using N by blast
    show "\<exists>p' cs. EnumerateChanges n E since p = Some (p', Inr (cs, CurrentAnchor p))
      \<and> (\<forall>qs c. qs \<noteq> [] \<longrightarrow> rc_Kind c \<noteq> KindDir \<longrightarrow> resolve_parts J (ev_io E) (pv_store p) (pv_root p) qs = Inr c \<longrightarrow>
        resolve_parts J (ev_io E) (pv_store p) (an_Root since) qs \<noteq> Inr c \<longrightarrow>
        (\<exists>k ch. 0 < k \<and> k \<le> length qs \<and> ch \<in> set cs \<and> ch_Path ch = foldl join_path [] (take k qs) \<and> ch_Type ch \<noteq> ChangeDeleted))
      \<and> (\<forall>qs c. qs \<noteq> [] \<longrightarrow> rc_Kind c \<noteq> KindDir \<longrightarrow> resolve_parts J (ev_io E) (pv_store p) (an_Root since) qs = Inr c \<longrightarrow>
        resolve_parts J (ev_io E) (pv_store p) (pv_root p) qs \<noteq> Inr c \<longrightarrow>
        (\<exists>k ch. 0 < k \<and> k \<le> length qs \<and> ch \<in> set cs \<and> ch_Path ch = foldl join_path [] (take k qs) \<and> ch_Type ch \<noteq> ChangeAdded))"
      unfolding assms(4,5)
      using d blobs.diffDir_reports [OF inv assms(3,4) I d] blobs.diffDir_reports_old [OF inv assms(3,4) I d]
      by (intro exI [of _ "p\<lparr>pv_ids := i\<rparr>"] exI [of _ cs]) (simp add: EnumerateChanges_def assms(5))
  qed
qed

end

lemma enough_weaken: "\<exists>N :: nat. \<forall>n \<ge> N. \<exists>p cs. A n p cs \<and> C n p cs \<Longrightarrow> \<exists>N. \<forall>n \<ge> N. \<exists>p cs. A n p cs"
  by blast

text \<open>
  C13: change enumeration always answers and misses no file. For two intact roots over a sound disk
  store, with enough recursion depth the diff returns; every file of the current root that is not the same
  file at the anchor lies at or below a path reported as added or modified, and every file of the anchor
  that is no longer the same file lies at or below a path reported as deleted or modified. The new anchor
  is the current root.
\<close>

theorem EnumerateChanges_misses_nothing:
  fixes new :: rs_new and cfg :: config
  assumes "disk_inv P s" and "json_law J" and "pipeline_laws P new (cfg_Params cfg)" and "\<forall>d. length (HashOf P d) = idSize"
    and "ev_J E = J" and "ev_io E = logged_io (pipeline_io P new (disk_ops P) None)"
    and "pv_store p = ((s, rnd), [])" and "intact J (blob_stored P new (disk_abs P s)) (an_Root since)" and "intact J (blob_stored P new (disk_abs P s)) (pv_root p)"
  shows "\<exists>N. \<forall>n \<ge> N. \<exists>p' cs. EnumerateChanges n E since p = Some (p', Inr (cs, CurrentAnchor p))
    \<and> (\<forall>qs c. qs \<noteq> [] \<longrightarrow> rc_Kind c \<noteq> KindDir \<longrightarrow> resolve_parts J (ev_io E) (pv_store p) (pv_root p) qs = Inr c \<longrightarrow>
        resolve_parts J (ev_io E) (pv_store p) (an_Root since) qs \<noteq> Inr c \<longrightarrow>
        (\<exists>k ch. 0 < k \<and> k \<le> length qs \<and> ch \<in> set cs \<and> ch_Path ch = foldl join_path [] (take k qs) \<and> ch_Type ch \<noteq> ChangeDeleted))
    \<and> (\<forall>qs c. qs \<noteq> [] \<longrightarrow> rc_Kind c \<noteq> KindDir \<longrightarrow> resolve_parts J (ev_io E) (pv_store p) (an_Root since) qs = Inr c \<longrightarrow>
        resolve_parts J (ev_io E) (pv_store p) (pv_root p) qs \<noteq> Inr c \<longrightarrow>
        (\<exists>k ch. 0 < k \<and> k \<le> length qs \<and> ch \<in> set cs \<and> ch_Path ch = foldl join_path [] (take k qs) \<and> ch_Type ch \<noteq> ChangeAdded))"
  by (rule namespace_store.EnumerateChanges_complete [OF namespace_storeI [OF disk.content_store_axioms assms(2-4)] assms(1) subset_refl assms(5-9)])

theorem EnumerateChanges_misses_nothing_witness:
  "\<exists>N. \<forall>n \<ge> N. \<exists>p' cs. EnumerateChanges n
      \<lparr>ev_P = demo_prims, ev_J = demo_json, ev_io = logged_io (pipeline_io demo_prims xor_new (disk_ops demo_prims) None), ev_cfg = demo_config, ev_signer = [7],
        ev_load = mem_root_Load, ev_save = mem_root_Save, ev_clock = 1\<rparr> \<lparr>an_Seq = 1, an_Root = zero_cap\<rparr>
      \<lparr>pv_store = ((demo_disk, []), []), pv_roots = None, pv_ids = newIdentity, pv_root = demo_child, pv_seq = 2\<rparr> = Some (p', Inr (cs, \<lparr>an_Seq = 2, an_Root = demo_child\<rparr>))"
proof -
  define E where "E = \<lparr>ev_P = demo_prims, ev_J = demo_json, ev_io = logged_io (pipeline_io demo_prims xor_new (disk_ops demo_prims) None), ev_cfg = demo_config, ev_signer = [7],
        ev_load = mem_root_Load, ev_save = mem_root_Save, ev_clock = 1\<rparr>"
  define p where "p = \<lparr>pv_store = ((demo_disk, [] :: bytes), [] :: (bytes \<times> bytes) list), pv_roots = None :: root_pointer option, pv_ids = newIdentity, pv_root = demo_child, pv_seq = 2\<rparr>"
  define since where "since = \<lparr>an_Seq = 1, an_Root = zero_cap\<rparr>"
  have z: "intact demo_json st zero_cap" for st by (rule intact.leaf) (simp add: zero_cap_def KindDir_def)
  have e: "ev_J E = demo_json" "ev_io E = logged_io (pipeline_io demo_prims xor_new (disk_ops demo_prims) None)" "pv_store p = ((demo_disk, []), [])"
    "intact demo_json (blob_stored demo_prims xor_new (disk_abs demo_prims demo_disk)) (an_Root since)"
    "intact demo_json (blob_stored demo_prims xor_new (disk_abs demo_prims demo_disk)) (pv_root p)"
    by (simp_all add: z demo_child_ok(2) E_def p_def since_def)
  have "\<exists>N. \<forall>n \<ge> N. \<exists>p' cs. EnumerateChanges n E since p = Some (p', Inr (cs, CurrentAnchor p))"
    by (rule enough_weaken [OF EnumerateChanges_misses_nothing [OF demo_disk_inv demo_json_law demo_laws demo_hash32 e]])
  then show ?thesis unfolding E_def p_def since_def by (simp add: CurrentAnchor_def)
qed

end
