(* ===== verification/Provider_Effects.thy ===== *)
theory Provider_Effects
  imports Provider
begin

text \<open>
  What the mutations of the provider do to the namespace: creating, deleting and renaming an item change
  the paths they name and no other path. The files go through the blob layer, so the interface
  \<open>blob_store\<close> carries over from the namespace.
\<close>

section \<open>Paths\<close>

definition name_ok :: "string \<Rightarrow> bool" where
  "name_ok n \<longleftrightarrow> n \<noteq> [] \<and> CHR ''/'' \<notin> set n \<and> n \<noteq> ''.'' \<and> n \<noteq> ''..''"

fun path_of :: "string list \<Rightarrow> string" where
  "path_of [] = []"
| "path_of [n] = n"
| "path_of (n # m # ms) = n @ ''/'' @ path_of (m # ms)"

lemma split_slash_nonempty: "split_slash s \<noteq> []"
  by (induction s) (auto split: list.splits)

lemma split_slash_append: "CHR ''/'' \<notin> set n \<Longrightarrow> split_slash (n @ s) = (n @ hd (split_slash s)) # tl (split_slash s)"
  using split_slash_nonempty [of s] by (induction n) (auto split: list.splits)

lemma split_slash_path_of: "list_all name_ok ns \<Longrightarrow> ns \<noteq> [] \<Longrightarrow> split_slash (path_of ns) = ns"
  by (induction ns rule: path_of.induct) (use split_slash_append [of _ "[]"] in \<open>auto simp: name_ok_def split_slash_append\<close>)

lemma clean_parts_ok: "list_all name_ok ns \<Longrightarrow> clean_parts acc ns = rev acc @ ns"
  by (induction ns arbitrary: acc) (auto simp: name_ok_def)

lemma splitPath_path_of: "list_all name_ok ns \<Longrightarrow> splitPath (path_of ns) = Inr ns"
  by (cases "ns = []") (auto simp: splitPath_def split_slash_path_of clean_parts_ok list_all_iff name_ok_def)

lemma path_of_eq_Nil: "list_all name_ok ns \<Longrightarrow> path_of ns = [] \<longleftrightarrow> ns = []"
  by (cases ns rule: path_of.cases) (auto simp: name_ok_def)

lemma path_of_snoc: "list_all name_ok ns \<Longrightarrow> join_path (path_of ns) n = path_of (ns @ [n])"
  by (induction ns rule: path_of.induct) (auto simp: join_path_def name_ok_def path_of_eq_Nil split: if_splits)

lemma last_slash_name: "CHR ''/'' \<notin> set n \<Longrightarrow> last_slash n = None"
  by (induction n) auto

lemma last_slash_append: "last_slash (s @ CHR ''/'' # n) = (case last_slash n of None \<Rightarrow> Some (length s) | Some i \<Rightarrow> Some (length s + 1 + i))"
  by (induction s) (auto split: option.splits)

lemma parentAndBase_path_of:
  assumes "list_all name_ok ns" and "name_ok n"
  shows "parentAndBase (path_of (ns @ [n])) = (path_of ns, n)"
proof (cases "ns = []")
  case True
  then show ?thesis using assms(2) by (simp add: parentAndBase_def last_slash_name name_ok_def)
next
  case False
  then have "path_of (ns @ [n]) = path_of ns @ CHR ''/'' # n" using path_of_snoc [OF assms(1), of n] path_of_eq_Nil [OF assms(1)] by (simp add: join_path_def)
  then show ?thesis using assms(2) by (simp add: parentAndBase_def last_slash_append last_slash_name name_ok_def)
qed

lemma resolve_parts_append: "resolve_parts J io s root ps = Inr c \<Longrightarrow> resolve_parts J io s root (ps @ qs) = resolve_parts J io s c qs"
proof (induction ps arbitrary: root)
  case (Cons n ns)
  then show ?case by (auto split: if_splits option.splits)
qed simp

section \<open>Storing files keeps everything stored\<close>

lemma StoreFile_io_pipeline:
  "StoreFile_io (pipeline_io P new ops sp) cfg r (s, rnd) = StoreFile P new ops sp cfg r s rnd"
proof -
  have "store_items_io (pipeline_io P new ops sp) cfg items (s, rnd) m = store_items P new ops sp cfg items s rnd m" for items s rnd m
  proof (induction items arbitrary: s rnd m)
    case (Cons x items)
    then show ?case by (cases x) (auto simp: pipeline_io_def StoreBlob_def split: prod.splits sum.splits)
  qed simp
  then show ?thesis by (simp add: StoreFile_io_def StoreFile_def empty_manifest_def)
qed

lemma LoadFile_io_pipeline:
  "LoadFile_io (pipeline_io P new ops sp) m (s, rnd) = LoadFile P new ops m s (\<lambda>w x. Inr (w @ x)) []"
proof -
  have "load_chunks_io (pipeline_io P new ops sp) q refs (s, rnd) w = load_chunks P new ops q refs s (\<lambda>w x. Inr (w @ x)) w" for q refs w
    by (induction refs arbitrary: w) (auto simp: pipeline_io_def LoadBlob_def split: sum.splits)
  then show ?thesis by (simp add: LoadFile_io_def LoadFile_def)
qed

context blob_store
begin

lemma store_items_io_later: "inv s \<Longrightarrow> store_items_io io cfg items s m = (s', r) \<Longrightarrow> later s s'"
proof (induction items arbitrary: s m)
  case Nil
  then show ?case by (simp add: later_refl)
next
  case (Cons x items)
  show ?case
  proof (cases x)
    case (Inl e)
    then show ?thesis using Cons.prems by (auto simp: later_refl)
  next
    case (Inr plain)
    obtain s1 y where 1: "io_Store io s cfg plain = (s1, y)" by fastforce
    have l: "later s s1" using store [OF Cons.prems(1) 1] by (auto simp: later_def)
    show ?thesis
    proof (cases y)
      case (Inl e)
      then show ?thesis using Cons.prems(2) 1 l \<open>x = Inr plain\<close> by simp
    next
      case (Inr ref)
      then have "later s1 s'" using Cons.IH [of s1] Cons.prems(2) 1 l \<open>x = Inr plain\<close> by (auto simp: later_def)
      then show ?thesis using l later_trans by blast
    qed
  qed
qed

lemma StoreFileManifest_later:
  "inv s \<Longrightarrow> StoreFileManifest J io cfg m s = (s', r) \<Longrightarrow> later s s'"
  using store by (auto simp: StoreFileManifest_def putBlob_def later_def split: prod.splits sum.splits)

lemma StoreFileManifest_new:
  "inv s \<Longrightarrow> StoreFileManifest J io cfg m s = (s', Inr c) \<Longrightarrow> fine s' \<Longrightarrow> rc_Kind c = KindFile \<and> cap_ok c"
  using stored_new by (auto simp: StoreFileManifest_def putBlob_def split: prod.splits sum.splits)

lemma buildChild_ok:
  assumes "ev_J E = J" and "ev_io E = io" and "ev_cfg E = cfg" and "inv s" and "isDir \<Longrightarrow> dir_ok J (NewDir meta)"
    and "buildChild E name isDir meta contents s = (s', r)"
  shows "later s s' \<and> (\<forall>c st. r = Inr (c, st) \<longrightarrow> fine s' \<longrightarrow> intact J (stored s') c \<and> cap_ok c \<and> (rc_Kind c = KindDir \<longleftrightarrow> isDir))"
proof (cases isDir)
  case True
  obtain s2 x where 2: "StoreDir J io cfg (NewDir meta) s = (s2, x)" by fastforce
  then have st: "StoreDir J io cfg (NewDir meta) s = (s', x)" "\<forall>c st. r = Inr (c, st) \<longrightarrow> x = Inr c"
    using assms(1-3,6) True by (cases x; auto simp: buildChild_def)+
  have "intact J (stored s') c \<and> cap_ok c \<and> rc_Kind c = KindDir" if "r = Inr (c, st)" "fine s'" for c st
    using StoreDir_new [OF assms(4), of "NewDir meta" s' c] st assms(5) True that by (simp add: NewDir_def)
  then show ?thesis using StoreDir_later [OF assms(4) st(1)] True by blast
next
  case False
  define mk where "mk = (case contents of None \<Rightarrow> (s, Inr (empty_manifest cfg))
    | Some rd \<Rightarrow> if IsSymlink meta then (s, Inr (empty_manifest cfg)) else StoreFile_io io cfg rd s)"
  have unf: "(case mk of (s', Inl e) \<Rightarrow> (s', Inl e)
      | (s', Inr fm) \<Rightarrow> let fm' = DeriveVersions (ev_P E) (fm\<lparr>fm_Name := name, fm_Meta := meta\<rparr>) in
          (case StoreFileManifest J io cfg fm' s' of (s'', Inl e) \<Rightarrow> (s'', Inl e) | (s'', Inr c) \<Rightarrow> (s'', Inr (c, statFromManifest fm')))) = (s', r)"
    using assms(6) False unfolding buildChild_def mk_def assms(1-3) by simp
  obtain s1 y where mk: "mk = (s1, y)" by fastforce
  have l1: "later s s1" using mk later_refl [OF assms(4)] store_items_io_later [OF assms(4)] unfolding mk_def
    by (auto simp: StoreFile_io_def split: option.splits if_splits)
  then have i1: "inv s1" by (simp add: later_def)
  show ?thesis
  proof (cases y)
    case (Inl e)
    then show ?thesis using unf mk l1 by auto
  next
    case (Inr fm)
    obtain s2 z where 2: "StoreFileManifest J io cfg (DeriveVersions (ev_P E) (fm\<lparr>fm_Name := name, fm_Meta := meta\<rparr>)) s1 = (s2, z)" by fastforce
    then have z: "StoreFileManifest J io cfg (DeriveVersions (ev_P E) (fm\<lparr>fm_Name := name, fm_Meta := meta\<rparr>)) s1 = (s', z)" "\<forall>c st. r = Inr (c, st) \<longrightarrow> z = Inr c"
      using unf mk Inr by (cases z; auto simp: Let_def)+
    have "later s s'" using later_trans [OF l1 StoreFileManifest_later [OF i1 z(1)]] .
    moreover have "intact J (stored s') c \<and> cap_ok c \<and> rc_Kind c \<noteq> KindDir" if "r = Inr (c, st)" "fine s'" for c st
      using StoreFileManifest_new [OF i1, of _ s' c] z that by (auto intro!: intact.leaf simp: KindFile_def KindDir_def)
    ultimately show ?thesis using False by blast
  qed
qed

section \<open>Creating, deleting, renaming\<close>

abbreviation view :: "('s, 'r) prov \<Rightarrow> string list \<Rightarrow> read_cap res" where
  "view p \<equiv> resolve_parts J io (pv_store p) (pv_root p)"

definition sound :: "('s, 'r) prov \<Rightarrow> bool" where
  "sound p \<longleftrightarrow> inv (pv_store p) \<and> intact J (stored (pv_store p)) (pv_root p) \<and> ids_ok (pv_ids p)"

text \<open>A failed mutation has only added blobs.\<close>

lemma failed_mutation:
  assumes "sound p" and "later (pv_store p) (pv_store p')" and "pv_root p' = pv_root p" and "ids_ok (pv_ids p')"
  shows "sound p' \<and> view p' qs = view p qs"
  using assms resolve_later [OF _ assms(2)] intact_later [OF _ assms(2)] by (auto simp: sound_def later_def)

lemma commit_cases:
  assumes "prov_commit E c p = (p', r)"
  shows "pv_store p' = pv_store p \<and> pv_ids p' = pv_ids p \<and> (case r of Inl _ \<Rightarrow> pv_root p' = pv_root p \<and> pv_seq p' = pv_seq p | Inr _ \<Rightarrow> pv_root p' = c \<and> pv_seq p' = pv_seq p + 1)"
  using assms by (auto simp: prov_commit_def Let_def split: prod.splits sum.splits)

lemma prov_item_same:
  assumes "prov_item E pp e p = (p', it)"
  shows "pv_store p' = pv_store p" and "pv_root p' = pv_root p" and "pv_seq p' = pv_seq p"
  using assms by (auto simp: prov_item_def split: prod.splits)

lemma Create_effect:
  assumes E: "ev_J E = J" "ev_io E = io" "ev_cfg E = cfg" and "sound p" and "pathFor_id (pv_ids p) parent = Some (path_of ns)"
    and "list_all name_ok (ns @ [cr_Name req])" and "list_all (js_utf8 J) (ns @ [cr_Name req])" and "cr_IsDir req \<Longrightarrow> dir_ok J (NewDir (cr_Meta req))"
    and "prov_CreateItem E parent req p = (p', r)" and "fine (pv_store p')"
  shows "sound p' \<and> (case r of Inl _ \<Rightarrow> \<forall>qs. view p' qs = view p qs
    | Inr it \<Rightarrow> view p' (ns @ [cr_Name req]) = Inr (it_Cap it) \<and> (rc_Kind (it_Cap it) = KindDir \<longleftrightarrow> cr_IsDir req)
        \<and> pathFor_id (pv_ids p') (it_ID it) = Some (path_of (ns @ [cr_Name req])) \<and> pv_seq p' = pv_seq p + 1
        \<and> (\<forall>qs. apart (ns @ [cr_Name req]) qs \<longrightarrow> view p' qs = view p qs))"
proof -
  let ?n = "cr_Name req" and ?ps = "ns @ [cr_Name req]"
  have path: "join_path (path_of ns) ?n = path_of ?ps" "splitPath (path_of ?ps) = Inr ?ps" "?n \<noteq> []"
    using assms(6) path_of_snoc splitPath_path_of [of ?ps] by (auto simp: name_ok_def)
  have p: "inv (pv_store p)" "intact J (stored (pv_store p)) (pv_root p)" "ids_ok (pv_ids p)" using assms(4) by (auto simp: sound_def)
  obtain s1 x where b: "buildChild E ?n (cr_IsDir req) (cr_Meta req) (cr_Contents req) (pv_store p) = (s1, x)" by fastforce
  note B = buildChild_ok [OF E p(1) assms(8) b]
  show ?thesis
  proof (cases x)
    case (Inl e)
    then have "p' = p\<lparr>pv_store := s1\<rparr>" "r = Inl e" using assms(5,9) b path(3) by (auto simp: prov_CreateItem_def)
    then show ?thesis using failed_mutation [OF assms(4), of p'] B p(3) by auto
  next
    case (Inr y)
    obtain c st where y: "y = (c, st)" by fastforce
    have l1: "later (pv_store p) s1" using B by blast
    obtain s2 z where g: "graft J io cfg (pv_root p) ?ps c st s1 = (s2, z)" by fastforce
    then have G: "Graft J io cfg (pv_root p) (path_of ?ps) c st s1 = (s2, z)" using path(2) by (simp add: Graft_def)
    have l2: "later s1 s2" by (rule graft_later [OF _ g]) (use l1 in \<open>simp add: later_def\<close>)
    note l = later_trans [OF l1 l2]
    show ?thesis
    proof (cases z)
      case (Inl e)
      then have "p' = p\<lparr>pv_store := s2\<rparr>" "r = Inl e" using assms(5,9) b path(1,3) Inr y G E by (auto simp: prov_CreateItem_def graft_commit_def)
      then show ?thesis using failed_mutation [OF assms(4), of p'] l p(3) by auto
    next
      case (Inr root')
      obtain p1 w where c: "prov_commit E root' (p\<lparr>pv_store := s2\<rparr>) = (p1, w)" by fastforce
      have gc: "graft_commit E (path_of ?ps) c st (p\<lparr>pv_store := s1\<rparr>) = (p1, w)" using G E Inr c by (simp add: graft_commit_def)
      note C = commit_cases [OF c]
      show ?thesis
      proof (cases w)
        case (Inl e)
        then have "p' = p1" "r = Inl e" using assms(5,9) b path(1,3) \<open>x = Inr y\<close> y gc by (auto simp: prov_CreateItem_def)
        then show ?thesis using failed_mutation [OF assms(4), of p'] l p(3) C Inl by auto
      next
        case (Inr u)
        obtain p2 it where i: "prov_item E (path_of ns) \<lparr>en_Name = ?n, en_Cap = c, en_Stat = st\<rparr> p1 = (p2, it)" by fastforce
        have r: "p' = p2" "r = Inr it" using assms(5,9) b path(1,3) \<open>x = Inr y\<close> y gc Inr i by (auto simp: prov_CreateItem_def)
        note I = prov_item_frame [OF i]
        have ids: "ids_ok (pv_ids p1)" using C p(3) by simp
        have p': "pv_store p' = s2" "pv_root p' = root'" "pv_seq p' = pv_seq p + 1"
          using prov_item_same [OF i] C Inr r(1) by simp_all
        have fine: "fine s2" "fine s1" using assms(10) p'(1) l2 by (auto simp: later_def)
        have K: "intact J (stored s1) c" "cap_ok c" "rc_Kind c = KindDir \<longleftrightarrow> cr_IsDir req" using B \<open>x = Inr y\<close> y fine(2) by auto
        have s1: "inv s1" "intact J (stored s1) (pv_root p)" using l1 intact_later [OF p(2) l1] by (auto simp: later_def)
        note N = graft_new [OF s1(1) s1(2) K(1,2) assms(7) g [unfolded \<open>z = Inr root'\<close>] fine(1)]
        have "view p' ?ps = Inr c" using N p' by (metis append_Nil2 resolve_parts.simps(1))
        moreover have "view p' qs = view p qs" if "apart ?ps qs" for qs
          using N that p' resolve_later [OF p(1) l1 p(2)] by simp
        moreover have "sound p'" using N p' l I(2) ids r(1) by (auto simp: sound_def later_def)
        ultimately show ?thesis using I(3,4) [OF ids] r K(3) p'(3) path(1) by auto
      qed
    qed
  qed
qed

lemma Delete_effect:
  assumes E: "ev_J E = J" "ev_io E = io" "ev_cfg E = cfg" and "sound p" and "pathFor_id (pv_ids p) did = Some (path_of ps)" and "ps \<noteq> []"
    and "list_all name_ok ps" and "list_all (js_utf8 J) ps" and "prov_DeleteItem E did p = (p', r)" and "fine (pv_store p')"
  shows "sound p' \<and> (case r of Inl _ \<Rightarrow> \<forall>qs. view p' qs = view p qs
    | Inr _ \<Rightarrow> (\<forall>qs. view p' (ps @ qs) = Inl ErrPath) \<and> (\<forall>qs. apart ps qs \<longrightarrow> view p' qs = view p qs) \<and> pv_seq p' = pv_seq p + 1)"
proof -
  have path: "path_of ps \<noteq> []" "splitPath (path_of ps) = Inr ps" using assms(6,7) path_of_eq_Nil splitPath_path_of by auto
  have p: "inv (pv_store p)" "intact J (stored (pv_store p)) (pv_root p)" "ids_ok (pv_ids p)" using assms(4) by (auto simp: sound_def)
  obtain s1 x where g: "graftRemove J io cfg (pv_root p) ps (pv_store p) = (s1, x)" by fastforce
  then have G: "GraftRemove J io cfg (pv_root p) (path_of ps) (pv_store p) = (s1, x)" using path(2) assms(6) by (simp add: GraftRemove_def)
  have l: "later (pv_store p) s1" by (rule graftRemove_later [OF p(1) g])
  show ?thesis
  proof (cases x)
    case (Inl e)
    then have "p' = p\<lparr>pv_store := s1\<rparr>" "r = Inl e" using assms(5,9) path(1) G E by (auto simp: prov_DeleteItem_def)
    then show ?thesis using failed_mutation [OF assms(4), of p'] l p(3) by auto
  next
    case (Inr root')
    obtain p1 w where c: "prov_commit E root' (p\<lparr>pv_store := s1\<rparr>) = (p1, w)" by fastforce
    note C = commit_cases [OF c]
    show ?thesis
    proof (cases w)
      case (Inl e)
      then have "p' = p1" "r = Inl e" using assms(5,9) path(1) G E c \<open>x = Inr root'\<close> by (auto simp: prov_DeleteItem_def)
      then show ?thesis using failed_mutation [OF assms(4), of p'] l p(3) C Inl by auto
    next
      case (Inr u)
      have r: "p' = p1\<lparr>pv_ids := id_remove (path_of ps) (pv_ids p1)\<rparr>" "r = Inr ()" using assms(5,9) path(1) G E c \<open>x = Inr root'\<close> Inr by (auto simp: prov_DeleteItem_def)
      have p': "pv_store p' = s1" "pv_root p' = root'" "pv_seq p' = pv_seq p + 1" "ids_ok (pv_ids p')" using r(1) C Inr ids_ok_remove [OF p(3) path(1)] by auto
      note N = graftRemove_new [OF p(1,2) assms(8) g [unfolded \<open>x = Inr root'\<close>]]
      show ?thesis using N assms(10) p' l r(2) by (auto simp: sound_def later_def)
    qed
  qed
qed

lemma entryOf_view:
  assumes "ev_J E = J" "ev_io E = io" and "inv s" and "intact J (stored s) root" and "list_all name_ok (ns @ [n])"
    and "entryOf E s root (path_of (ns @ [n])) = Inr e"
  shows "resolve_parts J io s root (ns @ [n]) = Inr (en_Cap e) \<and> intact J (stored s) (en_Cap e) \<and> cap_ok (en_Cap e)"
proof -
  have pb: "parentAndBase (path_of (ns @ [n])) = (path_of ns, n)" "splitPath (path_of ns) = Inr ns" "path_of (ns @ [n]) \<noteq> []"
    using assms(5) parentAndBase_path_of splitPath_path_of [of ns] path_of_eq_Nil [of "ns @ [n]"] by auto
  obtain c d where cd: "resolve_parts J io s root ns = Inr c" "LoadDir J io c s = Inr d" "Lookup d n = Some e" "rc_Kind c = KindDir"
    using assms(1,2,6) pb by (auto simp: entryOf_def Resolve_def split: if_splits option.splits)
  have ic: "intact J (stored s) c" using cd(1) assms(4)
  proof (induction ns arbitrary: root)
    case (Cons m ms)
    obtain d1 e1 where 1: "LoadDir J io root s = Inr d1" "Lookup d1 m = Some e1" "resolve_parts J io s (en_Cap e1) ms = Inr c" "rc_Kind root = KindDir"
      using Cons.prems(1) by (auto split: if_splits option.splits)
    note D = dir_entries [OF assms(3) Cons.prems(2) 1(1)]
    show ?case using Cons.IH [OF 1(3)] D Lookup_intact [OF D(2) 1(2)] by blast
  qed simp
  note D = dir_entries [OF assms(3) ic cd(2)]
  have e: "e \<in> set (dm_Entries d)" using Lookup_intact(1) [OF D(2) cd(3)] .
  then show ?thesis using resolve_parts_append [OF cd(1)] cd D by (auto simp: dir_ok_def list_all_iff)
qed

lemma Rename_effect:
  assumes E: "ev_J E = J" "ev_io E = io" "ev_cfg E = cfg" and "sound p"
    and "pathFor_id (pv_ids p) did = Some (path_of (os @ [o1]))" and "pathFor_id (pv_ids p) par = Some (path_of ns)"
    and "list_all name_ok (os @ [o1])" and "list_all name_ok (ns @ [n])" and "list_all (js_utf8 J) (os @ [o1])" and "list_all (js_utf8 J) (ns @ [n])"
    and "apart (os @ [o1]) (ns @ [n])"
    and "prov_Rename E did par n p = (p', r)" and "fine (pv_store p')"
  shows "sound p' \<and> (case r of Inl _ \<Rightarrow> \<forall>qs. view p' qs = view p qs
    | Inr it \<Rightarrow> (\<forall>qs. view p' (ns @ [n] @ qs) = view p (os @ [o1] @ qs)) \<and> (\<forall>qs. view p' (os @ [o1] @ qs) = Inl ErrPath)
        \<and> (\<forall>qs. apart (os @ [o1]) qs \<longrightarrow> apart (ns @ [n]) qs \<longrightarrow> view p' qs = view p qs) \<and> pv_seq p' = pv_seq p + 1)"
proof -
  let ?old = "os @ [o1]" and ?new = "ns @ [n]"
  have path: "path_of ?old \<noteq> []" "join_path (path_of ns) n = path_of ?new" "n \<noteq> []" "splitPath (path_of ?old) = Inr ?old" "splitPath (path_of ?new) = Inr ?new"
    using assms(7,8) path_of_eq_Nil [of ?old] path_of_snoc splitPath_path_of [of ?old] splitPath_path_of [of ?new] by (auto simp: name_ok_def)
  have ne: "path_of ?new \<noteq> path_of ?old" using path(4,5) assms(11) by (auto simp: apart_def)
  have p: "inv (pv_store p)" "intact J (stored (pv_store p)) (pv_root p)" "ids_ok (pv_ids p)" using assms(4) by (auto simp: sound_def)
  have ap: "apart ?new ?old" using assms(11) by (auto simp: apart_def)
  show ?thesis
  proof (cases "entryOf E (pv_store p) (pv_root p) (path_of ?old)")
    case (Inl err)
    then have "p' = p" "r = Inl err" using assms(5,6,12) path ne by (auto simp: prov_Rename_def Let_def)
    then show ?thesis using assms(4) by simp
  next
    case (Inr e)
    note V = entryOf_view [OF E(1,2) p(1,2) assms(7) Inr]
    obtain s1 x where g: "graft J io cfg (pv_root p) ?new (en_Cap e) (en_Stat e) (pv_store p) = (s1, x)" by fastforce
    then have G: "Graft J io cfg (pv_root p) (path_of ?new) (en_Cap e) (en_Stat e) (pv_store p) = (s1, x)" using path(5) by (simp add: Graft_def)
    have l1: "later (pv_store p) s1" by (rule graft_later [OF p(1) g])
    show ?thesis
    proof (cases x)
      case (Inl err)
      then have "p' = p\<lparr>pv_store := s1\<rparr>" "r = Inl err" using assms(5,6,12) path ne Inr G E by (auto simp: prov_Rename_def Let_def)
      then show ?thesis using failed_mutation [OF assms(4), of p'] l1 p(3) by auto
    next
      case x: (Inr c1)
      obtain s2 y where h: "graftRemove J io cfg c1 ?old s1 = (s2, y)" by fastforce
      then have H: "GraftRemove J io cfg c1 (path_of ?old) s1 = (s2, y)" using path(4) by (simp add: GraftRemove_def)
      have l2: "later s1 s2" by (rule graftRemove_later [OF _ h]) (use l1 in \<open>simp add: later_def\<close>)
      note l = later_trans [OF l1 l2]
      show ?thesis
      proof (cases y)
        case (Inl err)
        then have "p' = p\<lparr>pv_store := s2\<rparr>" "r = Inl err" using assms(5,6,12) path ne Inr G H x E by (auto simp: prov_Rename_def Let_def)
        then show ?thesis using failed_mutation [OF assms(4), of p'] l p(3) by auto
      next
        case y: (Inr root')
        obtain p1 w where c: "prov_commit E root' (p\<lparr>pv_store := s2\<rparr>) = (p1, w)" by fastforce
        note C = commit_cases [OF c]
        show ?thesis
        proof (cases w)
          case (Inl err)
          then have "p' = p1" "r = Inl err" using assms(5,6,12) path ne Inr G H x y c E by (auto simp: prov_Rename_def Let_def)
          then show ?thesis using failed_mutation [OF assms(4), of p'] l p(3) C Inl by auto
        next
          case w: (Inr u)
          let ?p2 = "p1\<lparr>pv_ids := id_rename (path_of ?old) (path_of ?new) (pv_ids p1)\<rparr>"
          obtain p3 it where i: "prov_item E (path_of ns) \<lparr>en_Name = n, en_Cap = en_Cap e, en_Stat = en_Stat e\<rparr> ?p2 = (p3, it)" by fastforce
          have r: "p' = p3" "r = Inr it" using assms(5,6,12) path ne Inr G H x y c w i E by (auto simp: prov_Rename_def Let_def)
          have pn: "path_of ?new \<noteq> []" using path(2,3) by (auto simp: join_path_def split: if_splits)
          have ids: "ids_ok (pv_ids ?p2)" using C p(3) ids_ok_rename [OF p(3) path(1) pn] by simp
          have p': "pv_store p' = s2" "pv_root p' = root'" "pv_seq p' = pv_seq p + 1" "ids_ok (pv_ids p')"
            using prov_item_same [OF i] prov_item_frame(2) [OF i ids] C w r(1) by simp_all
          have fine: "fine s2" "fine s1" using assms(13) p'(1) l2 by (auto simp: later_def)
          note N = graft_new [OF p(1,2) V [THEN conjunct2, THEN conjunct1] V [THEN conjunct2, THEN conjunct2] assms(10) g [unfolded x] fine(2)]
          have s1: "inv s1" "intact J (stored s1) c1" using l1 N by (auto simp: later_def)
          note M = graftRemove_new [OF s1 assms(9) h [unfolded y] fine(1)]
          have under: "resolve_parts J io (pv_store p) (pv_root p) (?old @ qs) = resolve_parts J io (pv_store p) (en_Cap e) qs" for qs
            using V resolve_parts_append [of J io "pv_store p" "pv_root p" ?old "en_Cap e"] by blast
          have "view p' (?new @ qs) = view p (?old @ qs)" for qs
          proof -
            have "apart ?old (?new @ qs)" using assms(11) unfolding apart_def by (metis append_assoc append_eq_append_conv2 prefixE prefixI prefix_prefix prefix_same_cases)
            then show ?thesis using M N p' under by simp
          qed
          moreover have "view p' qs = view p qs" if "apart ?old qs" "apart ?new qs" for qs using M N p' that by simp
          ultimately show ?thesis using M p' l r(2) by (auto simp: sound_def later_def)
        qed
      qed
    qed
  qed
qed

end

section \<open>Properties\<close>

text \<open>What a path stands for in the current namespace.\<close>

definition ns_view :: "('s, 'r) prov_env \<Rightarrow> ('s, 'r) prov \<Rightarrow> string list \<Rightarrow> read_cap res" where
  "ns_view E p qs = resolve_parts (ev_J E) (ev_io E) (pv_store p) (pv_root p) qs"

context namespace_store
begin

lemma mutations_ok:
  assumes "invar s" and "ran (abs s) \<subseteq> B" and "ev_J E = J" and "ev_io E = logged_io (pipeline_io P new ops None)" and "ev_cfg E = cfg"
    and "pv_store p = ((s, rnd), [])" and "intact J (blob_stored P new (abs s)) (pv_root p)" and "ids_ok (pv_ids p)"
  shows "(\<forall>parent ns req p' r. let n = cr_Name req; ps = ns @ [n] in
        pathFor_id (pv_ids p) parent = Some (path_of ns) \<and> list_all name_ok ps \<and> list_all (js_utf8 J) ps \<and> (cr_IsDir req \<longrightarrow> dir_ok J (NewDir (cr_Meta req)))
        \<and> prov_CreateItem E parent req p = (p', r) \<and> run_fine P new cfg B (snd (pv_store p')) \<longrightarrow>
        (case r of Inl _ \<Rightarrow> \<forall>qs. ns_view E p' qs = ns_view E p qs
         | Inr it \<Rightarrow> ns_view E p' ps = Inr (it_Cap it) \<and> (rc_Kind (it_Cap it) = KindDir \<longleftrightarrow> cr_IsDir req)
             \<and> pathFor_id (pv_ids p') (it_ID it) = Some (path_of ps) \<and> (\<forall>qs. apart ps qs \<longrightarrow> ns_view E p' qs = ns_view E p qs)))
    \<and> (\<forall>did ps p' r. pathFor_id (pv_ids p) did = Some (path_of ps) \<and> ps \<noteq> [] \<and> list_all name_ok ps \<and> list_all (js_utf8 J) ps
        \<and> prov_DeleteItem E did p = (p', r) \<and> run_fine P new cfg B (snd (pv_store p')) \<longrightarrow>
        (case r of Inl _ \<Rightarrow> \<forall>qs. ns_view E p' qs = ns_view E p qs
         | Inr _ \<Rightarrow> (\<forall>qs. ns_view E p' (ps @ qs) = Inl ErrPath) \<and> (\<forall>qs. apart ps qs \<longrightarrow> ns_view E p' qs = ns_view E p qs)))
    \<and> (\<forall>did par os o1 ns n p' r. let old = os @ [o1]; new_parts = ns @ [n] in
        pathFor_id (pv_ids p) did = Some (path_of old) \<and> pathFor_id (pv_ids p) par = Some (path_of ns) \<and> list_all name_ok old \<and> list_all name_ok new_parts
        \<and> list_all (js_utf8 J) old \<and> list_all (js_utf8 J) new_parts \<and> apart old new_parts
        \<and> prov_Rename E did par n p = (p', r) \<and> run_fine P new cfg B (snd (pv_store p')) \<longrightarrow>
        (case r of Inl _ \<Rightarrow> \<forall>qs. ns_view E p' qs = ns_view E p qs
         | Inr _ \<Rightarrow> (\<forall>qs. ns_view E p' (new_parts @ qs) = ns_view E p (old @ qs)) \<and> (\<forall>qs. ns_view E p' (old @ qs) = Inl ErrPath)
             \<and> (\<forall>qs. apart old qs \<longrightarrow> apart new_parts qs \<longrightarrow> ns_view E p' qs = ns_view E p qs)))"
proof -
  have sound: "blobs.sound p" using assms(1,2,6-8) by (auto simp: blobs.sound_def)
  show ?thesis unfolding Let_def ns_view_def assms(3,4)
  proof (intro conjI allI impI, goal_cases)
    case (1 parent ns req p' r)
    then show ?case using blobs.Create_effect [OF assms(3-5) sound, of parent ns req p' r] by (cases r) (simp_all add: case_prod_beta)
  next
    case (2 did ps p' r)
    then show ?case using blobs.Delete_effect [OF assms(3-5) sound, of did ps p' r] by (cases r) (simp_all add: case_prod_beta)
  next
    case (3 did par os o1 ns n p' r)
    then show ?case using blobs.Rename_effect [OF assms(3-5) sound, of did os o1 par ns n p' r] by (cases r) (simp_all add: case_prod_beta)
  qed
qed

end

text \<open>
  C9: creating, deleting and renaming change the paths they name and nothing else. On a provider whose
  namespace is intact over a sound disk store, in a run without collisions of addresses: a created
  item stands at its path, with an identifier for that path; a deleted path and everything below it
  is gone; a renamed item stands at the new path with everything below it, and the old path is gone
  (for two paths of which neither is above the other). Every other path stands for what it did, and
  when the call fails, at any point, every path does.
\<close>

theorem mutations_change_only_their_paths:
  fixes new :: rs_new and cfg :: config
  assumes "json_law J" and "pipeline_laws P new (cfg_Params cfg)" and "\<forall>d. length (HashOf P d) = idSize"
    and "disk_inv P s" and "ran (disk_abs P s) \<subseteq> B" and "ev_J E = J" and "ev_io E = logged_io (pipeline_io P new (disk_ops P) None)" and "ev_cfg E = cfg"
    and "pv_store p = ((s, rnd), [])" and "intact J (blob_stored P new (disk_abs P s)) (pv_root p)" and "ids_ok (pv_ids p)"
  shows "(\<forall>parent ns req p' r. let n = cr_Name req; ps = ns @ [n] in
        pathFor_id (pv_ids p) parent = Some (path_of ns) \<and> list_all name_ok ps \<and> list_all (js_utf8 J) ps \<and> (cr_IsDir req \<longrightarrow> dir_ok J (NewDir (cr_Meta req)))
        \<and> prov_CreateItem E parent req p = (p', r) \<and> run_fine P new cfg B (snd (pv_store p')) \<longrightarrow>
        (case r of Inl _ \<Rightarrow> \<forall>qs. ns_view E p' qs = ns_view E p qs
         | Inr it \<Rightarrow> ns_view E p' ps = Inr (it_Cap it) \<and> (rc_Kind (it_Cap it) = KindDir \<longleftrightarrow> cr_IsDir req)
             \<and> pathFor_id (pv_ids p') (it_ID it) = Some (path_of ps) \<and> (\<forall>qs. apart ps qs \<longrightarrow> ns_view E p' qs = ns_view E p qs)))
    \<and> (\<forall>did ps p' r. pathFor_id (pv_ids p) did = Some (path_of ps) \<and> ps \<noteq> [] \<and> list_all name_ok ps \<and> list_all (js_utf8 J) ps
        \<and> prov_DeleteItem E did p = (p', r) \<and> run_fine P new cfg B (snd (pv_store p')) \<longrightarrow>
        (case r of Inl _ \<Rightarrow> \<forall>qs. ns_view E p' qs = ns_view E p qs
         | Inr _ \<Rightarrow> (\<forall>qs. ns_view E p' (ps @ qs) = Inl ErrPath) \<and> (\<forall>qs. apart ps qs \<longrightarrow> ns_view E p' qs = ns_view E p qs)))
    \<and> (\<forall>did par os o1 ns n p' r. let old = os @ [o1]; new_parts = ns @ [n] in
        pathFor_id (pv_ids p) did = Some (path_of old) \<and> pathFor_id (pv_ids p) par = Some (path_of ns) \<and> list_all name_ok old \<and> list_all name_ok new_parts
        \<and> list_all (js_utf8 J) old \<and> list_all (js_utf8 J) new_parts \<and> apart old new_parts
        \<and> prov_Rename E did par n p = (p', r) \<and> run_fine P new cfg B (snd (pv_store p')) \<longrightarrow>
        (case r of Inl _ \<Rightarrow> \<forall>qs. ns_view E p' qs = ns_view E p qs
         | Inr _ \<Rightarrow> (\<forall>qs. ns_view E p' (new_parts @ qs) = ns_view E p (old @ qs)) \<and> (\<forall>qs. ns_view E p' (old @ qs) = Inl ErrPath)
             \<and> (\<forall>qs. apart old qs \<longrightarrow> apart new_parts qs \<longrightarrow> ns_view E p' qs = ns_view E p qs)))"
  by (rule namespace_store.mutations_ok [OF namespace_storeI [OF disk.content_store_axioms assms(1-3)] assms(4-11)])

theorem mutations_change_only_their_paths_witness:
  "\<exists>E (p :: ((disk_store \<times> bytes) \<times> (bytes \<times> bytes) list, root_pointer option) prov) p' c. ns_view E p [''a''] = Inr c
     \<and> prov_DeleteItem E ''i1'' p = (p', Inr ()) \<and> ns_view E p' [''a''] = Inl ErrPath"
proof -
  obtain s rnd root where r: "disk_inv demo_prims s" "ran (disk_abs demo_prims s) \<subseteq> {b. length b \<le> 28}"
    "intact demo_json (blob_stored demo_prims xor_new (disk_abs demo_prims s)) root"
    "LoadDir demo_json demo_io root ((s, rnd), []) = Inr demo_full" "chunkEntropy \<le> length rnd"
    by (rule demo_stored_dir [OF demo_encodings(2) [folded demo_full_def] demo_full_ok])
  obtain s' rnd' lg root' where g: "StoreDir demo_json demo_io demo_config (NewDir zero_metadata) ((s, rnd), []) = (((s', rnd'), lg), Inr root')"
    "run_fine demo_prims xor_new demo_config {b. length b \<le> 28} lg"
    using demo_rewritten [OF demo_encodings(1) r(1,2,5)] by (metis surj_pair)
  have "Remove ''a'' demo_full = (NewDir zero_metadata, True)" by (simp add: demo_full_def Remove_def Upsert_def NewDir_def)
  then have gr: "GraftRemove demo_json demo_io demo_config root ''a'' ((s, rnd), []) = (((s', rnd'), lg), Inr root')"
    using g(1) r(4) by (simp add: GraftRemove_def demo_path)
  define E where "E = \<lparr>ev_P = demo_prims, ev_J = demo_json, ev_io = demo_io, ev_cfg = demo_config, ev_signer = [7], ev_load = mem_root_Load, ev_save = mem_root_Save, ev_clock = 1\<rparr>"
  define i where "i = fst (idFor ''a'' newIdentity)"
  have one: "char_of (49 :: nat) = CHR ''1''" by code_simp
  have i: "ids_ok i" "pathFor_id i ''i1'' = Some ''a''"
    using idFor_spec(1) [OF ids_ok_new, of "''a''"] by (auto simp: i_def idFor_def newIdentity_def pathFor_id_def RootID_def FormatUint.simps Let_def one)
  define p where "p = \<lparr>pv_store = ((s, rnd), [] :: (bytes \<times> bytes) list), pv_roots = None :: root_pointer option, pv_ids = i, pv_root = root, pv_seq = 0\<rparr>"
  obtain p' where d: "prov_DeleteItem E ''i1'' p = (p', Inr ())" "pv_store p' = ((s', rnd'), lg)"
    using gr i(2) by (simp add: prov_DeleteItem_def E_def p_def prov_commit_def mem_root_Save_def Let_def)
  have e: "ev_J E = demo_json" "ev_io E = demo_io" "ev_cfg E = demo_config" "pv_store p = ((s, rnd), [])"
    "intact demo_json (blob_stored demo_prims xor_new (disk_abs demo_prims s)) (pv_root p)" "ids_ok (pv_ids p)"
    using r(3) i(1) by (simp_all add: E_def p_def)
  have k: "rc_Kind root = KindDir" using r(4) by (simp add: LoadDir_def getBlob_def split: if_splits)
  have "Lookup demo_full ''a'' = Some \<lparr>en_Name = ''a'', en_Cap = demo_child, en_Stat = zero_stat\<lparr>st_Kind := rc_Kind demo_child\<rparr>\<rparr>"
    by (simp add: Lookup_def demo_full_entries search_loop.simps)
  then have "ns_view E p [''a''] = Inr demo_child" using r(4) k by (simp add: ns_view_def E_def p_def)
  moreover have "ns_view E p' ([''a''] @ []) = Inl ErrPath"
  proof -
    have "pathFor_id (pv_ids p) ''i1'' = Some (path_of [''a'']) \<and> [''a''] \<noteq> [] \<and> list_all name_ok [''a''] \<and> list_all (js_utf8 demo_json) [''a'']
        \<and> prov_DeleteItem E ''i1'' p = (p', Inr ()) \<and> run_fine demo_prims xor_new demo_config {b. length b \<le> 28} (snd (pv_store p'))"
      using i(2) d g(2) demo_path(2) by (simp add: p_def name_ok_def)
    from mutations_change_only_their_paths [OF demo_json_law demo_laws demo_hash32 r(1,2) e, THEN conjunct2, THEN conjunct1, rule_format, OF this]
    show ?thesis by simp
  qed
  ultimately show ?thesis using d(1) by auto
qed

end
