(* ===== verification/Rekey.thy ===== *)
theory Rekey
  imports Provider_Effects
begin

text \<open>
  Key rotation of a subtree, \<^verbatim>\<open>src/internal/manifest/rekey.go\<close>: every blob at and below a path is stored again under fresh keys
  and the new subtree is grafted into a new root. The recursion has fuel; an abstract tree of what a capability
  holds states that rotation always returns and keeps the content.
\<close>

section \<open>Rotation\<close>

text \<open>\<^verbatim>\<open>pipeline.ReencryptFile\<close> as a loop over the blob calls of the pipeline, as \<^verbatim>\<open>StoreFile\<close> in theory \<open>Provider\<close>.\<close>

fun reencrypt_io :: "'s blob_io \<Rightarrow> config \<Rightarrow> chunk_ref list \<Rightarrow> 's \<Rightarrow> 's \<times> chunk_ref list res" where
  "reencrypt_io io cfg [] s = (s, Inr [])"
| "reencrypt_io io cfg (ref # refs) s = (case io_Load io s (cfg_Params cfg) ref of
     Inl e \<Rightarrow> (s, Inl e)
   | Inr plain \<Rightarrow> (case io_Store io s cfg plain of
       (s1, Inl e) \<Rightarrow> (s1, Inl e)
     | (s1, Inr r) \<Rightarrow> (case reencrypt_io io cfg refs s1 of (s2, Inl e) \<Rightarrow> (s2, Inl e) | (s2, Inr rs) \<Rightarrow> (s2, Inr (r # rs)))))"

definition ReencryptFile_io :: "'s blob_io \<Rightarrow> file_manifest \<Rightarrow> 's \<Rightarrow> 's \<times> file_manifest res" where
  "ReencryptFile_io io m s = (case reencrypt_io io (fm_Params m) (fm_Chunks m) s of
     (s1, Inl e) \<Rightarrow> (s1, Inl e) | (s1, Inr refs) \<Rightarrow> (s1, Inr (m\<lparr>fm_Chunks := refs\<rparr>)))"

lemma ReencryptFile_io_pipeline: "ReencryptFile_io (pipeline_io P new ops sp) m (s, rnd) = ReencryptFile P new ops sp m s rnd"
proof -
  have "reencrypt_io (pipeline_io P new ops sp) cfg refs (s, rnd) = reencrypt_chunks P new ops sp cfg refs s rnd" for cfg refs s rnd
    by (induction refs arbitrary: s rnd) (auto simp: pipeline_io_def StoreBlob_def LoadBlob_def split: prod.splits sum.splits)
  then show ?thesis by (simp add: ReencryptFile_io_def ReencryptFile_def)
qed

fun rekey_entries :: "(read_cap \<Rightarrow> 's \<Rightarrow> ('s \<times> read_cap res) option) \<Rightarrow> entry list \<Rightarrow> 's \<Rightarrow> ('s \<times> entry list res) option" where
  "rekey_entries rec [] s = Some (s, Inr [])"
| "rekey_entries rec (e # es) s = (case rec (en_Cap e) s of
     None \<Rightarrow> None
   | Some (s1, Inl err) \<Rightarrow> Some (s1, Inl err)
   | Some (s1, Inr child) \<Rightarrow> (case rekey_entries rec es s1 of
       None \<Rightarrow> None
     | Some (s2, Inl err) \<Rightarrow> Some (s2, Inl err)
     | Some (s2, Inr out) \<Rightarrow> Some (s2, Inr (\<lparr>en_Name = en_Name e, en_Cap = child, en_Stat = en_Stat e\<rparr> # out))))"

fun rekeyTree :: "nat \<Rightarrow> json_codec \<Rightarrow> 's blob_io \<Rightarrow> config \<Rightarrow> read_cap \<Rightarrow> 's \<Rightarrow> ('s \<times> read_cap res) option" where
  "rekeyTree 0 J io cfg c s = None"
| "rekeyTree (Suc n) J io cfg c s = (if rc_Kind c = KindFile then (case LoadFileManifest J io c s of
       Inl e \<Rightarrow> Some (s, Inl e)
     | Inr m \<Rightarrow> (case ReencryptFile_io io m s of (s1, Inl e) \<Rightarrow> Some (s1, Inl e) | (s1, Inr rm) \<Rightarrow> Some (StoreFileManifest J io cfg rm s1)))
     else if rc_Kind c = KindDir then (case LoadDir J io c s of
       Inl e \<Rightarrow> Some (s, Inl e)
     | Inr d \<Rightarrow> (case rekey_entries (rekeyTree n J io cfg) (dm_Entries d) s of
         None \<Rightarrow> None
       | Some (s1, Inl e) \<Rightarrow> Some (s1, Inl e)
       | Some (s1, Inr out) \<Rightarrow> Some (StoreDir J io cfg \<lparr>dm_Meta = dm_Meta d, dm_Entries = out\<rparr> s1)))
     else Some (s, Inl ErrKind))"

definition Rekey :: "nat \<Rightarrow> json_codec \<Rightarrow> 's blob_io \<Rightarrow> config \<Rightarrow> read_cap \<Rightarrow> string \<Rightarrow> 's \<Rightarrow> ('s \<times> read_cap res) option" where
  "Rekey n J io cfg root subpath s = (case splitPath subpath of
     Inl e \<Rightarrow> Some (s, Inl e)
   | Inr parts \<Rightarrow> (case Resolve J io s root subpath of
       Inl e \<Rightarrow> Some (s, Inl e)
     | Inr sub \<Rightarrow> (case rekeyTree n J io cfg sub s of
         None \<Rightarrow> None
       | Some (s1, Inl e) \<Rightarrow> Some (s1, Inl e)
       | Some (s1, Inr newSub) \<Rightarrow> if parts = [] then Some (s1, Inr newSub)
           else (case Resolve J io s1 root (path_of (butlast parts)) of
             Inl e \<Rightarrow> Some (s1, Inl e)
           | Inr parent \<Rightarrow> (case LoadDir J io parent s1 of
               Inl e \<Rightarrow> Some (s1, Inl e)
             | Inr pd \<Rightarrow> (case Lookup pd (last parts) of
                 None \<Rightarrow> Some (s1, Inl ErrPath)
               | Some e \<Rightarrow> Some (Graft J io cfg root subpath newSub (en_Stat e) s1)))))))"

section \<open>What a capability holds\<close>

text \<open>A stored tree: file manifests without their chunk list but with the plaintext of the chunks, directories with their entries.\<close>

datatype tree = TFile file_manifest "bytes list" | TDir metadata "(string \<times> stat_cache \<times> tree) list"

primrec height :: "tree \<Rightarrow> nat" where
  "height (TFile m xs) = 0"
| "height (TDir meta kids) = Suc (Max (insert 0 (set (map (\<lambda>(_, _, h). h) (map (map_prod id (map_prod id height)) kids)))))"

inductive holds :: "json_codec \<Rightarrow> config \<Rightarrow> (read_cap \<Rightarrow> bytes \<Rightarrow> bool) \<Rightarrow> read_cap \<Rightarrow> tree \<Rightarrow> bool" for J cfg st where
  leaf: "rc_Kind c = KindFile \<Longrightarrow> st c (EncodeFileManifest J m) \<Longrightarrow> file_ok_json J m \<Longrightarrow> fm_Params m = cfg
    \<Longrightarrow> list_all2 (\<lambda>r x. st (capFromRef KindFile r (cfg_Params cfg)) x) (fm_Chunks m) xs \<Longrightarrow> holds J cfg st c (TFile (m\<lparr>fm_Chunks := []\<rparr>) xs)"
| dir: "rc_Kind c = KindDir \<Longrightarrow> st c (EncodeDir J d) \<Longrightarrow> dir_ok J d
    \<Longrightarrow> list_all2 (\<lambda>e k. en_Name e = fst k \<and> en_Stat e = fst (snd k) \<and> holds J cfg st (en_Cap e) (snd (snd k))) (dm_Entries d) kids
    \<Longrightarrow> holds J cfg st c (TDir (dm_Meta d) kids)"

inductive_cases holds_TFileE: "holds J cfg st c (TFile m xs)"
inductive_cases holds_TDirE: "holds J cfg st c (TDir meta kids)"

lemma holds_mono:
  assumes "holds J cfg st c t" and "\<forall>c x. st c x \<longrightarrow> st' c x"
  shows "holds J cfg st' c t"
  using assms(1)
proof (induction rule: holds.induct)
  case (leaf c m xs)
  then show ?case using assms(2) by (intro holds.leaf) (auto elim: list_all2_mono)
next
  case (dir c d kids)
  then show ?case using assms(2) by (intro holds.dir) (auto elim!: list_all2_mono)
qed

lemma height_kid:
  assumes "k \<in> set kids" shows "height (snd (snd k)) < height (TDir meta kids)"
proof -
  have "(\<lambda>(_, _, h). h) (map_prod id (map_prod id height) k) \<in> set (map (\<lambda>(_, _, h). h) (map (map_prod id (map_prod id height)) kids))"
    using assms by (simp only: set_map) (intro imageI)
  moreover have "(\<lambda>(_, _, h). h) (map_prod id (map_prod id height) k) = height (snd (snd k))" by (auto simp: map_prod_def split: prod.split)
  ultimately have "height (snd (snd k)) \<in> set (map (\<lambda>(_, _, h). h) (map (map_prod id (map_prod id height)) kids))" by simp
  then show ?thesis by (simp only: height.simps) (meson List.finite_set Max_ge finite.insertI insertCI le_imp_less_Suc)
qed

lemma holds_intact: "holds J cfg st c t \<Longrightarrow> intact J st c"
proof (induction rule: holds.induct)
  case (leaf c m xs)
  then show ?case by (intro intact.leaf) (simp add: KindFile_def KindDir_def)
next
  case (dir c d kids)
  then show ?case by (intro intact.dir[of c st J d]) (auto simp: list_all2_conv_all_nth in_set_conv_nth)
qed

context blob_store
begin

lemma reencrypt_ok:
  assumes "inv s" and "list_all2 (\<lambda>r x. stored s (capFromRef KindFile r (cfg_Params cfg)) x) refs xs" and "reencrypt_io io cfg refs s = (s', r)"
  shows "later s s' \<and> (\<forall>rs. r = Inr rs \<longrightarrow> fine s' \<longrightarrow> list_all2 (\<lambda>r x. stored s' (capFromRef KindFile r (cfg_Params cfg)) x) rs xs
    \<and> list_all (\<lambda>r. cap_ok (capFromRef KindFile r (cfg_Params cfg))) rs)"
  using assms
proof (induction refs arbitrary: s s' r xs)
  case Nil
  then show ?case using later_refl by auto
next
  case (Cons ref refs)
  obtain x ys where xs: "xs = x # ys" "stored s (capFromRef KindFile ref (cfg_Params cfg)) x"
    "list_all2 (\<lambda>r x. stored s (capFromRef KindFile r (cfg_Params cfg)) x) refs ys" using Cons.prems(2) by (auto simp: list_all2_Cons1)
  have l: "io_Load io s (cfg_Params cfg) ref = Inr x" using load[OF Cons.prems(1) xs(2)] by simp
  obtain s1 q where st: "io_Store io s cfg x = (s1, q)" by fastforce
  have L1: "later s s1" using store[OF Cons.prems(1) st] by (simp add: later_def)
  show ?case
  proof (cases q)
    case (Inl e)
    then show ?thesis using Cons.prems(3) l st L1 by auto
  next
    case (Inr ref')
    obtain s2 r2 where rec: "reencrypt_io io cfg refs s1 = (s2, r2)" by fastforce
    have "list_all2 (\<lambda>r x. stored s1 (capFromRef KindFile r (cfg_Params cfg)) x) refs ys"
      using xs(3) L1 by (auto simp: later_def elim: list_all2_mono)
    from Cons.IH[OF _ this rec] have IH: "later s1 s2" "\<And>rs. r2 = Inr rs \<Longrightarrow> fine s2 \<Longrightarrow>
        list_all2 (\<lambda>r x. stored s2 (capFromRef KindFile r (cfg_Params cfg)) x) rs ys \<and> list_all (\<lambda>r. cap_ok (capFromRef KindFile r (cfg_Params cfg))) rs"
      using L1 by (auto simp: later_def)
    have eq: "s' = s2" "r = (case r2 of Inl e \<Rightarrow> Inl e | Inr rs \<Rightarrow> Inr (ref' # rs))" using Cons.prems(3) l st Inr rec by (auto split: sum.splits)
    have "fine s1 \<Longrightarrow> stored s1 (capFromRef KindFile ref' (cfg_Params cfg)) x \<and> cap_ok (capFromRef KindFile ref' (cfg_Params cfg))"
      using stored_new[OF Cons.prems(1)] st Inr by blast
    then show ?thesis using eq IH L1 later_trans[OF L1 IH(1)] xs(1) by (auto simp: later_def split: sum.splits)
  qed
qed

lemma putBlob_new:
  assumes "inv s" and "putBlob io cfg kind x s = (s', r)"
  shows "later s s' \<and> (\<forall>c. r = Inr c \<longrightarrow> fine s' \<longrightarrow> stored s' c x \<and> cap_ok c \<and> rc_Kind c = kind)"
  using assms(2) store[OF assms(1)] stored_new[OF assms(1)] by (auto simp: putBlob_def later_def split: prod.splits sum.splits)

lemma rekey_file:
  assumes "inv s" and "holds J cfg (stored s) c (TFile m0 xs)"
  shows "\<exists>s' r. rekeyTree (Suc n) J io cfg c s = Some (s', r) \<and> later s s'
    \<and> (\<forall>c'. r = Inr c' \<longrightarrow> fine s' \<longrightarrow> holds J cfg (stored s') c' (TFile m0 xs) \<and> cap_ok c' \<and> rc_Kind c' = rc_Kind c)"
proof -
  obtain m where 1: "m0 = m\<lparr>fm_Chunks := []\<rparr>" "rc_Kind c = KindFile" "stored s c (EncodeFileManifest J m)" "file_ok_json J m" "fm_Params m = cfg"
    "list_all2 (\<lambda>r x. stored s (capFromRef KindFile r (cfg_Params cfg)) x) (fm_Chunks m) xs"
    using assms(2) by (elim holds_TFileE) blast
  have lm: "LoadFileManifest J io c s = Inr m"
    using load[OF assms(1) 1(3)] 1(2,4) DecodeFileManifest_Encode[OF json] by (simp add: LoadFileManifest_def getBlob_def)
  obtain s1 q where re: "reencrypt_io io cfg (fm_Chunks m) s = (s1, q)" by fastforce
  note R = reencrypt_ok[OF assms(1) 1(6) re]
  show ?thesis
  proof (cases q)
    case (Inl e)
    then show ?thesis using R lm re 1(2,5) by (simp add: ReencryptFile_io_def)
  next
    case (Inr rs)
    let ?m = "m\<lparr>fm_Chunks := rs\<rparr>"
    obtain s2 p where st: "putBlob io cfg KindFile (EncodeFileManifest J ?m) s1 = (s2, p)" by fastforce
    have inv1: "inv s1" using R by (simp add: later_def)
    note N = putBlob_new[OF inv1 st]
    have L: "later s s2" using R N later_trans by blast
    have run: "rekeyTree (Suc n) J io cfg c s = Some (s2, p)" using lm re 1(2,5) Inr st by (simp add: ReencryptFile_io_def StoreFileManifest_def)
    have "holds J cfg (stored s2) c' (TFile m0 xs) \<and> cap_ok c' \<and> rc_Kind c' = KindFile" if p: "p = Inr c'" and f: "fine s2" for c'
    proof -
      have f1: "fine s1" using N f by (simp add: later_def)
      have a: "list_all2 (\<lambda>r x. stored s2 (capFromRef KindFile r (cfg_Params cfg)) x) rs xs"
        using R Inr f1 N by (auto simp: later_def elim: list_all2_mono)
      have "length rs = length (fm_Chunks m)" using a 1(6) by (simp add: list_all2_lengthD)
      then have ok: "file_ok_json J ?m" using 1(4) R Inr f1 by (auto simp: file_ok_json_def list_all_iff cap_ok_def capFromRef_def)
      have "holds J cfg (stored s2) c' (TFile (?m\<lparr>fm_Chunks := []\<rparr>) xs)"
        by (rule holds.leaf) (use N p f ok a 1(5) in simp_all)
      then show ?thesis using N p f 1(1) by simp
    qed
    then show ?thesis unfolding run 1(2) using L by (intro exI[of _ s2] exI[of _ p]) simp
  qed
qed

text \<open>A step on a subtree: it answers, keeps what is stored and, when it succeeds, gives a capability that holds the same tree.\<close>

definition rekeys :: "(read_cap \<Rightarrow> 's \<Rightarrow> ('s \<times> read_cap res) option) \<Rightarrow> tree \<Rightarrow> bool" where
  "rekeys rec t \<longleftrightarrow> (\<forall>s c. inv s \<longrightarrow> holds J cfg (stored s) c t \<longrightarrow> (\<exists>s' r. rec c s = Some (s', r) \<and> later s s'
     \<and> (\<forall>c'. r = Inr c' \<longrightarrow> fine s' \<longrightarrow> holds J cfg (stored s') c' t \<and> cap_ok c' \<and> rc_Kind c' = rc_Kind c)))"

abbreviation entry_holds :: "'s \<Rightarrow> entry \<Rightarrow> string \<times> stat_cache \<times> tree \<Rightarrow> bool" where
  "entry_holds s e k \<equiv> en_Name e = fst k \<and> en_Stat e = fst (snd k) \<and> holds J cfg (stored s) (en_Cap e) (snd (snd k))"

lemma holds_later: "holds J cfg (stored s) c t \<Longrightarrow> later s s' \<Longrightarrow> holds J cfg (stored s') c t"
  by (erule holds_mono) (simp add: later_def)

lemma rekey_entries_ok:
  assumes "inv s" and "list_all2 (entry_holds s) es kids" and "\<forall>k \<in> set kids. rekeys rec (snd (snd k))"
  shows "\<exists>s' r. rekey_entries rec es s = Some (s', r) \<and> later s s'
    \<and> (\<forall>out. r = Inr out \<longrightarrow> fine s' \<longrightarrow> list_all2 (entry_holds s') out kids \<and> list_all (\<lambda>e. cap_ok (en_Cap e)) out)"
  using assms
proof (induction es arbitrary: s kids)
  case Nil
  then show ?case using later_refl by auto
next
  case (Cons e es)
  obtain k ks where kids: "kids = k # ks" "entry_holds s e k" "list_all2 (entry_holds s) es ks" using Cons.prems(2) by (auto simp: list_all2_Cons1)
  obtain s1 q where 1: "rec (en_Cap e) s = Some (s1, q)" "later s s1"
    "\<And>c'. q = Inr c' \<Longrightarrow> fine s1 \<Longrightarrow> holds J cfg (stored s1) c' (snd (snd k)) \<and> cap_ok c'"
    using Cons.prems(1,3) kids(1,2) unfolding rekeys_def by (metis list.set_intros(1))
  show ?case
  proof (cases q)
    case (Inl err)
    then show ?thesis using 1 by simp
  next
    case (Inr child)
    have "list_all2 (entry_holds s1) es ks" using kids(3) holds_later[OF _ 1(2)] by (auto elim: list_all2_mono)
    from Cons.IH[OF _ this] obtain s2 r2 where 2: "rekey_entries rec es s1 = Some (s2, r2)" "later s1 s2"
      "\<And>out. r2 = Inr out \<Longrightarrow> fine s2 \<Longrightarrow> list_all2 (entry_holds s2) out ks \<and> list_all (\<lambda>e. cap_ok (en_Cap e)) out"
      using 1(2) Cons.prems(3) kids(1) by (auto simp: later_def)
    have L: "later s s2" by (rule later_trans[OF 1(2) 2(2)])
    show ?thesis
    proof (cases r2)
      case (Inl err)
      then show ?thesis using 1 2 L Inr by simp
    next
      case (Inr out)
      have "fine s2 \<Longrightarrow> fine s1" using 2(2) by (simp add: later_def)
      then have "fine s2 \<Longrightarrow> holds J cfg (stored s2) child (snd (snd k)) \<and> cap_ok child" using 1(3) \<open>q = Inr child\<close> holds_later[OF _ 2(2)] by blast
      then show ?thesis using 1(1) 2 L Inr \<open>q = Inr child\<close> kids by simp
    qed
  qed
qed

lemma rekeyTree_ok: "height t < n \<Longrightarrow> rekeys (rekeyTree n J io cfg) t"
proof (induction n arbitrary: t)
  case (Suc n)
  show ?case
  proof (cases t)
    case (TFile m0 xs)
    then show ?thesis using rekey_file by (simp add: rekeys_def del: rekeyTree.simps)
  next
    case (TDir meta kids)
    show ?thesis unfolding rekeys_def
    proof (intro allI impI)
      fix s c assume inv: "inv s" and h: "holds J cfg (stored s) c t"
      obtain d where d: "meta = dm_Meta d" "rc_Kind c = KindDir" "stored s c (EncodeDir J d)" "dir_ok J d" "list_all2 (entry_holds s) (dm_Entries d) kids"
        using h unfolding TDir by (elim holds_TDirE) blast
      have ld: "LoadDir J io c s = Inr d" by (rule LoadDir_stored[OF inv d(3,4,2)])
      have "\<forall>k \<in> set kids. rekeys (rekeyTree n J io cfg) (snd (snd k))" using Suc height_kid[of _ kids meta] TDir by fastforce
      from rekey_entries_ok[OF inv d(5) this] obtain s1 q where 1: "rekey_entries (rekeyTree n J io cfg) (dm_Entries d) s = Some (s1, q)" "later s s1"
        "\<And>out. q = Inr out \<Longrightarrow> fine s1 \<Longrightarrow> list_all2 (entry_holds s1) out kids \<and> list_all (\<lambda>e. cap_ok (en_Cap e)) out" by blast
      have kf: "KindDir \<noteq> KindFile" by (simp add: KindDir_def KindFile_def)
      show "\<exists>s' r. rekeyTree (Suc n) J io cfg c s = Some (s', r) \<and> later s s'
          \<and> (\<forall>c'. r = Inr c' \<longrightarrow> fine s' \<longrightarrow> holds J cfg (stored s') c' t \<and> cap_ok c' \<and> rc_Kind c' = rc_Kind c)"
      proof (cases q)
        case (Inl e)
        then show ?thesis using 1 ld d(2) kf by simp
      next
        case (Inr out)
        let ?d = "\<lparr>dm_Meta = dm_Meta d, dm_Entries = out\<rparr>"
        obtain s2 p where st: "StoreDir J io cfg ?d s1 = (s2, p)" by fastforce
        have inv1: "inv s1" using 1(2) by (simp add: later_def)
        note N = putBlob_new[OF inv1 st[unfolded StoreDir_def]]
        have run: "rekeyTree (Suc n) J io cfg c s = Some (s2, p)" using 1(1) ld d(2) kf Inr st by simp
        have "holds J cfg (stored s2) c' t \<and> cap_ok c' \<and> rc_Kind c' = KindDir" if p: "p = Inr c'" and f: "fine s2" for c'
        proof -
          have f1: "fine s1" using N f by (simp add: later_def)
          have o: "list_all2 (entry_holds s1) out kids" "list_all (\<lambda>e. cap_ok (en_Cap e)) out" using 1(3)[OF Inr f1] by blast+
          have names: "map en_Name out = map en_Name (dm_Entries d)"
            using o(1) d(5) by (auto simp: list_all2_conv_all_nth intro!: nth_equalityI)
          have "list_all (js_utf8 J) (map en_Name out)" using d(4) unfolding names by (simp add: dir_ok_def list_all_iff)
          then have "\<forall>e \<in> set out. js_utf8 J (en_Name e)" by (simp add: list_all_iff)
          then have ok: "dir_ok J ?d" using d(4) o(2) names by (simp add: dir_ok_def list_all_iff)
          have "holds J cfg (stored s2) c' (TDir (dm_Meta ?d) kids)"
            by (rule holds.dir) (use N p f ok o(1) holds_later[of s1 _ _ s2] in \<open>auto elim!: list_all2_mono\<close>)
          then show ?thesis using N p f d(1) TDir by simp
        qed
        then show ?thesis unfolding run d(2) using later_trans[OF 1(2)] N by (intro exI[of _ s2] exI[of _ p]) simp
      qed
    qed
  qed
qed simp

end

section \<open>Rotation at a path\<close>

lemma clean_parts_name_ok: "list_all name_ok acc \<Longrightarrow> \<forall>w \<in> set ws. CHR ''/'' \<notin> set w \<Longrightarrow> list_all name_ok (clean_parts acc ws)"
proof (induction acc ws rule: clean_parts.induct)
  case (2 acc w ws)
  have "list_all name_ok (tl acc)" using "2.prems"(1) by (cases acc) simp_all
  moreover have "w \<noteq> [] \<Longrightarrow> w \<noteq> ''.'' \<Longrightarrow> w \<noteq> ''..'' \<Longrightarrow> name_ok w" using "2.prems"(2) by (simp add: name_ok_def)
  ultimately show ?case using 2 by simp
qed (simp add: list_all_iff)

lemma split_slash_no_slash: "\<forall>w \<in> set (split_slash p). CHR ''/'' \<notin> set w"
  by (induction p) (auto split: list.splits)

lemma splitPath_name_ok: "splitPath p = Inr ps \<Longrightarrow> list_all name_ok ps"
  using clean_parts_name_ok[of "[]", OF _ split_slash_no_slash] by (auto simp: splitPath_def Let_def split: if_splits)

context blob_store
begin

lemma Rekey_ok:
  assumes "inv s" and "intact J (stored s) root" and "splitPath p = Inr ps" and "list_all (js_utf8 J) ps"
    and "resolve_parts J io s root ps = Inr c" and "holds J cfg (stored s) c t" and "height t < n"
  shows "\<exists>s' r. Rekey n J io cfg root p s = Some (s', r) \<and> later s s'
    \<and> (\<forall>root'. r = Inr root' \<longrightarrow> fine s' \<longrightarrow> (\<exists>c'. resolve_parts J io s' root' ps = Inr c' \<and> holds J cfg (stored s') c' t)
        \<and> (\<forall>qs. apart ps qs \<longrightarrow> resolve_parts J io s' root' qs = resolve_parts J io s root qs)
        \<and> (\<forall>qs. resolve_parts J io s' root qs = resolve_parts J io s root qs))"
proof -
  obtain s1 q where 1: "rekeyTree n J io cfg c s = Some (s1, q)" "later s s1"
    "\<And>c'. q = Inr c' \<Longrightarrow> fine s1 \<Longrightarrow> holds J cfg (stored s1) c' t \<and> cap_ok c'"
    using rekeyTree_ok[OF assms(7)] assms(1,6) unfolding rekeys_def by blast
  have res: "Resolve J io s root p = Inr c" using assms(3,5) by (simp add: Resolve_def)
  have old: "resolve_parts J io s' root qs = resolve_parts J io s root qs" if "later s s'" for s' qs by (rule resolve_later[OF assms(1) that assms(2)])
  show ?thesis
  proof (cases q)
    case (Inl e)
    then show ?thesis using 1 assms(3) res by (simp add: Rekey_def)
  next
    case (Inr newSub)
    show ?thesis
    proof (cases "ps = []")
      case True
      then show ?thesis using 1 Inr assms(3) res old[OF 1(2)] by (simp add: Rekey_def apart_Nil)
    next
      case False
      let ?graft = "\<lambda>e. Graft J io cfg root p newSub e s1"
      have inv1: "inv s1" using 1(2) by (simp add: later_def)
      have i1: "intact J (stored s1) root" by (rule intact_later[OF assms(2) 1(2)])
      have "(\<exists>e. Rekey n J io cfg root p s = Some (s1, Inl e)) \<or> (\<exists>e. Rekey n J io cfg root p s = Some (?graft e))"
        using 1(1) Inr assms(3) res False by (simp add: Rekey_def split: sum.split option.split) auto
      then consider e where "Rekey n J io cfg root p s = Some (s1, Inl e)" | e where "Rekey n J io cfg root p s = Some (?graft e)" by blast
      then show ?thesis
      proof cases
        case 1
        then show ?thesis using \<open>later s s1\<close> by simp
      next
        case (2 e)
        obtain s2 g where g: "?graft e = (s2, g)" by fastforce
        have gr: "graft J io cfg root ps newSub e s1 = (s2, g)" using g assms(3) False by (simp add: Graft_def)
        have L2: "later s1 s2" by (rule graft_later[OF inv1 gr])
        have L: "later s s2" by (rule later_trans[OF 1(2) L2])
        have "(\<exists>c'. resolve_parts J io s2 root' ps = Inr c' \<and> holds J cfg (stored s2) c' t)
            \<and> (\<forall>qs. apart ps qs \<longrightarrow> resolve_parts J io s2 root' qs = resolve_parts J io s root qs)" if r: "g = Inr root'" and f: "fine s2" for root'
        proof -
          have n: "holds J cfg (stored s1) newSub t" "cap_ok newSub" using 1(3)[OF Inr] L2 f by (auto simp: later_def)
          note G = graft_new[OF inv1 i1 holds_intact[OF n(1)] n(2) assms(4) gr[unfolded r] f]
          have "resolve_parts J io s2 root' (ps @ []) = Inr newSub" using G by (simp only: resolve_parts.simps)
          then show ?thesis using G holds_later[OF n(1) L2] old[OF 1(2)] by simp
        qed
        then show ?thesis unfolding 2 g using L old[OF L] by (intro exI[of _ s2] exI[of _ g]) simp
      qed
    qed
  qed
qed

end

context blob_store
begin

text \<open>What a held file reads as.\<close>

lemma holds_reads:
  assumes "inv s" and "holds J cfg (stored s) c (TFile m0 xs)"
  shows "\<exists>m. LoadFileManifest J io c s = Inr m \<and> m\<lparr>fm_Chunks := []\<rparr> = m0 \<and> LoadFile_io io m s = (concat xs, Inr ())"
proof -
  obtain m where m: "m0 = m\<lparr>fm_Chunks := []\<rparr>" "rc_Kind c = KindFile" "stored s c (EncodeFileManifest J m)" "file_ok_json J m" "fm_Params m = cfg"
    "list_all2 (\<lambda>r x. stored s (capFromRef KindFile r (cfg_Params cfg)) x) (fm_Chunks m) xs"
    using assms(2) by (elim holds_TFileE) blast
  have "load_chunks_io io (cfg_Params cfg) refs s w = (w @ concat xs, Inr ())"
    if "list_all2 (\<lambda>r x. stored s (capFromRef KindFile r (cfg_Params cfg)) x) refs xs" for refs xs w
    using that
  proof (induction refs arbitrary: xs w)
    case (Cons ref refs)
    then obtain x ys where x: "xs = x # ys" "stored s (capFromRef KindFile ref (cfg_Params cfg)) x"
      "list_all2 (\<lambda>r x. stored s (capFromRef KindFile r (cfg_Params cfg)) x) refs ys" by (auto simp: list_all2_Cons1)
    have "io_Load io s (cfg_Params cfg) ref = Inr x" using load[OF assms(1) x(2)] by simp
    then show ?case using Cons.IH[OF x(3)] x(1) by simp
  qed simp
  from this[OF m(6), of "[]"] show ?thesis
    using m load[OF assms(1) m(3)] DecodeFileManifest_Encode[OF json m(4)] by (simp add: LoadFile_io_def LoadFileManifest_def getBlob_def)
qed

end

context namespace_store
begin

lemma Rekey_store_ok:
  assumes "invar s" and "ran (abs s) \<subseteq> B" and "intact J (blob_stored P new (abs s)) root" and "splitPath p = Inr ps" and "list_all (js_utf8 J) ps"
    and "resolve_parts J nio ((s, rnd), []) root ps = Inr c" and "holds J cfg (blob_stored P new (abs s)) c t" and "height t < n"
  shows "\<exists>s' rnd' lg r. Rekey n J nio cfg root p ((s, rnd), []) = Some (((s', rnd'), lg), r) \<and> invar s'
    \<and> (\<forall>root'. r = Inr root' \<longrightarrow> run_fine P new cfg B lg \<longrightarrow>
        (\<exists>c'. resolve_parts J nio ((s', rnd'), lg) root' ps = Inr c' \<and> holds J cfg (blob_stored P new (abs s')) c' t)
      \<and> (\<forall>qs. apart ps qs \<longrightarrow> resolve_parts J nio ((s', rnd'), lg) root' qs = resolve_parts J nio ((s, rnd), []) root qs)
      \<and> (\<forall>qs. resolve_parts J nio ((s', rnd'), lg) root qs = resolve_parts J nio ((s, rnd), []) root qs))"
proof -
  let ?st = "((s, rnd), [] :: (bytes \<times> bytes) list)"
  have inv: "invar s \<and> ran (abs s) \<subseteq> B \<union> written P new cfg []" using assms(1,2) by auto
  note R = blobs.Rekey_ok[of ?st root p ps c t n, simplified, OF inv assms(3-8)]
  then show ?thesis unfolding blobs.later_def by (clarsimp split: prod.splits)
qed

end

section \<open>Properties\<close>

text \<open>
  C15: rotating the keys of a subtree always returns and keeps its content. On a sound disk store, for an intact namespace whose
  path \<open>p\<close> holds a stored tree \<open>t\<close>, with more fuel than the height of \<open>t\<close>: rotation returns with the store still sound; when it succeeds, in a run without
  collisions of addresses, the path of the new root holds the same tree (the same names, attributes, file manifests
  and plaintext), every path that diverges from it resolves as before, and so does every path of the old root.
\<close>

theorem Rekey_keeps_content:
  fixes new :: rs_new and cfg :: config
  defines "io \<equiv> \<lambda>P. logged_io (pipeline_io P new (disk_ops P) None)"
  assumes "disk_inv P s" and "ran (disk_abs P s) \<subseteq> B" and "json_law J" and "pipeline_laws P new (cfg_Params cfg)" and "\<forall>d. length (HashOf P d) = idSize"
    and "intact J (blob_stored P new (disk_abs P s)) root" and "splitPath p = Inr ps" and "list_all (js_utf8 J) ps"
    and "resolve_parts J (io P) ((s, rnd), []) root ps = Inr c" and "holds J cfg (blob_stored P new (disk_abs P s)) c t" and "height t < n"
  shows "\<exists>s' rnd' lg r. Rekey n J (io P) cfg root p ((s, rnd), []) = Some (((s', rnd'), lg), r) \<and> disk_inv P s'
    \<and> (\<forall>root'. r = Inr root' \<longrightarrow> run_fine P new cfg B lg \<longrightarrow>
        (\<exists>c'. resolve_parts J (io P) ((s', rnd'), lg) root' ps = Inr c' \<and> holds J cfg (blob_stored P new (disk_abs P s')) c' t)
      \<and> (\<forall>qs. apart ps qs \<longrightarrow> resolve_parts J (io P) ((s', rnd'), lg) root' qs = resolve_parts J (io P) ((s, rnd), []) root qs)
      \<and> (\<forall>qs. resolve_parts J (io P) ((s', rnd'), lg) root qs = resolve_parts J (io P) ((s, rnd), []) root qs))"
  unfolding io_def
  by (rule namespace_store.Rekey_store_ok[OF namespace_storeI[OF disk.content_store_axioms assms(4-6)] assms(2,3,7-9) assms(10)[unfolded io_def] assms(11,12)])

theorem Rekey_keeps_content_witness:
  "\<exists>s rnd root c s' rnd' lg root'. resolve_parts demo_json demo_io ((s, rnd), []) root [] = Inr c
     \<and> Rekey 2 demo_json demo_io demo_config root [] ((s, rnd), []) = Some (((s', rnd'), lg), Inr root')
     \<and> holds demo_json demo_config (blob_stored demo_prims xor_new (disk_abs demo_prims s')) root' (TDir zero_metadata [])"
proof -
  obtain s rnd root where r: "disk_inv demo_prims s" "ran (disk_abs demo_prims s) \<subseteq> {b. length b \<le> 28}"
    "intact demo_json (blob_stored demo_prims xor_new (disk_abs demo_prims s)) root"
    "LoadDir demo_json demo_io root ((s, rnd), []) = Inr (NewDir zero_metadata)" "chunkEntropy \<le> length rnd"
    by (rule demo_stored_dir [OF demo_encodings(1) demo_ns.blobs.NewDir_ok]) (auto simp: NewDir_def)
  obtain st lg root' where g: "StoreDir demo_json demo_io demo_config (NewDir zero_metadata) ((s, rnd), []) = ((st, lg), Inr root')"
    "run_fine demo_prims xor_new demo_config {b. length b \<le> 28} lg"
    by (rule demo_rewritten [OF demo_encodings(1) r(1,2,5)])
  have k: "rc_Kind root = KindDir" "KindDir \<noteq> KindFile" using r(4) by (auto simp: LoadDir_def getBlob_def KindDir_def KindFile_def split: if_splits)
  have sp: "splitPath [] = Inr []" "list_all (js_utf8 demo_json) []" by (simp_all add: splitPath_def)
  have h: "holds demo_json demo_config (blob_stored demo_prims xor_new (disk_abs demo_prims s)) root (TDir (dm_Meta (NewDir zero_metadata)) [])"
    using demo_ns.blobs.intact_LoadDir[of "((s, rnd), [])" root] r k by (intro holds.dir) (auto simp: NewDir_def)
  have run: "Rekey 2 demo_json demo_io demo_config root [] ((s, rnd), []) = Some ((st, lg), Inr root')"
    using g(1) r(4) k by (simp add: Rekey_def Resolve_def sp numeral_2_eq_2 NewDir_def)
  obtain c where res: "resolve_parts demo_json demo_io ((s, rnd), []) root [] = Inr c" "c = root" by simp
  note K = Rekey_keeps_content[OF r(1,2) demo_json_law demo_laws demo_hash32 r(3) sp, of rnd c "TDir (dm_Meta (NewDir zero_metadata)) []" 2]
  obtain s' rnd' where st: "st = (s', rnd')" by fastforce
  have "holds demo_json demo_config (blob_stored demo_prims xor_new (disk_abs demo_prims s')) root' (TDir zero_metadata [])"
    using K res h run g(2) st by (auto simp: NewDir_def)
  then show ?thesis using run st res(1) by blast
qed

end
