(* ===== verification/Fsmeta.thy ===== *)
theory Fsmeta
  imports Provider
begin

text \<open>
  A local directory tree and \<^verbatim>\<open>src/internal/fsmeta/fsmeta.go\<close> on it (with the Linux half, \<^verbatim>\<open>fsmeta_linux.go\<close>): capturing
  the attributes of a file and putting them back. The tree is a list of nodes under their slash-separated paths below the
  root, which itself always exists and has the empty path. Every system call may fail: \<open>fe_fault\<close> says which.
\<close>

datatype syscall = SLstat | SReadlink | SReaddir | SOpen | SRead | SCreate | SWrite | SClose | SMkdir | SRemove | SRemoveAll
  | SSymlink | SChmod | SChtimes | SLchown | SListxattr | SGetxattr | SSetxattr | SRename | SContext

record fs_node =
  fn_Mode :: "32 word"
  fn_Uid :: "32 word"
  fn_Gid :: "32 word"
  fn_ModTimeNS :: "64 word"
  fn_AccessTimeNS :: "64 word"
  fn_ChangeTimeNS :: "64 word"
  fn_Target :: string
  fn_Xattr :: "(string \<times> bytes) list"
  fn_Data :: bytes

type_synonym fs = "(string \<times> fs_node) list"

text \<open>
  The environment: which calls fail, the time, the type table of \<^verbatim>\<open>mime\<close>, the attributes of new files, where a symbolic
  link leads, and which paths a failing \<^verbatim>\<open>RemoveAll\<close> leaves behind.
\<close>

record fs_env =
  fe_fault :: "syscall \<Rightarrow> string \<Rightarrow> bool"
  fe_now :: "64 word"
  fe_mime :: "string \<Rightarrow> string"
  fe_new :: "32 word \<Rightarrow> fs_node"
  fe_follow :: "string \<Rightarrow> string"
  fe_keep :: "string \<Rightarrow> bool"

definition node_IsDir :: "fs_node \<Rightarrow> bool" where
  "node_IsDir nd \<longleftrightarrow> fn_Mode nd AND ModeDir \<noteq> 0"

definition node_IsSymlink :: "fs_node \<Rightarrow> bool" where
  "node_IsSymlink nd \<longleftrightarrow> fn_Mode nd AND ModeSymlink \<noteq> 0"

definition below :: "string \<Rightarrow> string \<Rightarrow> bool" where
  "below p q \<longleftrightarrow> q = p \<or> prefix (p @ ''/'') q"

section \<open>System calls\<close>

definition is_dir_at :: "fs \<Rightarrow> string \<Rightarrow> bool" where
  "is_dir_at fs p \<longleftrightarrow> p = [] \<or> (case map_of fs p of None \<Rightarrow> False | Some nd \<Rightarrow> node_IsDir nd)"

definition Lstat :: "fs_env \<Rightarrow> fs \<Rightarrow> string \<Rightarrow> fs_node res" where
  "Lstat V fs p = (if fe_fault V SLstat p then Inl ErrIO else case map_of fs p of None \<Rightarrow> Inl ErrNotFound | Some nd \<Rightarrow> Inr nd)"

definition path_prefixes :: "string \<Rightarrow> string list" where
  "path_prefixes p = (if p = [] then [] else map (\<lambda>i. take i p) (filter (\<lambda>i. p ! i = CHR ''/'') [0..<length p]) @ [p])"

fun mkdir_each :: "fs_env \<Rightarrow> string list \<Rightarrow> fs \<Rightarrow> fs \<times> unit res" where
  "mkdir_each V [] fs = (fs, Inr ())"
| "mkdir_each V (q # qs) fs = (case map_of fs q of
     Some nd \<Rightarrow> if node_IsDir nd then mkdir_each V qs fs else (fs, Inl ErrIO)
   | None \<Rightarrow> if fe_fault V SMkdir q then (fs, Inl ErrIO) else mkdir_each V qs (AList.update q (fe_new V (ModeDir OR 493)) fs))"

definition MkdirAll :: "fs_env \<Rightarrow> string \<Rightarrow> fs \<Rightarrow> fs \<times> unit res" where
  "MkdirAll V p fs = mkdir_each V (path_prefixes p) fs"

definition RemoveAll :: "fs_env \<Rightarrow> string \<Rightarrow> fs \<Rightarrow> fs \<times> unit res" where
  "RemoveAll V p fs = (if fe_fault V SRemoveAll p then (filter (\<lambda>(q, _). \<not> below p q \<or> fe_keep V q) fs, Inl ErrIO)
     else (filter (\<lambda>(q, _). \<not> below p q) fs, Inr ()))"

definition os_Remove :: "fs_env \<Rightarrow> string \<Rightarrow> fs \<Rightarrow> fs \<times> unit res" where
  "os_Remove V p fs = (case map_of fs p of
     None \<Rightarrow> (fs, Inl ErrNotFound)
   | Some _ \<Rightarrow> if fe_fault V SRemove p \<or> (\<exists>(q, _) \<in> set fs. q \<noteq> p \<and> below p q) then (fs, Inl ErrIO) else (AList.delete p fs, Inr ()))"

definition os_Symlink :: "fs_env \<Rightarrow> string \<Rightarrow> string \<Rightarrow> fs \<Rightarrow> fs \<times> unit res" where
  "os_Symlink V target p fs = (if fe_fault V SSymlink p \<or> map_of fs p \<noteq> None \<or> \<not> is_dir_at fs (fst (parentAndBase p)) then (fs, Inl ErrIO)
     else (AList.update p ((fe_new V (ModeSymlink OR 511))\<lparr>fn_Target := target\<rparr>) fs, Inr ()))"

text \<open>Calls that follow a symbolic link act on the file it leads to.\<close>

definition followed :: "fs_env \<Rightarrow> fs \<Rightarrow> string \<Rightarrow> string" where
  "followed V fs p = (case map_of fs p of Some nd \<Rightarrow> if node_IsSymlink nd then fe_follow V p else p | None \<Rightarrow> p)"

definition set_node :: "fs_env \<Rightarrow> syscall \<Rightarrow> string \<Rightarrow> (fs_node \<Rightarrow> fs_node) \<Rightarrow> fs \<Rightarrow> fs \<times> bool" where
  "set_node V call p f fs = (case map_of fs p of
     None \<Rightarrow> (fs, False)
   | Some nd \<Rightarrow> if fe_fault V call p then (fs, False) else (AList.update p ((f nd)\<lparr>fn_ChangeTimeNS := fe_now V\<rparr>) fs, True))"

definition os_Create :: "fs_env \<Rightarrow> string \<Rightarrow> fs \<Rightarrow> fs \<times> unit res" where
  "os_Create V p0 fs = (let p = followed V fs p0 in
     if fe_fault V SCreate p \<or> \<not> is_dir_at fs (fst (parentAndBase p)) then (fs, Inl ErrIO)
     else (case map_of fs p of
       None \<Rightarrow> (AList.update p (fe_new V 438) fs, Inr ())
     | Some nd \<Rightarrow> if node_IsDir nd then (fs, Inl ErrIO)
         else (AList.update p (nd\<lparr>fn_Data := [], fn_ModTimeNS := fe_now V, fn_ChangeTimeNS := fe_now V\<rparr>) fs, Inr ())))"

section \<open>Capture and restore\<close>

definition FlagHidden :: "32 word" where "FlagHidden = 1"
definition FlagReadOnly :: "32 word" where "FlagReadOnly = 2"

definition statExtras :: "fs_node \<Rightarrow> metadata \<Rightarrow> metadata" where
  "statExtras fi m = m\<lparr>md_Uid := fn_Uid fi, md_Gid := fn_Gid fi, md_AccessTimeNS := fn_AccessTimeNS fi, md_ChangeTimeNS := fn_ChangeTimeNS fi\<rparr>"

text \<open>The layout of \<^verbatim>\<open>listxattr\<close>: each name is followed by a zero. The parameter \<open>name\<close> is what was read since the last zero.\<close>

definition NUL :: char where "NUL = CHR 0x00"

fun splitNull_from :: "string \<Rightarrow> string \<Rightarrow> string list" where
  "splitNull_from name [] = []"
| "splitNull_from name (c # cs) = (if c = NUL then (if name \<noteq> [] then [name] else []) @ splitNull_from [] cs else splitNull_from (name @ [c]) cs)"

definition splitNull :: "string \<Rightarrow> string list" where
  "splitNull b = splitNull_from [] b"

definition listxattr_blob :: "(string \<times> bytes) list \<Rightarrow> string" where
  "listxattr_blob xs = concat (map (\<lambda>(k, _). k @ [NUL]) xs)"

text \<open>A failing \<^verbatim>\<open>getxattr\<close> is given by the path and the name of the attribute.\<close>

definition readXattrs :: "fs_env \<Rightarrow> fs \<Rightarrow> string \<Rightarrow> (string \<times> bytes) list" where
  "readXattrs V fs path = (case map_of fs (followed V fs path) of
     None \<Rightarrow> []
   | Some nd \<Rightarrow> if fe_fault V SListxattr path then []
       else concat (map (\<lambda>name. case map_of (fn_Xattr nd) name of
              None \<Rightarrow> [] | Some val \<Rightarrow> if fe_fault V SGetxattr (path @ NUL # name) \<or> val = [] then [] else [(name, val)])
            (splitNull (listxattr_blob (fn_Xattr nd)))))"

definition Capture :: "fs_env \<Rightarrow> fs \<Rightarrow> string \<Rightarrow> fs_node \<Rightarrow> metadata" where
  "Capture V fs path fi =
     (let ext = ext_rev [] (rev path);
          m0 = zero_metadata\<lparr>md_Mode := fn_Mode fi, md_ModTimeNS := fn_ModTimeNS fi\<rparr>;
          m1 = (if node_IsSymlink fi then if fe_fault V SReadlink path then m0 else m0\<lparr>md_SymlinkTarget := fn_Target fi\<rparr>
                else m0\<lparr>md_ContentType := fe_mime V ext\<rparr>);
          hidden = (if prefix ''.'' (snd (parentAndBase path)) then FlagHidden else 0);
          ro = (if \<not> node_IsSymlink fi \<and> fn_Mode fi AND ModePerm AND 128 = 0 then FlagReadOnly else 0) in
      (statExtras fi (m1\<lparr>md_Flags := hidden OR ro\<rparr>))\<lparr>md_Xattr := readXattrs V fs path\<rparr>)"

text \<open>\<^verbatim>\<open>os.Chmod\<close> sets the permission bits and clears set-uid, set-gid and sticky.\<close>

definition chmod_bits :: "32 word \<Rightarrow> 32 word \<Rightarrow> 32 word" where
  "chmod_bits old perm = (old AND NOT (ModePerm OR push_bit 23 1 OR push_bit 22 1 OR push_bit 20 1)) OR (perm AND ModePerm)"

fun set_xattrs :: "fs_env \<Rightarrow> string \<Rightarrow> (string \<times> bytes) list \<Rightarrow> fs \<Rightarrow> fs \<times> bool" where
  "set_xattrs V p [] fs = (fs, True)"
| "set_xattrs V p ((k, v) # xs) fs =
     (let (fs1, ok1) = set_node V SSetxattr p (\<lambda>nd. nd\<lparr>fn_Xattr := AList.update k v (fn_Xattr nd)\<rparr>) fs; (fs2, ok2) = set_xattrs V p xs fs1 in (fs2, ok1 \<and> ok2))"

definition restoreExtras :: "fs_env \<Rightarrow> string \<Rightarrow> metadata \<Rightarrow> fs \<Rightarrow> fs \<times> bool" where
  "restoreExtras V p m fs =
     (let (fs1, ok1) = (if md_Uid m \<noteq> 0 \<or> md_Gid m \<noteq> 0 then set_node V SLchown p (\<lambda>nd. nd\<lparr>fn_Uid := md_Uid m, fn_Gid := md_Gid m\<rparr>) fs else (fs, True));
          (fs2, ok2) = set_xattrs V (followed V fs p) (md_Xattr m) fs1 in (fs2, ok1 \<and> ok2))"

definition Restore :: "fs_env \<Rightarrow> string \<Rightarrow> metadata \<Rightarrow> fs \<Rightarrow> fs \<times> unit res" where
  "Restore V p m fs =
     (let t = followed V fs p;
          (fs1, ok1) = (if IsSymlink m \<or> md_Mode m = 0 then (fs, True) else set_node V SChmod t (\<lambda>nd. nd\<lparr>fn_Mode := chmod_bits (fn_Mode nd) (md_Mode m)\<rparr>) fs);
          (fs2, ok2) = (if IsSymlink m \<or> md_ModTimeNS m = 0 then (fs1, True)
            else set_node V SChtimes t (\<lambda>nd. nd\<lparr>fn_ModTimeNS := md_ModTimeNS m,
              fn_AccessTimeNS := (if md_AccessTimeNS m \<noteq> 0 then md_AccessTimeNS m else md_ModTimeNS m)\<rparr>) fs1);
          (fs3, ok3) = restoreExtras V p m fs2 in
      (fs3, if ok1 \<and> ok2 \<and> ok3 then Inr () else Inl ErrIO))"

definition RestoreSymlink :: "fs_env \<Rightarrow> string \<Rightarrow> metadata \<Rightarrow> fs \<Rightarrow> fs \<times> unit res" where
  "RestoreSymlink V p m fs = (if md_SymlinkTarget m = [] then (fs, Inl ErrInvalid)
     else (case os_Remove V p fs of
       (fs1, Inl e) \<Rightarrow> if e \<noteq> ErrNotFound then (fs1, Inl e) else
         (case os_Symlink V (md_SymlinkTarget m) p fs1 of (fs2, Inl e) \<Rightarrow> (fs2, Inl e) | (fs2, Inr _) \<Rightarrow> Restore V p m fs2)
     | (fs1, Inr _) \<Rightarrow>
         (case os_Symlink V (md_SymlinkTarget m) p fs1 of (fs2, Inl e) \<Rightarrow> (fs2, Inl e) | (fs2, Inr _) \<Rightarrow> Restore V p m fs2)))"

section \<open>Attributes survive\<close>

lemma splitNull_name: "NUL \<notin> set n \<Longrightarrow> splitNull_from acc (n @ NUL # cs) = (if acc @ n \<noteq> [] then [acc @ n] else []) @ splitNull_from [] cs"
  by (induction n arbitrary: acc) auto

lemma splitNull_blob: "\<forall>k \<in> fst ` set xs. k \<noteq> [] \<and> NUL \<notin> set k \<Longrightarrow> splitNull (listxattr_blob xs) = map fst xs"
  unfolding splitNull_def listxattr_blob_def by (induction xs) (auto simp: splitNull_name)

lemma set_node_ok:
  "map_of fs p = Some nd \<Longrightarrow> \<not> fe_fault V call p \<Longrightarrow> set_node V call p f fs = (AList.update p ((f nd)\<lparr>fn_ChangeTimeNS := fe_now V\<rparr>) fs, True)"
  by (simp add: set_node_def)

definition put_attrs :: "(string \<times> bytes) list \<Rightarrow> (string \<times> bytes) list \<Rightarrow> (string \<times> bytes) list" where
  "put_attrs xs ys = fold (\<lambda>(k, v). AList.update k v) xs ys"

lemma set_xattrs_ok:
  assumes "\<And>c q. \<not> fe_fault V c q" and "map_of fs p = Some nd"
  shows "\<exists>fs' c. set_xattrs V p xs fs = (fs', True) \<and> map_of fs' p = Some (nd\<lparr>fn_Xattr := put_attrs xs (fn_Xattr nd), fn_ChangeTimeNS := c\<rparr>)
    \<and> (\<forall>q. q \<noteq> p \<longrightarrow> map_of fs' q = map_of fs q)"
  using assms(2)
proof (induction xs arbitrary: fs nd)
  case Nil
  then show ?case by (auto simp: put_attrs_def intro!: exI[of _ "fn_ChangeTimeNS nd"])
next
  case (Cons x xs)
  obtain k v where x: "x = (k, v)" by (cases x)
  let ?nd = "nd\<lparr>fn_Xattr := AList.update k v (fn_Xattr nd), fn_ChangeTimeNS := fe_now V\<rparr>"
  have "map_of (AList.update p ?nd fs) p = Some ?nd" by (simp add: update_conv')
  from Cons.IH[OF this] obtain fs' c where
    "set_xattrs V p xs (AList.update p ?nd fs) = (fs', True)"
    "map_of fs' p = Some (?nd\<lparr>fn_Xattr := put_attrs xs (fn_Xattr ?nd), fn_ChangeTimeNS := c\<rparr>)"
    "\<forall>q. q \<noteq> p \<longrightarrow> map_of fs' q = map_of (AList.update p ?nd fs) q"
    by blast
  then show ?case using Cons.prems by (auto simp: x set_node_ok assms(1) update_conv' put_attrs_def)
qed

lemma map_of_put_attrs: "distinct (map fst xs) \<Longrightarrow> map_of (put_attrs xs ys) k = (case map_of xs k of Some v \<Rightarrow> Some v | None \<Rightarrow> map_of ys k)"
  unfolding put_attrs_def
proof (induction xs arbitrary: ys)
  case (Cons x xs)
  then show ?case by (cases x) (auto simp: update_conv' map_of_eq_None_iff[symmetric] split: option.splits dest: map_of_SomeD)
qed simp

lemma readXattrs_ok:
  assumes "\<And>c q. \<not> fe_fault V c q" and "map_of fs p = Some nd" and "\<not> node_IsSymlink nd"
    and "\<forall>k \<in> fst ` set (fn_Xattr nd). k \<noteq> [] \<and> NUL \<notin> set k" and "distinct (map fst (fn_Xattr nd))"
  shows "readXattrs V fs p = filter (\<lambda>(_, v). v \<noteq> []) (fn_Xattr nd)"
proof -
  have nf: "fe_fault V = (\<lambda>_ _. False)" using assms(1) by blast
  have "concat (map (\<lambda>name. case map_of (fn_Xattr nd) name of None \<Rightarrow> [] | Some val \<Rightarrow> if val = [] then [] else [(name, val)]) (map fst xs))
      = filter (\<lambda>(_, v). v \<noteq> []) xs" if "set xs \<subseteq> set (fn_Xattr nd)" for xs
    using that by (induction xs) (use assms(5) in \<open>auto simp: map_of_is_SomeI\<close>)
  from this[OF subset_refl] show ?thesis
    using assms(2,3) unfolding readXattrs_def followed_def nf simp_thms by (simp add: splitNull_blob[OF assms(4)])
qed

lemma map_of_nonempty_values:
  "distinct (map fst xs) \<Longrightarrow> map_of (filter (\<lambda>(_, v). v \<noteq> []) xs) k = (case map_of xs k of Some v \<Rightarrow> if v \<noteq> [] then Some v else None | None \<Rightarrow> None)"
proof (induction xs)
  case (Cons x xs)
  then have "fst x \<notin> fst ` set (filter (\<lambda>(_, v). v \<noteq> []) xs)" by auto
  with Cons show ?case by (cases x) (auto simp: map_of_eq_None_iff split: option.splits)
qed simp

lemma chmod_bits_perm: "chmod_bits old perm AND ModePerm = perm AND ModePerm"
  unfolding chmod_bits_def by (rule bit_eqI) (auto simp: bit_simps)

lemma chmod_bits_symlink: "chmod_bits old perm AND ModeSymlink = old AND ModeSymlink"
proof -
  have "NOT (ModePerm OR push_bit 23 1 OR push_bit 22 1 OR push_bit 20 1) AND ModeSymlink = ModeSymlink" "ModePerm AND ModeSymlink = 0"
    by (simp_all add: ModePerm_def ModeSymlink_def)
  then show ?thesis unfolding chmod_bits_def bit.conj_disj_distrib2 and.assoc by simp
qed

definition regular :: "fs_node \<Rightarrow> bool" where
  "regular nd \<longleftrightarrow> \<not> node_IsSymlink nd \<and> \<not> node_IsDir nd"

text \<open>What a system keeps of a list of extended attributes: distinct names, none empty or with a zero in it.\<close>

definition attrs_ok :: "(string \<times> bytes) list \<Rightarrow> bool" where
  "attrs_ok xs \<longleftrightarrow> distinct (map fst xs) \<and> (\<forall>k \<in> fst ` set xs. k \<noteq> [] \<and> NUL \<notin> set k)"

definition demo_node :: fs_node where
  "demo_node = \<lparr>fn_Mode = 420, fn_Uid = 1000, fn_Gid = 1000, fn_ModTimeNS = 5, fn_AccessTimeNS = 0, fn_ChangeTimeNS = 7, fn_Target = [],
     fn_Xattr = [(''user.a'', [1]), (''user.b'', [])], fn_Data = [8]\<rparr>"

definition quiet_env :: fs_env where
  "quiet_env = \<lparr>fe_fault = \<lambda>_ _. False, fe_now = 9, fe_mime = \<lambda>_. [], fe_new = \<lambda>m. demo_node\<lparr>fn_Mode := m\<rparr>, fe_follow = \<lambda>p. p, fe_keep = \<lambda>_. False\<rparr>"

text \<open>
  C31: Attributes captured from a regular file and restored on another (or the same) regular file arrive: permission bits, modification and access time
  (the access time when it is set, the modification time otherwise), owner and group unless both are zero, and every extended attribute with
  a value; the content of the restored file and every other file are as before. A mode of zero is not restored (\<^verbatim>\<open>Restore\<close> takes it for missing), nor is a time of zero.
\<close>

theorem restore_captured:
  assumes nofault: "\<And>c q. \<not> fe_fault V c q"
    and src: "map_of fs0 p0 = Some src" "regular src" "attrs_ok (fn_Xattr src)" "fn_Mode src \<noteq> 0" "fn_ModTimeNS src \<noteq> 0"
    and dst: "map_of fs p = Some dst" "regular dst"
  shows "\<exists>fs' nd. Restore V p (Capture V fs0 p0 src) fs = (fs', Inr ()) \<and> map_of fs' p = Some nd
    \<and> fn_Mode nd AND ModePerm = fn_Mode src AND ModePerm \<and> fn_ModTimeNS nd = fn_ModTimeNS src
    \<and> fn_AccessTimeNS nd = (if fn_AccessTimeNS src \<noteq> 0 then fn_AccessTimeNS src else fn_ModTimeNS src)
    \<and> (if fn_Uid src \<noteq> 0 \<or> fn_Gid src \<noteq> 0 then fn_Uid nd = fn_Uid src \<and> fn_Gid nd = fn_Gid src else fn_Uid nd = fn_Uid dst \<and> fn_Gid nd = fn_Gid dst)
    \<and> (\<forall>k. map_of (fn_Xattr nd) k = (case map_of (fn_Xattr src) k of Some v \<Rightarrow> if v \<noteq> [] then Some v else map_of (fn_Xattr dst) k | None \<Rightarrow> map_of (fn_Xattr dst) k))
    \<and> fn_Data nd = fn_Data dst \<and> (\<forall>q. q \<noteq> p \<longrightarrow> map_of fs' q = map_of fs q)"
proof -
  define m where "m = Capture V fs0 p0 src"
  define xs where "xs = filter (\<lambda>(_, v). v \<noteq> []) (fn_Xattr src)"
  have m: "md_Mode m = fn_Mode src" "md_ModTimeNS m = fn_ModTimeNS src" "md_AccessTimeNS m = fn_AccessTimeNS src" "md_Uid m = fn_Uid src"
    "md_Gid m = fn_Gid src" "md_Xattr m = xs" "\<not> IsSymlink m"
    using src readXattrs_ok[OF nofault src(1)] unfolding m_def xs_def
    by (simp_all add: Capture_def statExtras_def Let_def regular_def attrs_ok_def IsSymlink_def node_IsSymlink_def zero_metadata_def)
  have f: "followed V fs p = p" using dst by (simp add: followed_def regular_def)
  define nd2 where "nd2 = dst\<lparr>fn_Mode := chmod_bits (fn_Mode dst) (fn_Mode src), fn_ModTimeNS := fn_ModTimeNS src,
    fn_AccessTimeNS := (if fn_AccessTimeNS src \<noteq> 0 then fn_AccessTimeNS src else fn_ModTimeNS src), fn_ChangeTimeNS := fe_now V\<rparr>"
  define fs1 where "fs1 = AList.update p (dst\<lparr>fn_Mode := chmod_bits (fn_Mode dst) (fn_Mode src), fn_ChangeTimeNS := fe_now V\<rparr>) fs"
  have 1: "map_of fs1 p = Some (dst\<lparr>fn_Mode := chmod_bits (fn_Mode dst) (fn_Mode src), fn_ChangeTimeNS := fe_now V\<rparr>)" by (simp add: fs1_def update_conv')
  define fs2 where "fs2 = AList.update p nd2 fs1"
  define nd3 where "nd3 = (if fn_Uid src \<noteq> 0 \<or> fn_Gid src \<noteq> 0 then nd2\<lparr>fn_Uid := fn_Uid src, fn_Gid := fn_Gid src, fn_ChangeTimeNS := fe_now V\<rparr> else nd2)"
  define fs3 where "fs3 = (if fn_Uid src \<noteq> 0 \<or> fn_Gid src \<noteq> 0 then AList.update p nd3 fs2 else fs2)"
  have 2: "map_of fs2 p = Some nd2" "\<And>q. q \<noteq> p \<Longrightarrow> map_of fs2 q = map_of fs q" by (simp_all add: fs2_def fs1_def update_conv')
  have 3: "map_of fs3 p = Some nd3" "\<And>q. q \<noteq> p \<Longrightarrow> map_of fs3 q = map_of fs q" using 2 by (auto simp: fs3_def nd3_def update_conv')
  have f2: "followed V fs2 p = p" using dst(2) by (simp add: followed_def 2 nd2_def node_IsSymlink_def chmod_bits_symlink regular_def)
  obtain fs' c where x: "set_xattrs V p xs fs3 = (fs', True)" "map_of fs' p = Some (nd3\<lparr>fn_Xattr := put_attrs xs (fn_Xattr nd3), fn_ChangeTimeNS := c\<rparr>)"
    "\<forall>q. q \<noteq> p \<longrightarrow> map_of fs' q = map_of fs3 q" using set_xattrs_ok[OF nofault 3(1)] by blast
  have r: "restoreExtras V p m fs2 = (fs', True)"
    using x(1) by (auto simp: restoreExtras_def m f2 set_node_ok[OF 2(1)] nofault fs3_def nd3_def split: if_splits)
  have s1: "set_node V SChmod p (\<lambda>nd. nd\<lparr>fn_Mode := chmod_bits (fn_Mode nd) (fn_Mode src)\<rparr>) fs = (fs1, True)"
    by (simp add: set_node_ok[OF dst(1)] nofault fs1_def)
  have s2: "set_node V SChtimes p (\<lambda>nd. nd\<lparr>fn_ModTimeNS := fn_ModTimeNS src,
      fn_AccessTimeNS := (if fn_AccessTimeNS src \<noteq> 0 then fn_AccessTimeNS src else fn_ModTimeNS src)\<rparr>) fs1 = (fs2, True)"
    unfolding set_node_ok[OF 1 nofault] by (simp add: fs2_def nd2_def)
  have R: "Restore V p m fs = (fs', Inr ())"
    unfolding Restore_def m f Let_def using src(4,5) m(7) by (simp add: s1 s2 r)
  have d: "distinct (map fst xs)" using src(3) by (simp add: xs_def attrs_ok_def distinct_map_filter)
  have a: "map_of (put_attrs xs (fn_Xattr nd3)) k
      = (case map_of (fn_Xattr src) k of Some v \<Rightarrow> if v \<noteq> [] then Some v else map_of (fn_Xattr dst) k | None \<Rightarrow> map_of (fn_Xattr dst) k)" for k
  proof -
    have "map_of xs k = (case map_of (fn_Xattr src) k of Some v \<Rightarrow> if v \<noteq> [] then Some v else None | None \<Rightarrow> None)"
      unfolding xs_def using src(3) by (intro map_of_nonempty_values) (simp add: attrs_ok_def)
    then show ?thesis by (simp add: map_of_put_attrs[OF d] nd3_def nd2_def split: option.split)
  qed
  show ?thesis
    by (rule exI[of _ fs'], rule exI[of _ "nd3\<lparr>fn_Xattr := put_attrs xs (fn_Xattr nd3), fn_ChangeTimeNS := c\<rparr>"])
      (use R x 3 a in \<open>auto simp: m_def nd3_def nd2_def chmod_bits_perm\<close>)
qed

theorem restore_captured_witness:
  "\<exists>fs' nd. Restore quiet_env ''g'' (Capture quiet_env [(''f'', demo_node)] ''f'' demo_node) [(''g'', demo_node\<lparr>fn_Mode := 384, fn_Xattr := []\<rparr>)] = (fs', Inr ())
     \<and> map_of fs' ''g'' = Some nd \<and> fn_Mode nd AND ModePerm = 420 AND ModePerm \<and> fn_AccessTimeNS nd = 5 \<and> map_of (fn_Xattr nd) ''user.a'' = Some [1]"
proof -
  have s: "regular demo_node" "attrs_ok (fn_Xattr demo_node)" "fn_Mode demo_node \<noteq> 0" "fn_ModTimeNS demo_node \<noteq> 0" by code_simp+
  have d: "regular (demo_node\<lparr>fn_Mode := 384, fn_Xattr := []\<rparr>)" by code_simp
  have m: "map_of [(''f'', demo_node)] ''f'' = Some demo_node" "map_of [(''g'', demo_node\<lparr>fn_Mode := 384, fn_Xattr := []\<rparr>)] ''g'' = Some (demo_node\<lparr>fn_Mode := 384, fn_Xattr := []\<rparr>)"
    by simp_all
  have n: "\<And>c q. \<not> fe_fault quiet_env c q" by (simp add: quiet_env_def)
  have v: "fn_Mode demo_node = 420" "fn_ModTimeNS demo_node = 5" "fn_AccessTimeNS demo_node = 0" "map_of (fn_Xattr demo_node) ''user.a'' = Some [1]"
    by (simp_all add: demo_node_def)
  obtain fs' nd where r: "Restore quiet_env ''g'' (Capture quiet_env [(''f'', demo_node)] ''f'' demo_node) [(''g'', demo_node\<lparr>fn_Mode := 384, fn_Xattr := []\<rparr>)] = (fs', Inr ())"
    "map_of fs' ''g'' = Some nd" "fn_Mode nd AND ModePerm = 420 AND ModePerm" "fn_AccessTimeNS nd = (if (0 :: 64 word) \<noteq> 0 then 0 else 5)"
    "\<forall>k. map_of (fn_Xattr nd) k = (case map_of (fn_Xattr demo_node) k of Some v \<Rightarrow> if v \<noteq> [] then Some v else map_of (fn_Xattr (demo_node\<lparr>fn_Mode := 384, fn_Xattr := []\<rparr>)) k
       | None \<Rightarrow> map_of (fn_Xattr (demo_node\<lparr>fn_Mode := 384, fn_Xattr := []\<rparr>)) k)"
    using restore_captured[OF n m(1) s m(2) d] unfolding v(1-3) by blast
  have "map_of (fn_Xattr nd) ''user.a'' = Some [1]" using spec[OF r(5), of "''user.a''"] by (simp add: v(4))
  with r(1-4) show ?thesis by auto
qed

end
