(* ===== verification/Sync.thy ===== *)
theory Sync
  imports Fsmeta "HOL-Library.Product_Lexorder"
begin

text \<open>
  Folder synchronisation, \<^verbatim>\<open>src/internal/sync\<close>: scanning both sides (\<^verbatim>\<open>sync.go\<close>, \<^verbatim>\<open>remote.go\<close>), the persisted base
  (\<^verbatim>\<open>state.go\<close>), the three-way decision, the plan and its application (\<^verbatim>\<open>reconcile.go\<close>). Snapshots and the base are
  lists of paths with their state; Go ranges over maps in an arbitrary order, so the plan takes the
  order of the paths as an argument and the theorems hold for every order. Log lines and the \<^verbatim>\<open>Reason\<close> of an operation are left out.
\<close>

section \<open>Snapshots\<close>

datatype kind = kindLeaf | kindDir

record local_state =
  ls_kind :: kind
  ls_isSymlink :: bool
  ls_size :: int
  ls_mtimeNS :: "64 word"
  ls_mode :: "32 word"

record remote_state =
  rs_id :: item_id
  rs_kind :: kind
  rs_isSymlink :: bool
  rs_size :: int
  rs_content :: bytes
  rs_meta :: bytes

type_synonym local_snapshot = "(string \<times> local_state) list"
type_synonym remote_snapshot = "(string \<times> remote_state) list"

definition StateFileName :: string where "StateFileName = ''.revika-sync-state.json''"

definition local_of_node :: "fs_node \<Rightarrow> local_state" where
  "local_of_node fi = \<lparr>ls_kind = (if node_IsDir fi then kindDir else kindLeaf), ls_isSymlink = (\<not> node_IsDir fi \<and> node_IsSymlink fi),
     ls_size = (if node_IsSymlink fi then int (length (fn_Target fi)) else int (length (fn_Data fi))), ls_mtimeNS = fn_ModTimeNS fi, ls_mode = fn_Mode fi\<rparr>"

text \<open>
  \<^verbatim>\<open>filepath.WalkDir\<close> reaches a path when it can read every directory above it and none of them, nor the path itself, is ignored;
  the entry is then recorded unless its attributes cannot be read.
\<close>

definition walked :: "fs_env \<Rightarrow> (string \<Rightarrow> bool) \<Rightarrow> string \<Rightarrow> bool" where
  "walked V ignore p \<longleftrightarrow> \<not> fe_fault V SReaddir [] \<and> (\<forall>q \<in> set (path_prefixes p). \<not> ignore q \<and> (q \<noteq> p \<longrightarrow> \<not> fe_fault V SReaddir q))"

definition scanLocal :: "fs_env \<Rightarrow> (string \<Rightarrow> bool) \<Rightarrow> fs \<Rightarrow> local_snapshot" where
  "scanLocal V ignore fs = map (\<lambda>(p, nd). (p, local_of_node nd)) (filter (\<lambda>(p, _). walked V ignore p \<and> \<not> fe_fault V SLstat p) fs)"

definition parentPath :: "string \<Rightarrow> string" where
  "parentPath p = (case last_slash p of None \<Rightarrow> [] | Some i \<Rightarrow> take i p)"

definition baseName :: "string \<Rightarrow> string" where
  "baseName p = (case last_slash p of None \<Rightarrow> p | Some i \<Rightarrow> drop (i + 1) p)"

definition depth :: "string \<Rightarrow> nat" where
  "depth p = (if p = [] then 0 else length (filter (\<lambda>c. c = CHR ''/'') p) + 1)"

definition itemKindOf :: "item \<Rightarrow> kind" where
  "itemKindOf it = (if it_IsDir it then kindDir else kindLeaf)"

definition remote_of_item :: "item \<Rightarrow> remote_state" where
  "remote_of_item it = \<lparr>rs_id = it_ID it, rs_kind = itemKindOf it, rs_isSymlink = it_IsLink it, rs_size = it_Size it,
     rs_content = ver_Content (it_Version it), rs_meta = ver_Meta (it_Version it)\<rparr>"

text \<open>The walk over the stored tree; \<open>rec\<close> scans a subdirectory. The depth is bounded by fuel.\<close>

fun scan_items :: "(item_id \<Rightarrow> string \<Rightarrow> remote_snapshot \<Rightarrow> 'p \<Rightarrow> ('p \<times> remote_snapshot res) option) \<Rightarrow> string \<Rightarrow> item list \<Rightarrow> remote_snapshot \<Rightarrow> 'p
    \<Rightarrow> ('p \<times> remote_snapshot res) option" where
  "scan_items rec pre [] snap p = Some (p, Inr snap)"
| "scan_items rec pre (it # its) snap p = (let rel = (if pre \<noteq> [] then pre @ ''/'' @ it_Name it else it_Name it);
       snap1 = AList.update rel (remote_of_item it) snap in
     if it_IsDir it then (case rec (it_ID it) rel snap1 p of
         None \<Rightarrow> None | Some (p1, Inl e) \<Rightarrow> Some (p1, Inl e) | Some (p1, Inr snap2) \<Rightarrow> scan_items rec pre its snap2 p1)
     else scan_items rec pre its snap1 p)"

fun scanRemoteDir :: "nat \<Rightarrow> 'p provider_ops \<Rightarrow> item_id \<Rightarrow> string \<Rightarrow> remote_snapshot \<Rightarrow> 'p \<Rightarrow> ('p \<times> remote_snapshot res) option" where
  "scanRemoteDir 0 ops did pre snap p = None"
| "scanRemoteDir (Suc n) ops did pre snap p = (case po_Enumerate ops did p of
     (p1, Inl e) \<Rightarrow> Some (p1, Inl e)
   | (p1, Inr items) \<Rightarrow> scan_items (scanRemoteDir n ops) pre items snap p1)"

definition scanRemote :: "nat \<Rightarrow> 'p provider_ops \<Rightarrow> 'p \<Rightarrow> ('p \<times> remote_snapshot res) option" where
  "scanRemote n ops p = scanRemoteDir n ops (po_Root ops) [] [] p"

section \<open>The base\<close>

record base_entry =
  be_Dir :: bool
  be_Size :: int
  be_MtimeNS :: "64 word"
  be_Content :: bytes
  be_Meta :: bytes

record base_state =
  bs_Version :: int
  bs_Entries :: "(string \<times> base_entry) list"

definition stateVersion :: int where "stateVersion = 1"

definition newBaseState :: base_state where
  "newBaseState = \<lparr>bs_Version = stateVersion, bs_Entries = []\<rparr>"

definition localMatches :: "base_entry \<Rightarrow> local_state \<Rightarrow> bool" where
  "localMatches b ls \<longleftrightarrow> (if (ls_kind ls = kindDir) \<noteq> be_Dir b then False
     else if ls_kind ls = kindDir then True else ls_size ls = be_Size b \<and> ls_mtimeNS ls = be_MtimeNS b)"

definition remoteMatches :: "base_entry \<Rightarrow> remote_state \<Rightarrow> bool" where
  "remoteMatches b rs \<longleftrightarrow> (if (rs_kind rs = kindDir) \<noteq> be_Dir b then False else rs_content rs = be_Content b \<and> rs_meta rs = be_Meta b)"

definition agree :: "local_state \<Rightarrow> remote_state \<Rightarrow> base_entry" where
  "agree ls rs = \<lparr>be_Dir = (ls_kind ls = kindDir), be_Size = ls_size ls, be_MtimeNS = ls_mtimeNS ls, be_Content = rs_content rs, be_Meta = rs_meta rs\<rparr>"

text \<open>The sidecar file, a parameter codec for \<^verbatim>\<open>encoding/json\<close> around it; \<^verbatim>\<open>saveState\<close> writes a temporary file and renames it.\<close>

record state_codec =
  js_base :: "base_state \<Rightarrow> bytes"
  js_base_parse :: "bytes \<Rightarrow> base_state option"

definition loadState :: "state_codec \<Rightarrow> fs_env \<Rightarrow> bytes option \<Rightarrow> base_state res" where
  "loadState C V sidecar = (case sidecar of
     None \<Rightarrow> Inr newBaseState
   | Some data \<Rightarrow> if fe_fault V SRead StateFileName then Inl ErrIO
       else (case js_base_parse C data of None \<Rightarrow> Inl ErrCodec | Some st \<Rightarrow> if bs_Version st \<noteq> stateVersion then Inl ErrVersion else Inr st))"

definition saveState :: "state_codec \<Rightarrow> fs_env \<Rightarrow> base_state \<Rightarrow> bytes option \<Rightarrow> bytes option \<times> unit res" where
  "saveState C V st sidecar = (if \<exists>call \<in> {SCreate, SChmod, SWrite, SClose, SRename}. fe_fault V call StateFileName then (sidecar, Inl ErrIO)
     else (Some (js_base C (st\<lparr>bs_Version := stateVersion\<rparr>)), Inr ()))"

section \<open>Decisions\<close>

datatype conflict_policy = PreferLocal | PreferRemote | Skip

datatype op_kind = OpMkdirRemote | OpMkdirLocal | OpUpload | OpDownload | OpDeleteRemote | OpDeleteLocal | OpConflict

record sync_op =
  op_Kind :: op_kind
  op_Path :: string
  op_IsDir :: bool
  op_IsSymlink :: bool

definition mk_op :: "op_kind \<Rightarrow> string \<Rightarrow> bool \<Rightarrow> bool \<Rightarrow> sync_op" where
  "mk_op k p d l = \<lparr>op_Kind = k, op_Path = p, op_IsDir = d, op_IsSymlink = l\<rparr>"

definition conflictOp :: "conflict_policy \<Rightarrow> string \<Rightarrow> local_state option \<Rightarrow> remote_state option \<Rightarrow> sync_op option \<times> bool" where
  "conflictOp pol p l r = (case pol of
     PreferLocal \<Rightarrow> (case l of
         Some ls \<Rightarrow> if ls_kind ls = kindDir then (Some (mk_op OpMkdirRemote p True False), False) else (Some (mk_op OpUpload p False (ls_isSymlink ls)), False)
       | None \<Rightarrow> (Some (mk_op OpDeleteRemote p (case r of None \<Rightarrow> False | Some rs \<Rightarrow> rs_kind rs = kindDir) False), False))
   | PreferRemote \<Rightarrow> (case r of
         Some rs \<Rightarrow> if rs_kind rs = kindDir then (Some (mk_op OpMkdirLocal p True False), False) else (Some (mk_op OpDownload p False (rs_isSymlink rs)), False)
       | None \<Rightarrow> (Some (mk_op OpDeleteLocal p (case l of None \<Rightarrow> False | Some ls \<Rightarrow> ls_kind ls = kindDir) False), False))
   | Skip \<Rightarrow> (Some (mk_op OpConflict p False False), True))"

definition decideBoth :: "conflict_policy \<Rightarrow> string \<Rightarrow> local_state \<Rightarrow> remote_state \<Rightarrow> base_entry option \<Rightarrow> sync_op option \<times> bool" where
  "decideBoth pol p ls rs b = (if ls_kind ls \<noteq> rs_kind rs then conflictOp pol p (Some ls) (Some rs)
     else if ls_kind ls = kindDir then (None, False)
     else let lChanged = (case b of None \<Rightarrow> True | Some be \<Rightarrow> \<not> localMatches be ls);
              rChanged = (case b of None \<Rightarrow> True | Some be \<Rightarrow> \<not> remoteMatches be rs) in
       if lChanged \<and> rChanged then conflictOp pol p (Some ls) (Some rs)
       else if lChanged then (Some (mk_op OpUpload p False (ls_isSymlink ls)), False)
       else if rChanged then (Some (mk_op OpDownload p False (rs_isSymlink rs)), False)
       else (None, False))"

definition decideLocalOnly :: "conflict_policy \<Rightarrow> string \<Rightarrow> local_state \<Rightarrow> base_entry option \<Rightarrow> sync_op option \<times> bool" where
  "decideLocalOnly pol p ls b = (case b of
     Some be \<Rightarrow> if localMatches be ls then (Some (mk_op OpDeleteLocal p (ls_kind ls = kindDir) False), False) else conflictOp pol p (Some ls) None
   | None \<Rightarrow> if ls_kind ls = kindDir then (Some (mk_op OpMkdirRemote p True False), False) else (Some (mk_op OpUpload p False (ls_isSymlink ls)), False))"

definition decideRemoteOnly :: "conflict_policy \<Rightarrow> string \<Rightarrow> remote_state \<Rightarrow> base_entry option \<Rightarrow> sync_op option \<times> bool" where
  "decideRemoteOnly pol p rs b = (case b of
     Some be \<Rightarrow> if remoteMatches be rs then (Some (mk_op OpDeleteRemote p (rs_kind rs = kindDir) False), False) else conflictOp pol p None (Some rs)
   | None \<Rightarrow> if rs_kind rs = kindDir then (Some (mk_op OpMkdirLocal p True False), False) else (Some (mk_op OpDownload p False (rs_isSymlink rs)), False))"

definition decide :: "conflict_policy \<Rightarrow> string \<Rightarrow> local_state option \<Rightarrow> remote_state option \<Rightarrow> base_entry option \<Rightarrow> sync_op option \<times> bool" where
  "decide pol p l r b = (case (l, r) of
     (Some ls, Some rs) \<Rightarrow> decideBoth pol p ls rs b
   | (Some ls, None) \<Rightarrow> decideLocalOnly pol p ls b
   | (None, Some rs) \<Rightarrow> decideRemoteOnly pol p rs b
   | (None, None) \<Rightarrow> (None, False))"

definition isDelete :: "op_kind \<Rightarrow> bool" where
  "isDelete k \<longleftrightarrow> k = OpDeleteRemote \<or> k = OpDeleteLocal"

text \<open>The comparison of \<^verbatim>\<open>sort.SliceStable\<close> as a key: edits before deletions; edits by depth and path, deletions deepest first.\<close>

definition op_key :: "sync_op \<Rightarrow> bool \<times> int \<times> string" where
  "op_key x = (if isDelete (op_Kind x) then (True, - int (depth (op_Path x)), []) else (False, int (depth (op_Path x)), op_Path x))"

definition plan_paths :: "local_snapshot \<Rightarrow> remote_snapshot \<Rightarrow> base_state \<Rightarrow> string list" where
  "plan_paths loc rem b = remdups (map fst loc @ map fst rem @ map fst (bs_Entries b))"

definition plan :: "conflict_policy \<Rightarrow> string list \<Rightarrow> base_state \<Rightarrow> local_snapshot \<Rightarrow> remote_snapshot \<Rightarrow> sync_op list \<times> string list" where
  "plan pol paths b loc rem =
     (let d = (\<lambda>p. decide pol p (map_of loc p) (map_of rem p) (map_of (bs_Entries b) p)) in
      (sort_key op_key (concat (map (\<lambda>p. case fst (d p) of None \<Rightarrow> [] | Some x \<Rightarrow> [x]) paths)), filter (\<lambda>p. snd (d p)) paths))"

section \<open>Applying a plan\<close>

text \<open>The two sides, with the applier's cache of remote directory identifiers.\<close>

record 'p sync_world =
  sw_fs :: fs
  sw_prov :: 'p
  sw_dirIDs :: "(string \<times> item_id) list"

record sync_result =
  res_Uploaded :: nat
  res_Downloaded :: nat
  res_DeletedRemote :: nat
  res_DeletedLocal :: nat
  res_MkdirRemote :: nat
  res_MkdirLocal :: nat
  res_Conflicts :: nat
  res_Errors :: "(sync_op \<times> error) list"

definition localDirMeta :: "fs_env \<Rightarrow> fs \<Rightarrow> string \<Rightarrow> metadata" where
  "localDirMeta V fs p = (case Lstat V fs p of Inr fi \<Rightarrow> Capture V fs p fi | Inl _ \<Rightarrow> zero_metadata\<lparr>md_Mode := 493 OR ModeDir\<rparr>)"

lemma last_slash_less: "last_slash p = Some i \<Longrightarrow> i < length p"
  by (induction p arbitrary: i) (auto split: option.splits if_splits)

lemma length_parentPath: "p \<noteq> [] \<Longrightarrow> length (parentPath p) < length p"
  by (auto simp: parentPath_def dest: last_slash_less split: option.splits)

function remoteDirID :: "'p provider_ops \<Rightarrow> fs_env \<Rightarrow> string \<Rightarrow> 'p sync_world \<Rightarrow> 'p sync_world \<times> item_id res" where
  "remoteDirID ops V p w = (if p = [] then (w, Inr (po_Root ops))
     else (case map_of (sw_dirIDs w) p of
       Some did \<Rightarrow> (w, Inr did)
     | None \<Rightarrow> (case remoteDirID ops V (parentPath p) w of
         (w1, Inl e) \<Rightarrow> (w1, Inl e)
       | (w1, Inr parentID) \<Rightarrow> (case po_Lookup ops parentID (baseName p) (sw_prov w1) of
           (p2, Inr it) \<Rightarrow> if \<not> it_IsDir it then (w1\<lparr>sw_prov := p2\<rparr>, Inl ErrKind)
             else (w1\<lparr>sw_prov := p2, sw_dirIDs := AList.update p (it_ID it) (sw_dirIDs w1)\<rparr>, Inr (it_ID it))
         | (p2, Inl e) \<Rightarrow> if e \<noteq> ErrNoItem then (w1\<lparr>sw_prov := p2\<rparr>, Inl e)
             else (case po_CreateItem ops parentID \<lparr>cr_Name = baseName p, cr_IsDir = True, cr_Meta = localDirMeta V (sw_fs w1) p, cr_Contents = None\<rparr> p2 of
               (p3, Inl e) \<Rightarrow> (w1\<lparr>sw_prov := p3\<rparr>, Inl e)
             | (p3, Inr it) \<Rightarrow> (w1\<lparr>sw_prov := p3, sw_dirIDs := AList.update p (it_ID it) (sw_dirIDs w1)\<rparr>, Inr (it_ID it)))))))"
  by pat_completeness auto
termination by (relation "measure (\<lambda>(_, _, p, _). length p)") (auto simp: length_parentPath)

declare remoteDirID.simps [simp del]

definition remoteItemID :: "'p provider_ops \<Rightarrow> fs_env \<Rightarrow> string \<Rightarrow> 'p sync_world \<Rightarrow> 'p sync_world \<times> item_id res" where
  "remoteItemID ops V p w = (case remoteDirID ops V (parentPath p) w of
     (w1, Inl e) \<Rightarrow> (w1, Inl e)
   | (w1, Inr parentID) \<Rightarrow> (case po_Lookup ops parentID (baseName p) (sw_prov w1) of
       (p2, Inl e) \<Rightarrow> (w1\<lparr>sw_prov := p2\<rparr>, Inl e) | (p2, Inr it) \<Rightarrow> (w1\<lparr>sw_prov := p2\<rparr>, Inr (it_ID it))))"

definition upload_create :: "'p provider_ops \<Rightarrow> item_id \<Rightarrow> string \<Rightarrow> metadata \<Rightarrow> reader option \<Rightarrow> 'p sync_world \<Rightarrow> 'p sync_world \<times> unit res" where
  "upload_create ops parentID name meta contents w =
     (case po_CreateItem ops parentID \<lparr>cr_Name = name, cr_IsDir = False, cr_Meta = meta, cr_Contents = contents\<rparr> (sw_prov w) of
       (p1, Inl e) \<Rightarrow> (w\<lparr>sw_prov := p1\<rparr>, Inl e) | (p1, Inr _) \<Rightarrow> (w\<lparr>sw_prov := p1\<rparr>, Inr ()))"

definition upload :: "'p provider_ops \<Rightarrow> fs_env \<Rightarrow> string \<Rightarrow> 'p sync_world \<Rightarrow> 'p sync_world \<times> unit res" where
  "upload ops V p w = (case Lstat V (sw_fs w) p of Inl e \<Rightarrow> (w, Inl e) | Inr fi \<Rightarrow>
     let meta = Capture V (sw_fs w) p fi in
     (case remoteDirID ops V (parentPath p) w of (w1, Inl e) \<Rightarrow> (w1, Inl e) | (w1, Inr parentID) \<Rightarrow>
       if \<not> IsSymlink meta \<and> fe_fault V SOpen p then (w1, Inl ErrIO)
       else let contents = (if IsSymlink meta then None else Some \<lparr>rd_data = fn_Data fi, rd_err = (if fe_fault V SRead p then Some ErrRead else None)\<rparr>) in
         (case po_Lookup ops parentID (baseName p) (sw_prov w1) of
           (p2, Inr existing) \<Rightarrow> if it_IsDir existing
             then (case po_DeleteItem ops (it_ID existing) p2 of
               (p3, Inl e) \<Rightarrow> (w1\<lparr>sw_prov := p3\<rparr>, Inl e)
             | (p3, Inr _) \<Rightarrow> upload_create ops parentID (baseName p) meta contents (w1\<lparr>sw_prov := p3\<rparr>))
             else (case po_ModifyItem ops (it_ID existing) \<lparr>mr_Contents = contents, mr_Meta = Some meta\<rparr> p2 of
               (p3, Inl e) \<Rightarrow> (w1\<lparr>sw_prov := p3\<rparr>, Inl e) | (p3, Inr _) \<Rightarrow> (w1\<lparr>sw_prov := p3\<rparr>, Inr ()))
         | (p2, Inl e) \<Rightarrow> if e \<noteq> ErrNoItem then (w1\<lparr>sw_prov := p2\<rparr>, Inl e)
             else upload_create ops parentID (baseName p) meta contents (w1\<lparr>sw_prov := p2\<rparr>))))"

text \<open>Writing the file of a download: create or truncate, write what arrives, close, restore the attributes.\<close>

definition write_file :: "fs_env \<Rightarrow> string \<Rightarrow> bytes \<times> item_version res \<Rightarrow> metadata \<Rightarrow> fs \<Rightarrow> fs \<times> unit res" where
  "write_file V p fetched meta fs = (case os_Create V p fs of
     (fs1, Inl e) \<Rightarrow> (fs1, Inl e)
   | (fs1, Inr _) \<Rightarrow> let t = followed V fs p in
       if fe_fault V SWrite t then (fs1, Inl ErrIO)
       else let fs2 = fst (set_node (V\<lparr>fe_fault := \<lambda>_ _. False\<rparr>) SWrite t (\<lambda>nd. nd\<lparr>fn_Data := fst fetched, fn_ModTimeNS := fe_now V\<rparr>) fs1) in
         (case snd fetched of
           Inl e \<Rightarrow> (fs2, Inl e)
         | Inr _ \<Rightarrow> if fe_fault V SClose t then (fs2, Inl ErrIO) else Restore V p meta fs2))"

definition download :: "'p provider_ops \<Rightarrow> fs_env \<Rightarrow> string \<Rightarrow> 'p sync_world \<Rightarrow> 'p sync_world \<times> unit res" where
  "download ops V p w = (case remoteItemID ops V p w of (w1, Inl e) \<Rightarrow> (w1, Inl e) | (w1, Inr did) \<Rightarrow>
     (case po_Stat ops did (sw_prov w1) of (p2, Inl e) \<Rightarrow> (w1\<lparr>sw_prov := p2\<rparr>, Inl e) | (p2, Inr it) \<Rightarrow>
       let w2 = w1\<lparr>sw_prov := p2\<rparr> in
       (case MkdirAll V (parentPath p) (sw_fs w2) of (fs3, Inl e) \<Rightarrow> (w2\<lparr>sw_fs := fs3\<rparr>, Inl e) | (fs3, Inr _) \<Rightarrow>
         (case (case Lstat V fs3 p of Inr fi \<Rightarrow> if node_IsDir fi then RemoveAll V p fs3 else (fs3, Inr ()) | Inl _ \<Rightarrow> (fs3, Inr ())) of
           (fs4, Inl e) \<Rightarrow> (w2\<lparr>sw_fs := fs4\<rparr>, Inl e)
         | (fs4, Inr _) \<Rightarrow> if IsSymlink (it_Meta it)
             then (case RestoreSymlink V p (it_Meta it) fs4 of (fs5, r) \<Rightarrow> (w2\<lparr>sw_fs := fs5\<rparr>, r))
             else (case write_file V p (po_FetchContents ops did p2) (it_Meta it) fs4 of (fs5, r) \<Rightarrow> (w2\<lparr>sw_fs := fs5\<rparr>, r))))))"

definition mkdirLocal :: "'p provider_ops \<Rightarrow> fs_env \<Rightarrow> string \<Rightarrow> 'p sync_world \<Rightarrow> 'p sync_world \<times> unit res" where
  "mkdirLocal ops V p w = (case MkdirAll V p (sw_fs w) of (fs1, Inl e) \<Rightarrow> (w\<lparr>sw_fs := fs1\<rparr>, Inl e) | (fs1, Inr _) \<Rightarrow>
     (case remoteItemID ops V p (w\<lparr>sw_fs := fs1\<rparr>) of
       (w2, Inl _) \<Rightarrow> (w2, Inr ())
     | (w2, Inr did) \<Rightarrow> (case po_Stat ops did (sw_prov w2) of
         (p3, Inl _) \<Rightarrow> (w2\<lparr>sw_prov := p3\<rparr>, Inr ())
       | (p3, Inr it) \<Rightarrow> (case Restore V p (it_Meta it) (sw_fs w2) of (fs4, r) \<Rightarrow> (w2\<lparr>sw_prov := p3, sw_fs := fs4\<rparr>, r)))))"

definition deleteRemote :: "'p provider_ops \<Rightarrow> fs_env \<Rightarrow> string \<Rightarrow> 'p sync_world \<Rightarrow> 'p sync_world \<times> unit res" where
  "deleteRemote ops V p w = (case remoteItemID ops V p w of
     (w1, Inl e) \<Rightarrow> if e = ErrNoItem then (w1, Inr ()) else (w1, Inl e)
   | (w1, Inr did) \<Rightarrow> (case po_DeleteItem ops did (sw_prov w1) of (p2, r) \<Rightarrow> (w1\<lparr>sw_prov := p2\<rparr>, r)))"

definition deleteLocal :: "fs_env \<Rightarrow> string \<Rightarrow> 'p sync_world \<Rightarrow> 'p sync_world \<times> unit res" where
  "deleteLocal V p w = (case RemoveAll V p (sw_fs w) of (fs1, r) \<Rightarrow> (w\<lparr>sw_fs := fs1\<rparr>, r))"

definition do_op :: "'p provider_ops \<Rightarrow> fs_env \<Rightarrow> sync_op \<Rightarrow> 'p sync_world \<times> sync_result \<Rightarrow> 'p sync_world \<times> sync_result" where
  "do_op ops V x wr = (let (w, res) = wr; p = op_Path x;
       counted = (\<lambda>(w', r) res'. (w', case r of Inl e \<Rightarrow> res\<lparr>res_Errors := res_Errors res @ [(x, e)]\<rparr> | Inr _ \<Rightarrow> res')) in
     (case op_Kind x of
       OpMkdirRemote \<Rightarrow> counted (case remoteDirID ops V p w of (w1, Inl e) \<Rightarrow> (w1, Inl e) | (w1, Inr _) \<Rightarrow> (w1, Inr ())) (res\<lparr>res_MkdirRemote := res_MkdirRemote res + 1\<rparr>)
     | OpMkdirLocal \<Rightarrow> counted (mkdirLocal ops V p w) (res\<lparr>res_MkdirLocal := res_MkdirLocal res + 1\<rparr>)
     | OpUpload \<Rightarrow> counted (upload ops V p w) (res\<lparr>res_Uploaded := res_Uploaded res + 1\<rparr>)
     | OpDownload \<Rightarrow> counted (download ops V p w) (res\<lparr>res_Downloaded := res_Downloaded res + 1\<rparr>)
     | OpDeleteRemote \<Rightarrow> counted (deleteRemote ops V p w) (res\<lparr>res_DeletedRemote := res_DeletedRemote res + 1\<rparr>)
     | OpDeleteLocal \<Rightarrow> counted (deleteLocal V p w) (res\<lparr>res_DeletedLocal := res_DeletedLocal res + 1\<rparr>)
     | OpConflict \<Rightarrow> (w, res\<lparr>res_Conflicts := res_Conflicts res + 1\<rparr>)))"

definition zero_result :: sync_result where
  "zero_result = \<lparr>res_Uploaded = 0, res_Downloaded = 0, res_DeletedRemote = 0, res_DeletedLocal = 0, res_MkdirRemote = 0, res_MkdirLocal = 0,
     res_Conflicts = 0, res_Errors = []\<rparr>"

text \<open>The loop of \<^verbatim>\<open>apply\<close>. A fault of \<open>SContext\<close> at a path says that the context is found cancelled before
  the operation on it, with which the error is recorded here.\<close>

fun apply_ops :: "'p provider_ops \<Rightarrow> fs_env \<Rightarrow> sync_op list \<Rightarrow> 'p sync_world \<times> sync_result \<Rightarrow> 'p sync_world \<times> sync_result" where
  "apply_ops ops V [] wr = wr"
| "apply_ops ops V (x # xs) wr = (if fe_fault V SContext (op_Path x)
     then (fst wr, (snd wr)\<lparr>res_Errors := res_Errors (snd wr) @ [(x, ErrCancelled)]\<rparr>)
     else apply_ops ops V xs (do_op ops V x wr))"

definition apply_plan :: "'p provider_ops \<Rightarrow> fs_env \<Rightarrow> sync_op list \<Rightarrow> fs \<times> 'p \<Rightarrow> 'p sync_world \<times> sync_result" where
  "apply_plan ops V xs st = apply_ops ops V xs (\<lparr>sw_fs = fst st, sw_prov = snd st, sw_dirIDs = []\<rparr>, zero_result)"

section \<open>A pass\<close>

definition rebuild_entries :: "local_snapshot \<Rightarrow> remote_snapshot \<Rightarrow> base_state \<Rightarrow> string list \<Rightarrow> (string \<times> base_entry) list" where
  "rebuild_entries loc rem old skipped =
     concat (map (\<lambda>(p, ls). case map_of rem p of None \<Rightarrow> []
       | Some rs \<Rightarrow> if ls_kind ls \<noteq> rs_kind rs \<or> p \<in> set skipped then [] else [(p, agree ls rs)]) loc)
     @ concat (map (\<lambda>p. case map_of (bs_Entries old) p of None \<Rightarrow> [] | Some be \<Rightarrow> [(p, be)]) skipped)"

definition rebuildBase :: "nat \<Rightarrow> 'p provider_ops \<Rightarrow> fs_env \<Rightarrow> (string \<Rightarrow> bool) \<Rightarrow> base_state \<Rightarrow> string list \<Rightarrow> fs \<Rightarrow> 'p \<Rightarrow> ('p \<times> base_state res) option" where
  "rebuildBase n ops V ignore old skipped fs p = (case scanRemote n ops p of
     None \<Rightarrow> None
   | Some (p1, Inl e) \<Rightarrow> Some (p1, Inl e)
   | Some (p1, Inr rem) \<Rightarrow> Some (p1, Inr \<lparr>bs_Version = stateVersion, bs_Entries = rebuild_entries (scanLocal V ignore fs) rem old skipped\<rparr>))"

record 'p sync_state =
  ss_fs :: fs
  ss_prov :: 'p
  ss_sidecar :: "bytes option"

definition sync_Reconcile :: "nat \<Rightarrow> 'p provider_ops \<Rightarrow> fs_env \<Rightarrow> state_codec \<Rightarrow> conflict_policy \<Rightarrow> (string \<Rightarrow> bool) \<Rightarrow> 'p sync_state
    \<Rightarrow> ('p sync_state \<times> sync_result \<times> unit res) option" where
  "sync_Reconcile n ops V C pol ignore st = (case loadState C V (ss_sidecar st) of
     Inl e \<Rightarrow> Some (st, zero_result, Inl e)
   | Inr base \<Rightarrow> (case scanRemote n ops (ss_prov st) of
       None \<Rightarrow> None
     | Some (p1, Inl e) \<Rightarrow> Some (st\<lparr>ss_prov := p1\<rparr>, zero_result, Inl e)
     | Some (p1, Inr rem) \<Rightarrow>
         let loc = scanLocal V ignore (ss_fs st);
             (xs, skipped) = plan pol (plan_paths loc rem base) base loc rem;
             (w, res) = apply_plan ops V xs (ss_fs st, p1) in
         (case rebuildBase n ops V ignore base skipped (sw_fs w) (sw_prov w) of
           None \<Rightarrow> None
         | Some (p2, Inl e) \<Rightarrow> Some (st\<lparr>ss_fs := sw_fs w, ss_prov := p2\<rparr>, res, Inl e)
         | Some (p2, Inr nb) \<Rightarrow> (case saveState C V nb (ss_sidecar st) of (sidecar, r) \<Rightarrow>
             Some (st\<lparr>ss_fs := sw_fs w, ss_prov := p2, ss_sidecar := sidecar\<rparr>, res, r)))))"

definition PlanOnly :: "nat \<Rightarrow> 'p provider_ops \<Rightarrow> fs_env \<Rightarrow> state_codec \<Rightarrow> conflict_policy \<Rightarrow> (string \<Rightarrow> bool) \<Rightarrow> 'p sync_state
    \<Rightarrow> ('p sync_state \<times> sync_op list res) option" where
  "PlanOnly n ops V C pol ignore st = (case loadState C V (ss_sidecar st) of
     Inl e \<Rightarrow> Some (st, Inl e)
   | Inr base \<Rightarrow> (case scanRemote n ops (ss_prov st) of
       None \<Rightarrow> None
     | Some (p1, Inl e) \<Rightarrow> Some (st\<lparr>ss_prov := p1\<rparr>, Inl e)
     | Some (p1, Inr rem) \<Rightarrow> let loc = scanLocal V ignore (ss_fs st) in
         Some (st\<lparr>ss_prov := p1\<rparr>, Inr (fst (plan pol (plan_paths loc rem base) base loc rem)))))"

text \<open>One tick of \<^verbatim>\<open>daemon.go\<close>: a pass, whose result and errors only go to callbacks.\<close>

definition tick :: "nat \<Rightarrow> 'p provider_ops \<Rightarrow> fs_env \<Rightarrow> state_codec \<Rightarrow> conflict_policy \<Rightarrow> (string \<Rightarrow> bool) \<Rightarrow> 'p sync_state \<Rightarrow> 'p sync_state option" where
  "tick n ops V C pol ignore st = map_option fst (sync_Reconcile n ops V C pol ignore st)"

end
