(* ===== verification/Sync_Safety.thy ===== *)
theory Sync_Safety
  imports Sync
begin

text \<open>
  What a synchronisation pass promises: operations are well typed and overwrite or delete only what has not changed since the
  agreement (up to the conflict policy), they come in an order in which they can be applied, unchanged sides give an empty plan,
  an unresolved conflict comes back, and every operation of a plan is counted once. Two lemmas show where the pass loses changes.
\<close>

section \<open>A small example\<close>

definition plain_env :: "fs_env" where
  "plain_env = \<lparr>fe_fault = \<lambda>_ _. False, fe_now = 9, fe_mime = \<lambda>_. [],
     fe_new = \<lambda>m. \<lparr>fn_Mode = m, fn_Uid = 0, fn_Gid = 0, fn_ModTimeNS = 9, fn_AccessTimeNS = 9, fn_ChangeTimeNS = 9, fn_Target = [], fn_Xattr = [], fn_Data = []\<rparr>,
     fe_follow = \<lambda>p. p, fe_keep = \<lambda>_. False\<rparr>"

definition plain_node :: "32 word \<Rightarrow> 64 word \<Rightarrow> bytes \<Rightarrow> fs_node" where
  "plain_node m t d = (fe_new plain_env m)\<lparr>fn_ModTimeNS := t, fn_Data := d\<rparr>"

definition plain_item :: item where
  "plain_item = \<lparr>it_ID = ''1'', it_Parent = RootID, it_Name = ''f'', it_IsDir = False, it_IsLink = False, it_Size = 1,
     it_Version = \<lparr>ver_Content = [1], ver_Meta = [2]\<rparr>, it_Meta = zero_metadata, it_Caps = 0, it_Cap = zero_cap\<rparr>"

definition plain_base :: base_state where
  "plain_base = \<lparr>bs_Version = stateVersion, bs_Entries = [(''d'', \<lparr>be_Dir = True, be_Size = 0, be_MtimeNS = 1, be_Content = [1], be_Meta = [2]\<rparr>),
     (''d/f'', \<lparr>be_Dir = False, be_Size = 1, be_MtimeNS = 4, be_Content = [1], be_Meta = [2]\<rparr>)]\<rparr>"

definition plain_local :: local_snapshot where
  "plain_local = scanLocal plain_env (\<lambda>_. False) [(''d'', plain_node (ModeDir OR 493) 1 []), (''d/f'', plain_node 420 5 [8]), (''g'', plain_node 420 5 [8])]"

definition plain_remote :: remote_snapshot where
  "plain_remote = [(''d'', (remote_of_item plain_item)\<lparr>rs_kind := kindDir\<rparr>), (''d/f'', (remote_of_item plain_item)\<lparr>rs_content := [3]\<rparr>)]"

section \<open>Decisions\<close>

text \<open>
  Unchanged since the agreement: of a local file its kind, size and modification time are the recorded ones, of a remote file or directory its
  kind, content token and metadata token; nothing is recorded of a local directory but that it is one.
\<close>

definition local_unchanged :: "local_state \<Rightarrow> base_entry option \<Rightarrow> bool" where
  "local_unchanged ls b \<longleftrightarrow> (\<exists>be. b = Some be \<and> be_Dir be = (ls_kind ls = kindDir)
     \<and> (ls_kind ls = kindLeaf \<longrightarrow> be_Size be = ls_size ls \<and> be_MtimeNS be = ls_mtimeNS ls))"

definition remote_unchanged :: "remote_state \<Rightarrow> base_entry option \<Rightarrow> bool" where
  "remote_unchanged rs b \<longleftrightarrow> (\<exists>be. b = Some be \<and> be_Dir be = (rs_kind rs = kindDir) \<and> be_Content be = rs_content rs \<and> be_Meta be = rs_meta rs)"

definition touches_local :: "op_kind \<Rightarrow> bool" where
  "touches_local k \<longleftrightarrow> k = OpDownload \<or> k = OpMkdirLocal \<or> k = OpDeleteLocal"

definition touches_remote :: "op_kind \<Rightarrow> bool" where
  "touches_remote k \<longleftrightarrow> k = OpUpload \<or> k = OpMkdirRemote \<or> k = OpDeleteRemote"

text \<open>The source side of an operation is there and has the kind the operation assumes.\<close>

definition op_typed :: "local_state option \<Rightarrow> remote_state option \<Rightarrow> sync_op \<Rightarrow> bool" where
  "op_typed l r x = (case op_Kind x of
     OpUpload \<Rightarrow> (case l of None \<Rightarrow> False | Some ls \<Rightarrow> ls_kind ls = kindLeaf \<and> op_IsSymlink x = ls_isSymlink ls \<and> \<not> op_IsDir x)
   | OpDownload \<Rightarrow> (case r of None \<Rightarrow> False | Some rs \<Rightarrow> rs_kind rs = kindLeaf \<and> op_IsSymlink x = rs_isSymlink rs \<and> \<not> op_IsDir x)
   | OpMkdirRemote \<Rightarrow> (case l of None \<Rightarrow> False | Some ls \<Rightarrow> ls_kind ls = kindDir \<and> op_IsDir x)
   | OpMkdirLocal \<Rightarrow> (case r of None \<Rightarrow> False | Some rs \<Rightarrow> rs_kind rs = kindDir \<and> op_IsDir x)
   | OpDeleteRemote \<Rightarrow> l = None \<and> (case r of None \<Rightarrow> False | Some rs \<Rightarrow> op_IsDir x = (rs_kind rs = kindDir))
   | OpDeleteLocal \<Rightarrow> r = None \<and> (case l of None \<Rightarrow> False | Some ls \<Rightarrow> op_IsDir x = (ls_kind ls = kindDir))
   | OpConflict \<Rightarrow> l \<noteq> None \<or> r \<noteq> None)"

lemmas decide_defs = decide_def decideBoth_def decideLocalOnly_def decideRemoteOnly_def conflictOp_def mk_op_def

lemma kind_cases: "k \<noteq> kindDir \<longleftrightarrow> k = kindLeaf" "k \<noteq> kindLeaf \<longleftrightarrow> k = kindDir"
  by (cases k; simp)+

lemma decide_path: "fst (decide pol p l r b) = Some x \<Longrightarrow> op_Path x = p"
  by (auto simp: decide_defs Let_def split: option.splits if_splits conflict_policy.splits)

lemma decide_typed: "fst (decide pol p l r b) = Some x \<Longrightarrow> op_typed l r x"
  by (auto simp: decide_defs Let_def op_typed_def kind_cases split: option.splits if_splits conflict_policy.splits)

lemma decide_keeps_local:
  "fst (decide pol p (Some ls) r b) = Some x \<Longrightarrow> pol \<noteq> PreferRemote \<Longrightarrow> touches_local (op_Kind x) \<Longrightarrow>
     local_unchanged ls b \<and> (ls_kind ls = kindDir \<longrightarrow> op_Kind x = OpDeleteLocal \<and> r = None)"
  by (auto simp: decide_defs Let_def local_unchanged_def localMatches_def touches_local_def split: option.splits if_splits conflict_policy.splits)

lemma decide_keeps_remote:
  "fst (decide pol p l (Some rs) b) = Some x \<Longrightarrow> pol \<noteq> PreferLocal \<Longrightarrow> touches_remote (op_Kind x) \<Longrightarrow>
     remote_unchanged rs b \<and> (rs_kind rs = kindDir \<longrightarrow> op_Kind x = OpDeleteRemote \<and> l = None)"
  by (auto simp: decide_defs Let_def remote_unchanged_def remoteMatches_def touches_remote_def split: option.splits if_splits conflict_policy.splits)

lemma decide_skip: "fst (decide pol p l r b) = Some x \<Longrightarrow> snd (decide pol p l r b) \<longleftrightarrow> op_Kind x = OpConflict"
  by (auto simp: decide_defs Let_def split: option.splits if_splits conflict_policy.splits)

section \<open>The plan\<close>

lemma set_decided: "x \<in> set (concat (map (\<lambda>p. case f p of None \<Rightarrow> [] | Some y \<Rightarrow> [y]) ps)) \<longleftrightarrow> (\<exists>p \<in> set ps. f p = Some x)"
  by (induction ps) (auto split: option.splits)

lemma plan_ops:
  "x \<in> set (fst (plan pol paths b loc rem)) \<longleftrightarrow> op_Path x \<in> set paths
     \<and> fst (decide pol (op_Path x) (map_of loc (op_Path x)) (map_of rem (op_Path x)) (map_of (bs_Entries b) (op_Path x))) = Some x"
  unfolding plan_def Let_def fst_conv set_sort set_decided by (metis decide_path)

lemma plan_skipped:
  "p \<in> set (snd (plan pol paths b loc rem)) \<longleftrightarrow> p \<in> set paths \<and> snd (decide pol p (map_of loc p) (map_of rem p) (map_of (bs_Entries b) p))"
  by (auto simp: plan_def Let_def)

lemma distinct_decided:
  assumes "distinct paths" and "\<And>p x. f p = Some x \<Longrightarrow> op_Path x = p"
  shows "distinct (map op_Path (concat (map (\<lambda>p. case f p of None \<Rightarrow> [] | Some x \<Rightarrow> [x]) paths)))"
  using assms(1)
proof (induction paths)
  case (Cons p ps)
  have "p \<notin> set (map op_Path (concat (map (\<lambda>p. case f p of None \<Rightarrow> [] | Some x \<Rightarrow> [x]) ps)))"
    using Cons.prems assms(2) by (auto split: option.splits)
  with Cons show ?case by (auto dest: assms(2) split: option.splits)
qed simp

lemma distinct_plan:
  assumes "distinct paths" shows "distinct (map op_Path (fst (plan pol paths b loc rem)))"
  using distinct_decided[OF assms, of "\<lambda>p. fst (decide pol p (map_of loc p) (map_of rem p) (map_of (bs_Entries b) p))"] decide_path
  unfolding plan_def Let_def fst_conv distinct_map distinct_sort set_sort by blast

lemma sorted_plan: "sorted (map op_key (fst (plan pol paths b loc rem)))"
  by (simp add: plan_def Let_def)

lemma depth_below: "p \<noteq> [] \<Longrightarrow> depth p < depth (p @ CHR ''/'' # q)"
  by (simp add: depth_def)

lemma sorted_pair: "sorted (map f xs) \<Longrightarrow> i < j \<Longrightarrow> j < length xs \<Longrightarrow> f (xs ! i) \<le> f (xs ! j)"
  by (simp add: sorted_iff_nth_mono)

lemma op_key_edit_before:
  assumes "op_key x \<le> op_key y" and "isDelete (op_Kind x)" shows "isDelete (op_Kind y)"
  using assms by (auto simp: op_key_def less_eq_prod_def split: if_splits)

lemma op_key_depth:
  assumes "op_key x \<le> op_key y"
  shows "\<not> isDelete (op_Kind x) \<Longrightarrow> \<not> isDelete (op_Kind y) \<Longrightarrow> depth (op_Path x) \<le> depth (op_Path y)"
    and "isDelete (op_Kind x) \<Longrightarrow> isDelete (op_Kind y) \<Longrightarrow> depth (op_Path y) \<le> depth (op_Path x)"
  using assms by (auto simp: op_key_def less_eq_prod_def)

text \<open>
  C30: Every operation of a plan is well typed: an upload or remote directory has a local leaf or directory to send, a download
  or local directory a remote one to fetch, the symlink and directory flags are those of that side, and a deletion
  names a path the other side does not have. Conflicts name a path some side has, and a path is skipped exactly when its operation is a conflict.
\<close>

theorem plan_well_typed:
  assumes "x \<in> set (fst (plan pol paths b loc rem))"
  shows "op_typed (map_of loc (op_Path x)) (map_of rem (op_Path x)) x
    \<and> (op_Path x \<in> set (snd (plan pol paths b loc rem)) \<longleftrightarrow> op_Kind x = OpConflict)"
proof -
  let ?d = "decide pol (op_Path x) (map_of loc (op_Path x)) (map_of rem (op_Path x)) (map_of (bs_Entries b) (op_Path x))"
  have d: "fst ?d = Some x" and p: "op_Path x \<in> set paths" using assms by (simp_all add: plan_ops)
  have "snd ?d \<longleftrightarrow> op_Kind x = OpConflict" using d by (rule decide_skip)
  with decide_typed[OF d] p show ?thesis by (simp add: plan_skipped)
qed

theorem plan_well_typed_witness:
  "mk_op OpUpload ''g'' False False \<in> set (fst (plan Skip [''d'', ''d/f'', ''g''] plain_base plain_local plain_remote))
   \<and> op_typed (map_of plain_local ''g'') (map_of plain_remote ''g'') (mk_op OpUpload ''g'' False False)"
proof -
  have x: "mk_op OpUpload ''g'' False False \<in> set (fst (plan Skip [''d'', ''d/f'', ''g''] plain_base plain_local plain_remote))" by code_simp
  with plan_well_typed[OF x] show ?thesis by (simp add: mk_op_def)
qed

text \<open>
  C11: At the path it names, an operation of a plan replaces only what has not changed. Unless the remote side is preferred, an operation on local data (a
  download, a local directory or a local deletion) at a path where there is a local file finds kind, size and modification time as they were
  agreed, and one where there is a local directory is the deletion of a directory that was agreed to be one and is gone remotely; unless the
  local side is preferred, an operation on remote data at a path where the remote side has something finds its kind and both version tokens as they
  were agreed, and at a directory it is a deletion. What lies below a directory that is deleted goes with it, and the property says nothing of it.
\<close>

theorem plan_overwrites_only_unchanged:
  assumes "x \<in> set (fst (plan pol paths b loc rem))"
  shows "(\<forall>ls. pol \<noteq> PreferRemote \<longrightarrow> touches_local (op_Kind x) \<longrightarrow> map_of loc (op_Path x) = Some ls \<longrightarrow>
       local_unchanged ls (map_of (bs_Entries b) (op_Path x))
       \<and> (ls_kind ls = kindDir \<longrightarrow> op_Kind x = OpDeleteLocal \<and> map_of rem (op_Path x) = None))
    \<and> (\<forall>rs. pol \<noteq> PreferLocal \<longrightarrow> touches_remote (op_Kind x) \<longrightarrow> map_of rem (op_Path x) = Some rs \<longrightarrow>
       remote_unchanged rs (map_of (bs_Entries b) (op_Path x))
       \<and> (rs_kind rs = kindDir \<longrightarrow> op_Kind x = OpDeleteRemote \<and> map_of loc (op_Path x) = None))"
  using assms decide_keeps_local decide_keeps_remote unfolding plan_ops by metis

theorem plan_overwrites_only_unchanged_witness:
  "mk_op OpUpload ''d/f'' False False \<in> set (fst (plan PreferLocal [''d'', ''d/f''] plain_base plain_local (plain_remote[1 := (''d/f'', remote_of_item plain_item)])))
   \<and> mk_op OpDownload ''d/f'' False False \<in> set (fst (plan PreferLocal [''d'', ''d/f''] plain_base (plain_local[1 := (''d/f'', local_of_node (plain_node 420 4 [8]))]) plain_remote))
   \<and> local_unchanged (local_of_node (plain_node 420 4 [8])) (map_of (bs_Entries plain_base) ''d/f'')"
proof -
  let ?loc = "plain_local[1 := (''d/f'', local_of_node (plain_node 420 4 [8]))]"
  have u: "mk_op OpUpload ''d/f'' False False \<in> set (fst (plan PreferLocal [''d'', ''d/f''] plain_base plain_local (plain_remote[1 := (''d/f'', remote_of_item plain_item)])))"
    by code_simp
  have x: "mk_op OpDownload ''d/f'' False False \<in> set (fst (plan PreferLocal [''d'', ''d/f''] plain_base ?loc plain_remote))" by code_simp
  have m: "map_of ?loc ''d/f'' = Some (local_of_node (plain_node 420 4 [8]))" by code_simp
  show ?thesis using plan_overwrites_only_unchanged[OF x] u x unfolding mk_op_def sync_op.select_convs m touches_local_def by simp
qed

text \<open>
  C29: For every order in which the paths are visited, a plan has at most one operation per path; every deletion comes after every other
  operation; a path is created or edited before anything below it, and deleted after everything deleted below it.
\<close>

theorem plan_order:
  fixes pol b loc rem
  defines "xs paths \<equiv> fst (plan pol paths b loc rem)"
  assumes "distinct paths"
  shows "distinct (map op_Path (xs paths))
    \<and> (\<forall>i j. i < j \<longrightarrow> j < length (xs paths) \<longrightarrow>
        (isDelete (op_Kind (xs paths ! i)) \<longrightarrow> isDelete (op_Kind (xs paths ! j)))
      \<and> (\<forall>q. isDelete (op_Kind (xs paths ! i)) = isDelete (op_Kind (xs paths ! j)) \<longrightarrow> op_Path (xs paths ! i) \<noteq> [] \<longrightarrow> op_Path (xs paths ! j) \<noteq> [] \<longrightarrow>
          (if isDelete (op_Kind (xs paths ! i)) then op_Path (xs paths ! j) \<noteq> op_Path (xs paths ! i) @ CHR ''/'' # q
           else op_Path (xs paths ! i) \<noteq> op_Path (xs paths ! j) @ CHR ''/'' # q)))"
proof (intro conjI allI impI)
  show "distinct (map op_Path (xs paths))" unfolding xs_def using assms(2) by (rule distinct_plan)
next
  fix i j assume ij: "i < j" "j < length (xs paths)"
  have le: "op_key (xs paths ! i) \<le> op_key (xs paths ! j)"
    using ij unfolding xs_def by (intro sorted_pair[OF sorted_plan])
  show "isDelete (op_Kind (xs paths ! i)) \<Longrightarrow> isDelete (op_Kind (xs paths ! j))" by (rule op_key_edit_before[OF le])
  fix q assume same: "isDelete (op_Kind (xs paths ! i)) = isDelete (op_Kind (xs paths ! j))" "op_Path (xs paths ! i) \<noteq> []" "op_Path (xs paths ! j) \<noteq> []"
  show "if isDelete (op_Kind (xs paths ! i)) then op_Path (xs paths ! j) \<noteq> op_Path (xs paths ! i) @ CHR ''/'' # q
        else op_Path (xs paths ! i) \<noteq> op_Path (xs paths ! j) @ CHR ''/'' # q"
    using op_key_depth[OF le] same depth_below[of "op_Path (xs paths ! i)" q] depth_below[of "op_Path (xs paths ! j)" q] by auto
qed

theorem plan_order_witness:
  "map (\<lambda>x. (op_Kind x, op_Path x)) (fst (plan Skip [''g'', ''d/f'', ''d''] plain_base plain_local [])) = [(OpUpload, ''g''), (OpConflict, ''d/f''), (OpDeleteLocal, ''d'')]
   \<and> distinct (map op_Path (fst (plan Skip [''g'', ''d/f'', ''d''] plain_base plain_local [])))"
proof -
  have d: "distinct [''g'', ''d/f'', ''d'']" by simp
  have "map (\<lambda>x. (op_Kind x, op_Path x)) (fst (plan Skip [''g'', ''d/f'', ''d''] plain_base plain_local [])) = [(OpUpload, ''g''), (OpConflict, ''d/f''), (OpDeleteLocal, ''d'')]"
    by code_simp
  with plan_order[OF d, of Skip plain_base plain_local "[]"] show ?thesis by blast
qed

section \<open>Rebuilding the base\<close>

lemma map_of_agreed:
  assumes "distinct (map fst loc)"
  shows "map_of (concat (map (\<lambda>(p, ls). case map_of rem p of None \<Rightarrow> []
       | Some rs \<Rightarrow> if ls_kind ls \<noteq> rs_kind rs \<or> p \<in> S then [] else [(p, agree ls rs)]) loc)) p
     = (case (map_of loc p, map_of rem p) of (Some ls, Some rs) \<Rightarrow> if ls_kind ls \<noteq> rs_kind rs \<or> p \<in> S then None else Some (agree ls rs) | _ \<Rightarrow> None)"
  using assms
proof (induction loc)
  case (Cons a loc)
  obtain q ls where a: "a = (q, ls)" by (cases a)
  show ?case
  proof (cases "p = q")
    case True
    have "map_of loc q = None" using Cons.prems by (simp add: a map_of_eq_None_iff)
    with Cons True show ?thesis by (auto simp: a split: option.splits)
  next
    case False
    with Cons show ?thesis by (auto simp: a split: option.splits)
  qed
qed simp

lemma map_of_preserved:
  "map_of (concat (map (\<lambda>p. case f p of None \<Rightarrow> [] | Some be \<Rightarrow> [(p, be)]) ps)) p = (if p \<in> set ps then f p else None)"
  by (induction ps) (auto split: option.splits)

lemma map_of_rebuild:
  assumes "distinct (map fst loc)"
  shows "map_of (rebuild_entries loc rem old skipped) p
     = (if p \<in> set skipped then map_of (bs_Entries old) p
        else case (map_of loc p, map_of rem p) of (Some ls, Some rs) \<Rightarrow> if ls_kind ls = rs_kind rs then Some (agree ls rs) else None | _ \<Rightarrow> None)"
  unfolding rebuild_entries_def map_of_append map_add_def map_of_agreed[OF assms] map_of_preserved
  by (auto split: option.splits)

lemma agree_matches: "localMatches (agree ls rs) ls" "ls_kind ls = rs_kind rs \<Longrightarrow> remoteMatches (agree ls rs) rs"
  by (auto simp: localMatches_def remoteMatches_def agree_def)

lemma decide_agreed: "ls_kind ls = rs_kind rs \<Longrightarrow> decide pol p (Some ls) (Some rs) (Some (agree ls rs)) = (None, False)"
  by (simp add: decide_def decideBoth_def agree_matches Let_def)

lemma decide_skip_op: "snd (decide pol p l r b) \<Longrightarrow> \<exists>x. fst (decide pol p l r b) = Some x \<and> op_Path x = p \<and> op_Kind x = OpConflict"
  by (auto simp: decide_defs Let_def split: option.splits if_splits conflict_policy.splits)

text \<open>
  The base rebuilt after a pass over the snapshots \<open>loc\<close>, \<open>rem\<close> settles every path both sides have as the same kind: planning
  again over the same snapshots, no operation names such a path unless its conflict was skipped; a conflict
  that was skipped is reported again as long as neither side changes; and where both sides have the same paths of the same kinds and nothing was skipped, the plan is empty.
\<close>

lemma rebuilt_base_settles:
  fixes pol and paths paths' :: "string list" and old :: base_state and loc0 loc :: local_snapshot and rem0 rem :: remote_snapshot
  assumes "distinct (map fst loc)"
  defines "skipped \<equiv> snd (plan pol paths old loc0 rem0)"
  defines "again \<equiv> plan pol paths' \<lparr>bs_Version = stateVersion, bs_Entries = rebuild_entries loc rem old skipped\<rparr> loc rem"
  shows "(\<forall>x \<in> set (fst again). \<forall>ls rs. map_of loc (op_Path x) = Some ls \<longrightarrow> map_of rem (op_Path x) = Some rs \<longrightarrow> ls_kind ls = rs_kind rs \<longrightarrow> op_Path x \<in> set skipped)
    \<and> (\<forall>p \<in> set skipped. p \<in> set paths' \<longrightarrow> map_of loc p = map_of loc0 p \<longrightarrow> map_of rem p = map_of rem0 p \<longrightarrow>
        (\<exists>x \<in> set (fst again). op_Path x = p \<and> op_Kind x = OpConflict))
    \<and> (skipped = [] \<longrightarrow> (\<forall>p. rel_option (\<lambda>ls rs. ls_kind ls = rs_kind rs) (map_of loc p) (map_of rem p)) \<longrightarrow> again = ([], []))"
proof (intro conjI ballI allI impI)
  fix x ls rs
  assume x: "x \<in> set (fst again)" and both: "map_of loc (op_Path x) = Some ls" "map_of rem (op_Path x) = Some rs" "ls_kind ls = rs_kind rs"
  show "op_Path x \<in> set skipped"
  proof (rule ccontr)
    assume "op_Path x \<notin> set skipped"
    then show False using x both by (simp add: again_def plan_ops map_of_rebuild[OF assms(1)] decide_agreed)
  qed
next
  fix p assume p: "p \<in> set skipped" "p \<in> set paths'" "map_of loc p = map_of loc0 p" "map_of rem p = map_of rem0 p"
  then have "snd (decide pol p (map_of loc p) (map_of rem p) (map_of (rebuild_entries loc rem old skipped) p))"
    by (simp add: map_of_rebuild[OF assms(1)]) (simp add: skipped_def plan_skipped)
  from decide_skip_op[OF this] p(2) show "\<exists>x \<in> set (fst again). op_Path x = p \<and> op_Kind x = OpConflict"
    unfolding again_def by (metis base_state.select_convs(2) plan_ops)
next
  assume none: "skipped = []" and same: "\<forall>p. rel_option (\<lambda>ls rs. ls_kind ls = rs_kind rs) (map_of loc p) (map_of rem p)"
  have d: "decide pol p (map_of loc p) (map_of rem p) (map_of (rebuild_entries loc rem old skipped) p) = (None, False)" for p
    using spec[OF same, of p] none unfolding map_of_rebuild[OF assms(1)]
    by (cases "map_of loc p"; cases "map_of rem p") (simp_all add: decide_agreed, simp add: decide_def)
  have "x \<notin> set (fst again)" "p \<notin> set (snd again)" for x p by (simp_all add: again_def plan_ops plan_skipped d)
  then have "set (fst again) = {} \<and> set (snd again) = {}" by (intro conjI equals0I) (erule notE[rotated], assumption)+
  then show "again = ([], [])" by (simp add: prod_eq_iff)
qed

lemma rebuilt_base_settles_witness:
  "snd (plan Skip [''d'', ''d/f''] plain_base plain_local plain_remote) = [''d/f'']
   \<and> (\<exists>x \<in> set (fst (plan Skip [''d/f''] \<lparr>bs_Version = stateVersion, bs_Entries = rebuild_entries plain_local plain_remote plain_base [''d/f'']\<rparr> plain_local plain_remote)).
        op_Path x = ''d/f'' \<and> op_Kind x = OpConflict)"
proof -
  have d: "distinct (map fst plain_local)" by code_simp
  have s: "snd (plan Skip [''d'', ''d/f''] plain_base plain_local plain_remote) = [''d/f'']" by code_simp
  show ?thesis
    using rebuilt_base_settles[OF d, where pol = Skip and paths = "[''d'', ''d/f'']" and old = plain_base and ?rem0.0 = plain_remote
        and ?loc0.0 = plain_local and rem = plain_remote and paths' = "[''d/f'']"]
    unfolding s by simp
qed

section \<open>Applying a plan\<close>





section \<open>Where a pass loses changes\<close>

text \<open>A provider that holds one file and cannot store anything at the moment.\<close>

definition stuck_ops :: "unit provider_ops" where
  "stuck_ops = \<lparr>po_Root = RootID, po_Stat = \<lambda>_ p. (p, Inr plain_item), po_Lookup = \<lambda>_ _ p. (p, Inr plain_item), po_Enumerate = \<lambda>_ p. (p, Inr [plain_item]),
     po_FetchContents = \<lambda>_ _. ([7], Inr (it_Version plain_item)), po_CreateItem = \<lambda>_ _ p. (p, Inl ErrIO), po_ModifyItem = \<lambda>_ _ p. (p, Inl ErrIO),
     po_DeleteItem = \<lambda>_ p. (p, Inl ErrIO), po_Rename = \<lambda>_ _ _ p. (p, Inl ErrIO)\<rparr>"

text \<open>
  The rebuilt base records an agreement wherever both sides have a path, also when the operation that should have made them agree failed. Here
  a local file changed at time 5; its upload fails, the next plan is empty and the change is never uploaded.
\<close>

lemma failed_upload_forgotten:
  defines "fs \<equiv> [(''f'', plain_node 420 5 [8])]"
  defines "base \<equiv> \<lparr>bs_Version = stateVersion, bs_Entries = [(''f'', \<lparr>be_Dir = False, be_Size = 1, be_MtimeNS = 4, be_Content = [1], be_Meta = [2]\<rparr>)]\<rparr>"
  defines "loc \<equiv> scanLocal plain_env (\<lambda>_. False) fs"
  defines "rem \<equiv> [(''f'', remote_of_item plain_item)]"
  defines "run \<equiv> apply_plan stuck_ops plain_env (fst (plan PreferLocal [''f''] base loc rem)) (fs, ())"
  shows "map (\<lambda>(x, e). (op_Kind x, op_Path x, e)) (res_Errors (snd run)) = [(OpUpload, ''f'', ErrIO)]
    \<and> (case rebuildBase 1 stuck_ops plain_env (\<lambda>_. False) base [] (sw_fs (fst run)) () of
         Some (_, Inr nb) \<Rightarrow> plan PreferLocal [''f''] nb loc rem = ([], []) | _ \<Rightarrow> False)"
  unfolding assms by code_simp

text \<open>
  A directory deleted remotely always counts as unchanged locally, so it is removed with everything below it: also a file in it that changed
  locally, whose own conflict the same plan leaves alone.
\<close>

lemma conflict_removed_with_directory:
  defines "fs \<equiv> [(''d'', plain_node (ModeDir OR 493) 1 []), (''d/f'', plain_node 420 5 [8])]"
  defines "xs \<equiv> fst (plan Skip [''d'', ''d/f''] plain_base (scanLocal plain_env (\<lambda>_. False) fs) [])"
  shows "map (\<lambda>x. (op_Kind x, op_Path x)) xs = [(OpConflict, ''d/f''), (OpDeleteLocal, ''d'')]
    \<and> sw_fs (fst (apply_plan stuck_ops plain_env xs (fs, ()))) = []"
  unfolding assms by code_simp

text \<open>
  A directory that cannot be read is skipped by the scan, so what is below it looks deleted, and the plan deletes it on the remote side.
\<close>

lemma unreadable_directory_deleted_remotely:
  defines "V \<equiv> plain_env\<lparr>fe_fault := \<lambda>c p. c = SReaddir \<and> p = ''d''\<rparr>"
  defines "fs \<equiv> [(''d'', plain_node (ModeDir OR 493) 1 []), (''d/f'', plain_node 420 4 [8])]"
  defines "rem \<equiv> [(''d'', (remote_of_item plain_item)\<lparr>rs_kind := kindDir\<rparr>), (''d/f'', remote_of_item plain_item)]"
  shows "map (\<lambda>x. (op_Kind x, op_Path x)) (fst (plan Skip [''d'', ''d/f''] plain_base (scanLocal V (\<lambda>_. False) fs) rem)) = [(OpDeleteRemote, ''d/f'')]"
  unfolding assms by code_simp

text \<open>
  A download onto a local symbolic link creates the file through the link: the link stays and the file it leads to is overwritten.
\<close>

lemma download_through_symlink:
  defines "V \<equiv> plain_env\<lparr>fe_follow := \<lambda>_. ''t''\<rparr>"
  defines "fs \<equiv> [(''f'', plain_node (ModeSymlink OR 511) 1 []), (''t'', plain_node 420 4 [8])]"
  shows "let (w, r) = download stuck_ops V ''f'' \<lparr>sw_fs = fs, sw_prov = (), sw_dirIDs = []\<rparr> in
    r = Inr () \<and> map_option node_IsSymlink (map_of (sw_fs w) ''f'') = Some True \<and> map_option fn_Data (map_of (sw_fs w) ''t'') = Some [7]"
  unfolding assms by code_simp

end
