(* ===== verification/Placement.thy ===== *)
theory Placement
  imports Complex_Main Prelude "HOL-Library.Product_Lexorder" "HOL-Library.Multiset"
begin

text \<open>
  \<^verbatim>\<open>src/internal/placement\<close> and the node selection of \<^verbatim>\<open>src/internal/net/placement.go\<close>: where
  a shard goes. The selectors carry their state explicitly (the mutex makes each pick atomic);
  the locale \<open>selector\<close> is the Go interface, interpreted on both policies and on the dispatching
  one. Byte counts are unbounded integers; load fractions, \<^verbatim>\<open>float64\<close> in the code, are exact
  rationals.
\<close>

section \<open>Nodes\<close>

record node =
  node_ID :: string
  node_Domain :: string
  node_Free :: int
  node_Weight :: int
  node_Down :: bool

definition domain :: "node \<Rightarrow> string" where
  "domain n = (if node_Domain n \<noteq> [] then node_Domain n else node_ID n)"

definition weight :: "node \<Rightarrow> int" where
  "weight n = (if node_Weight n \<le> 0 then 1 else node_Weight n)"

definition usable :: "node \<Rightarrow> bool" where
  "usable n \<longleftrightarrow> \<not> node_Down n"

definition usableNodes :: "node list \<Rightarrow> node list" where
  "usableNodes candidates = filter usable candidates"

section \<open>Round robin\<close>

definition rr_Pick :: "nat \<Rightarrow> node list \<Rightarrow> nat \<times> string res" where
  "rr_Pick nxt candidates = (let us = usableNodes candidates in
     if us = [] then (nxt, Inl ErrNoCandidates)
     else (nxt + 1, Inr (node_ID (us ! (nxt mod length us)))))"

section \<open>Smooth weighted round robin\<close>

type_synonym weights = "string \<Rightarrow> int option"

definition running :: "weights \<Rightarrow> string \<Rightarrow> int" where
  "running cur nid = (case cur nid of None \<Rightarrow> 0 | Some v \<Rightarrow> v)"

text \<open>The state of the loop: running weights, total, best so far (initially -1), winner.\<close>

fun wt_loop :: "node list \<Rightarrow> weights \<times> int \<times> int \<times> string \<Rightarrow> weights \<times> int \<times> int \<times> string" where
  "wt_loop [] st = st"
| "wt_loop (n # ns) (cur, tot, best, winner) =
     (let wt = weight n; c = running cur (node_ID n) + wt; cur' = cur(node_ID n \<mapsto> c) in
      if best < 0 \<or> best < c then wt_loop ns (cur', tot + wt, c, node_ID n)
      else wt_loop ns (cur', tot + wt, best, winner))"

definition wt_Pick :: "weights \<Rightarrow> node list \<Rightarrow> weights \<times> string res" where
  "wt_Pick cur candidates = (let us = usableNodes candidates in
     if us = [] then (cur, Inl ErrNoCandidates)
     else let kept = (\<lambda>nid. if nid \<in> set (map node_ID us) then cur nid else None) in
       case wt_loop us (kept, 0, -1, []) of (cur', tot, best, winner) \<Rightarrow>
         (cur'(winner \<mapsto> running cur' winner - tot), Inr winner))"

definition WeightByFree :: "node list \<Rightarrow> int \<Rightarrow> node list" where
  "WeightByFree candidates unitBytes = (let u = (if unitBytes \<le> 0 then 1 else unitBytes) in
     map (\<lambda>n. n\<lparr>node_Weight := max (sgn (node_Free n) * (\<bar>node_Free n\<bar> div u)) 1\<rparr>) candidates)"

section \<open>Spreading a stripe over failure domains\<close>

fun group_loop :: "node list \<Rightarrow> string list \<times> (string \<Rightarrow> node list) \<Rightarrow> string list \<times> (string \<Rightarrow> node list)" where
  "group_loop [] st = st"
| "group_loop (n # ns) (order, queues) =
     group_loop ns (if queues (domain n) = [] then order @ [domain n] else order,
       queues(domain n := queues (domain n) @ [n]))"

text \<open>
  One pass over the domains, stopping once \<open>n\<close> nodes are handed out. The code's write-only
  counter \<^verbatim>\<open>usedCount\<close> is left out.
\<close>

fun spread_pass :: "nat \<Rightarrow> (string \<Rightarrow> node list) \<Rightarrow> string list
    \<Rightarrow> (string \<Rightarrow> nat) \<times> string list \<times> string list \<times> bool
    \<Rightarrow> (string \<Rightarrow> nat) \<times> string list \<times> string list \<times> bool" where
  "spread_pass n queues [] st = st"
| "spread_pass n queues (d # ds) (cursor, used, out, picked) =
     (if d \<in> set used then spread_pass n queues ds (cursor, used, out, picked)
      else let q = queues d; node = q ! (cursor d mod length q); out' = out @ [node_ID node];
               st = (cursor(d := cursor d + 1), used @ [d], out', True) in
        if length out' = n then st else spread_pass n queues ds st)"

partial_function (option) spread_loop :: "nat \<Rightarrow> (string \<Rightarrow> node list) \<Rightarrow> string list
    \<Rightarrow> (string \<Rightarrow> nat) \<Rightarrow> string list \<Rightarrow> string list \<Rightarrow> string list option" where
  "spread_loop n queues order cursor used out =
     (if length out < n then
        (case spread_pass n queues order
                (cursor, if length used = length order then [] else used, out, False) of
           (cursor', used', out', picked) \<Rightarrow>
             spread_loop n queues order cursor' (if picked then used' else []) out')
      else Some out)"

definition spread_key :: "node \<Rightarrow> string \<times> int \<times> string" where
  "spread_key n = (domain n, - node_Free n, node_ID n)"

definition Spread :: "int \<Rightarrow> node list \<Rightarrow> string list res option" where
  "Spread n candidates =
     (if n \<le> 0 then Some (Inr [])
      else let us = usableNodes candidates in
      if us = [] then Some (Inl ErrNoCandidates)
      else case group_loop (sort_key spread_key us) ([], \<lambda>_. []) of (order, queues) \<Rightarrow>
        map_option Inr (spread_loop (nat n) queues order (\<lambda>_. 0) [] []))"

section \<open>Load\<close>

record load =
  load_Used :: int
  load_Capacity :: int

definition Frac :: "load \<Rightarrow> rat" where
  "Frac l = (if load_Capacity l \<le> 0 then 0
     else let f = of_int (load_Used l) / of_int (load_Capacity l) in
       if f < 0 then 0 else if 1 < f then 1 else f)"

definition load_FreeBytes :: "load \<Rightarrow> int" where
  "load_FreeBytes l = (let f = load_Capacity l - load_Used l in if 0 < f then f else 0)"

text \<open>\<^verbatim>\<open>int64\<close> of a non-negative float is its floor; the gap is positive here.\<close>

definition OffloadBytes :: "load \<Rightarrow> load \<Rightarrow> rat \<Rightarrow> int" where
  "OffloadBytes self peer threshold =
     (let threshold = (if threshold < 0 then 0 else threshold);
          gap = Frac self - Frac peer in
      if gap \<le> threshold then 0
      else let want = \<lfloor>(gap / 2) * of_int (load_Capacity self)\<rfloor>;
               pf = load_FreeBytes peer;
               want = (if pf < want then pf else want);
               want = (if load_Used self < want then load_Used self else want) in
        if want < 0 then 0 else want)"

section \<open>PlacementStore: choosing the target node\<close>

text \<open>
  The policy behind the interface value \<^verbatim>\<open>sel\<close>, and the placement part of the store. Peer
  identities are abstract; \<open>str\<close> stands for \<^verbatim>\<open>peer.ID.String\<close>.
\<close>

datatype sel = RoundRobin nat | Weighted weights

fun sel_Pick :: "sel \<Rightarrow> node list \<Rightarrow> sel \<times> string res" where
  "sel_Pick (RoundRobin nxt) c = (case rr_Pick nxt c of (nxt', r) \<Rightarrow> (RoundRobin nxt', r))"
| "sel_Pick (Weighted cur) c = (case wt_Pick cur c of (cur', r) \<Rightarrow> (Weighted cur', r))"

record 'p placement_store =
  ps_nodes :: "'p list"
  ps_sel :: sel
  ps_cand :: "node list"
  ps_byNodeID :: "string \<Rightarrow> 'p option"
  ps_capacityUnit :: int

definition NewPlacementStore :: "('p \<Rightarrow> string) \<Rightarrow> 'p list \<Rightarrow> 'p placement_store res" where
  "NewPlacementStore str nodes =
     (if nodes = [] then Inl ErrNoCandidates
      else Inr \<lparr>ps_nodes = nodes, ps_sel = RoundRobin 0,
        ps_cand = map (\<lambda>p. \<lparr>node_ID = str p, node_Domain = [], node_Free = 0, node_Weight = 0, node_Down = False\<rparr>) nodes,
        ps_byNodeID = fold (\<lambda>p m. m(str p \<mapsto> p)) nodes Map.empty,
        ps_capacityUnit = 0\<rparr>)"

definition UpdateCapacities :: "(string \<Rightarrow> int option) \<Rightarrow> 'p placement_store \<Rightarrow> 'p placement_store" where
  "UpdateCapacities free p = p\<lparr>ps_cand :=
     map (\<lambda>n. case free (node_ID n) of None \<Rightarrow> n | Some f \<Rightarrow> n\<lparr>node_Free := f\<rparr>) (ps_cand p)\<rparr>"

text \<open>\<open>query\<close> is \<^verbatim>\<open>QueryLoad\<close> to a peer: its reported load, or no answer.\<close>

definition FetchAndUpdateCapacities :: "('p \<Rightarrow> load option) \<Rightarrow> 'p placement_store \<Rightarrow> 'p placement_store" where
  "FetchAndUpdateCapacities query p = p\<lparr>ps_cand :=
     map (\<lambda>n. case Option.bind (ps_byNodeID p (node_ID n)) query of
            None \<Rightarrow> n | Some lr \<Rightarrow> n\<lparr>node_Free := load_FreeBytes lr\<rparr>) (ps_cand p)\<rparr>"

definition SetCapacityWeighted :: "int \<Rightarrow> 'p placement_store \<Rightarrow> 'p placement_store" where
  "SetCapacityWeighted unitBytes p =
     (if unitBytes \<le> 0 then p else p\<lparr>ps_sel := Weighted Map.empty, ps_capacityUnit := unitBytes\<rparr>)"

definition nextTarget :: "'p placement_store \<Rightarrow> 'p placement_store \<times> 'p option" where
  "nextTarget p =
     (let cand = (if 0 < ps_capacityUnit p then WeightByFree (ps_cand p) (ps_capacityUnit p) else ps_cand p) in
      case sel_Pick (ps_sel p) cand of
        (sel', Inl e) \<Rightarrow> (p\<lparr>ps_sel := sel'\<rparr>, Some (ps_nodes p ! 0))
      | (sel', Inr nid) \<Rightarrow> (p\<lparr>ps_sel := sel'\<rparr>, ps_byNodeID p nid))"

section \<open>The selector interface\<close>

locale selector =
  fixes pick :: "'st \<Rightarrow> node list \<Rightarrow> 'st \<times> string res"
  assumes pick_none: "usableNodes c = [] \<Longrightarrow> snd (pick st c) = Inl ErrNoCandidates"
    and pick_some: "usableNodes c \<noteq> [] \<Longrightarrow> \<exists>n \<in> set (usableNodes c). snd (pick st c) = Inr (node_ID n)"
begin

lemma pick_error: "isl (snd (pick st c)) \<longleftrightarrow> usableNodes c = []"
  using pick_none pick_some by (metis isl_def sum.disc(2))

lemma pick_not_down: "snd (pick st c) = Inr nid \<Longrightarrow> \<exists>n \<in> set c. node_ID n = nid \<and> \<not> node_Down n"
  using pick_none [of c st] pick_some [of c st] by (auto simp: usableNodes_def usable_def)

end

interpretation rr: selector rr_Pick
proof
  fix c st
  show "usableNodes c = [] \<Longrightarrow> snd (rr_Pick st c) = Inl ErrNoCandidates" by (simp add: rr_Pick_def)
  assume "usableNodes c \<noteq> []"
  then show "\<exists>n \<in> set (usableNodes c). snd (rr_Pick st c) = Inr (node_ID n)"
    by (auto simp: rr_Pick_def Let_def intro!: bexI [of _ "usableNodes c ! (st mod length (usableNodes c))"])
qed

text \<open>
  What the weighting loop computes on nodes with distinct identities: every running weight is
  raised by the node's weight, and the winner holds the best total, which no positive one exceeds.
\<close>

definition weight_sum :: "node list \<Rightarrow> int" where
  "weight_sum us = sum_list (map weight us)"

lemma running_upd [simp]: "running (cur(k \<mapsto> v)) nid = (if nid = k then v else running cur nid)"
  by (simp add: running_def)

lemma weight_pos: "0 < weight n"
  by (simp add: weight_def)

lemma weight_sum_pos: "us \<noteq> [] \<Longrightarrow> 0 < weight_sum us"
proof (induction us)
  case (Cons n us)
  then show ?case using weight_pos [of n] by (cases "us = []") (auto simp: weight_sum_def)
qed simp

lemma wt_loop_winner:
  "wt_loop us (cur, tot, best, winner) = (cur', tot', best', winner') \<Longrightarrow>
   winner' = winner \<and> best' = best \<or> (\<exists>n \<in> set us. winner' = node_ID n)"
  by (induction us arbitrary: cur tot best winner) (fastforce simp: Let_def split: if_splits)+

lemma wt_loop_first:
  assumes "us \<noteq> []" and "wt_loop us (cur, tot, -1, winner) = (cur', tot', best', winner')"
  shows "\<exists>n \<in> set us. winner' = node_ID n"
  using assms by (cases us) (auto simp: Let_def dest: wt_loop_winner)

interpretation wt: selector wt_Pick
proof
  fix c st
  show "usableNodes c = [] \<Longrightarrow> snd (wt_Pick st c) = Inl ErrNoCandidates" by (simp add: wt_Pick_def)
  assume "usableNodes c \<noteq> []"
  then show "\<exists>n \<in> set (usableNodes c). snd (wt_Pick st c) = Inr (node_ID n)"
    using wt_loop_first [of "usableNodes c"] by (auto simp: wt_Pick_def Let_def split: prod.splits)
qed

interpretation sel: selector sel_Pick
proof
  fix c st
  show "usableNodes c = [] \<Longrightarrow> snd (sel_Pick st c) = Inl ErrNoCandidates"
    using rr.pick_none wt.pick_none by (cases st) (auto split: prod.splits, metis snd_conv, metis snd_conv)
  assume "usableNodes c \<noteq> []"
  then show "\<exists>n \<in> set (usableNodes c). snd (sel_Pick st c) = Inr (node_ID n)"
    using rr.pick_some wt.pick_some by (cases st) (auto split: prod.splits, (metis snd_conv)+)
qed

section \<open>Sequences of picks\<close>

fun pick_many :: "('st \<Rightarrow> node list \<Rightarrow> 'st \<times> string res) \<Rightarrow> 'st \<Rightarrow> node list \<Rightarrow> nat \<Rightarrow> 'st \<times> string res list" where
  "pick_many pick st c 0 = (st, [])"
| "pick_many pick st c (Suc k) = (case pick st c of (st1, r) \<Rightarrow>
     (case pick_many pick st1 c k of (st2, rs) \<Rightarrow> (st2, r # rs)))"

lemma rr_pick_many:
  assumes "usableNodes c \<noteq> []"
  shows "pick_many rr_Pick nxt c k = (nxt + k,
    map (\<lambda>i. Inr (node_ID (usableNodes c ! ((nxt + i) mod length (usableNodes c))))) [0..<k])"
proof (induction k arbitrary: nxt)
  case 0
  then show ?case by simp
next
  case (Suc k)
  have "[0..<Suc k] = 0 # map Suc [0..<k]" by (simp add: upt_conv_Cons map_Suc_upt del: upt_Suc)
  then show ?case using assms Suc by (simp add: rr_Pick_def Let_def del: upt_Suc)
qed

subsection \<open>The weighted policy\<close>

lemma wt_loop_running:
  assumes "distinct (map node_ID us)" and "wt_loop us (cur, tot, best, winner) = (cur', tot', best', winner')"
  shows "tot' = tot + weight_sum us \<and> (\<forall>n \<in> set us. running cur' (node_ID n) = running cur (node_ID n) + weight n)
    \<and> (\<forall>nid. nid \<notin> node_ID ` set us \<longrightarrow> running cur' nid = running cur nid)"
  using assms
proof (induction us arbitrary: cur tot best winner)
  case Nil
  then show ?case by (simp add: weight_sum_def)
next
  case (Cons m us)
  obtain b w where step: "wt_loop us (cur(node_ID m \<mapsto> running cur (node_ID m) + weight m), tot + weight m, b, w) = (cur', tot', best', winner')"
    using Cons.prems(2) by (auto simp: Let_def split: if_splits)
  have d: "distinct (map node_ID us)" "node_ID m \<notin> node_ID ` set us" using Cons.prems(1) by auto
  have ne: "node_ID n \<noteq> node_ID m" if "n \<in> set us" for n using d(2) that by (metis imageI)
  note IH = Cons.IH [OF d(1) step, unfolded running_upd]
  have "running cur' (node_ID n) = running cur (node_ID n) + weight n" if "n \<in> set (m # us)" for n
    using IH that d(2) ne by auto
  moreover have "running cur' nid = running cur nid" if "nid \<notin> node_ID ` set (m # us)" for nid
    using IH that by auto
  ultimately show ?case using IH by (simp add: weight_sum_def)
qed

lemma wt_loop_best:
  assumes "distinct (map node_ID us)" and "wt_loop us (cur, tot, best, winner) = (cur', tot', best', winner')"
  shows "(0 \<le> best \<longrightarrow> best \<le> best') \<and> (\<forall>n \<in> set us. 0 < running cur' (node_ID n) \<longrightarrow> running cur' (node_ID n) \<le> best')
    \<and> (winner' = winner \<and> best' = best \<or> (\<exists>n \<in> set us. winner' = node_ID n) \<and> running cur' winner' = best')"
  using assms
proof (induction us arbitrary: cur tot best winner)
  case Nil
  then show ?case by simp
next
  case (Cons m us)
  let ?c = "running cur (node_ID m) + weight m"
  have d: "distinct (map node_ID us)" "node_ID m \<notin> node_ID ` set us" using Cons.prems(1) by auto
  show ?case
  proof (cases "best < 0 \<or> best < ?c")
    case True
    then have step: "wt_loop us (cur(node_ID m \<mapsto> ?c), tot + weight m, ?c, node_ID m) = (cur', tot', best', winner')"
      using Cons.prems(2) by (simp add: Let_def)
    have "running cur' (node_ID m) = ?c" using wt_loop_running [OF d(1) step, unfolded running_upd] d(2) by simp
    then show ?thesis using True Cons.IH [OF d(1) step] by auto
  next
    case False
    then have step: "wt_loop us (cur(node_ID m \<mapsto> ?c), tot + weight m, best, winner) = (cur', tot', best', winner')"
      using Cons.prems(2) by (simp add: Let_def)
    have "running cur' (node_ID m) = ?c" using wt_loop_running [OF d(1) step, unfolded running_upd] d(2) by simp
    then show ?thesis using False Cons.IH [OF d(1) step] by auto
  qed
qed

text \<open>
  One pick, when the running weights add up to at least zero: the winner held the highest total
  and pays the sum of all weights.
\<close>

lemma wt_Pick_step:
  assumes us: "us = usableNodes c" "us \<noteq> []" "distinct (map node_ID us)"
    and sum: "0 \<le> (\<Sum>n \<leftarrow> us. running cur (node_ID n))" and pick: "wt_Pick cur c = (cur', r)"
  shows "\<exists>w \<in> set us. r = Inr (node_ID w) \<and> 0 < running cur (node_ID w) + weight w
    \<and> (\<forall>n \<in> set us. running cur (node_ID n) + weight n \<le> running cur (node_ID w) + weight w)
    \<and> (\<forall>n \<in> set us. running cur' (node_ID n) = running cur (node_ID n) + weight n - (if n = w then weight_sum us else 0))"
proof -
  let ?kept = "\<lambda>nid. if nid \<in> set (map node_ID us) then cur nid else None"
  obtain cur1 tot best winner where loop: "wt_loop us (?kept, 0, -1, []) = (cur1, tot, best, winner)"
    using prod_cases4 by blast
  have kept: "running ?kept (node_ID n) = running cur (node_ID n)" if "n \<in> set us" for n
    using that by (simp add: running_def)
  note R = wt_loop_running [OF us(3) loop] and B = wt_loop_best [OF us(3) loop]
  have run: "running cur1 (node_ID n) = running cur (node_ID n) + weight n" if "n \<in> set us" for n
    using R kept that by simp
  obtain w where w: "w \<in> set us" "winner = node_ID w" using wt_loop_first [OF us(2) loop] by blast
  have "\<exists>n \<in> set us. 0 < running cur1 (node_ID n)"
  proof (rule ccontr)
    assume "\<not> ?thesis"
    then have "(\<Sum>n \<leftarrow> us. running cur1 (node_ID n)) \<le> (\<Sum>n \<leftarrow> us. 0)" by (intro sum_list_mono) (meson not_le)
    moreover have "(\<Sum>n \<leftarrow> us. running cur1 (node_ID n)) = (\<Sum>n \<leftarrow> us. running cur (node_ID n)) + weight_sum us"
      using run by (simp add: weight_sum_def sum_list_addf cong: map_cong)
    moreover have "0 < weight_sum us"
      using us(2) by (rule weight_sum_pos)
    ultimately show False using sum by simp
  qed
  then obtain p where p: "p \<in> set us" "0 < running cur1 (node_ID p)" by blast
  then have best: "0 < best" "running cur1 (node_ID w) = best"
    using B w by fastforce+
  have top: "running cur1 (node_ID n) \<le> best" if "n \<in> set us" for n
    using B that best(1) by (meson not_le order.strict_trans2 less_imp_le)
  have inj: "node_ID n = node_ID w \<longleftrightarrow> n = w" if "n \<in> set us" for n
    using that w(1) us(3) by (auto simp: distinct_map dest: inj_onD)
  have "cur' = cur1(winner \<mapsto> running cur1 winner - tot)" "r = Inr winner"
    using pick loop us(1,2) by (simp_all add: wt_Pick_def Let_def)
  then show ?thesis using w best top run inj R by (intro bexI [of _ w]) (auto simp: kept)
qed

lemma sum_list_other: "w \<notin> set us \<Longrightarrow> (\<Sum>n \<leftarrow> us. if n = w then k else 0) = (0 :: int)"
  by (induction us) auto

lemma sum_list_pay:
  "distinct us \<Longrightarrow> w \<in> set us \<Longrightarrow> (\<Sum>n \<leftarrow> us. f n - (if n = w then k else 0)) = (\<Sum>n \<leftarrow> us. f n) - (k :: int)"
  by (induction us) (auto simp: sum_list_subtractf sum_list_other)

text \<open>
  The invariant of a run of picks over a fixed set of nodes: after \<open>k\<close> picks a node's running
  weight is \<open>k\<close> times its weight less what it paid, and never as low as minus the weight sum.
\<close>

lemma wt_pick_many:
  assumes us: "us = usableNodes c" "us \<noteq> []" "distinct (map node_ID us)"
    and "(\<Sum>n \<leftarrow> us. running cur (node_ID n)) = 0" and "\<forall>n \<in> set us. - weight_sum us < running cur (node_ID n)"
    and "pick_many wt_Pick cur c k = (cur', rs)"
  shows "(\<Sum>n \<leftarrow> us. running cur' (node_ID n)) = 0 \<and> set rs \<subseteq> Inr ` node_ID ` set us \<and> length rs = k
    \<and> (\<forall>n \<in> set us. - weight_sum us < running cur' (node_ID n) \<and> running cur' (node_ID n) =
        running cur (node_ID n) + int k * weight n - int (count_list rs (Inr (node_ID n))) * weight_sum us)"
  using assms(4-)
proof (induction k arbitrary: cur cur' rs)
  case 0
  then show ?case by simp
next
  case (Suc k)
  obtain cur1 r where pick: "wt_Pick cur c = (cur1, r)" by fastforce
  obtain rs1 where many: "pick_many wt_Pick cur1 c k = (cur', rs1)" and rs: "rs = r # rs1"
    using Suc.prems(3) pick by (auto split: prod.splits)
  obtain w where w: "w \<in> set us" "r = Inr (node_ID w)" "0 < running cur (node_ID w) + weight w"
    "\<And>n. n \<in> set us \<Longrightarrow> running cur1 (node_ID n) = running cur (node_ID n) + weight n - (if n = w then weight_sum us else 0)"
    using wt_Pick_step [OF us _ pick] Suc.prems(1) by auto
  have dist: "distinct us" and inj: "inj_on node_ID (set us)" using us(3) by (simp_all add: distinct_map)
  have "(\<Sum>n \<leftarrow> us. running cur1 (node_ID n)) = (\<Sum>n \<leftarrow> us. running cur (node_ID n) + weight n - (if n = w then weight_sum us else 0))"
    using w(4) by (simp cong: map_cong)
  then have s1: "(\<Sum>n \<leftarrow> us. running cur1 (node_ID n)) = 0"
    using Suc.prems(1) by (simp add: sum_list_pay [OF dist w(1)] sum_list_addf weight_sum_def)
  have l1: "\<forall>n \<in> set us. - weight_sum us < running cur1 (node_ID n)"
  proof
    fix n assume "n \<in> set us"
    then show "- weight_sum us < running cur1 (node_ID n)"
      using w(3,4) Suc.prems(2) weight_pos [of n] by (cases "n = w") (fastforce dest: bspec)+
  qed
  note IH = Suc.IH [OF s1 l1 many]
  have "running cur' (node_ID n) = running cur (node_ID n) + int (Suc k) * weight n
      - int (count_list rs (Inr (node_ID n))) * weight_sum us" if "n \<in> set us" for n
  proof -
    have "running cur' (node_ID n) = running cur1 (node_ID n) + int k * weight n
        - int (count_list rs1 (Inr (node_ID n))) * weight_sum us" using IH that by blast
    moreover have "node_ID n = node_ID w \<longleftrightarrow> n = w" using inj that w(1) by (auto dest: inj_onD)
    ultimately show ?thesis using w(2) w(4) [OF that] rs by (auto simp: algebra_simps)
  qed
  then show ?case using IH rs w(1,2) by auto
qed

subsection \<open>Spread\<close>

lemma group_loop_queues:
  "group_loop ns (order, queues) = (order', queues') \<Longrightarrow> queues' d = queues d @ filter (\<lambda>n. domain n = d) ns"
  by (induction ns arbitrary: order queues) auto

lemma group_loop_order:
  assumes "distinct order" and "\<forall>d. queues d = [] \<longleftrightarrow> d \<notin> set order"
    and "group_loop ns (order, queues) = (order', queues')"
  shows "distinct order' \<and> set order' = set order \<union> domain ` set ns"
  using assms
proof (induction ns arbitrary: order queues)
  case Nil
  then show ?case by simp
next
  case (Cons n ns)
  let ?o = "if queues (domain n) = [] then order @ [domain n] else order"
  have seen: "queues (domain n) = [] \<longleftrightarrow> domain n \<notin> set order" using Cons.prems(2) by blast
  have "distinct order' \<and> set order' = set ?o \<union> domain ` set ns"
  proof (rule Cons.IH)
    show "distinct ?o" using Cons.prems(1) seen by auto
    show "\<forall>d. (queues(domain n := queues (domain n) @ [n])) d = [] \<longleftrightarrow> d \<notin> set ?o"
    proof
      fix d
      have "queues d = [] \<longleftrightarrow> d \<notin> set order" using Cons.prems(2) by blast
      then show "(queues(domain n := queues (domain n) @ [n])) d = [] \<longleftrightarrow> d \<notin> set ?o"
        using seen by (cases "d = domain n"; cases "queues (domain n) = []") simp_all
    qed
    show "group_loop ns (?o, queues(domain n := queues (domain n) @ [n])) = (order', queues')"
      using Cons.prems(3) by simp
  qed
  then show ?case using seen by (cases "queues (domain n) = []") auto
qed

text \<open>The closed form of the rotation: pick \<open>i\<close> takes domain \<open>i mod D\<close>, and its node \<open>i div D\<close>.\<close>

definition spread_node :: "string list \<Rightarrow> (string \<Rightarrow> node list) \<Rightarrow> nat \<Rightarrow> node" where
  "spread_node order queues i = (let q = queues (order ! (i mod length order)) in
     q ! ((i div length order) mod length q))"

lemma spread_pass_round:
  assumes "order = pre @ ds" and "distinct order" and "ds \<noteq> []"
    and "\<forall>d \<in> set pre. cursor d = Suc r" and "\<forall>d \<in> set ds. cursor d = r"
    and "r * length order + length pre < n"
    and "out = map (node_ID \<circ> spread_node order queues) [0..<r * length order + length pre]"
    and "spread_pass n queues ds (cursor, pre, out, pk) = (cursor', used', out', pk')"
  shows "out' = map (node_ID \<circ> spread_node order queues) [0..<min n (Suc r * length order)] \<and> pk' \<and>
    (Suc r * length order \<le> n \<longrightarrow> (\<forall>d \<in> set order. cursor' d = Suc r) \<and> used' = order)"
  using assms
proof (induction ds arbitrary: pre cursor out pk)
  case Nil
  then show ?case by simp
next
  case (Cons d ds)
  let ?i = "r * length order + length pre" and ?f = "node_ID \<circ> spread_node order queues"
  have len: "length pre < length order" and nth: "order ! length pre = d" using Cons.prems(1) by simp_all
  have notin: "d \<notin> set pre" "d \<notin> set ds" "set pre \<inter> set ds = {}" using Cons.prems(1,2) by auto
  have idx: "?i mod length order = length pre" "?i div length order = r"
  proof -
    have "length order \<noteq> 0" using len by linarith
    then show "?i mod length order = length pre" "?i div length order = r" using len by (simp_all del: length_0_conv)
  qed
  have node: "node_ID (queues d ! (cursor d mod length (queues d))) = ?f ?i"
    using Cons.prems(5) by (simp add: spread_node_def idx nth mod_less [OF len] Let_def)
  let ?out = "out @ [?f ?i]" and ?cur = "cursor(d := Suc r)"
  have out: "?out = map ?f [0..<Suc ?i]" using Cons.prems(7) by simp
  show ?case
  proof (cases "Suc ?i = n")
    case True
    then have res: "cursor' = ?cur" "used' = pre @ [d]" "out' = ?out" "pk'"
      using Cons.prems(5,7,8) notin(1) node by (auto simp: Let_def)
    have "ds = []" if "Suc r * length order \<le> n" using that True Cons.prems(1) by auto
    moreover have "n \<le> Suc r * length order" using True len by simp
    ultimately show ?thesis using res out True Cons.prems(1,4) by (auto simp: min_def le_antisym simp del: upt_Suc)
  next
    case False
    have step: "spread_pass n queues ds (?cur, pre @ [d], ?out, True) = (cursor', used', out', pk')"
      using Cons.prems(5,7,8) notin(1) node False by (simp add: Let_def)
    show ?thesis
    proof (cases "ds = []")
      case True
      then have "Suc r * length order = Suc ?i" using Cons.prems(1) by simp
      then have m: "min n (Suc r * length order) = Suc ?i" using Cons.prems(6) by simp
      have res: "cursor' = ?cur" "used' = pre @ [d]" "out' = ?out" "pk'" using step True by auto
      show ?thesis unfolding m res(3) out using res Cons.prems(1,4) True by simp
    next
      case nonempty: False
      show ?thesis
      proof (rule Cons.IH [OF _ Cons.prems(2) nonempty _ _ _ _ step])
        show "order = (pre @ [d]) @ ds" using Cons.prems(1) by simp
        show "\<forall>x \<in> set (pre @ [d]). ?cur x = Suc r" using Cons.prems(4) by simp
        show "\<forall>x \<in> set ds. ?cur x = r" using Cons.prems(5) notin by auto
        show "r * length order + length (pre @ [d]) < n" using Cons.prems(6) False by simp
        show "?out = map ?f [0..<r * length order + length (pre @ [d])]" using out by (simp del: upt_Suc)
      qed
    qed
  qed
qed

lemma spread_loop_closed:
  assumes "distinct order" and "order \<noteq> []" and "r * length order \<le> n"
    and "\<forall>d \<in> set order. cursor d = r" and "used = [] \<or> used = order"
    and "out = map (node_ID \<circ> spread_node order queues) [0..<r * length order]"
  shows "spread_loop n queues order cursor used out = Some (map (node_ID \<circ> spread_node order queues) [0..<n])"
  using assms(3-)
proof (induction "n - r * length order" arbitrary: r cursor used out rule: less_induct)
  case less
  show ?case
  proof (cases "r * length order < n")
    case False
    then show ?thesis using less.prems by (subst spread_loop.simps) simp
  next
    case True
    let ?used = "if length used = length order then [] else used"
    have used: "?used = []" using less.prems(3) by auto
    obtain cursor' used' out' pk' where pass: "spread_pass n queues order (cursor, [], out, False) = (cursor', used', out', pk')"
      using prod_cases4 by blast
    have P: "out' = map (node_ID \<circ> spread_node order queues) [0..<min n (Suc r * length order)] \<and> pk' \<and>
        (Suc r * length order \<le> n \<longrightarrow> (\<forall>d \<in> set order. cursor' d = Suc r) \<and> used' = order)"
      by (rule spread_pass_round [OF _ assms(1,2) _ _ _ _ pass]) (use True less.prems in simp_all)
    have unfold: "spread_loop n queues order cursor used out = spread_loop n queues order cursor' used' out'"
      using True less.prems(4) used pass P by (subst spread_loop.simps) simp
    show ?thesis
    proof (cases "Suc r * length order \<le> n")
      case more: True
      have "n - Suc r * length order < n - r * length order" using True assms(2) by (simp add: diff_less_mono2)
      from less.hyps [OF this more] P more unfold show ?thesis by (simp add: min_absorb2)
    next
      case False
      then show ?thesis using P unfold by (subst unfold) (subst spread_loop.simps, simp add: min_absorb1)
    qed
  qed
qed

text \<open>What the rotation guarantees, in terms of the nodes handed out.\<close>

definition spread_even :: "node list \<Rightarrow> node list \<Rightarrow> bool" where
  "spread_even us ns \<longleftrightarrow> set ns \<subseteq> set us \<and>
     (\<forall>j < length ns. \<forall>i < j.
        (j - i < card (domain ` set us) \<longrightarrow> domain (ns ! i) \<noteq> domain (ns ! j)) \<and>
        (ns ! i = ns ! j \<longrightarrow> card (domain ` set us) * length (filter (\<lambda>n. domain n = domain (ns ! i)) us) \<le> j - i))"

lemma mod_eq_dist: "(a :: nat) < b \<Longrightarrow> a mod m = b mod m \<Longrightarrow> m \<le> b - a"
  by (metis dvd_imp_le mod_eq_dvd_iff_nat nat_less_le zero_less_diff)

lemma spread_even_closed:
  assumes us: "distinct us" and perm: "mset srt = mset us" and ne: "us \<noteq> []"
    and g: "group_loop srt ([], \<lambda>_. []) = (order, queues)"
  shows "spread_even us (map (spread_node order queues) [0..<n])"
proof -
  have set: "set srt = set us" by (rule mset_eq_setD [OF perm])
  have dist: "distinct srt" using mset_eq_imp_distinct_iff [OF perm] us by simp
  have q: "queues d = filter (\<lambda>n. domain n = d) srt" for d using group_loop_queues [OF g, of d] by simp
  have o: "distinct order" "set order = domain ` set us" using group_loop_order [OF _ _ g] set by auto
  then have D: "length order = card (domain ` set us)" using distinct_card by metis
  have pos: "0 < length order" using ne o(2) by (cases order) auto
  have in_q: "spread_node order queues i \<in> set (queues (order ! (i mod length order)))" for i
  proof -
    have "order ! (i mod length order) \<in> domain ` set us" using pos o(2) nth_mem mod_less_divisor by blast
    then have "queues (order ! (i mod length order)) \<noteq> []" using q set by (auto simp: filter_empty_conv)
    then show ?thesis by (simp add: spread_node_def Let_def)
  qed
  have dom: "domain (spread_node order queues i) = order ! (i mod length order)" for i using in_q [of i] q by simp
  have diff: "domain (spread_node order queues i) \<noteq> domain (spread_node order queues j)"
    if "i < j" "j - i < length order" for i j
  proof
    assume "domain (spread_node order queues i) = domain (spread_node order queues j)"
    then have "i mod length order = j mod length order" using dom o(1) pos by (simp add: nth_eq_iff_index_eq)
    then show False using mod_eq_dist [OF that(1)] that(2) by fastforce
  qed
  have again: "length order * length (filter (\<lambda>n. domain n = domain (spread_node order queues i)) us) \<le> j - i"
    if ij: "i < j" and eq: "spread_node order queues i = spread_node order queues j" for i j
  proof -
    let ?d = "order ! (i mod length order)"
    have same: "i mod length order = j mod length order"
      using dom eq o(1) pos by (metis mod_less_divisor nth_eq_iff_index_eq)
    have "queues ?d \<noteq> []" using in_q [of i] by auto
    moreover have "distinct (queues ?d)" using q dist by simp
    ultimately have m: "(i div length order) mod length (queues ?d) = (j div length order) mod length (queues ?d)"
      using eq same by (simp add: spread_node_def Let_def nth_eq_iff_index_eq)
    have lt: "i div length order < j div length order"
      using ij same by (metis div_le_mono div_mult_mod_eq less_imp_le_nat less_irrefl_nat nat_less_le)
    have "length (queues ?d) \<le> j div length order - i div length order" using mod_eq_dist [OF lt m] .
    then have "length order * length (queues ?d) \<le> length order * (j div length order - i div length order)" by simp
    also have "\<dots> = j - i"
      using same lt by (metis diff_mult_distrib2 mult_div_mod_eq add_diff_cancel_right)
    finally have "length order * length (queues ?d) \<le> j - i" .
    moreover have "length (queues ?d) = length (filter (\<lambda>n. domain n = ?d) us)"
      using perm q by (metis mset_filter size_mset)
    ultimately show ?thesis by (simp add: dom)
  qed
  show ?thesis
    using in_q q set diff again unfolding spread_even_def D [symmetric] by fastforce
qed

lemma Frac_inside: "0 \<le> load_Used l \<Longrightarrow> load_Used l \<le> load_Capacity l \<Longrightarrow> 0 < load_Capacity l \<Longrightarrow>
    Frac l = of_int (load_Used l) / of_int (load_Capacity l)"
  by (auto simp: Frac_def Let_def divide_less_0_iff)

lemma Frac_nonneg: "0 \<le> Frac l"
  by (simp add: Frac_def Let_def)

lemma load_FreeBytes_nonneg: "0 \<le> load_FreeBytes l"
  by (simp add: load_FreeBytes_def Let_def)

lemma node_update_Free [simp]:
  "node_ID (case x of None \<Rightarrow> n | Some f \<Rightarrow> n\<lparr>node_Free := g f\<rparr>) = node_ID n"
  "node_Down (case x of None \<Rightarrow> n | Some f \<Rightarrow> n\<lparr>node_Free := g f\<rparr>) = node_Down n"
  by (simp_all split: option.split)

definition ps_ok :: "('p \<Rightarrow> string) \<Rightarrow> 'p placement_store \<Rightarrow> bool" where
  "ps_ok str p \<longleftrightarrow> ps_nodes p \<noteq> [] \<and> map node_ID (ps_cand p) = map str (ps_nodes p) \<and> list_all usable (ps_cand p)
     \<and> list_all (\<lambda>x. \<exists>t \<in> set (ps_nodes p). ps_byNodeID p (str x) = Some t) (ps_nodes p)"

lemma byNodeID_fold: "x \<in> set xs \<Longrightarrow> \<exists>t \<in> set xs. fold (\<lambda>p m. m(str p \<mapsto> p)) xs m (str x) = Some t"
proof (induction xs arbitrary: m rule: rev_induct)
  case (snoc y xs)
  then show ?case by (cases "str x = str y") auto
qed simp

section \<open>Properties\<close>

text \<open>
  Round robin puts consecutive shards on different nodes. As many consecutive picks as
  there are usable nodes (with distinct identities) give pairwise different, usable targets,
  from any state of the counter: the k+m shards of a chunk land on k+m nodes when there are as many.
\<close>

lemma RoundRobin_distinct:
  assumes "distinct (map node_ID (usableNodes c))" and "0 < k" and "k \<le> length (usableNodes c)"
    and "pick_many rr_Pick nxt c k = (nxt', rs)"
  shows "distinct rs \<and> length rs = k \<and> set rs \<subseteq> Inr ` node_ID ` set (usableNodes c)"
proof -
  let ?us = "usableNodes c"
  have ne: "?us \<noteq> []" using assms(2,3) by auto
  have rs: "rs = map (\<lambda>i. Inr (node_ID (?us ! ((nxt + i) mod length ?us)))) [0..<k]"
    using rr_pick_many [OF ne] assms(4) by simp
  have "i = j" if "i < k" "j < k" "node_ID (?us ! ((nxt + i) mod length ?us)) = node_ID (?us ! ((nxt + j) mod length ?us))" for i j
  proof -
    have "(nxt + i) mod length ?us = (nxt + j) mod length ?us"
      using that(3) assms(1) ne nth_eq_iff_index_eq [of "map node_ID ?us"] by (simp add: distinct_map)
    then have "\<not> i < j" "\<not> j < i"
      using mod_eq_dist [of "nxt + i" "nxt + j" "length ?us"] mod_eq_dist [of "nxt + j" "nxt + i" "length ?us"] that(1,2) assms(3)
      by auto
    then show ?thesis by simp
  qed
  then have "distinct rs" unfolding rs by (auto simp: distinct_map inj_on_def)
  then show ?thesis using rs ne by (auto intro!: imageI)
qed

definition demo_nodes :: "node list" where
  "demo_nodes = [
     \<lparr>node_ID = ''a'', node_Domain = ''r1'', node_Free = 5, node_Weight = 1, node_Down = False\<rparr>,
     \<lparr>node_ID = ''b'', node_Domain = ''r1'', node_Free = 9, node_Weight = 1, node_Down = False\<rparr>,
     \<lparr>node_ID = ''c'', node_Domain = ''r2'', node_Free = 0, node_Weight = 8, node_Down = False\<rparr>,
     \<lparr>node_ID = ''d'', node_Domain = [], node_Free = 0, node_Weight = 3, node_Down = True\<rparr>]"

lemma demo_nodes_usable: "usableNodes demo_nodes = take 3 demo_nodes"
  by (simp add: usableNodes_def usable_def demo_nodes_def)

lemma demo_nodes_distinct: "distinct (map node_ID (usableNodes demo_nodes))"
  unfolding demo_nodes_usable by (simp add: demo_nodes_def)

lemma RoundRobin_distinct_witness: "distinct (snd (pick_many rr_Pick 7 demo_nodes 3))"
proof -
  have "3 \<le> length (usableNodes demo_nodes)" unfolding demo_nodes_usable by (simp add: demo_nodes_def)
  then show ?thesis using RoundRobin_distinct [OF demo_nodes_distinct, of 3 7] by (metis prod.collapse zero_less_numeral)
qed

text \<open>
  the weighted policy is exactly proportional. Starting fresh and over a fixed set of
  usable nodes with distinct identities, a run of as many picks as the weights add up to picks
  each node exactly as often as its weight says (no node starves), and all running weights are
  back at zero.
\<close>

lemma Weighted_proportional:
  assumes "usableNodes c \<noteq> []" and "distinct (map node_ID (usableNodes c))"
    and "pick_many wt_Pick Map.empty c (nat (weight_sum (usableNodes c))) = (cur', rs)" and "n \<in> set (usableNodes c)"
  shows "int (count_list rs (Inr (node_ID n))) = weight n \<and> running cur' (node_ID n) = 0"
proof -
  let ?us = "usableNodes c" and ?cnt = "\<lambda>n. int (count_list rs (Inr (node_ID n)))"
  let ?W = "weight_sum ?us"
  have W: "0 < ?W" using assms(1) by (rule weight_sum_pos)
  have run: "(\<Sum>n \<leftarrow> ?us. running cur' (node_ID n)) = 0"
    "\<And>n. n \<in> set ?us \<Longrightarrow> - ?W < running cur' (node_ID n) \<and> running cur' (node_ID n) = ?W * (weight n - ?cnt n)"
    using wt_pick_many [OF refl assms(1,2) _ _ assms(3)] W by (auto simp: running_def algebra_simps)
  have nonneg: "0 \<le> weight n - ?cnt n" if "n \<in> set ?us" for n
  proof (rule ccontr)
    assume "\<not> 0 \<le> weight n - ?cnt n"
    then have "?W * (weight n - ?cnt n) \<le> ?W * (-1)" using W by (intro mult_left_mono) auto
    then show False using run(2) [OF that] by simp
  qed
  then have "\<forall>x \<in> set (map (\<lambda>n. running cur' (node_ID n)) ?us). 0 \<le> x" using run(2) W by auto
  then have "\<forall>n \<in> set ?us. running cur' (node_ID n) = 0"
    using run(1) sum_list_nonneg_eq_0_iff [of "map (\<lambda>n. running cur' (node_ID n)) ?us"] by auto
  then show ?thesis using run(2) [OF assms(4)] W assms(4) by auto
qed

lemma Weighted_proportional_witness:
  "int (count_list (snd (pick_many wt_Pick Map.empty demo_nodes 10)) (Inr ''c'')) = 8"
proof -
  have W: "nat (weight_sum (usableNodes demo_nodes)) = 10"
    unfolding demo_nodes_usable by (simp add: demo_nodes_def weight_sum_def weight_def)
  have "demo_nodes ! 2 \<in> set (usableNodes demo_nodes)" "usableNodes demo_nodes \<noteq> []"
    unfolding demo_nodes_usable by (simp_all add: demo_nodes_def)
  then have "int (count_list (snd (pick_many wt_Pick Map.empty demo_nodes 10)) (Inr (node_ID (demo_nodes ! 2)))) = weight (demo_nodes ! 2)"
    using Weighted_proportional [OF _ demo_nodes_distinct] unfolding W by (metis prod.collapse)
  then show ?thesis by (simp add: demo_nodes_def weight_def)
qed

text \<open>
  after nodes leave, the weighted policy may pick the wrong node. With nodes a, b of weight 1
  and c of weight 8, after seven picks c goes down; one pick later a's total is the highest but
  the pick goes to b, because the sentinel \<open>best < 0\<close> also matches a negative best total.
\<close>

lemma Weighted_negative_totals:
  "let down = demo_nodes[2 := (demo_nodes ! 2)\<lparr>node_Down := True\<rparr>];
       cur = fst (pick_many wt_Pick Map.empty demo_nodes 7); (cur1, r1) = wt_Pick cur down
   in running cur1 ''b'' + 1 < running cur1 ''a'' + 1 \<and> snd (wt_Pick cur1 down) = Inr ''b''"
  by code_simp

text \<open>
  spreading a stripe uses independent failure domains first. For distinct usable candidates
  \<open>Spread\<close> always returns, hands out exactly \<open>n\<close> usable nodes, never repeats a domain within
  any window shorter than the number of domains (so with enough domains all shards are in
  different ones), and reuses a node only after every node of its domain was used.
\<close>

lemma Spread_even:
  assumes "distinct (usableNodes c)" and "usableNodes c \<noteq> []" and "0 < n"
  shows "\<exists>ns. Spread n c = Some (Inr (map node_ID ns)) \<and> int (length ns) = n \<and> spread_even (usableNodes c) ns"
proof -
  let ?us = "usableNodes c"
  obtain order queues where g: "group_loop (sort_key spread_key ?us) ([], \<lambda>_. []) = (order, queues)" by fastforce
  have o: "distinct order" "set order = domain ` set ?us" using group_loop_order [OF _ _ g] by auto
  then have "order \<noteq> []" using assms(2) by auto
  then have "spread_loop (nat n) queues order (\<lambda>_. 0) [] [] = Some (map (node_ID \<circ> spread_node order queues) [0..<nat n])"
    using o(1) by (intro spread_loop_closed [where r = 0]) auto
  then have "Spread n c = Some (Inr (map node_ID (map (spread_node order queues) [0..<nat n])))"
    using assms(2,3) g by (simp add: Spread_def)
  moreover have "spread_even ?us (map (spread_node order queues) [0..<nat n])"
    by (rule spread_even_closed [OF assms(1) _ assms(2) g]) simp
  ultimately show ?thesis using assms(3) by (intro exI [of _ "map (spread_node order queues) [0..<nat n]"]) simp
qed

lemma Spread_even_witness:
  "\<exists>ns. Spread 5 demo_nodes = Some (Inr (map node_ID ns)) \<and> int (length ns) = 5 \<and> spread_even (usableNodes demo_nodes) ns"
proof (rule Spread_even)
  show "distinct (usableNodes demo_nodes)" using demo_nodes_distinct by (simp add: distinct_map)
  show "usableNodes demo_nodes \<noteq> []" unfolding demo_nodes_usable by (simp add: demo_nodes_def)
qed simp

text \<open>Half the gap bounds the amount, and above the dead band only the peer's free space makes it smaller.\<close>

lemma OffloadBytes_half:
  assumes "0 \<le> Frac self - Frac peer" and "0 \<le> load_Used self" and "load_Used self \<le> load_Capacity self"
  shows "of_int (OffloadBytes self peer threshold) \<le> (Frac self - Frac peer) / 2 * of_int (load_Capacity self)"
proof -
  have nonneg: "0 \<le> (Frac self - Frac peer) / 2 * (of_int (load_Capacity self) :: rat)" using assms by simp
  have "OffloadBytes self peer threshold \<le> \<lfloor>(Frac self - Frac peer) / 2 * of_int (load_Capacity self)\<rfloor> \<or> OffloadBytes self peer threshold = 0"
    by (auto simp: OffloadBytes_def Let_def)
  then show ?thesis using nonneg by (auto simp: le_floor_iff)
qed

lemma OffloadBytes_large:
  assumes "0 \<le> load_Used self" and "load_Used self \<le> load_Capacity self" and g: "max 0 threshold < Frac self - Frac peer"
  shows "OffloadBytes self peer threshold = load_FreeBytes peer
    \<or> (Frac self - Frac peer) / 2 * of_int (load_Capacity self) - 1 < of_int (OffloadBytes self peer threshold)"
proof -
  let ?x = "(Frac self - Frac peer) / 2 * of_int (load_Capacity self)"
  have "0 < Frac self" using g Frac_nonneg [of peer] by simp
  then have pos: "0 < load_Capacity self" by (auto simp: Frac_def split: if_splits)
  have "?x \<le> Frac self * of_int (load_Capacity self)"
    using pos g Frac_nonneg [of peer] by (intro mult_right_mono) (simp_all add: field_simps)
  also have "\<dots> = of_int (load_Used self)" using Frac_inside [OF assms(1,2) pos] pos by simp
  finally have "\<lfloor>?x\<rfloor> \<le> load_Used self" by (simp add: floor_le_iff)
  moreover have "0 \<le> \<lfloor>?x\<rfloor>" using g pos by simp
  ultimately have "OffloadBytes self peer threshold = \<lfloor>?x\<rfloor> \<or> OffloadBytes self peer threshold = load_FreeBytes peer"
    using g load_FreeBytes_nonneg [of peer] by (auto simp: OffloadBytes_def Let_def max_def split: if_splits)
  then show ?thesis using floor_correct [of ?x] by (auto simp: diff_less_eq)
qed

text \<open>
  C33: the amount one rebalancing exchange moves is safe. Whatever the two capacities are, it is never
  negative, never more than the node stores, never more than the peer has free, nothing at all inside the dead band,
  and the node stays at least halfway between the two fractions; above the dead band it is all the peer has free
  or closes half the gap to within a byte. When the peer is at least as large, the exchange does not
  overshoot: the node stays at least as full, as a fraction of its capacity, as the peer becomes.
\<close>

theorem OffloadBytes_safe:
  assumes "0 \<le> load_Used self" "load_Used self \<le> load_Capacity self"
    and "0 \<le> load_Used peer" "load_Used peer \<le> load_Capacity peer" and "b = OffloadBytes self peer threshold"
  shows "0 \<le> b \<and> b \<le> load_Used self \<and> b \<le> load_FreeBytes peer
    \<and> (Frac self - Frac peer \<le> max 0 threshold \<longrightarrow> b = 0)
    \<and> (max 0 threshold < Frac self - Frac peer \<longrightarrow>
         b = load_FreeBytes peer \<or> (Frac self - Frac peer) / 2 * of_int (load_Capacity self) - 1 < of_int b)
    \<and> (Frac peer \<le> Frac self \<longrightarrow> (Frac self + Frac peer) / 2 \<le> Frac (self\<lparr>load_Used := load_Used self - b\<rparr>))
    \<and> (Frac peer \<le> Frac self \<longrightarrow> load_Capacity self \<le> load_Capacity peer \<longrightarrow>
         Frac (peer\<lparr>load_Used := load_Used peer + b\<rparr>) \<le> Frac (self\<lparr>load_Used := load_Used self - b\<rparr>))"
proof -
  let ?gap = "Frac self - Frac peer" and ?C = "of_int (load_Capacity self) :: rat" and ?D = "of_int (load_Capacity peer) :: rat"
  have bounds: "0 \<le> b" "b \<le> load_Used self" "b \<le> load_FreeBytes peer" "?gap \<le> max 0 threshold \<longrightarrow> b = 0"
    using assms(1,5) load_FreeBytes_nonneg [of peer] by (auto simp: OffloadBytes_def Let_def max_def)
  note half = OffloadBytes_half [OF _ assms(1,2), of peer threshold, folded assms(5)]
  have mid: "(Frac self + Frac peer) / 2 \<le> Frac (self\<lparr>load_Used := load_Used self - b\<rparr>)" if g: "0 \<le> ?gap"
  proof (cases "0 < load_Capacity self")
    case True
    have "Frac (self\<lparr>load_Used := load_Used self - b\<rparr>) = Frac self - of_int b / ?C"
      using Frac_inside [of "self\<lparr>load_Used := load_Used self - b\<rparr>"] Frac_inside [OF assms(1,2) True] bounds(1,2) assms(2) True
      by (simp add: diff_divide_distrib)
    moreover have "of_int b / ?C \<le> ?gap / 2" using half [OF g] True by (simp add: divide_le_eq)
    moreover have "(Frac self + Frac peer) / 2 = Frac self - ?gap / 2" by (simp add: field_simps)
    ultimately show ?thesis by linarith
  next
    case False
    then show ?thesis using g Frac_nonneg [of peer] by (simp add: Frac_def)
  qed
  have no_over: "Frac (peer\<lparr>load_Used := load_Used peer + b\<rparr>) \<le> Frac (self\<lparr>load_Used := load_Used self - b\<rparr>)"
    if g: "0 \<le> ?gap" and le: "load_Capacity self \<le> load_Capacity peer"
  proof (cases "0 < load_Capacity self")
    case True
    then have C: "0 < ?C" "?C \<le> ?D" "0 < load_Capacity peer" using le by simp_all
    have "load_Used peer + b \<le> load_Capacity peer" using bounds(3) assms(4) by (auto simp: load_FreeBytes_def Let_def split: if_splits)
    then have "Frac (peer\<lparr>load_Used := load_Used peer + b\<rparr>) = Frac peer + of_int b / ?D"
      using Frac_inside [of "peer\<lparr>load_Used := load_Used peer + b\<rparr>"] Frac_inside [OF assms(3,4) C(3)] bounds(1) assms(3) C(3)
      by (simp add: add_divide_distrib)
    also have "\<dots> \<le> Frac peer + of_int b / ?C"
      using bounds(1) C by (intro add_left_mono divide_left_mono) auto
    also have "\<dots> \<le> Frac peer + ?gap / 2" using half [OF g] C(1) by (simp add: divide_le_eq)
    also have "\<dots> = (Frac self + Frac peer) / 2" by (simp add: field_simps)
    also have "\<dots> \<le> Frac (self\<lparr>load_Used := load_Used self - b\<rparr>)" by (rule mid [OF g])
    finally show ?thesis .
  next
    case False
    then have "b = 0" using assms(1,2) bounds(1,2) by simp
    then show ?thesis using g by simp
  qed
  show ?thesis using bounds OffloadBytes_large [OF assms(1,2), of threshold peer, folded assms(5)] mid no_over by simp
qed

theorem OffloadBytes_safe_witness:
  "39 < OffloadBytes \<lparr>load_Used = 90, load_Capacity = 100\<rparr> \<lparr>load_Used = 10, load_Capacity = 100\<rparr> (1 / 10)
     \<or> OffloadBytes \<lparr>load_Used = 90, load_Capacity = 100\<rparr> \<lparr>load_Used = 10, load_Capacity = 100\<rparr> (1 / 10) = 90"
proof -
  let ?b = "OffloadBytes \<lparr>load_Used = 90, load_Capacity = 100\<rparr> \<lparr>load_Used = 10, load_Capacity = 100\<rparr> (1 / 10)"
  have "?b = 90 \<or> 39 < (of_int ?b :: rat)"
    using OffloadBytes_safe [of "\<lparr>load_Used = 90, load_Capacity = 100\<rparr>" "\<lparr>load_Used = 10, load_Capacity = 100\<rparr>" ?b "1 / 10"]
    by (simp add: Frac_def load_FreeBytes_def Let_def)
  moreover have "(39 :: rat) = of_int 39" by simp
  ultimately show ?thesis by (metis of_int_less_iff)
qed

text \<open>
  A smaller peer can be overfilled: a full node of 1000 and an empty peer of 100 exchange 100, which
  fills the peer entirely while the node stays at nine tenths.
\<close>

lemma OffloadBytes_overshoots:
  "let self = \<lparr>load_Used = 1000, load_Capacity = 1000\<rparr>; peer = \<lparr>load_Used = 0, load_Capacity = 100\<rparr>; b = OffloadBytes self peer (1 / 10)
   in b = 100 \<and> Frac (self\<lparr>load_Used := 1000 - b\<rparr>) = 9 / 10 \<and> Frac (peer\<lparr>load_Used := b\<rparr>) = 1"
  by (simp add: OffloadBytes_def Frac_def load_FreeBytes_def Let_def)

text \<open>
  The placement store always has a target. From construction over a non-empty node list,
  through capacity updates and the switch to the weighted policy, each pick returns one of the
  store's nodes, and the store stays in that state.
\<close>

lemma nextTarget_total:
  "(NewPlacementStore str nodes = Inr p \<longrightarrow> ps_ok str p \<and> ps_nodes p = nodes) \<and>
   (ps_ok str q \<longrightarrow> ps_ok str (UpdateCapacities free q) \<and> ps_ok str (FetchAndUpdateCapacities query q)
      \<and> ps_ok str (SetCapacityWeighted u q) \<and>
      (\<exists>q' t. nextTarget q = (q', Some t) \<and> t \<in> set (ps_nodes q) \<and> ps_ok str q' \<and> ps_nodes q' = ps_nodes q))"
proof -
  have "ps_ok str p \<and> ps_nodes p = nodes" if "NewPlacementStore str nodes = Inr p"
    using that by (auto simp: NewPlacementStore_def ps_ok_def usable_def list_all_iff byNodeID_fold split: if_splits)
  moreover have "\<exists>q' t. nextTarget q = (q', Some t) \<and> t \<in> set (ps_nodes q) \<and> ps_ok str q' \<and> ps_nodes q' = ps_nodes q"
    if q: "ps_ok str q"
  proof -
    let ?cand = "if 0 < ps_capacityUnit q then WeightByFree (ps_cand q) (ps_capacityUnit q) else ps_cand q"
    have ids: "map node_ID ?cand = map str (ps_nodes q)" and up: "list_all usable ?cand"
      using q by (auto simp: ps_ok_def WeightByFree_def Let_def list_all_iff usable_def comp_def)
    then have us: "usableNodes ?cand = ?cand" "usableNodes ?cand \<noteq> []"
      using q by (auto simp: usableNodes_def filter_id_conv list_all_iff ps_ok_def)
    obtain n where n: "n \<in> set ?cand" "snd (sel_Pick (ps_sel q) ?cand) = Inr (node_ID n)"
      using sel.pick_some [OF us(2), of "ps_sel q"] unfolding us(1) by blast
    have "node_ID n \<in> set (map str (ps_nodes q))" unfolding ids [symmetric] using n(1) by simp
    then obtain t where t: "ps_byNodeID q (node_ID n) = Some t" "t \<in> set (ps_nodes q)"
      using q by (auto simp: ps_ok_def list_all_iff)
    obtain s' where "sel_Pick (ps_sel q) ?cand = (s', Inr (node_ID n))" using n(2) by (metis prod.collapse)
    then have "nextTarget q = (q\<lparr>ps_sel := s'\<rparr>, Some t)" using t(1) by (simp add: nextTarget_def Let_def)
    then show ?thesis using t(2) q by (simp add: ps_ok_def)
  qed
  moreover have "ps_ok str (UpdateCapacities free q)" "ps_ok str (FetchAndUpdateCapacities query q)"
    "ps_ok str (SetCapacityWeighted u q)" if "ps_ok str q"
    using that by (simp_all add: ps_ok_def UpdateCapacities_def FetchAndUpdateCapacities_def SetCapacityWeighted_def
        list_all_iff usable_def comp_def)
  ultimately show ?thesis by blast
qed

lemma nextTarget_total_witness:
  "\<exists>p q' t. NewPlacementStore (\<lambda>x. [x]) ''xyz'' = Inr p \<and> nextTarget p = (q', Some t) \<and> t \<in> set ''xyz''"
proof -
  obtain p where p: "NewPlacementStore (\<lambda>x. [x]) ''xyz'' = Inr p" by (simp add: NewPlacementStore_def)
  note T = nextTarget_total [of "\<lambda>x. [x]" "''xyz''" p p Map.empty Map.empty 0]
  have ok: "ps_ok (\<lambda>x. [x]) p" and nodes: "ps_nodes p = ''xyz''" using T p by (simp_all del: list.set)
  obtain q' t where "nextTarget p = (q', Some t)" "t \<in> set (ps_nodes p)" using T ok by (auto simp del: list.set)
  then show ?thesis using p nodes by metis
qed

end
