(* ===== verification/Rebalance.thy ===== *)
theory Rebalance
  imports Server Placement
begin

text \<open>
  Load reports (\<^verbatim>\<open>src/internal/net/balance.go\<close>) and the rebalancer (\<^verbatim>\<open>src/internal/net/rebalance.go\<close>): a node moves its
  coldest shards to the emptiest of a few peers. The network is a parameter, one answer per stream, so peers may
  answer anything; \<^verbatim>\<open>encoding/json\<close> is a parameter for the load report. Contexts are not cancelled; log lines are left out.
\<close>

section \<open>Load reports\<close>

type_synonym peer_id = string

record load_report =
  lr_UsedBytes :: int
  lr_CapacityBytes :: int
  lr_Shards :: int

definition report_Load :: "load_report \<Rightarrow> load" where
  "report_Load r = \<lparr>load_Used = lr_UsedBytes r, load_Capacity = lr_CapacityBytes r\<rparr>"

definition maxLoadReport :: nat where "maxLoadReport = 4096"

record load_codec =
  js_load :: "load_report \<Rightarrow> bytes"
  js_load_parse :: "bytes \<Rightarrow> load_report option"

datatype stream_kind = ShardStream | ProbeStream | BalanceStream

type_synonym 'w net = "stream_kind \<Rightarrow> peer_id \<Rightarrow> 'w \<Rightarrow> bytes \<Rightarrow> 'w \<times> bytes res"

definition QueryLoad :: "load_codec \<Rightarrow> 'w net \<Rightarrow> peer_id \<Rightarrow> 'w \<Rightarrow> 'w \<times> load_report res" where
  "QueryLoad J net p w = (case net BalanceStream p w [] of (w', r) \<Rightarrow>
     (w', bindR r (\<lambda>resp. bindR (readResp resp) (\<lambda>(_, s1). bindR (readBlob maxLoadReport s1) (\<lambda>(body, _).
        case js_load_parse J body of None \<Rightarrow> Inl ErrCodec | Some rep \<Rightarrow> Inr rep)))))"

definition handleLoad :: "(error \<Rightarrow> bytes) \<Rightarrow> load_codec \<Rightarrow> load_report res option \<Rightarrow> bytes" where
  "handleLoad txt J loadSource = (case loadSource of
     None \<Rightarrow> replyErr txt ErrInvalid
   | Some (Inl e) \<Rightarrow> replyErr txt e
   | Some (Inr rep) \<Rightarrow> statusOK # (case writeBlob (js_load J rep) of Inl _ \<Rightarrow> [] | Inr b \<Rightarrow> b))"

section \<open>The rebalancer\<close>

definition coldShardScan :: int where "coldShardScan = 256"

record rebalancer =
  rb_self :: peer_id
  rb_threshold :: rat
  rb_sample :: int
  rb_cooldown :: int
  rb_abuse :: "peer_id abuse_monitor option"
  rb_moved :: "(shard_id \<times> int) list"

definition NewRebalancer :: "peer_id \<Rightarrow> rebalancer" where
  "NewRebalancer h = \<lparr>rb_self = h, rb_threshold = 1 / 10, rb_sample = 3, rb_cooldown = 3600 * 10 ^ 9, rb_abuse = None, rb_moved = []\<rparr>"

definition SetThreshold :: "rat \<Rightarrow> rebalancer \<Rightarrow> rebalancer" where
  "SetThreshold t rb = rb\<lparr>rb_threshold := t\<rparr>"

definition SetSample :: "int \<Rightarrow> rebalancer \<Rightarrow> rebalancer" where
  "SetSample n rb = rb\<lparr>rb_sample := (if n < 1 then 1 else n)\<rparr>"

definition SetCooldown :: "int \<Rightarrow> rebalancer \<Rightarrow> rebalancer" where
  "SetCooldown d rb = rb\<lparr>rb_cooldown := d\<rparr>"

definition SetAbuseMonitor :: "peer_id abuse_monitor option \<Rightarrow> rebalancer \<Rightarrow> rebalancer" where
  "SetAbuseMonitor a rb = rb\<lparr>rb_abuse := a\<rparr>"

text \<open>The world of a round: the network, the local blobs and ledger, the bookkeeping and the random source.\<close>

record ('w, 's) rb_world =
  rw_net :: 'w
  rw_blobs :: 's
  rw_led :: ledger
  rw_rb :: rebalancer
  rw_rnd :: bytes

definition inCooldown :: "shard_id \<Rightarrow> int \<Rightarrow> rebalancer \<Rightarrow> bool" where
  "inCooldown sid now rb \<longleftrightarrow> (case map_of (rb_moved rb) sid of None \<Rightarrow> False | Some t \<Rightarrow> now - t < rb_cooldown rb)"

definition markMoved :: "shard_id \<Rightarrow> int \<Rightarrow> rebalancer \<Rightarrow> rebalancer" where
  "markMoved sid now rb = rb\<lparr>rb_moved := AList.update sid now (rb_moved rb)\<rparr>"

definition pruneCooldown :: "int \<Rightarrow> rebalancer \<Rightarrow> rebalancer" where
  "pruneCooldown now rb = rb\<lparr>rb_moved := filter (\<lambda>(_, t). \<not> rb_cooldown rb \<le> now - t) (rb_moved rb)\<rparr>"

text \<open>The first loop of \<^verbatim>\<open>pickTarget\<close>: others than the node itself, until the sample is full.\<close>

fun sample_peers :: "rebalancer \<Rightarrow> peer_id list \<Rightarrow> peer_id list \<Rightarrow> peer_id list" where
  "sample_peers rb [] sampled = sampled"
| "sample_peers rb (p # ps) sampled = (if p = rb_self rb then sample_peers rb ps sampled
     else if rb_sample rb \<le> int (length (sampled @ [p])) then sampled @ [p] else sample_peers rb ps (sampled @ [p]))"

fun emptiest :: "load_codec \<Rightarrow> 'w net \<Rightarrow> peer_id list \<Rightarrow> (peer_id \<times> load) option \<Rightarrow> 'w \<Rightarrow> 'w \<times> (peer_id \<times> load) option" where
  "emptiest J net [] best w = (w, best)"
| "emptiest J net (p # ps) best w = (case QueryLoad J net p w of
     (w', Inl _) \<Rightarrow> emptiest J net ps best w'
   | (w', Inr rep) \<Rightarrow> let l = report_Load rep in
       emptiest J net ps (case best of None \<Rightarrow> Some (p, l) | Some (q, bl) \<Rightarrow> if Frac l < Frac bl then Some (p, l) else best) w')"

definition pickTarget :: "load_codec \<Rightarrow> 'w net \<Rightarrow> peer_id list res \<Rightarrow> rebalancer \<Rightarrow> 'w \<Rightarrow> 'w \<times> (peer_id \<times> load) option res" where
  "pickTarget J net peers rb w = (case peers of
     Inl e \<Rightarrow> (w, Inl e)
   | Inr candidates \<Rightarrow> (case emptiest J net (sample_peers rb candidates []) None w of (w', best) \<Rightarrow> (w', Inr best)))"

fun peerStripeLoad :: "'w net \<Rightarrow> peer_id \<Rightarrow> shard_id list \<Rightarrow> shard_id \<Rightarrow> int \<Rightarrow> int \<Rightarrow> 'w \<Rightarrow> 'w \<times> int res" where
  "peerStripeLoad net target [] exclude limit held w = (w, Inr held)"
| "peerStripeLoad net target (sib # sibs) exclude limit held w = (if sib = exclude then peerStripeLoad net target sibs exclude limit held w
     else (case net_Has (net ShardStream target) w sib of
       (w', Inl e) \<Rightarrow> (w', Inl e)
     | (w', Inr False) \<Rightarrow> peerStripeLoad net target sibs exclude limit held w'
     | (w', Inr True) \<Rightarrow> if limit \<le> held + 1 then (w', Inr (held + 1)) else peerStripeLoad net target sibs exclude limit (held + 1) w'))"

definition confirmStored :: "prims \<Rightarrow> 'w net \<Rightarrow> peer_id \<Rightarrow> shard_id \<Rightarrow> bytes \<Rightarrow> ('w, 's) rb_world \<Rightarrow> ('w, 's) rb_world \<times> bool res" where
  "confirmStored P net target sid want st = (if length (rw_rnd st) < NonceSize then (st, Inl ErrRead)
     else case Probe P (net ProbeStream target) (rw_net st) sid want (take NonceSize (rw_rnd st)) of
       (w', r) \<Rightarrow> (st\<lparr>rw_net := w', rw_rnd := drop NonceSize (rw_rnd st)\<rparr>, r))"

definition release :: "'s store_ops \<Rightarrow> shard_id \<Rightarrow> ('w, 's) rb_world \<Rightarrow> ('w, 's) rb_world \<times> unit res" where
  "release ops sid st = (case op_Delete ops (rw_blobs st) sid of
     (s', Inl e) \<Rightarrow> if e \<noteq> ErrNotFound then (st\<lparr>rw_blobs := s'\<rparr>, Inl e) else (st\<lparr>rw_blobs := s', rw_led := DropRecord sid (rw_led st)\<rparr>, Inr ())
   | (s', Inr _) \<Rightarrow> (st\<lparr>rw_blobs := s', rw_led := DropRecord sid (rw_led st)\<rparr>, Inr ()))"

text \<open>One turn of the loop of \<^verbatim>\<open>RunOnce\<close> on a shard whose bytes were read: go on with the next shard, stop, or moved.\<close>

datatype verdict = Continue | Break | Moved

definition spread_check :: "'w net \<Rightarrow> peer_id \<Rightarrow> stripe_info \<Rightarrow> 'w \<Rightarrow> 'w \<times> bool" where
  "spread_check net target row w = (if si_M row \<le> 0 then (w, True)
     else (case peerStripeLoad net target (si_Siblings row) (si_ShardID row) (si_M row) 0 w of
       (w', Inl _) \<Rightarrow> (w', False) | (w', Inr held) \<Rightarrow> (w', held < si_M row)))"

definition move_shard :: "prims \<Rightarrow> 's store_ops \<Rightarrow> 'w net \<Rightarrow> peer_id \<Rightarrow> int \<Rightarrow> stripe_info \<Rightarrow> bytes \<Rightarrow> ('w, 's) rb_world \<Rightarrow> ('w, 's) rb_world \<times> verdict" where
  "move_shard P ops net target now row data st0 =
     (case spread_check net target row (rw_net st0) of
       (w1, False) \<Rightarrow> (st0\<lparr>rw_net := w1\<rparr>, Continue)
     | (w1, True) \<Rightarrow>
       (case putGrant P (net ShardStream target) w1 data \<lparr>desc_K = si_K row, desc_M = si_M row, desc_Shards = si_Siblings row\<rparr> (si_Grant row) ReasonRebalance of
         (w2, Inl e) \<Rightarrow> (st0\<lparr>rw_net := w2\<rparr>, if e = ErrQuotaExceeded then Break else Continue)
       | (w2, Inr _) \<Rightarrow>
         (case confirmStored P net target (si_ShardID row) data (st0\<lparr>rw_net := w2\<rparr>) of
           (st3, Inl _) \<Rightarrow> (st3, Continue)
         | (st3, Inr False) \<Rightarrow> (st3\<lparr>rw_rb := (rw_rb st3)\<lparr>rb_abuse := map_option (\<lambda>m. fst (RecordPossessionLie target now m)) (rb_abuse (rw_rb st3))\<rparr>\<rparr>, Break)
         | (st3, Inr True) \<Rightarrow> let st4 = fst (release ops (si_ShardID row) st3) in
             (st4\<lparr>rw_rb := markMoved (si_ShardID row) now (rw_rb st4)\<rparr>, Moved))))"

fun shed :: "prims \<Rightarrow> 's store_ops \<Rightarrow> 'w net \<Rightarrow> peer_id \<Rightarrow> int \<Rightarrow> stripe_info list \<Rightarrow> int \<Rightarrow> nat \<Rightarrow> ('w, 's) rb_world \<Rightarrow> ('w, 's) rb_world \<times> nat" where
  "shed P ops net target now [] budget moved st = (st, moved)"
| "shed P ops net target now (row # rows) budget moved st =
     (if budget \<le> 0 then (st, moved)
      else if inCooldown (si_ShardID row) now (rw_rb st) then shed P ops net target now rows budget moved st
      else (case op_Get ops (rw_blobs st) (si_ShardID row) of
        Inl _ \<Rightarrow> shed P ops net target now rows budget moved st
      | Inr data \<Rightarrow> (case move_shard P ops net target now row data st of
          (st', Continue) \<Rightarrow> shed P ops net target now rows budget moved st'
        | (st', Break) \<Rightarrow> (st', moved)
        | (st', Moved) \<Rightarrow> shed P ops net target now rows (budget - int (length data)) (moved + 1) st')))"

definition RunOnce :: "prims \<Rightarrow> load_codec \<Rightarrow> 's store_ops \<Rightarrow> 'w net \<Rightarrow> load_report res \<Rightarrow> peer_id list res \<Rightarrow> int \<Rightarrow> ('w, 's) rb_world
    \<Rightarrow> ('w, 's) rb_world \<times> nat res" where
  "RunOnce P J ops net self peers now st = (case self of
     Inl e \<Rightarrow> (st, Inl e)
   | Inr selfRep \<Rightarrow> let selfLoad = report_Load selfRep in
       if load_Capacity selfLoad \<le> 0 then (st, Inr 0)
       else (case pickTarget J net peers (rw_rb st) (rw_net st) of
         (w1, Inl e) \<Rightarrow> (st\<lparr>rw_net := w1\<rparr>, Inl e)
       | (w1, Inr None) \<Rightarrow> (st\<lparr>rw_net := w1\<rparr>, Inr 0)
       | (w1, Inr (Some (target, targetLoad))) \<Rightarrow>
           let st1 = st\<lparr>rw_net := w1\<rparr>; budget = OffloadBytes selfLoad targetLoad (rb_threshold (rw_rb st)) in
           if budget \<le> 0 then (st1, Inr 0)
           else let st2 = st1\<lparr>rw_rb := pruneCooldown now (rw_rb st1)\<rparr> in
             (case ColdShards coldShardScan (rw_led st2) of
               Inl e \<Rightarrow> (st2, Inl e)
             | Inr rows \<Rightarrow> (case shed P ops net target now rows budget 0 st2 of (st3, moved) \<Rightarrow> (st3, Inr moved)))))"

section \<open>Every copy given up was proved\<close>

text \<open>A network that records its streams, and what counts as a proof of possession in such a record.\<close>

type_synonym stream_log = "(stream_kind \<times> peer_id \<times> bytes \<times> bytes res) list"

definition logged_net :: "'w net \<Rightarrow> ('w \<times> stream_log) net" where
  "logged_net net k p wl req = (case net k p (fst wl) req of (w', r) \<Rightarrow> ((w', snd wl @ [(k, p, req, r)]), r))"

text \<open>
  Since \<open>st0\<close> the peer \<open>t\<close> was challenged about \<open>sid\<close>, with a nonce drawn since from the random source, and answered
  with the hash of that nonce and \<open>b\<close>.
\<close>

definition proved :: "prims \<Rightarrow> ('w \<times> stream_log, 's) rb_world \<Rightarrow> ('w \<times> stream_log, 's) rb_world \<Rightarrow> peer_id \<Rightarrow> shard_id \<Rightarrow> bytes \<Rightarrow> bool" where
  "proved P st0 st t sid b \<longleftrightarrow> (\<exists>i nonce resp s1 s2. nonce = take NonceSize (drop (i * NonceSize) (rw_rnd st0))
     \<and> i * NonceSize + NonceSize \<le> length (rw_rnd st0) - length (rw_rnd st)
     \<and> (ProbeStream, t, sid @ nonce, Inr resp) \<in> set (drop (length (snd (rw_net st0))) (snd (rw_net st)))
     \<and> readResp resp = Inr ((), s1) \<and> ReadFull 32 s1 = Inr (sha256 P (nonce @ b), s2))"

text \<open>The log only grows and the random source is used up nonce by nonce.\<close>

definition ahead :: "('w \<times> stream_log, 's) rb_world \<Rightarrow> ('w \<times> stream_log, 's) rb_world \<Rightarrow> bool" where
  "ahead st0 st \<longleftrightarrow> prefix (snd (rw_net st0)) (snd (rw_net st))
     \<and> (\<exists>n. n * NonceSize \<le> length (rw_rnd st0) \<and> rw_rnd st = drop (n * NonceSize) (rw_rnd st0))"

lemma proved_mono:
  assumes "proved P st0 st t sid b" and "prefix (snd (rw_net st)) (snd (rw_net st'))" and "length (rw_rnd st') \<le> length (rw_rnd st)"
  shows "proved P st0 st' t sid b"
proof -
  have "set (drop k (snd (rw_net st))) \<subseteq> set (drop k (snd (rw_net st')))" for k using assms(2) by (auto simp: prefix_def)
  moreover have "length (rw_rnd st0) - length (rw_rnd st) \<le> length (rw_rnd st0) - length (rw_rnd st')" using assms(3) by simp
  ultimately show ?thesis using assms(1) unfolding proved_def by (meson le_trans subsetD)
qed

lemma proved_from:
  assumes "proved P st1 st t sid b" and "rw_rnd st1 = rw_rnd st0" and "prefix (snd (rw_net st0)) (snd (rw_net st1))"
  shows "proved P st0 st t sid b"
proof -
  have "set (drop (length (snd (rw_net st1))) (snd (rw_net st))) \<subseteq> set (drop (length (snd (rw_net st0))) (snd (rw_net st)))"
    using assms(3) by (intro set_drop_subset_set_drop prefix_length_le)
  then show ?thesis using assms(1) unfolding proved_def assms(2) by blast
qed

lemma exchange_grows: "exchange (logged_net net k p) wl parts = (wl', r) \<Longrightarrow> prefix (snd wl) (snd wl')"
  by (auto simp: exchange_def logged_net_def split: prod.splits)

lemma net_Has_grows: "net_Has (logged_net net k p) wl sid = (wl', r) \<Longrightarrow> prefix (snd wl) (snd wl')"
  by (auto simp: net_Has_def dest: exchange_grows split: prod.splits)

lemma putGrant_grows: "putGrant P (logged_net net k p) wl d desc g reason = (wl', r) \<Longrightarrow> prefix (snd wl) (snd wl')"
  by (auto simp: putGrant_def putRaw_def dest: exchange_grows split: prod.splits sum.splits)

lemma peerStripeLoad_grows: "peerStripeLoad (logged_net net) t sibs ex lm held wl = (wl', r) \<Longrightarrow> prefix (snd wl) (snd wl')"
proof (induction sibs arbitrary: held wl)
  case (Cons sib sibs)
  obtain w1 q where h: "net_Has (logged_net net ShardStream t) wl sib = (w1, q)" by fastforce
  show ?case
  proof (cases "sib = ex")
    case True
    then show ?thesis using Cons by simp
  next
    case False
    then have "wl' = w1 \<or> (\<exists>held'. peerStripeLoad (logged_net net) t sibs ex lm held' w1 = (wl', r))"
      using Cons.prems h by (auto split: sum.splits bool.splits if_splits)
    then have "prefix (snd w1) (snd wl')" using Cons.IH by blast
    then show ?thesis by (rule prefix_order.trans[OF net_Has_grows[OF h]])
  qed
qed simp

lemma spread_check_grows: "spread_check (logged_net net) t row wl = (wl', fits) \<Longrightarrow> prefix (snd wl) (snd wl')"
  by (auto simp: spread_check_def dest: peerStripeLoad_grows split: if_splits prod.splits sum.splits)

lemma confirmStored_proves:
  assumes "confirmStored P (logged_net net) t sid b st = (st', r)" and "ahead st0 st"
  shows "ahead st0 st' \<and> prefix (snd (rw_net st)) (snd (rw_net st')) \<and> length (rw_rnd st') \<le> length (rw_rnd st)
    \<and> (r = Inr True \<longrightarrow> proved P st0 st' t sid b) \<and> rw_blobs st' = rw_blobs st \<and> rw_led st' = rw_led st"
proof (cases "length (rw_rnd st) < NonceSize")
  case True
  then show ?thesis using assms by (auto simp: confirmStored_def)
next
  case False
  obtain n where n: "n * NonceSize \<le> length (rw_rnd st0)" "rw_rnd st = drop (n * NonceSize) (rw_rnd st0)" and pre: "prefix (snd (rw_net st0)) (snd (rw_net st))"
    using assms(2) by (auto simp: ahead_def)
  let ?nonce = "take NonceSize (rw_rnd st)"
  obtain w' q where p: "Probe P (logged_net net ProbeStream t) (rw_net st) sid b ?nonce = (w', q)" by fastforce
  have st': "st' = st\<lparr>rw_net := w', rw_rnd := drop NonceSize (rw_rnd st)\<rparr>" "r = q" using assms(1) False by (simp_all add: confirmStored_def p)
  obtain w1 a where x: "exchange (logged_net net ProbeStream t) (rw_net st) [Inr sid, Inr ?nonce] = (w1, a)" by fastforce
  have lg: "snd w1 = snd (rw_net st) @ [(ProbeStream, t, sid @ ?nonce, a)]"
    using x exchange_ok[of "logged_net net ProbeStream t" "rw_net st" "[sid, ?nonce]"] by (auto simp: logged_net_def split: prod.splits)
  have w': "w' = w1" using p False by (auto simp: Probe_def x)
  have len: "Suc n * NonceSize \<le> length (rw_rnd st0)" "length (rw_rnd st0) - length (rw_rnd st') = Suc n * NonceSize"
    "rw_rnd st' = drop (Suc n * NonceSize) (rw_rnd st0)"
    using n False st' by (simp_all add: add.commute)
  then have "ahead st0 st'" using pre lg w' st'(1) unfolding ahead_def by (intro conjI exI [of _ "Suc n"]) (simp_all add: prefix_prefix)
  moreover have "proved P st0 st' t sid b" if t: "r = Inr True"
  proof -
    obtain resp s1 s2 where a: "a = Inr resp" "readResp resp = Inr ((), s1)" "ReadFull 32 s1 = Inr (sha256 P (?nonce @ b), s2)"
      using p t st'(2) by (auto simp: Probe_def x bindR_eq_Inr split: if_splits prod.splits)
    have "(ProbeStream, t, sid @ ?nonce, Inr resp) \<in> set (drop (length (snd (rw_net st0))) (snd (rw_net st')))"
      using prefix_length_le [OF pre] lg w' st'(1) a(1) by simp
    then show ?thesis unfolding proved_def using n(2) len(2) a(2,3)
      by (intro exI [of _ n] exI [of _ ?nonce] exI [of _ resp] exI [of _ s1] exI [of _ s2]) simp
  qed
  ultimately show ?thesis using lg w' st' by simp
qed

text \<open>
  What holds of the world \<open>st\<close> during a round that started in \<open>st0\<close>: a blob is still there or its
  possession by the target was proved, nothing was added, and records and claims go only with their blob.
\<close>

definition shed_ok :: "prims \<Rightarrow> ('s \<Rightarrow> shard_id \<Rightarrow> bytes option) \<Rightarrow> peer_id \<Rightarrow> ('w \<times> stream_log, 's) rb_world \<Rightarrow> ('w \<times> stream_log, 's) rb_world \<Rightarrow> bool" where
  "shed_ok P view t st0 st \<longleftrightarrow> ahead st0 st
   \<and> (\<forall>sid b. view (rw_blobs st0) sid = Some b \<longrightarrow> view (rw_blobs st) sid = Some b \<or> (view (rw_blobs st) sid = None \<and> proved P st0 st t sid b))
   \<and> (\<forall>sid. view (rw_blobs st0) sid = None \<longrightarrow> view (rw_blobs st) sid = None)
   \<and> (\<forall>sid. view (rw_blobs st) sid \<noteq> None \<longrightarrow> map_of (tbl_shards (rw_led st)) sid = map_of (tbl_shards (rw_led st0)) sid
        \<and> (\<forall>ow. map_of (tbl_owners (rw_led st)) (sid, ow) = map_of (tbl_owners (rw_led st0)) (sid, ow)))"

lemma shed_ok_refl: "shed_ok P view t st st"
  by (auto simp: shed_ok_def ahead_def intro: exI [of _ 0])

lemma shed_ok_frame:
  assumes "shed_ok P view t st0 st" and "rw_blobs st' = rw_blobs st" and "rw_led st' = rw_led st" and "ahead st0 st'"
    and "prefix (snd (rw_net st)) (snd (rw_net st'))" and "length (rw_rnd st') \<le> length (rw_rnd st)"
  shows "shed_ok P view t st0 st'"
  using assms proved_mono [OF _ assms(5,6)] unfolding shed_ok_def by metis

lemma ahead_net: "ahead st0 st \<Longrightarrow> prefix (snd (rw_net st)) (snd w) \<Longrightarrow> ahead st0 (st\<lparr>rw_net := w\<rparr>)"
  by (auto simp: ahead_def intro: prefix_order.trans)

context content_store
begin

lemma release_ok:
  assumes "invar (rw_blobs st)" and "ledger_inv (rw_led st)" and "shed_ok P abs t st0 st"
    and "abs (rw_blobs st) sid = Some b" and "proved P st0 st t sid b"
  shows "invar (rw_blobs (fst (release ops sid st))) \<and> ledger_inv (rw_led (fst (release ops sid st))) \<and> shed_ok P abs t st0 (fst (release ops sid st))"
proof -
  obtain s' u where d: "op_Delete ops (rw_blobs st) sid = (s', u)" by fastforce
  have l: "invar s'" "abs s' = (abs (rw_blobs st))(sid := None)" "u = Inr ()" using delete_law[OF assms(1) d] assms(4) by auto
  have r: "fst (release ops sid st) = st\<lparr>rw_blobs := s', rw_led := DropRecord sid (rw_led st)\<rparr>" by (simp add: release_def d l(3))
  have old: "abs (rw_blobs st0) sid = Some b" using assms(3,4) unfolding shed_ok_def by (metis not_None_eq option.inject)
  have "ahead st0 (st\<lparr>rw_blobs := s', rw_led := DropRecord sid (rw_led st)\<rparr>)"
    "proved P st0 (st\<lparr>rw_blobs := s', rw_led := DropRecord sid (rw_led st)\<rparr>) = proved P st0 st"
    using assms(3) by (simp_all add: shed_ok_def ahead_def proved_def fun_eq_iff)
  then show ?thesis using assms(3-5) l old unfolding r by (auto simp: shed_ok_def ledger_inv_DropRecord assms(2) DropRecord_tables)
qed

lemma move_shard_ok:
  assumes "invar (rw_blobs st)" and "ledger_inv (rw_led st)" and "shed_ok P abs t st0 st" and "op_Get ops (rw_blobs st) (si_ShardID row) = Inr data"
    and "move_shard P ops (logged_net net) t now row data st = (st', v)"
  shows "invar (rw_blobs st') \<and> ledger_inv (rw_led st') \<and> shed_ok P abs t st0 st'"
proof -
  obtain w1 fits where c: "spread_check (logged_net net) t row (rw_net st) = (w1, fits)" by fastforce
  obtain w2 q where p: "putGrant P (logged_net net ShardStream t) w1 data \<lparr>desc_K = si_K row, desc_M = si_M row, desc_Shards = si_Siblings row\<rparr> (si_Grant row) ReasonRebalance = (w2, q)"
    by fastforce
  obtain st3 a where f: "confirmStored P (logged_net net) t (si_ShardID row) data (st\<lparr>rw_net := w2\<rparr>) = (st3, a)" by fastforce
  have g: "prefix (snd (rw_net st)) (snd w1)" "prefix (snd (rw_net st)) (snd w2)"
    using spread_check_grows[OF c] putGrant_grows[OF p] by (auto intro: prefix_order.trans)
  have ah: "ahead st0 st" using assms(3) by (simp add: shed_ok_def)
  have ok12: "shed_ok P abs t st0 (st\<lparr>rw_net := w\<rparr>)" if "w = w1 \<or> w = w2" for w
    by (rule shed_ok_frame[OF assms(3)]) (use that g ahead_net[OF ah, of w] in auto)
  note cs = confirmStored_proves[OF f, of st0]
  have ah3: "ahead st0 (st\<lparr>rw_net := w2\<rparr>)" by (rule ahead_net[OF ah g(2)])
  have ok3: "shed_ok P abs t st0 st3" by (rule shed_ok_frame[OF ok12[of w2]]) (use cs[OF ah3] in auto)
  have d: "abs (rw_blobs st) (si_ShardID row) = Some data" using assms(1,4) by (auto simp: get_law split: option.splits)
  consider "st' = st\<lparr>rw_net := w1\<rparr>" | "st' = st\<lparr>rw_net := w2\<rparr>" | "rw_blobs st' = rw_blobs st3" "rw_led st' = rw_led st3" "rw_net st' = rw_net st3" "rw_rnd st' = rw_rnd st3"
    | "a = Inr True" "rw_blobs st' = rw_blobs (fst (release ops (si_ShardID row) st3))" "rw_led st' = rw_led (fst (release ops (si_ShardID row) st3))"
      "rw_net st' = rw_net (fst (release ops (si_ShardID row) st3))" "rw_rnd st' = rw_rnd (fst (release ops (si_ShardID row) st3))"
    using assms(5) by (auto simp: move_shard_def c p f Let_def split: bool.splits sum.splits)
  then show ?thesis
  proof cases
    case 1
    then show ?thesis using assms(1,2) ok12[of w1] by simp
  next
    case 2
    then show ?thesis using assms(1,2) ok12[of w2] by simp
  next
    case 3
    have "ahead st0 st'" using ok3 3 by (simp add: shed_ok_def ahead_def)
    then show ?thesis using assms(1,2) cs[OF ah3] shed_ok_frame[OF ok3, of st'] 3 by simp
  next
    case 4
    have "invar (rw_blobs (fst (release ops (si_ShardID row) st3))) \<and> ledger_inv (rw_led (fst (release ops (si_ShardID row) st3)))
      \<and> shed_ok P abs t st0 (fst (release ops (si_ShardID row) st3))"
      by (rule release_ok[OF _ _ ok3, where b = data]) (use assms(1,2) cs[OF ah3] d 4(1) in simp_all)
    moreover from this have "ahead st0 st'" using 4 by (simp add: shed_ok_def ahead_def)
    ultimately show ?thesis using 4 shed_ok_frame[of P abs t st0 _ st'] by auto
  qed
qed

lemma shed_all_ok:
  assumes "invar (rw_blobs st)" and "ledger_inv (rw_led st)" and "shed_ok P abs t st0 st"
    and "shed P ops (logged_net net) t now rows budget moved st = (st', n)"
  shows "invar (rw_blobs st') \<and> ledger_inv (rw_led st') \<and> shed_ok P abs t st0 st'"
  using assms
proof (induction rows arbitrary: budget moved st)
  case (Cons row rows)
  consider "budget \<le> 0" | "0 < budget" "inCooldown (si_ShardID row) now (rw_rb st)" | "0 < budget" "\<not> inCooldown (si_ShardID row) now (rw_rb st)" by linarith
  then show ?case
  proof cases
    case 1
    then show ?thesis using Cons.prems by simp
  next
    case 2
    then show ?thesis using Cons.prems(4) by (intro Cons.IH[OF Cons.prems(1-3)]) simp
  next
    case 3
    show ?thesis
    proof (cases "op_Get ops (rw_blobs st) (si_ShardID row)")
      case (Inl e)
      then show ?thesis using Cons.prems(4) 3 by (intro Cons.IH[OF Cons.prems(1-3)]) simp
    next
      case (Inr data)
      obtain st1 v where m: "move_shard P ops (logged_net net) t now row data st = (st1, v)" by fastforce
      note ok1 = move_shard_ok[OF Cons.prems(1-3) Inr m]
      from Cons.prems(4) 3 Inr m have "st' = st1 \<or> (\<exists>bu mo. shed P ops (logged_net net) t now rows bu mo st1 = (st', n))"
        by (auto split: verdict.splits)
      then show ?thesis using ok1 Cons.IH by blast
    qed
  qed
qed simp

end

section \<open>Choosing the target\<close>

lemma sample_peers_others: "set (sample_peers rb ps sampled) \<subseteq> set sampled \<union> (set ps - {rb_self rb})"
proof (induction ps arbitrary: sampled)
  case (Cons p ps)
  show ?case using Cons[of sampled] Cons[of "sampled @ [p]"] by auto
qed simp

lemma emptiest_from: "emptiest J net ps best w = (w', Some (p, l)) \<Longrightarrow> p \<in> set ps \<or> best = Some (p, l)"
  by (induction ps arbitrary: best w) (auto simp: Let_def split: prod.splits sum.splits option.splits if_splits)

lemma pickTarget_other:
  assumes "pickTarget J net peers rb w = (w', Inr (Some (p, l)))"
  shows "\<exists>ps. peers = Inr ps \<and> p \<in> set ps \<and> p \<noteq> rb_self rb"
proof -
  obtain ps where ps: "peers = Inr ps" "emptiest J net (sample_peers rb ps []) None w = (w', Some (p, l))"
    using assms by (auto simp: pickTarget_def split: sum.splits prod.splits)
  then show ?thesis using emptiest_from[OF ps(2)] sample_peers_others[of rb ps "[]"] by auto
qed

lemma QueryLoad_grows: "QueryLoad J (logged_net net) p wl = (wl', r) \<Longrightarrow> prefix (snd wl) (snd wl')"
  by (auto simp: QueryLoad_def logged_net_def split: prod.splits)

lemma emptiest_grows: "emptiest J (logged_net net) ps best wl = (wl', r) \<Longrightarrow> prefix (snd wl) (snd wl')"
proof (induction ps arbitrary: best wl)
  case (Cons p ps)
  obtain w1 q where q: "QueryLoad J (logged_net net) p wl = (w1, q)" by fastforce
  from Cons.prems q have "\<exists>best'. emptiest J (logged_net net) ps best' w1 = (wl', r)" by (auto simp: Let_def split: sum.splits)
  then show ?case using Cons.IH QueryLoad_grows[OF q] prefix_order.trans by blast
qed simp

lemma pickTarget_grows: "pickTarget J (logged_net net) peers rb wl = (wl', r) \<Longrightarrow> prefix (snd wl) (snd wl')"
  by (auto simp: pickTarget_def dest: emptiest_grows split: sum.splits prod.splits)

text \<open>
  C14: A round of rebalancing gives up no shard without proof. Whatever the peers answer: a blob that the node held is still there, or during
  this round a peer other than the node itself, one of those discovered, answered a challenge about that shard, with a nonce that
  this round drew from the random source and used up, by the hash of the nonce and exactly those bytes; no blob appears; the record and the
  claims of every shard the node still holds are as before; the disk stays intact and the accounts stay exact.
\<close>

theorem rebalance_proof_gated:
  assumes "disk_inv P (rw_blobs st)" and "ledger_inv (rw_led st)" and "RunOnce P J (disk_ops P) (logged_net net) self peers now st = (st', r)"
  shows "disk_inv P (rw_blobs st') \<and> ledger_inv (rw_led st')
    \<and> (\<forall>sid b. disk_abs P (rw_blobs st) sid = Some b \<longrightarrow> disk_abs P (rw_blobs st') sid = Some b
        \<or> (disk_abs P (rw_blobs st') sid = None \<and> (\<exists>ps t. peers = Inr ps \<and> t \<in> set ps \<and> t \<noteq> rb_self (rw_rb st) \<and> proved P st st' t sid b)))
    \<and> (\<forall>sid. disk_abs P (rw_blobs st) sid = None \<longrightarrow> disk_abs P (rw_blobs st') sid = None)
    \<and> (\<forall>sid. disk_abs P (rw_blobs st') sid \<noteq> None \<longrightarrow> map_of (tbl_shards (rw_led st')) sid = map_of (tbl_shards (rw_led st)) sid
        \<and> (\<forall>ow. map_of (tbl_owners (rw_led st')) (sid, ow) = map_of (tbl_owners (rw_led st)) (sid, ow)))"
proof -
  consider "rw_blobs st' = rw_blobs st" "rw_led st' = rw_led st"
    | w1 t l rows budget n where "pickTarget J (logged_net net) peers (rw_rb st) (rw_net st) = (w1, Inr (Some (t, l)))"
      "shed P (disk_ops P) (logged_net net) t now rows budget 0 (st\<lparr>rw_net := w1, rw_rb := pruneCooldown now (rw_rb st)\<rparr>) = (st', n)"
    using assms(3) by (auto simp: RunOnce_def Let_def split: sum.splits if_splits prod.splits option.splits)
  then show ?thesis
  proof cases
    case 1
    then show ?thesis using assms(1,2) by simp
  next
    case 2
    let ?st = "st\<lparr>rw_net := w1, rw_rb := pruneCooldown now (rw_rb st)\<rparr>"
    have "disk_inv P (rw_blobs st') \<and> ledger_inv (rw_led st') \<and> shed_ok P (disk_abs P) t ?st st'"
      by (rule disk.shed_all_ok[OF _ _ shed_ok_refl 2(2)]) (use assms(1,2) in simp_all)
    moreover have "proved P st st' t sid b" if "proved P ?st st' t sid b" for sid b
      by (rule proved_from[OF that]) (use pickTarget_grows[OF 2(1)] in simp_all)
    moreover obtain ps where "peers = Inr ps" "t \<in> set ps" "t \<noteq> rb_self (rw_rb st)" using pickTarget_other[OF 2(1)] by blast
    ultimately show ?thesis unfolding shed_ok_def by (auto; blast)
  qed
qed

definition demo_net :: "unit net" where
  "demo_net k p w req = (w, Inr (case k of BalanceStream \<Rightarrow> statusOK # be_put 4 0 | ShardStream \<Rightarrow> if req = op_byte opHas # demo_hash [3] then [statusOK, 0] else statusOK # demo_hash [1, 2]
     | ProbeStream \<Rightarrow> statusOK # demo_hash (drop 32 req @ [1, 2])))"

definition demo_shelf :: disk_store where
  "demo_shelf = fst (disk_Put demo_prims demo_disk [1, 2])"

definition demo_cold :: ledger where
  "demo_cold = \<lparr>tbl_shards = [(demo_hash [1, 2], \<lparr>row_size = 2, row_created = 0\<rparr>)], tbl_owners = [], tbl_accounts = [],
     tbl_stripes = [(demo_hash [1, 2], \<lparr>str_k = 1, str_m = 1, str_siblings = demo_hash [1, 2] @ demo_hash [3], str_grant = []\<rparr>)], tbl_revoked = []\<rparr>"

definition demo_round :: "(unit \<times> stream_log, disk_store) rb_world" where
  "demo_round = \<lparr>rw_net = ((), []), rw_blobs = demo_shelf, rw_led = demo_cold, rw_rb = NewRebalancer ''self'', rw_rnd = map word_of_nat [0..<40]\<rparr>"

definition demo_load :: load_codec where
  "demo_load = \<lparr>js_load = \<lambda>_. [], js_load_parse = \<lambda>_. Some \<lparr>lr_UsedBytes = 0, lr_CapacityBytes = 100, lr_Shards = 0\<rparr>\<rparr>"

lemma demo_pick: "pickTarget demo_load (logged_net demo_net) (Inr [''self'', ''peer'']) (NewRebalancer ''self'') ((), [])
    = (((), [(BalanceStream, ''peer'', [], Inr (statusOK # be_put 4 0))]), Inr (Some (''peer'', \<lparr>load_Used = 0, load_Capacity = 100\<rparr>)))"
proof -
  have "readBlob maxLoadReport (be_put 4 0) = Inr ([], [])" using readBlob_writeBlob[of "[]" "be_put 4 0" maxLoadReport "[]"] by (simp add: writeBlob_def)
  then show ?thesis
    by (simp add: pickTarget_def NewRebalancer_def QueryLoad_def logged_net_def demo_net_def readResp_OK demo_load_def report_Load_def)
qed

lemma demo_budget: "OffloadBytes \<lparr>load_Used = 100, load_Capacity = 100\<rparr> \<lparr>load_Used = 0, load_Capacity = 100\<rparr> (1 / 10) = 50"
  by (simp add: OffloadBytes_def Frac_def load_FreeBytes_def)

definition demo_row :: stripe_info where
  "demo_row = \<lparr>si_ShardID = demo_hash [1, 2], si_K = 1, si_M = 1, si_Siblings = [demo_hash [1, 2], demo_hash [3]], si_Grant = []\<rparr>"

lemma demo_rows: "ColdShards coldShardScan demo_cold = Inr [demo_row]"
proof -
  have "split_ids (Suc (Suc 0)) (demo_hash [1, 2] @ demo_hash [3]) = [demo_hash [1, 2], demo_hash [3]]" by (simp add: idSize_def)
  then show ?thesis by (simp add: ColdShards_def demo_cold_def coldShardScan_def idSize_def demo_row_def numeral_2_eq_2)
qed

lemma demo_held: "disk_abs demo_prims demo_shelf (demo_hash [1, 2]) = Some [1, 2]" "disk_inv demo_prims demo_shelf"
proof -
  obtain r where p: "op_Put (disk_ops demo_prims) demo_disk [1, 2] = (demo_shelf, r)" by (cases "disk_Put demo_prims demo_disk [1, 2]") (simp add: disk_ops_def demo_shelf_def)
  show "disk_abs demo_prims demo_shelf (demo_hash [1, 2]) = Some [1, 2]" "disk_inv demo_prims demo_shelf"
    using disk.put_law[OF demo_disk_inv p] by (simp_all add: HashOf_def disk_abs_def demo_disk_def)
qed

lemma demo_spread: "\<exists>w'. spread_check (logged_net demo_net) t demo_row w = (w', True)"
proof -
  have "demo_hash [3] \<noteq> demo_hash [1, 2]" by code_simp
  then show ?thesis
    by (auto simp: spread_check_def demo_row_def net_Has_def exchange_def logged_net_def demo_net_def split: prod.splits)
qed

lemma demo_put: "\<exists>w'. putGrant demo_prims (logged_net demo_net ShardStream t) w [1, 2] \<lparr>desc_K = 1, desc_M = 1, desc_Shards = [demo_hash [1, 2], demo_hash [3]]\<rparr> [] ReasonRebalance
    = (w', Inr (demo_hash [1, 2]))"
  by (auto simp: putGrant_def putRaw_def MarshalBinary_def desc_N_def exchange_def logged_net_def demo_net_def writeBlob_def HashOf_def MaxShardSize_def
      readID_exact idSize_def split: prod.splits)

lemma demo_confirm:
  "length (rw_rnd st) \<ge> NonceSize \<Longrightarrow> \<exists>st'. confirmStored demo_prims (logged_net demo_net) t (demo_hash [1, 2]) [1, 2] st = (st', Inr True) \<and> rw_blobs st' = rw_blobs st"
  using exchange_ok[of "logged_net demo_net ProbeStream t" "rw_net st" "[demo_hash [1, 2], take NonceSize (rw_rnd st)]"]
  by (auto simp: confirmStored_def Probe_def logged_net_def demo_net_def ReadFull_def split: prod.splits)

lemma demo_move:
  assumes "rw_blobs st = demo_shelf" and "NonceSize \<le> length (rw_rnd st)"
  shows "\<exists>st'. move_shard demo_prims (disk_ops demo_prims) (logged_net demo_net) t now demo_row [1, 2] st = (st', Moved)
    \<and> disk_abs demo_prims (rw_blobs st') (demo_hash [1, 2]) = None"
proof -
  obtain w1 where 1: "spread_check (logged_net demo_net) t demo_row (rw_net st) = (w1, True)" using demo_spread by blast
  obtain w2 where 2: "putGrant demo_prims (logged_net demo_net ShardStream t) w1 [1, 2] \<lparr>desc_K = si_K demo_row, desc_M = si_M demo_row, desc_Shards = si_Siblings demo_row\<rparr>
      (si_Grant demo_row) ReasonRebalance = (w2, Inr (demo_hash [1, 2]))" using demo_put[of t w1] by (auto simp: demo_row_def)
  obtain st3 where 3: "confirmStored demo_prims (logged_net demo_net) t (si_ShardID demo_row) [1, 2] (st\<lparr>rw_net := w2\<rparr>) = (st3, Inr True)" "rw_blobs st3 = demo_shelf"
    using demo_confirm[of "st\<lparr>rw_net := w2\<rparr>" t] assms by (auto simp: demo_row_def)
  obtain s' u where d: "op_Delete (disk_ops demo_prims) demo_shelf (si_ShardID demo_row) = (s', u)" by fastforce
  have "disk_abs demo_prims s' (demo_hash [1, 2]) = None" "u = Inr ()" using disk.delete_law[OF demo_held(2) d] demo_held(1) by (simp_all add: demo_row_def)
  then show ?thesis by (simp add: move_shard_def 1 2 3 release_def d)
qed

theorem rebalance_proof_gated_witness:
  "\<exists>st' t. RunOnce demo_prims demo_load (disk_ops demo_prims) (logged_net demo_net) (Inr \<lparr>lr_UsedBytes = 100, lr_CapacityBytes = 100, lr_Shards = 1\<rparr>) (Inr [''self'', ''peer'']) 0
       demo_round = (st', Inr 1)
     \<and> disk_abs demo_prims (rw_blobs demo_round) (demo_hash [1, 2]) = Some [1, 2] \<and> t \<in> set [''self'', ''peer''] \<and> t \<noteq> ''self''
     \<and> proved demo_prims demo_round st' t (demo_hash [1, 2]) [1, 2]"
proof -
  define w1 :: "unit \<times> stream_log" where "w1 = ((), [(BalanceStream, ''peer'', [], Inr (statusOK # be_put 4 0))])"
  define st where "st = demo_round\<lparr>rw_net := w1, rw_rb := pruneCooldown 0 (NewRebalancer ''self'')\<rparr>"
  obtain st' where m: "move_shard demo_prims (disk_ops demo_prims) (logged_net demo_net) ''peer'' 0 demo_row [1, 2] st = (st', Moved)"
    "disk_abs demo_prims (rw_blobs st') (demo_hash [1, 2]) = None"
    using demo_move[of st "''peer''" 0] by (auto simp: st_def demo_round_def NonceSize_def)
  have g: "op_Get (disk_ops demo_prims) demo_shelf (demo_hash [1, 2]) = Inr [1, 2]" using demo_held by (simp add: disk.get_law)
  have s: "shed demo_prims (disk_ops demo_prims) (logged_net demo_net) ''peer'' 0 [demo_row] 50 0 st = (st', 1)"
    using g m(1) by (simp add: st_def demo_round_def inCooldown_def pruneCooldown_def NewRebalancer_def) (simp add: demo_row_def)
  have inv: "disk_inv demo_prims (rw_blobs demo_round)" "ledger_inv (rw_led demo_round)"
    using demo_held(2) by (simp_all add: demo_round_def demo_cold_def ledger_inv_def ledger_keys_def account_is_def charged_def claims_def)
  have R: "RunOnce demo_prims demo_load (disk_ops demo_prims) (logged_net demo_net) (Inr \<lparr>lr_UsedBytes = 100, lr_CapacityBytes = 100, lr_Shards = 1\<rparr>) (Inr [''self'', ''peer'']) 0
      demo_round = (st', Inr 1)"
    using s demo_pick by (simp add: RunOnce_def report_Load_def demo_round_def w1_def st_def NewRebalancer_def demo_budget demo_rows)
  have b: "disk_abs demo_prims (rw_blobs demo_round) (demo_hash [1, 2]) = Some [1, 2]" "rb_self (rw_rb demo_round) = ''self''"
    using demo_held(1) by (simp_all add: demo_round_def NewRebalancer_def)
  from rebalance_proof_gated[OF inv R] b(1) m(2)
  obtain ps t where "Inr [''self'', ''peer''] = (Inr ps :: peer_id list res)" "t \<in> set ps" "t \<noteq> rb_self (rw_rb demo_round)"
    "proved demo_prims demo_round st' t (demo_hash [1, 2]) [1, 2]"
    by (metis option.distinct(1))
  then show ?thesis using R b by auto
qed

end
