(* ===== verification/Dht_Store.thy ===== *)
theory Dht_Store
  imports Rebalance
begin

text \<open>
  Stores over discovered peers: \<^verbatim>\<open>DHTStore\<close> and the network calls of \<^verbatim>\<open>PlacementStore\<close> (\<^verbatim>\<open>src/internal/net/placement.go\<close>), and the store a
  repairing node works through (\<^verbatim>\<open>src/internal/net/repair.go\<close>). Discovery and dialling are parameters, and peers may answer anything.
  The writes that a read-only store refuses are left out.
\<close>

section \<open>Reading through discovery\<close>

definition defaultMaxProviders :: nat where "defaultMaxProviders = 20"

record 'w discovery =
  di_FindProviders :: "shard_id \<Rightarrow> nat \<Rightarrow> 'w \<Rightarrow> 'w \<times> peer_id list res"
  di_FindNodes :: "nat \<Rightarrow> 'w \<Rightarrow> 'w \<times> peer_id list res"
  di_connect :: "peer_id \<Rightarrow> 'w \<Rightarrow> 'w \<times> unit res"

fun try_get :: "prims \<Rightarrow> 'w discovery \<Rightarrow> 'w net \<Rightarrow> shard_id \<Rightarrow> peer_id list \<Rightarrow> 'w \<Rightarrow> 'w \<times> bytes res" where
  "try_get P D net sid [] w = (w, Inl ErrNotFound)"
| "try_get P D net sid (p # ps) w = (case di_connect D p w of
     (w1, Inl _) \<Rightarrow> try_get P D net sid ps w1
   | (w1, Inr _) \<Rightarrow> (case net_Get P (net ShardStream p) w1 sid of
       (w2, Inl _) \<Rightarrow> try_get P D net sid ps w2
     | (w2, Inr data) \<Rightarrow> (w2, Inr data)))"

definition DHT_Get :: "prims \<Rightarrow> 'w discovery \<Rightarrow> 'w net \<Rightarrow> shard_id \<Rightarrow> 'w \<Rightarrow> 'w \<times> bytes res" where
  "DHT_Get P D net sid w = (case di_FindProviders D sid defaultMaxProviders w of
     (w1, Inl e) \<Rightarrow> (w1, Inl e)
   | (w1, Inr providers) \<Rightarrow> try_get P D net sid providers w1)"

fun try_has :: "'w discovery \<Rightarrow> 'w net \<Rightarrow> shard_id \<Rightarrow> peer_id list \<Rightarrow> 'w \<Rightarrow> 'w \<times> bool" where
  "try_has D net sid [] w = (w, False)"
| "try_has D net sid (p # ps) w = (case di_connect D p w of
     (w1, Inl _) \<Rightarrow> try_has D net sid ps w1
   | (w1, Inr _) \<Rightarrow> (case net_Has (net ShardStream p) w1 sid of
       (w2, Inr True) \<Rightarrow> (w2, True)
     | (w2, _) \<Rightarrow> try_has D net sid ps w2))"

definition DHT_Has :: "'w discovery \<Rightarrow> 'w net \<Rightarrow> shard_id \<Rightarrow> 'w \<Rightarrow> 'w \<times> bool res" where
  "DHT_Has D net sid w = (case di_FindProviders D sid defaultMaxProviders w of
     (w1, Inl e) \<Rightarrow> (w1, Inl e)
   | (w1, Inr providers) \<Rightarrow> (case try_has D net sid providers w1 of (w2, found) \<Rightarrow> (w2, Inr found)))"

section \<open>Writing to chosen nodes\<close>

definition pid_bytes :: "peer_id \<Rightarrow> bytes" where
  "pid_bytes p = map (\<lambda>c. word_of_nat (of_char c)) p"

record signing =
  sg_key :: bytes
  sg_grantExpiry :: "64 word"
  sg_now :: "64 word"

definition signedTo :: "signing \<Rightarrow> peer_id \<Rightarrow> net_store" where
  "signedTo g target = \<lparr>ns_peer = pid_bytes target, ns_signer = Some (sg_key g), ns_grantExpiry = sg_grantExpiry g\<rparr>"

text \<open>A target that is not a known peer is the empty identifier, which cannot be dialled.\<close>

definition place_Put :: "prims \<Rightarrow> 'w net \<Rightarrow> signing \<Rightarrow> bytes \<Rightarrow> peer_id placement_store \<times> 'w \<Rightarrow> (peer_id placement_store \<times> 'w) \<times> shard_id res" where
  "place_Put P net g data pw = (case nextTarget (fst pw) of
     (ps, None) \<Rightarrow> ((ps, snd pw), Inl ErrIO)
   | (ps, Some t) \<Rightarrow> (case net_Put P (signedTo g t) (sg_now g) (net ShardStream t) (snd pw) data of (w, r) \<Rightarrow> ((ps, w), r)))"

definition place_PutStripe :: "prims \<Rightarrow> 'w net \<Rightarrow> signing \<Rightarrow> bytes \<Rightarrow> bytes \<Rightarrow> descriptor \<Rightarrow> peer_id placement_store \<times> 'w
    \<Rightarrow> (peer_id placement_store \<times> 'w) \<times> shard_id res" where
  "place_PutStripe P net g rnd data d pw = (case nextTarget (fst pw) of
     (ps, None) \<Rightarrow> ((ps, snd pw), Inl ErrIO)
   | (ps, Some t) \<Rightarrow> (case net_PutStripe P (signedTo g t) (sg_now g) rnd (net ShardStream t) (snd pw) data d of (w, r) \<Rightarrow> ((ps, w), r)))"

fun delete_from :: "prims \<Rightarrow> 'w discovery \<Rightarrow> 'w net \<Rightarrow> signing \<Rightarrow> shard_id \<Rightarrow> peer_id list \<Rightarrow> bool \<Rightarrow> error option \<Rightarrow> 'w \<Rightarrow> 'w \<times> bool \<times> error option" where
  "delete_from P D net g sid [] deleted lastErr w = (w, deleted, lastErr)"
| "delete_from P D net g sid (p # ps) deleted lastErr w = (case di_connect D p w of
     (w1, Inl e) \<Rightarrow> delete_from P D net g sid ps deleted (Some e) w1
   | (w1, Inr _) \<Rightarrow> (case net_Delete P \<lparr>ns_peer = pid_bytes p, ns_signer = Some (sg_key g), ns_grantExpiry = 0\<rparr> (sg_now g) (net ShardStream p) w1 sid of
       (w2, Inl e) \<Rightarrow> delete_from P D net g sid ps deleted (Some e) w2
     | (w2, Inr _) \<Rightarrow> delete_from P D net g sid ps True lastErr w2))"

definition place_Delete :: "prims \<Rightarrow> 'w discovery \<Rightarrow> 'w net \<Rightarrow> signing \<Rightarrow> shard_id \<Rightarrow> 'w \<Rightarrow> 'w \<times> unit res" where
  "place_Delete P D net g sid w = (case di_FindProviders D sid defaultMaxProviders w of
     (w1, Inl e) \<Rightarrow> (w1, Inl e)
   | (w1, Inr providers) \<Rightarrow> if providers = [] then (w1, Inl ErrNotFound)
       else (case delete_from P D net g sid providers False None w1 of
         (w2, deleted, lastErr) \<Rightarrow> (w2, if deleted then Inr () else case lastErr of Some e \<Rightarrow> Inl e | None \<Rightarrow> Inl ErrNotFound)))"

section \<open>The store of a repairing node\<close>

record 's repair_store =
  rs_local :: "'s option"
  rs_desc :: descriptor
  rs_grant :: bytes
  rs_verify :: bool
  rs_useProbe :: bool
  rs_next :: nat

definition NewRepairStore :: "'s option \<Rightarrow> descriptor \<Rightarrow> bytes \<Rightarrow> 's repair_store" where
  "NewRepairStore loc d grant = \<lparr>rs_local = loc, rs_desc = d, rs_grant = grant, rs_verify = False, rs_useProbe = False, rs_next = 0\<rparr>"

definition SetVerifyPossession :: "bool \<Rightarrow> 's repair_store \<Rightarrow> 's repair_store" where
  "SetVerifyPossession v r = r\<lparr>rs_verify := v\<rparr>"

definition SetUseProbe :: "bool \<Rightarrow> 's repair_store \<Rightarrow> 's repair_store" where
  "SetUseProbe v r = r\<lparr>rs_useProbe := v\<rparr>"

definition probeOne :: "prims \<Rightarrow> 'w discovery \<Rightarrow> 'w net \<Rightarrow> bytes res \<Rightarrow> shard_id \<Rightarrow> bytes \<Rightarrow> 'w \<Rightarrow> 'w \<times> bool" where
  "probeOne P D net nonce sid data w = (case di_FindProviders D sid 1 w of
     (w1, Inl _) \<Rightarrow> (w1, False)
   | (w1, Inr []) \<Rightarrow> (w1, False)
   | (w1, Inr (p # _)) \<Rightarrow> (case di_connect D p w1 of
       (w2, Inl _) \<Rightarrow> (w2, False)
     | (w2, Inr _) \<Rightarrow> (case nonce of
         Inl _ \<Rightarrow> (w2, False)
       | Inr n \<Rightarrow> (case Probe P (net ProbeStream p) w2 sid data n of (w3, Inl _) \<Rightarrow> (w3, False) | (w3, Inr b) \<Rightarrow> (w3, b)))))"

definition held_locally :: "'s store_ops \<Rightarrow> 's repair_store \<Rightarrow> shard_id \<Rightarrow> bool" where
  "held_locally ops r sid = (case rs_local r of None \<Rightarrow> False | Some s \<Rightarrow> op_Has ops s sid = Inr True)"

definition repair_Has :: "prims \<Rightarrow> 's store_ops \<Rightarrow> 'w discovery \<Rightarrow> 'w net \<Rightarrow> bytes res \<Rightarrow> 's repair_store \<Rightarrow> shard_id \<Rightarrow> 'w \<Rightarrow> 'w \<times> bool res" where
  "repair_Has P ops D net nonce r sid w = (if held_locally ops r sid then (w, Inr True)
     else if rs_verify r then (case DHT_Get P D net sid w of
         (w1, Inl e) \<Rightarrow> if e = ErrNotFound \<or> e = ErrCorrupt then (w1, Inr False) else (w1, Inl e)
       | (w1, Inr data) \<Rightarrow> if rs_useProbe r then (case probeOne P D net nonce sid data w1 of (w2, answered) \<Rightarrow> (w2, Inr answered)) else (w1, Inr True))
     else DHT_Has D net sid w)"

definition repair_Get :: "prims \<Rightarrow> 's store_ops \<Rightarrow> 'w discovery \<Rightarrow> 'w net \<Rightarrow> 's repair_store \<Rightarrow> shard_id \<Rightarrow> 'w \<Rightarrow> 'w \<times> bytes res" where
  "repair_Get P ops D net r sid w = (case (case rs_local r of None \<Rightarrow> Inl ErrNotFound | Some s \<Rightarrow> op_Get ops s sid) of
     Inr data \<Rightarrow> (w, Inr data) | Inl _ \<Rightarrow> DHT_Get P D net sid w)"

fun try_place :: "prims \<Rightarrow> 'w discovery \<Rightarrow> 'w net \<Rightarrow> 's repair_store \<Rightarrow> bytes \<Rightarrow> peer_id list \<Rightarrow> error \<Rightarrow> 'w \<Rightarrow> 'w \<times> shard_id res" where
  "try_place P D net r data [] lastErr w = (w, Inl lastErr)"
| "try_place P D net r data (p # ps) lastErr w = (case di_connect D p w of
     (w1, Inl e) \<Rightarrow> try_place P D net r data ps e w1
   | (w1, Inr _) \<Rightarrow> (case putGrant P (net ShardStream p) w1 data (rs_desc r) (rs_grant r) ReasonRepair of
       (w2, Inl e) \<Rightarrow> try_place P D net r data ps e w2
     | (w2, Inr got) \<Rightarrow> (w2, Inr got)))"

definition repair_Put :: "prims \<Rightarrow> 'w discovery \<Rightarrow> 'w net \<Rightarrow> bytes \<Rightarrow> 's repair_store \<times> 'w \<Rightarrow> ('s repair_store \<times> 'w) \<times> shard_id res" where
  "repair_Put P D net data rw = (let r = fst rw; sid = HashOf P data in
     (case di_FindProviders D sid defaultMaxProviders (snd rw) of (w1, provs) \<Rightarrow>
       let holders = (case provs of Inl _ \<Rightarrow> [] | Inr ps \<Rightarrow> ps) in
       (case di_FindNodes D defaultMaxProviders w1 of
         (w2, Inl e) \<Rightarrow> ((r, w2), Inl e)
       | (w2, Inr candidates) \<Rightarrow> let fresh = filter (\<lambda>p. p \<notin> set holders) candidates in
           if fresh = [] then ((r, w2), Inr sid)
           else (case try_place P D net r data (rotate (rs_next r) fresh) ErrIO w2 of (w3, res) \<Rightarrow> ((r\<lparr>rs_next := rs_next r + 1\<rparr>, w3), res)))))"

section \<open>Lemmas\<close>

lemma net_Get_addressed: "net_Get P node w sid = (w', Inr d) \<Longrightarrow> HashOf P d = sid"
  by (auto simp: net_Get_def bindR_eq_Inr split: prod.splits if_splits)

lemma try_get_addressed: "try_get P D net sid ps w = (w', Inr d) \<Longrightarrow> HashOf P d = sid"
  by (induction ps arbitrary: w) (auto dest: net_Get_addressed split: prod.splits sum.splits)

lemma DHT_Get_addressed: "DHT_Get P D net sid w = (w', Inr d) \<Longrightarrow> HashOf P d = sid"
  by (auto simp: DHT_Get_def dest: try_get_addressed split: prod.splits sum.splits)

text \<open>A peer that can always be dialled and always serves the shard.\<close>

definition serves :: "prims \<Rightarrow> 'w discovery \<Rightarrow> 'w net \<Rightarrow> shard_id \<Rightarrow> peer_id \<Rightarrow> bool" where
  "serves P D net sid p \<longleftrightarrow> (\<forall>w. \<exists>w'. di_connect D p w = (w', Inr ())) \<and> (\<forall>w. \<exists>w' d. net_Get P (net ShardStream p) w sid = (w', Inr d))"

lemma try_get_served: "p \<in> set ps \<Longrightarrow> serves P D net sid p \<Longrightarrow> \<exists>w' d. try_get P D net sid ps w = (w', Inr d)"
proof (induction ps arbitrary: w)
  case (Cons q ps)
  show ?case
  proof (cases "q = p")
    case True
    obtain w1 where c: "di_connect D p w = (w1, Inr ())" using Cons.prems(2) unfolding serves_def by blast
    obtain w2 d where g: "net_Get P (net ShardStream p) w1 sid = (w2, Inr d)" using Cons.prems(2) unfolding serves_def by blast
    show ?thesis using True c g by simp
  next
    case False
    then have p: "p \<in> set ps" using Cons.prems(1) by simp
    show ?thesis using Cons.IH[OF p Cons.prems(2)] by (auto split: prod.split sum.split)
  qed
qed simp

lemma putGrant_addressed: "putGrant P node w data d g reason = (w', Inr sid) \<Longrightarrow> sid = HashOf P data"
  by (auto simp: putGrant_def putRaw_def bindR_eq_Inr split: prod.splits sum.splits if_splits)

lemma try_place_addressed: "try_place P D net r data ps e w = (w', Inr sid) \<Longrightarrow> sid = HashOf P data"
  by (induction ps arbitrary: e w) (auto dest: putGrant_addressed split: prod.splits sum.splits)

lemma repair_Put_addressed: "repair_Put P D net data rw = (rw', Inr sid) \<Longrightarrow> sid = HashOf P data"
  by (auto simp: repair_Put_def Let_def dest: try_place_addressed split: prod.splits sum.splits if_splits)

text \<open>
  With proofs of possession on, a shard that was just fetched and verified counts as missing when the provider asked for the proof cannot be
  dialled: the transport error becomes an absence, and repair regenerates the shard.
\<close>

lemma probe_error_counts_missing:
  assumes "\<not> held_locally ops r sid" and "rs_verify r" and "rs_useProbe r" and "DHT_Get P D net sid w = (w1, Inr data)"
    and "di_FindProviders D sid 1 w1 = (w2, Inr (p # ps))" and "di_connect D p w2 = (w3, Inl e)"
  shows "repair_Has P ops D net nonce r sid w = (w3, Inr False)"
  using assms by (simp add: repair_Has_def probeOne_def)

section \<open>Properties\<close>

text \<open>
  C16: one honest provider is enough and liars cannot change the bytes. If one of the providers that discovery lists can be dialled and serves the shard, a
  repairing node reads it, whatever the other providers answer; and in every case, with or without such a provider, what it reads has the requested address. With verification on,
  a shard it counts as present is held locally or was delivered with its address by a provider; and a placed shard is reported under its own address.
\<close>

theorem repair_reads_verified:
  assumes "case rs_local r of None \<Rightarrow> True | Some s \<Rightarrow> disk_inv P s"
  shows "(\<forall>w1 ps p. di_FindProviders D sid defaultMaxProviders w = (w1, Inr ps) \<and> p \<in> set ps \<and> serves P D net sid p \<longrightarrow>
        (\<exists>w' d. repair_Get P (disk_ops P) D net r sid w = (w', Inr d)))
    \<and> (\<forall>w' d. repair_Get P (disk_ops P) D net r sid w = (w', Inr d) \<longrightarrow> HashOf P d = sid)
    \<and> (\<forall>nonce w'. rs_verify r \<longrightarrow> repair_Has P (disk_ops P) D net nonce r sid w = (w', Inr True) \<longrightarrow>
        (\<exists>s b. rs_local r = Some s \<and> disk_abs P s sid = Some b) \<or> (\<exists>w1 d. DHT_Get P D net sid w = (w1, Inr d) \<and> HashOf P d = sid))
    \<and> (\<forall>data w' got. repair_Put P D net data (r, w) = (w', Inr got) \<longrightarrow> got = HashOf P data)"
proof (intro conjI allI impI)
  fix w1 ps p assume a: "di_FindProviders D sid defaultMaxProviders w = (w1, Inr ps) \<and> p \<in> set ps \<and> serves P D net sid p"
  then have "\<exists>w' d. DHT_Get P D net sid w = (w', Inr d)" using try_get_served[of p ps P D net sid w1] by (simp add: DHT_Get_def)
  then show "\<exists>w' d. repair_Get P (disk_ops P) D net r sid w = (w', Inr d)" by (auto simp: repair_Get_def split: sum.split)
next
  fix w' d assume "repair_Get P (disk_ops P) D net r sid w = (w', Inr d)"
  then show "HashOf P d = sid" using assms disk.get_hash[of P] DHT_Get_addressed
    by (auto simp: repair_Get_def split: sum.splits option.splits)
next
  fix nonce w' assume v: "rs_verify r" and h: "repair_Has P (disk_ops P) D net nonce r sid w = (w', Inr True)"
  show "(\<exists>s b. rs_local r = Some s \<and> disk_abs P s sid = Some b) \<or> (\<exists>w1 d. DHT_Get P D net sid w = (w1, Inr d) \<and> HashOf P d = sid)"
  proof (cases "held_locally (disk_ops P) r sid")
    case True
    then show ?thesis using assms disk.has_law[of P] by (auto simp: held_locally_def split: option.splits)
  next
    case False
    obtain w1 q where g: "DHT_Get P D net sid w = (w1, q)" by fastforce
    obtain d where q: "q = Inr d" using h v False by (cases q) (auto simp: repair_Has_def g split: if_splits)
    from DHT_Get_addressed[OF g[unfolded q]] show ?thesis using g q by auto
  qed
next
  fix data w' got assume "repair_Put P D net data (r, w) = (w', Inr got)"
  then show "got = HashOf P data" by (rule repair_Put_addressed)
qed

definition demo_peers :: "unit discovery" where
  "demo_peers = \<lparr>di_FindProviders = \<lambda>_ _ w. (w, Inr [''liar'', ''peer'']), di_FindNodes = \<lambda>_ w. (w, Inr []), di_connect = \<lambda>_ w. (w, Inr ())\<rparr>"

definition serving_net :: "unit net" where
  "serving_net k p w req = (w, Inr (statusOK # be_put 4 1 @ (if p = ''peer'' then [1] else [2])))"

theorem repair_reads_verified_witness:
  "serves demo_prims demo_peers serving_net (demo_hash [1]) ''peer''
   \<and> (\<exists>w' d. repair_Get demo_prims (disk_ops demo_prims) demo_peers serving_net (NewRepairStore (Some demo_disk) \<lparr>desc_K = 1, desc_M = 1, desc_Shards = []\<rparr> []) (demo_hash [1]) () = (w', Inr d)
        \<and> HashOf demo_prims d = demo_hash [1])"
proof -
  let ?r = "NewRepairStore (Some demo_disk) \<lparr>desc_K = 1, desc_M = 1, desc_Shards = []\<rparr> []"
  have rb: "readBlob MaxShardSize (be_put 4 (Suc 0) @ [b]) = Inr ([b], [])" for b :: byte
    using readBlob_writeBlob[of "[b]" "be_put 4 (Suc 0) @ [b]" MaxShardSize "[]"] by (simp add: writeBlob_def MaxShardSize_def)
  have sv: "serves demo_prims demo_peers serving_net (demo_hash [1]) ''peer''"
    by (simp add: serves_def demo_peers_def net_Get_def exchange_def serving_net_def rb HashOf_def)
  have l: "case rs_local ?r of None \<Rightarrow> True | Some s \<Rightarrow> disk_inv demo_prims s" by (simp add: NewRepairStore_def demo_disk_inv)
  have "di_FindProviders demo_peers (demo_hash [1]) defaultMaxProviders () = ((), Inr [''liar'', ''peer''])" by (simp add: demo_peers_def)
  then show ?thesis using repair_reads_verified[OF l, of demo_peers "demo_hash [1]" "()" serving_net] sv
    by (metis list.set_intros(1) list.set_intros(2))
qed

end
