(* ===== verification/Spec2Isabelle.thy ===== *)
theory Spec2Isabelle
  imports Repair Remote Devices Changes Rekey Sync_Safety Dht_Store
begin

text \<open>
  Verification of revika, a distributed store for encrypted, erasure-coded files.

  \<^bold>\<open>The program.\<close> A client splits a file into chunks, compresses and encrypts each under a random key,
  erasure-codes it into \<open>K + M\<close> shards and spreads the shards over nodes. Nodes hold opaque blobs under
  their SHA-256 addresses, keep a ledger of who claims which blob until when, and answer
  authenticated requests. Files and directories are again encrypted blobs, named by capabilities
  (key and shard addresses), so a namespace is a Merkle DAG that is updated by copy-on-write and
  merged between devices.

  \<^bold>\<open>Theories and sources\<close> (all under \<^verbatim>\<open>src/internal\<close> unless noted):

  \<^item> \<^verbatim>\<open>Prelude\<close>: results as sums with the program's errors, hexadecimal, big-endian integers, readers,
    shared list and map lemmas. \<^verbatim>\<open>Concrete_Prims\<close>: small concrete primitives that satisfy the laws
    assumed of cryptography, used by the witnesses.
  \<^item> \<^verbatim>\<open>Store\<close>: \<^verbatim>\<open>store/\<close>. The interface \<open>content_store\<close> (a store abstracts to a map from addresses to
    blobs) and its interpretations by the memory store and the disk store with failing system calls.
  \<^item> \<^verbatim>\<open>Chunk\<close>, \<^verbatim>\<open>Erasure\<close>, \<^verbatim>\<open>Crypto\<close>, \<^verbatim>\<open>Stripe\<close>: the packages of the same names. \<^verbatim>\<open>Pipeline\<close>: \<^verbatim>\<open>pipeline/\<close>, storing, loading
    and re-encrypting files over any \<open>content_store\<close>. \<^verbatim>\<open>Repair\<close>: \<^verbatim>\<open>repair/\<close>.
  \<^item> \<^verbatim>\<open>Placement\<close>: \<^verbatim>\<open>placement/\<close> and the target selection of \<^verbatim>\<open>net/placement.go\<close>, behind one locale for
    selection policies.
  \<^item> \<^verbatim>\<open>Ledger\<close>: \<^verbatim>\<open>ledger/\<close> as transactions on tables. \<^verbatim>\<open>Auth\<close>: \<^verbatim>\<open>cap/\<close>, request tokens and the replay cache.
    \<^verbatim>\<open>Flow_Limits\<close>: token buckets and the abuse monitor of \<^verbatim>\<open>net/\<close>.
  \<^item> \<^verbatim>\<open>Wire\<close>: \<^verbatim>\<open>net/proto.go\<close> and \<^verbatim>\<open>net/client.go\<close> against an arbitrary peer. \<^verbatim>\<open>Server\<close>: the handlers of
    \<^verbatim>\<open>net/server.go\<close> and the collector of \<^verbatim>\<open>src/cmd/revika-node/main.go\<close>. \<^verbatim>\<open>Node_Safety\<close>: runs of
    a node over requests, probes and collections, its abstract specification, and the interleaving of a delete with a put. \<^verbatim>\<open>Remote\<close>: client and
    node composed: reads return what the node's store returns, acknowledged writes have had the store's effect and the client's claim.
  \<^item> \<^verbatim>\<open>Manifest\<close>: \<^verbatim>\<open>manifest/\<close> capabilities, manifests, directories, paths. \<^verbatim>\<open>Namespace\<close>: round trips, the
    interface \<open>blob_store\<close> between directories and the pipeline, copy-on-write updates. \<^verbatim>\<open>Merge\<close>: the
    three-way merge.
  \<^item> \<^verbatim>\<open>Roots\<close>: root pointers and sealed roots (\<^verbatim>\<open>manifest/root.go\<close>, \<^verbatim>\<open>fullroot.go\<close>, \<^verbatim>\<open>net/root.go\<close>), the root stores of \<^verbatim>\<open>provider/\<close>
    behind the locale \<open>root_store\<close>, and \<^verbatim>\<open>atrest/\<close>. \<^verbatim>\<open>Devices\<close>: \<^verbatim>\<open>device/\<close> with its codec and publication.
  \<^item> \<^verbatim>\<open>Provider\<close>: \<^verbatim>\<open>provider/manifest.go\<close> and \<^verbatim>\<open>identity.go\<close>, the filesystem operations over a namespace and a root
    store; the locale \<open>provider_roots\<close> carries the invariant of a run. \<^verbatim>\<open>Provider_Effects\<close>: what each mutation does to
    the namespace. \<^verbatim>\<open>Changes\<close>: \<^verbatim>\<open>provider/diff.go\<close>, change enumeration between two roots.
  \<^item> \<^verbatim>\<open>Rekey\<close>: \<^verbatim>\<open>manifest/rekey.go\<close>, key rotation of a subtree, against an abstract tree of what a capability holds.
  \<^item> \<^verbatim>\<open>Rebalance\<close>: \<^verbatim>\<open>net/balance.go\<close> and \<^verbatim>\<open>net/rebalance.go\<close>, a round of moving shards to peers that may answer anything. \<^verbatim>\<open>Dht_Store\<close>: the
    stores over discovered peers of \<^verbatim>\<open>net/placement.go\<close> and \<^verbatim>\<open>net/repair.go\<close>.
  \<^item> \<^verbatim>\<open>Fsmeta\<close>: a local directory tree with failing system calls and \<^verbatim>\<open>fsmeta/\<close>. \<^verbatim>\<open>Sync\<close>: \<^verbatim>\<open>sync/\<close>, scans, decisions,
    plan, application and base of the folder synchronisation, over any provider. \<^verbatim>\<open>Sync_Safety\<close>: what a plan promises.

  \<^bold>\<open>What is shown.\<close> Files and blobs read back exactly from any \<open>K\<close> surviving shards, and repair restores
  lost ones; over any run a node keeps every claim, readable, until its owner deletes it or its lease runs out and it is collected, claims
  appear only on their owner's authority, and each request refines an abstract protocol; a client that talks to it sees its store, and is
  served when it is admitted;
  accounts and quotas are exact; limits bound what is accepted; updates and merges of a namespace
  change what they say and lose nothing (a merge: when conflict names are free); root files and published roots never go back, and after a
  revocation the root is sealed to exactly the remaining devices and the one at work; a provider and its root file never drift apart, its mutations change only the paths they name and
  change enumeration misses no file; key rotation keeps the tree it rewrites; attributes survive capture
  and restore; a round of rebalancing gives up a shard only for a proof of possession over a nonce of that round, and reads through discovered peers are verified; at the paths it names a synchronisation plan overwrites only
  files that did not change, its operations come in an applicable order, and applying it accounts for each of them. Where the code does not do what it means to, a lemma
  exhibits it.

  \<^bold>\<open>Bounds and idealisations.\<close> Third-party code and cryptography (SHA-256, AES-GCM, Ed25519, ML-KEM,
  DEFLATE, Reed-Solomon, \<^verbatim>\<open>encoding/json\<close>) are parameters with their documented laws. Hash collisions
  are excluded by a hypothesis on the finitely many blobs of a run, recorded by a ghost log where
  a run writes more. \<^verbatim>\<open>float64\<close> arithmetic is exact rational arithmetic. A transaction of the database and
  a call of a store are atomic; failures of the SQL engine roll back and are not modelled. Recursion
  over a namespace has fuel, with a proof that enough exists (merging, enumerating changes, rotating keys); the scan of a provider's tree
  by the synchronisation has fuel too, and running out of it is the result \<open>None\<close>. A call of a provider is one step of the model;
  in the code it runs under the provider's mutex, apart from looking up the path of an identifier, which comes before the lock. A request handler is
  one step too in the properties of a node, although streams are served concurrently: \<open>delete_put_race\<close> exhibits what is lost when
  the calls of a DELETE and a PUT interleave. The amount \<open>OffloadBytes\<close> is computed over rationals and unbounded integers. Of cancellation, the checks
  in the collector and in applying a plan are modelled. Key rotation is shown for files stored with the current coding parameters.

  \<^bold>\<open>Not modelled.\<close> Wiring of libp2p and its DHT, command line tools (except the choice of recipients of a sealed root), metrics and pages, geolocation, configuration, the
  loops that repeat a modelled pass on a timer.
\<close>

end
